(* ===== verification/Prelude.thy ===== *)
theory Prelude
  imports Main "HOL-Library.Word" "HOL-Library.List_Lexorder"
begin

text \<open>
  Shared vocabulary of the development: the machine integers of the C sources, the
  outcome sequence that stands for the results of \<^verbatim>\<open>malloc\<close>, the array and loop
  idioms that several components use (\<^verbatim>\<open>memmove\<close> inside one array, the cyclic scan
  \<^verbatim>\<open>for (i = (start + 1) % n; i != start; i = (i + 1) % n)\<close>), the bits of an address
  key, and the generic lemmas about them.  The collections \<open>bits_simps\<close>,
  \<open>array_simps\<close> and \<open>malloc_simps\<close> carry the component proofs.
\<close>

unbundle bit_operations_syntax

named_theorems bits_simps \<open>bits of an address key\<close>
named_theorems array_simps \<open>C array idioms\<close>
named_theorems malloc_simps \<open>allocation outcomes\<close>

section \<open>Machine integers\<close>

type_synonym u8 = "8 word"
type_synonym u16 = "16 word"
type_synonym u32 = "32 word"

section \<open>Allocation\<close>

text \<open>
  \<^verbatim>\<open>malloc\<close> may fail.  A model takes the outcomes of the coming calls as a list
  (\<open>False\<close> for a call that returns \<^verbatim>\<open>NULL\<close>); past the end of the list every call
  succeeds.  A run in which no allocation fails is one whose list has no \<open>False\<close>.
\<close>

type_synonym mallocs = "bool list"

fun malloc_ok :: "mallocs \<Rightarrow> bool \<times> mallocs" where
  "malloc_ok [] = (True, [])"
| "malloc_ok (b # bs) = (b, bs)"

definition never_fails :: "mallocs \<Rightarrow> bool" where
  "never_fails ms \<longleftrightarrow> False \<notin> set ms"

lemma never_fails_Nil [malloc_simps, simp]: "never_fails []"
  by (simp add: never_fails_def)

lemma malloc_never_fails [malloc_simps]:
  "never_fails ms \<Longrightarrow> \<exists>ms'. malloc_ok ms = (True, ms') \<and> never_fails ms'"
  by (cases ms) (auto simp: never_fails_def)

section \<open>Address keys\<close>

text \<open>
  A \<^verbatim>\<open>const uint8_t *key\<close> is the sequence of bytes at and after the pointer.  The bits
  of a key are numbered from the most significant bit of the first byte.
\<close>

type_synonym key = "nat \<Rightarrow> u8"

definition bytes_at :: "u8 list \<Rightarrow> key" where
  "bytes_at xs = (\<lambda>i. if i < length xs then xs ! i else 0)"

definition key_bit :: "key \<Rightarrow> nat \<Rightarrow> bool" where
  "key_bit k b = bit (k (b div 8)) (7 - b mod 8)"

definition key_bits :: "key \<Rightarrow> nat \<Rightarrow> nat \<Rightarrow> bool list" where
  "key_bits k from to = map (key_bit k) [from..<to]"

lemma length_key_bits [bits_simps, simp]: "length (key_bits k i j) = j - i"
  by (simp add: key_bits_def)

lemma key_bits_empty [bits_simps, simp]: "j \<le> i \<Longrightarrow> key_bits k i j = []"
  by (simp add: key_bits_def)

lemma key_bits_Cons: "i < j \<Longrightarrow> key_bits k i j = key_bit k i # key_bits k (Suc i) j"
  by (simp add: key_bits_def upt_conv_Cons)

lemma key_bits_eq_iff:
  "key_bits k i j = key_bits k' i j \<longleftrightarrow> (\<forall>b. i \<le> b \<and> b < j \<longrightarrow> key_bit k b = key_bit k' b)"
  by (auto simp: key_bits_def)

lemma key_bits_eq_Cons:
  "i < j \<Longrightarrow> key_bits k i j = b # bs \<longleftrightarrow> key_bit k i = b \<and> key_bits k (Suc i) j = bs"
  by (simp add: key_bits_Cons)

section \<open>Arrays\<close>

text \<open>\<^verbatim>\<open>memmove (&a[dst], &a[src], n * sizeof a[0])\<close> inside one array.\<close>

definition memmove :: "nat \<Rightarrow> nat \<Rightarrow> nat \<Rightarrow> 'a list \<Rightarrow> 'a list" where
  "memmove dst src n xs = take dst xs @ take n (drop src xs) @ drop (dst + n) xs"

lemma length_memmove [array_simps]:
  "dst + n \<le> length xs \<Longrightarrow> src + n \<le> length xs \<Longrightarrow> length (memmove dst src n xs) = length xs"
  by (simp add: memmove_def)

lemma nth_memmove [array_simps]:
  assumes "dst + n \<le> length xs" "src + n \<le> length xs" "i < length xs"
  shows "memmove dst src n xs ! i = (if dst \<le> i \<and> i < dst + n then xs ! (src + (i - dst)) else xs ! i)"
proof -
  have "length (take n (drop src xs)) = n" using assms by simp
  with assms show ?thesis by (auto simp: memmove_def nth_append)
qed

text \<open>Making room at \<open>p\<close> in an array of which the first \<open>n\<close> elements are in use.\<close>

lemma take_memmove_insert [array_simps]:
  assumes "p \<le> n" "n < length xs"
  shows "take (Suc n) ((memmove (Suc p) p (n - p) xs)[p := x])
       = take p (take n xs) @ x # drop p (take n xs)"
proof (rule nth_equalityI)
  show "length (take (Suc n) ((memmove (Suc p) p (n - p) xs)[p := x]))
      = length (take p (take n xs) @ x # drop p (take n xs))"
    using assms by (simp add: array_simps)
next
  fix i
  assume "i < length (take (Suc n) ((memmove (Suc p) p (n - p) xs)[p := x]))"
  then have "i \<le> n" using assms by (simp add: array_simps)
  then show "take (Suc n) ((memmove (Suc p) p (n - p) xs)[p := x]) ! i
      = (take p (take n xs) @ x # drop p (take n xs)) ! i"
    using assms by (auto simp: array_simps nth_list_update nth_append nth_Cons' min_def)
qed

text \<open>Closing the gap at \<open>p\<close>: the in-use part shrinks from \<open>Suc n\<close> to \<open>n\<close> elements.\<close>

lemma take_memmove_remove [array_simps]:
  assumes "p \<le> n" "n < length xs"
  shows "take n (memmove p (Suc p) (n - p) xs)
       = take p (take (Suc n) xs) @ drop (Suc p) (take (Suc n) xs)"
proof (rule nth_equalityI)
  show "length (take n (memmove p (Suc p) (n - p) xs))
      = length (take p (take (Suc n) xs) @ drop (Suc p) (take (Suc n) xs))"
    using assms by (simp add: array_simps)
next
  fix i
  assume "i < length (take n (memmove p (Suc p) (n - p) xs))"
  then have "i < n" using assms by (simp add: array_simps)
  then show "take n (memmove p (Suc p) (n - p) xs) ! i
      = (take p (take (Suc n) xs) @ drop (Suc p) (take (Suc n) xs)) ! i"
    using assms by (auto simp: array_simps nth_append min_def)
qed

text \<open>
  \<^verbatim>\<open>memcmp (a, b, n)\<close> on byte arrays; only the sign of the result is specified in C, and
  the model returns -1, 0 or 1.  It is the lexicographic order of the first \<open>n\<close> bytes.
\<close>

fun memcmp :: "u8 list \<Rightarrow> u8 list \<Rightarrow> nat \<Rightarrow> int" where
  "memcmp (x # xs) (y # ys) (Suc n) =
     (if x = y then memcmp xs ys n else if x < y then -1 else 1)"
| "memcmp xs ys n = 0"

lemma memcmp_take:
  "n \<le> length xs \<Longrightarrow> n \<le> length ys \<Longrightarrow>
     memcmp xs ys n = (if take n xs = take n ys then 0 else if take n xs < take n ys then -1 else 1)"
  by (induction xs ys n rule: memcmp.induct) (auto simp: not_less_iff_gr_or_eq)

section \<open>Scans\<close>

text \<open>
  \<^verbatim>\<open>for (i = 0; i < n; i++) if (P (i)) return i;\<close> is \<open>List.find P [0..<n]\<close>.
  The cyclic scan below starts at \<open>i\<close> and gives up when it comes back to \<open>start\<close>.  The
  indices of an \<open>n\<close>-element table are below \<open>n\<close>; elsewhere the loop has no table to read
  and the model gives up at once.
\<close>

function cyclic_find :: "(nat \<Rightarrow> bool) \<Rightarrow> nat \<Rightarrow> nat \<Rightarrow> nat \<Rightarrow> nat option" where
  "cyclic_find P n start i =
     (if n \<le> i \<or> n \<le> start \<or> i = start then None
      else if P i then Some i
      else cyclic_find P n start ((i + 1) mod n))"
  by pat_completeness auto
termination
proof (relation "measure (\<lambda>(P, n, start, i). if i \<le> start then start - i else start + n - i)")
  fix P :: "nat \<Rightarrow> bool" and n start i :: nat
  assume a: "\<not> (n \<le> i \<or> n \<le> start \<or> i = start)"
  show "((P, n, start, (i + 1) mod n), P, n, start, i)
      \<in> measure (\<lambda>(P, n, start, i). if i \<le> start then start - i else start + n - i)"
  proof (cases "Suc i = n")
    case True
    with a show ?thesis by auto
  next
    case False
    with a have "(i + 1) mod n = Suc i" by simp
    with a show ?thesis by auto
  qed
qed simp

declare cyclic_find.simps [simp del]

lemma find_SomeD: "List.find P xs = Some j \<Longrightarrow> P j \<and> j \<in> set xs"
  by (auto simp: find_Some_iff)

text \<open>The scan visits \<open>start + 1, ..., n - 1, 0, ..., start - 1\<close> in this order.\<close>

lemma cyclic_find_order:
  "i < n \<Longrightarrow> start < n \<Longrightarrow>
     cyclic_find P n start i = List.find P (if i \<le> start then [i..<start] else [i..<n] @ [0..<start])"
proof (induction P n start i rule: cyclic_find.induct)
  case (1 P n start i)
  note unf = cyclic_find.simps [of P n start i]
  consider "i = start" | "i \<noteq> start" "Suc i = n" | "i < start" | "start < i" "Suc i < n" using 1(2) by linarith
  then show ?case
  proof cases
    case 1
    then show ?thesis using unf by simp
  next
    case 2
    with 1(1,3) have "start < i" "P i \<or> cyclic_find P n start 0 = List.find P [0..<start]" by auto
    moreover have "[i..<n] = [i]" using 2 by (simp add: upt_conv_Cons)
    ultimately show ?thesis using 2 1(3) by (auto simp: unf)
  next
    case 3
    with 1(3) have m: "(i + 1) mod n = Suc i" and c: "[i..<start] = i # [Suc i..<start]" by (auto simp: upt_conv_Cons)
    have "P i \<or> cyclic_find P n start (Suc i) = List.find P [Suc i..<start]"
      using 1(1) [unfolded m] 3 1(3) by auto
    with 3 1(3) show ?thesis unfolding c by (auto simp: unf m)
  next
    case 4
    then have m: "(i + 1) mod n = Suc i" and c: "[i..<n] = i # [Suc i..<n]" by (auto simp: upt_conv_Cons)
    have "P i \<or> cyclic_find P n start (Suc i) = List.find P ([Suc i..<n] @ [0..<start])"
      using 1(1) [unfolded m] 4 1(3) by auto
    with 4 1(3) show ?thesis unfolding c by (auto simp: unf m)
  qed
qed

lemma cyclic_find_scan:
  assumes "start < n"
  shows "cyclic_find P n start ((start + 1) mod n) = List.find P ([Suc start..<n] @ [0..<start])"
  using assms cyclic_find_order [of "(start + 1) mod n" n start P]
  by (cases "Suc start = n") (auto simp: not_le)

lemma cyclic_find_Some:
  "cyclic_find P n start i = Some j \<Longrightarrow> P j \<and> j < n \<and> j \<noteq> start"
proof -
  assume a: "cyclic_find P n start i = Some j"
  then have l: "i < n" "start < n" by (auto simp: cyclic_find.simps [of P n start i] split: if_splits)
  from a [unfolded cyclic_find_order [OF l]] l show ?thesis
    by (auto split: if_splits dest!: find_SomeD)
qed

lemma cyclic_find_None:
  assumes "cyclic_find P n start ((start + 1) mod n) = None" "start < n" "j < n" "j \<noteq> start"
  shows "\<not> P j"
proof -
  from assms(1) [unfolded cyclic_find_scan [OF assms(2)]] have "\<forall>k \<in> set ([Suc start..<n] @ [0..<start]). \<not> P k"
    by (simp only: find_None_iff) blast
  moreover have "j \<in> set ([Suc start..<n] @ [0..<start])" using assms(3,4) by auto
  ultimately show ?thesis by blast
qed

lemma find_same_hit:
  "List.find P xs = Some j \<Longrightarrow> (\<And>k. k \<in> set xs \<Longrightarrow> \<not> P k \<Longrightarrow> \<not> Q k) \<Longrightarrow> Q j \<Longrightarrow> List.find Q xs = Some j"
  by (induction xs) (auto split: if_splits)

lemma find_upt_Some:
  "List.find P [0..<n] = Some i \<Longrightarrow> i < n \<and> P i \<and> (\<forall>j<i. \<not> P j)"
  by (auto simp: find_Some_iff)

lemma find_upt_None: "List.find P [0..<n] = None \<longleftrightarrow> (\<forall>i<n. \<not> P i)"
  by (auto simp: find_None_iff)

end
