(* ===== verification/Interfaces.thy ===== *)
theory Interfaces
  imports Prelude
begin

text \<open>
  The contracts between components, as locales.  Each is interpreted on the model's own
  definitions in the theory of the component that provides it.

  \<^item> \<open>dictionary\<close>: a mutable map with insertion that may run out of memory
    (provided by \<^verbatim>\<open>hash_table.c\<close>, used by \<^verbatim>\<open>nexthop.c\<close>);
  \<^item> \<open>longest_prefix_table\<close>: a forwarding table to which routes are added one by one
    (provided by \<^verbatim>\<open>fib.c\<close>, used by the FIB rebuild of \<^verbatim>\<open>radix.c\<close>);
  \<^item> \<open>replicated_table\<close>: a master copy that announces its changes and a replica that
    applies the announcements (provided by \<^verbatim>\<open>neigh_manager.c\<close> and the neighbor cases
    of \<^verbatim>\<open>rib_manager.c\<close>);
  \<^item> \<open>fifo_queue\<close>: a first-in first-out queue (provided by \<^verbatim>\<open>lib/sdplane/queue.c\<close>);
  \<^item> \<open>list_store\<close>: a store that grows and behaves like a list (provided by
    \<^verbatim>\<open>lib/sdplane/vector.c\<close>);
  \<^item> \<open>stepping\<close>: an invariant kept by every valid message of a message loop;
  \<^item> \<open>simulation\<close>: a machine whose every step carries out a step of an abstract one
    (provided by the line editor, \<^verbatim>\<open>lib/sdplane/shell.c\<close>).
\<close>

section \<open>Dictionaries\<close>

locale dictionary =
  fixes lookup :: "'t \<Rightarrow> 'k \<Rightarrow> 'v option"
    and insert :: "'t \<Rightarrow> 'k \<Rightarrow> 'v \<Rightarrow> mallocs \<Rightarrow> 't \<times> int \<times> mallocs"
    and remove :: "'t \<Rightarrow> 'k \<Rightarrow> 't \<times> int"
    and invar :: "'t \<Rightarrow> bool"
  assumes insert_law:
      "\<lbrakk> invar t; insert t k v ms = (t', r, ms') \<rbrakk> \<Longrightarrow>
         invar t' \<and> (r = 0 \<and> lookup t' = (lookup t)(k \<mapsto> v) \<or> r = -1 \<and> t' = t)
         \<and> (never_fails ms \<longrightarrow> r = 0 \<and> never_fails ms')"
    and remove_law:
      "\<lbrakk> invar t; remove t k = (t', r) \<rbrakk> \<Longrightarrow>
         invar t' \<and> lookup t' = (lookup t)(k := None) \<and> r = (if lookup t k = None then -1 else 0)"
begin

lemma insert_ok:
  assumes "invar t" "never_fails ms"
  shows "\<exists>t' ms'. insert t k v ms = (t', 0, ms') \<and> invar t' \<and> never_fails ms'
           \<and> lookup t' = (lookup t)(k \<mapsto> v)"
proof -
  obtain t' r ms' where "insert t k v ms = (t', r, ms')" by (metis prod_cases3)
  with insert_law [OF assms(1) this] assms(2) show ?thesis by auto
qed

lemma insert_error: "\<lbrakk> invar t; insert t k v ms = (t', r, ms'); r < 0 \<rbrakk> \<Longrightarrow> t' = t"
  using insert_law by fastforce

lemma insert_success:
  "\<lbrakk> invar t; insert t k v ms = (t', r, ms'); 0 \<le> r \<rbrakk> \<Longrightarrow>
     invar t' \<and> lookup t' = (lookup t)(k \<mapsto> v)"
  using insert_law by fastforce

lemma remove_insert:
  assumes "invar t" "never_fails ms" "lookup t k = None"
    and "insert t k v ms = (t1, r, ms')" "remove t1 k = (t2, q)"
  shows "r = 0 \<and> q = 0 \<and> lookup t2 = lookup t"
proof -
  from insert_law [OF assms(1,4)] assms(2) have 1: "r = 0" "invar t1" "lookup t1 = (lookup t)(k \<mapsto> v)"
    by auto
  from remove_law [OF 1(2) assms(5)] 1(1,3) assms(3) show ?thesis by (auto simp: fun_upd_idem)
qed

text \<open>Any sequence of insertions and removals keeps the invariant.\<close>

fun run :: "('k \<times> 'v option) list \<Rightarrow> 't \<Rightarrow> 't" where
  "run [] t = t"
| "run ((k, Some v) # ops) t = run ops (fst (insert t k v []))"
| "run ((k, None) # ops) t = run ops (fst (remove t k))"

lemma run_lookup:
  "invar t \<Longrightarrow> invar (run ops t) \<and> lookup (run ops t) = fold (\<lambda>(k, vo) m. m(k := vo)) ops (lookup t)"
proof (induction ops t rule: run.induct)
  case (2 k v ops t)
  from insert_ok [of t "[]" k v] 2 show ?case by auto
next
  case (3 k ops t)
  with remove_law [of t k "fst (remove t k)" "snd (remove t k)"] show ?case by simp
qed simp

end

section \<open>Longest-prefix tables\<close>

text \<open>
  A route is a key, a prefix length and a value; an answer for an address is a prefix
  length and a value.  A route improves an answer if it covers the address and is longer.
\<close>

type_synonym 'v answer = "(nat \<times> 'v) option"

definition covers :: "key \<Rightarrow> key \<Rightarrow> nat \<Rightarrow> bool" where
  "covers a k n \<longleftrightarrow> key_bits k 0 n = key_bits a 0 n"

definition answer_len :: "'v answer \<Rightarrow> nat" where
  "answer_len ans = (case ans of None \<Rightarrow> 0 | Some (m, v) \<Rightarrow> Suc m)"

definition improve :: "key \<Rightarrow> key \<times> nat \<times> 'v \<Rightarrow> 'v answer \<Rightarrow> 'v answer" where
  "improve a route ans =
     (case route of (k, n, v) \<Rightarrow> if covers a k n \<and> answer_len ans \<le> n then Some (n, v) else ans)"

lemma improve_mono: "answer_len ans \<le> answer_len (improve a r ans)"
  by (auto simp: improve_def answer_len_def split: prod.splits)

lemma improve_covers: "covers a k n \<Longrightarrow> Suc n \<le> answer_len (improve a (k, n, v) ans)"
  by (auto simp: improve_def answer_len_def split: option.splits)

lemma fold_improve_mono: "answer_len ans \<le> answer_len (fold (improve a) rs ans)"
  by (induction rs arbitrary: ans) (auto intro: order_trans [OF improve_mono])

lemma fold_improve_longest:
  "(k, n, v) \<in> set rs \<Longrightarrow> covers a k n \<Longrightarrow> Suc n \<le> answer_len (fold (improve a) rs ans)"
proof (induction rs arbitrary: ans)
  case (Cons r rs)
  then show ?case
    using order_trans [OF improve_covers fold_improve_mono] by (cases "r = (k, n, v)") auto
qed simp

lemma fold_improve_member:
  "fold (improve a) rs ans = ans
   \<or> (\<exists>k n v. (k, n, v) \<in> set rs \<and> covers a k n \<and> fold (improve a) rs ans = Some (n, v))"
proof (induction rs arbitrary: ans)
  case (Cons r rs)
  obtain k n v where r: "r = (k, n, v)" by (metis prod_cases3)
  have "improve a r ans = ans \<or> covers a k n \<and> improve a r ans = Some (n, v)"
    by (auto simp: improve_def r)
  with Cons.IH [of "improve a r ans"] r show ?case by auto
qed simp

text \<open>
  \<open>best_of rs a ans\<close>: \<open>ans\<close> comes from a longest route of \<open>rs\<close> that covers \<open>a\<close>, or there
  is none.
\<close>

definition best_of :: "(key \<times> nat \<times> 'v) list \<Rightarrow> key \<Rightarrow> 'v answer \<Rightarrow> bool" where
  "best_of rs a ans =
     (case ans of
        None \<Rightarrow> \<forall>(k, n, v) \<in> set rs. \<not> covers a k n
      | Some (n, v) \<Rightarrow> (\<exists>k. (k, n, v) \<in> set rs \<and> covers a k n)
          \<and> (\<forall>(k', n', v') \<in> set rs. covers a k' n' \<longrightarrow> n' \<le> n))"

lemma fold_improve_best: "best_of rs a (fold (improve a) rs None)"
proof -
  have long: "(k, n, v) \<in> set rs \<Longrightarrow> covers a k n \<Longrightarrow> Suc n \<le> answer_len (fold (improve a) rs None)"
    for k n v by (rule fold_improve_longest)
  show ?thesis
  proof (cases "fold (improve a) rs None")
    case None
    with long show ?thesis by (fastforce simp: best_of_def answer_len_def)
  next
    case (Some p)
    then obtain n v where p: "fold (improve a) rs None = Some (n, v)" by (cases p) auto
    with fold_improve_member [of a rs None] have "\<exists>k. (k, n, v) \<in> set rs \<and> covers a k n" by auto
    moreover from p long have "\<forall>(k', n', v') \<in> set rs. covers a k' n' \<longrightarrow> n' \<le> n"
      by (fastforce simp: answer_len_def)
    ultimately show ?thesis using p by (simp add: best_of_def)
  qed
qed

text \<open>
  \<open>find t a\<close> is the table's answer for address \<open>a\<close>.  Adding a route improves the
  answers; it never shortens one.
\<close>

locale longest_prefix_table =
  fixes find :: "'t \<Rightarrow> key \<Rightarrow> 'v answer"
    and add :: "'t \<Rightarrow> key \<times> nat \<times> 'v \<Rightarrow> 't"
    and invar :: "'t \<Rightarrow> bool"
    and max_len :: nat
  assumes add_law: "\<lbrakk> invar t; fst (snd r) \<le> max_len \<rbrakk> \<Longrightarrow>
      invar (add t r) \<and> find (add t r) a = improve a r (find t a)"
begin

lemma foldl_add:
  "\<lbrakk> invar t; \<forall>r \<in> set rs. fst (snd r) \<le> max_len \<rbrakk> \<Longrightarrow>
     invar (foldl add t rs) \<and> find (foldl add t rs) a = fold (improve a) rs (find t a)"
  by (induction rs arbitrary: t) (auto simp: add_law)

lemma find_longest:
  assumes "invar t" "\<forall>r \<in> set rs. fst (snd r) \<le> max_len" "find t a = None"
  shows "best_of rs a (find (foldl add t rs) a)"
  using foldl_add [OF assms(1,2)] assms(3) fold_improve_best by simp

end

section \<open>Replication by announcements\<close>

text \<open>
  \<open>master s e\<close> performs request \<open>e\<close> on the master copy and returns the announcement to
  send, if any; \<open>apply_msg\<close> applies an announcement to the replica.
\<close>

locale replicated_table =
  fixes master :: "'s \<Rightarrow> 'e \<Rightarrow> 's \<times> 'm option"
    and apply_msg :: "'m \<Rightarrow> 'r \<Rightarrow> 'r"
    and agrees :: "'s \<Rightarrow> 'r \<Rightarrow> bool"
  assumes silent: "\<lbrakk> agrees s r; master s e = (s', None) \<rbrakk> \<Longrightarrow> agrees s' r"
    and announced: "\<lbrakk> agrees s r; master s e = (s', Some m) \<rbrakk> \<Longrightarrow> agrees s' (apply_msg m r)"
begin

fun master_run :: "'s \<Rightarrow> 'e list \<Rightarrow> 's \<times> 'm list" where
  "master_run s [] = (s, [])"
| "master_run s (e # es) =
     (case master s e of (s', mo) \<Rightarrow>
        case master_run s' es of (s'', ms) \<Rightarrow>
          (s'', (case mo of None \<Rightarrow> ms | Some m \<Rightarrow> m # ms)))"

lemma replica_agrees:
  "agrees s r \<Longrightarrow> master_run s es = (s', ms) \<Longrightarrow> agrees s' (fold apply_msg ms r)"
proof (induction es arbitrary: s r ms)
  case (Cons e es)
  obtain s1 mo where e: "master s e = (s1, mo)" by fastforce
  obtain s2 ms2 where es: "master_run s1 es = (s2, ms2)" by fastforce
  from Cons.prems(2) e es have eq: "s' = s2" "ms = (case mo of None \<Rightarrow> ms2 | Some m \<Rightarrow> m # ms2)"
    by auto
  show ?case
  proof (cases mo)
    case None
    from silent [OF Cons.prems(1)] e None have "agrees s1 r" by simp
    with Cons.IH [OF this, of ms2] es eq None show ?thesis by simp
  next
    case (Some m)
    from announced [OF Cons.prems(1)] e Some have "agrees s1 (apply_msg m r)" by simp
    with Cons.IH [OF this, of ms2] es eq Some show ?thesis by simp
  qed
qed simp

end

section \<open>Queues\<close>

locale fifo_queue =
  fixes enq :: "'q \<Rightarrow> 'a \<Rightarrow> 'q"
    and deq :: "'q \<Rightarrow> 'q \<times> 'a option"
    and contents :: "'q \<Rightarrow> 'a list"
    and invar :: "'q \<Rightarrow> bool"
  assumes enq_law: "invar q \<Longrightarrow> invar (enq q x) \<and> contents (enq q x) = contents q @ [x]"
    and deq_law: "invar q \<Longrightarrow> deq q = (q', xo) \<Longrightarrow>
      invar q' \<and> contents q = (case xo of None \<Rightarrow> [] | Some x \<Rightarrow> x # contents q')
      \<and> (xo = None \<longrightarrow> contents q' = [])"
begin

lemma enq_all: "invar q \<Longrightarrow> invar (foldl enq q xs) \<and> contents (foldl enq q xs) = contents q @ xs"
  by (induction xs arbitrary: q) (auto simp: enq_law)

fun drain :: "nat \<Rightarrow> 'q \<Rightarrow> 'a list" where
  "drain 0 q = []"
| "drain (Suc n) q = (case deq q of (q', None) \<Rightarrow> [] | (q', Some x) \<Rightarrow> x # drain n q')"

lemma drain_contents: "invar q \<Longrightarrow> length (contents q) \<le> n \<Longrightarrow> drain n q = contents q"
proof (induction n arbitrary: q)
  case (Suc n)
  obtain q' xo where d: "deq q = (q', xo)" by fastforce
  from deq_law [OF Suc.prems(1) d] Suc.IH [of q'] Suc.prems d show ?case
    by (auto split: option.splits)
qed simp

lemma drain_enq_all:
  "invar q \<Longrightarrow> contents q = [] \<Longrightarrow> length xs \<le> n \<Longrightarrow> drain n (foldl enq q xs) = xs"
  using enq_all drain_contents by simp

end

section \<open>Growing lists\<close>

text \<open>
  Elements are appended, once or repeatedly, and the first occurrence of an element is removed;
  adding an element that is there and removing one that is not are errors (\<open>None\<close>).
\<close>

datatype 'a list_op = Append 'a | Append_New 'a | Remove 'a | Clear

fun apply_op :: "'a list_op \<Rightarrow> 'a list \<Rightarrow> 'a list option" where
  "apply_op (Append x) xs = Some (xs @ [x])"
| "apply_op (Append_New x) xs = (if x \<in> set xs then None else Some (xs @ [x]))"
| "apply_op (Remove x) xs = (if x \<in> set xs then Some (remove1 x xs) else None)"
| "apply_op Clear xs = Some []"

primrec apply_ops :: "'a list_op list \<Rightarrow> 'a list \<Rightarrow> 'a list option" where
  "apply_ops [] xs = Some xs"
| "apply_ops (e # es) xs = Option.bind (apply_op e xs) (apply_ops es)"

locale list_store =
  fixes step :: "'a list_op \<Rightarrow> 's \<Rightarrow> 's option" and contents :: "'s \<Rightarrow> 'a list" and invar :: "'s \<Rightarrow> bool"
    and storable :: "'a \<Rightarrow> bool"
  assumes step_law: "\<lbrakk> invar s; pred_list_op storable e \<rbrakk> \<Longrightarrow>
      map_option contents (step e s) = apply_op e (contents s) \<and> (\<forall>s'. step e s = Some s' \<longrightarrow> invar s')"
begin

primrec steps :: "'a list_op list \<Rightarrow> 's \<Rightarrow> 's option" where
  "steps [] s = Some s"
| "steps (e # es) s = Option.bind (step e s) (steps es)"

lemma steps_refine:
  "\<lbrakk> invar s; \<forall>e \<in> set es. pred_list_op storable e \<rbrakk> \<Longrightarrow>
     map_option contents (steps es s) = apply_ops es (contents s) \<and> (\<forall>s'. steps es s = Some s' \<longrightarrow> invar s')"
proof (induction es arbitrary: s)
  case (Cons e es)
  note law = step_law [of s e]
  show ?case
  proof (cases "step e s")
    case None
    with law Cons.prems have "apply_op e (contents s) = None" by simp
    with None show ?thesis by simp
  next
    case (Some t)
    with law Cons.prems have "apply_op e (contents s) = Some (contents t)" "invar t" by auto
    with Some Cons.IH [of t] Cons.prems(2) show ?thesis by simp
  qed
qed simp

end

section \<open>Invariants of a message loop\<close>

locale stepping =
  fixes step :: "'s \<Rightarrow> 'm \<Rightarrow> 's" and invar :: "'s \<Rightarrow> bool" and valid :: "'m \<Rightarrow> bool"
  assumes step_invar: "invar s \<Longrightarrow> valid m \<Longrightarrow> invar (step s m)"
begin

lemma run_invar: "invar s \<Longrightarrow> \<forall>m \<in> set ms. valid m \<Longrightarrow> invar (foldl step s ms)"
  by (induction ms arbitrary: s) (auto simp: step_invar)

end

section \<open>Simulations\<close>

locale simulation =
  fixes step :: "'m \<Rightarrow> 's \<Rightarrow> 's option" and spec :: "'m \<Rightarrow> 'a \<Rightarrow> 'a" and sim :: "'a \<Rightarrow> 's \<Rightarrow> bool" and valid :: "'m \<Rightarrow> bool"
  assumes step_sim: "sim a s \<Longrightarrow> valid m \<Longrightarrow> \<exists>t. step m s = Some t \<and> sim (spec m a) t"
begin

primrec steps :: "'m list \<Rightarrow> 's \<Rightarrow> 's option" where
  "steps [] s = Some s"
| "steps (m # ms) s = Option.bind (step m s) (steps ms)"

lemma steps_sim: "sim a s \<Longrightarrow> \<forall>m \<in> set ms. valid m \<Longrightarrow> \<exists>t. steps ms s = Some t \<and> sim (fold spec ms a) t"
proof (induction ms arbitrary: a s)
  case (Cons m ms)
  with step_sim [of a s m] obtain t where "step m s = Some t" "sim (spec m a) t" by auto
  with Cons.IH [of "spec m a" t] Cons.prems(2) show ?case by simp
qed simp

end

end
