(* ===== verification/Vswitch.thy ===== *)
theory Vswitch
  imports Interfaces
begin

text \<open>
  Virtual switches, their links to ports and the VLAN tables of ports: the part of
  \<^verbatim>\<open>struct rib_info\<close> (\<^verbatim>\<open>rib.h\<close>) and the functions of \<^verbatim>\<open>rib_manager.c\<close> that maintain it.
  Arrays are lists of the C length, a pointer into an array is the index, \<^verbatim>\<open>NULL\<close> is
  \<open>None\<close>.  Operations that dereference the result of a look-up without a test return
  \<open>None\<close> where the program would dereference \<^verbatim>\<open>NULL\<close>.  The record of this theory is
  extended to the whole \<^verbatim>\<open>rib_info\<close> in \<open>Rib_Manager\<close>.
\<close>

section \<open>Data\<close>

definition MAX_VSWITCH_PORTS :: nat where "MAX_VSWITCH_PORTS = 16"
definition MAX_VSWITCH :: nat where "MAX_VSWITCH = 4"
definition MAX_VSWITCH_LINK :: nat where "MAX_VSWITCH_LINK = 32"
definition MAX_VLAN_PER_PORT :: nat where "MAX_VLAN_PER_PORT = 8"
definition MAX_ETH_PORTS :: nat where "MAX_ETH_PORTS = 8"

text \<open>
  A \<^verbatim>\<open>struct rte_ring *\<close> is known by the name the ring was created with, such as
  \<^verbatim>\<open>router_up[3]\<close>; \<open>None\<close> is \<^verbatim>\<open>NULL\<close>.
\<close>

datatype ring_name =
    router_up nat | router_dn nat | capture_up nat | capture_dn nat
  | port_up nat nat | port_dn nat nat | other_ring string

type_synonym ring = "ring_name option"

text \<open>
  A \<^verbatim>\<open>char[16]\<close> is a list of 16 characters that holds a null-terminated string;
  \<open>snprintf_s\<close> writes a string and its terminator and leaves the rest of the buffer.
\<close>

definition IFNAMSIZ :: nat where "IFNAMSIZ = 16"

definition c_string :: "string \<Rightarrow> string" where
  "c_string buf = takeWhile (\<lambda>c. c \<noteq> CHR 0x00) buf"

definition snprintf_s :: "string \<Rightarrow> string \<Rightarrow> string" where
  "snprintf_s buf arg =
     (let str = take (length buf - 1) (c_string arg)
      in str @ CHR 0x00 # drop (length str + 1) buf)"

record router_if =
  rif_sockfd :: int
  rif_tap_ring_id :: u16
  rif_ring_up :: ring
  rif_ring_dn :: ring
  rif_vlan_id :: u16
  rif_ifindex :: int
  rif_mac_addr :: "u8 list"
  rif_ipv4_addr :: "u8 list"
  rif_ipv6_addr :: "u8 list"
  rif_ll_addr :: "u8 list"
  rif_tap_name :: string

record capture_if =
  cif_sockfd :: int
  cif_tap_ring_id :: u16
  cif_ring_up :: ring
  cif_ring_dn :: ring
  cif_tap_name :: string

record vswitch_link =
  vl_vswitch_link_id :: u16
  vl_port_id :: u16
  vl_vlan_id :: u16
  vl_tag_id :: u16
  vl_vswitch_id :: u16
  vl_vswitch_port :: u16
  vl_is_deleted :: bool

record vswitch_conf =
  vs_vswitch_id :: u16
  vs_vlan_id :: u16
  vs_port_size :: nat
  vs_link_id :: "u16 list"
  vs_router_if :: router_if
  vs_capture_if :: capture_if
  vs_is_deleted :: bool

record port_conf =
  dpdk_port_id :: u16
  pc_mtu :: u16
  pc_nrxq :: u16
  pc_ntxq :: u16
  pc_nb_rxd :: u16
  pc_nb_txd :: u16
  pc_link_status :: bool
  pc_is_stopped :: bool
  vlan_size :: nat
  vswitch_link_id_of_vlan :: "u16 list"
  vswitch_link_id_of_native_vlan :: u16

record vs_info =
  vswitch_size :: nat
  vswitch_link_size :: nat
  vswitch :: "vswitch_conf list"
  vswitch_link :: "vswitch_link list"
  port :: "port_conf list"

text \<open>The global ring arrays; the code indexes them by \<^verbatim>\<open>vswitch_id\<close> or by slot.\<close>

record if_rings =
  router_if_ring_up :: "nat \<Rightarrow> ring"
  router_if_ring_dn :: "nat \<Rightarrow> ring"
  capture_if_ring_up :: "nat \<Rightarrow> ring"
  capture_if_ring_dn :: "nat \<Rightarrow> ring"

definition zero_router_if :: router_if where
  "zero_router_if = \<lparr>rif_sockfd = 0, rif_tap_ring_id = 0, rif_ring_up = None, rif_ring_dn = None,
     rif_vlan_id = 0, rif_ifindex = 0, rif_mac_addr = replicate 6 0, rif_ipv4_addr = replicate 4 0,
     rif_ipv6_addr = replicate 16 0, rif_ll_addr = replicate 16 0, rif_tap_name = replicate IFNAMSIZ (CHR 0x00)\<rparr>"

definition zero_capture_if :: capture_if where
  "zero_capture_if = \<lparr>cif_sockfd = 0, cif_tap_ring_id = 0, cif_ring_up = None, cif_ring_dn = None, cif_tap_name = replicate IFNAMSIZ (CHR 0x00)\<rparr>"

definition zero_vswitch_link :: vswitch_link where
  "zero_vswitch_link = \<lparr>vl_vswitch_link_id = 0, vl_port_id = 0, vl_vlan_id = 0, vl_tag_id = 0,
     vl_vswitch_id = 0, vl_vswitch_port = 0, vl_is_deleted = False\<rparr>"

definition zero_vswitch :: vswitch_conf where
  "zero_vswitch = \<lparr>vs_vswitch_id = 0, vs_vlan_id = 0, vs_port_size = 0,
     vs_link_id = replicate MAX_VSWITCH_PORTS 0, vs_router_if = zero_router_if,
     vs_capture_if = zero_capture_if, vs_is_deleted = False\<rparr>"

definition zero_port :: port_conf where
  "zero_port = \<lparr>dpdk_port_id = 0, pc_mtu = 0, pc_nrxq = 0, pc_ntxq = 0, pc_nb_rxd = 0, pc_nb_txd = 0,
     pc_link_status = False, pc_is_stopped = False, vlan_size = 0,
     vswitch_link_id_of_vlan = replicate MAX_VLAN_PER_PORT 0, vswitch_link_id_of_native_vlan = 0\<rparr>"

section \<open>Operations\<close>

definition upd_vswitch :: "nat \<Rightarrow> (vswitch_conf \<Rightarrow> vswitch_conf) \<Rightarrow> 'a vs_info_scheme \<Rightarrow> 'a vs_info_scheme" where
  "upd_vswitch i f s = s\<lparr>vswitch := (vswitch s)[i := f (vswitch s ! i)]\<rparr>"

definition upd_link :: "nat \<Rightarrow> (vswitch_link \<Rightarrow> vswitch_link) \<Rightarrow> 'a vs_info_scheme \<Rightarrow> 'a vs_info_scheme" where
  "upd_link i f s = s\<lparr>vswitch_link := (vswitch_link s)[i := f (vswitch_link s ! i)]\<rparr>"

definition upd_port :: "nat \<Rightarrow> (port_conf \<Rightarrow> port_conf) \<Rightarrow> 'a vs_info_scheme \<Rightarrow> 'a vs_info_scheme" where
  "upd_port i f s = s\<lparr>port := (port s)[i := f (port s ! i)]\<rparr>"

definition vswitch_lookup :: "'a vs_info_scheme \<Rightarrow> u16 \<Rightarrow> nat option" where
  "vswitch_lookup s vswitch_id =
     List.find (\<lambda>i. vs_vswitch_id (vswitch s ! i) = vswitch_id \<and> \<not> vs_is_deleted (vswitch s ! i)) [0..<vswitch_size s]"

definition vswitch_init :: "u16 \<Rightarrow> u16 \<Rightarrow> vswitch_conf \<Rightarrow> vswitch_conf" where
  "vswitch_init vswitch_id vlan_id v =
     v\<lparr>vs_vswitch_id := vswitch_id, vs_vlan_id := vlan_id,
       vs_router_if := (vs_router_if v)\<lparr>rif_sockfd := -1, rif_tap_ring_id := -1, rif_vlan_id := vlan_id\<rparr>,
       vs_capture_if := (vs_capture_if v)\<lparr>cif_sockfd := -1, cif_tap_ring_id := -1\<rparr>,
       vs_is_deleted := False\<rparr>"

definition vswitch_new :: "'a vs_info_scheme \<Rightarrow> u16 \<Rightarrow> u16 \<Rightarrow> 'a vs_info_scheme \<times> nat option" where
  "vswitch_new s vswitch_id vlan_id =
     (case List.find (\<lambda>i. vs_is_deleted (vswitch s ! i)) [0..<vswitch_size s] of
        Some i \<Rightarrow> (upd_vswitch i (\<lambda>_. vswitch_init vswitch_id vlan_id zero_vswitch) s, Some i)
      | None \<Rightarrow>
          if MAX_VSWITCH \<le> vswitch_size s then (s, None)
          else
            (upd_vswitch (vswitch_size s) (vswitch_init vswitch_id vlan_id) s\<lparr>vswitch_size := vswitch_size s + 1\<rparr>,
             Some (vswitch_size s)))"

definition vswitch_link_lookup :: "'a vs_info_scheme \<Rightarrow> nat \<Rightarrow> nat \<Rightarrow> nat option" where
  "vswitch_link_lookup s vi pi =
     List.find (\<lambda>i. vl_vswitch_id (vswitch_link s ! i) = vs_vswitch_id (vswitch s ! vi)
                  \<and> vl_port_id (vswitch_link s ! i) = dpdk_port_id (port s ! pi)
                  \<and> \<not> vl_is_deleted (vswitch_link s ! i)) [0..<vswitch_link_size s]"

text \<open>The slot for a new link (a deleted one is cleared and used again), then its contents.\<close>

definition link_slot :: "'a vs_info_scheme \<Rightarrow> 'a vs_info_scheme \<times> nat option" where
  "link_slot s =
     (case List.find (\<lambda>i. vl_is_deleted (vswitch_link s ! i)) [0..<vswitch_link_size s] of
        Some i \<Rightarrow> (upd_link i (\<lambda>_. zero_vswitch_link) s, Some i)
      | None \<Rightarrow>
          if MAX_VSWITCH_LINK \<le> vswitch_link_size s then (s, None)
          else (s\<lparr>vswitch_link_size := vswitch_link_size s + 1\<rparr>, Some (vswitch_link_size s)))"

definition link_init :: "nat \<Rightarrow> vswitch_conf \<Rightarrow> port_conf \<Rightarrow> vswitch_link \<Rightarrow> vswitch_link" where
  "link_init l v p vl =
     vl\<lparr>vl_vswitch_link_id := of_nat l, vl_port_id := dpdk_port_id p, vl_vlan_id := vs_vlan_id v,
        vl_tag_id := vs_vlan_id v, vl_vswitch_id := vs_vswitch_id v, vl_is_deleted := False\<rparr>"

definition vswitch_link_new :: "'a vs_info_scheme \<Rightarrow> nat \<Rightarrow> nat \<Rightarrow> 'a vs_info_scheme \<times> nat option" where
  "vswitch_link_new s vi pi =
     (case link_slot s of
        (s, None) \<Rightarrow> (s, None)
      | (s, Some l) \<Rightarrow>
          (let s = upd_link l (link_init l (vswitch s ! vi) (port s ! pi)) s;
               n = vs_port_size (vswitch s ! vi)
           in (if n < MAX_VSWITCH_PORTS then
                 upd_link l (\<lambda>vl. vl\<lparr>vl_vswitch_port := of_nat n\<rparr>)
                   (upd_vswitch vi (\<lambda>v. v\<lparr>vs_port_size := n + 1, vs_link_id := (vs_link_id v)[n := of_nat l]\<rparr>) s)
               else s, Some l)))"

text \<open>The loop ends at the first entry that matches, or at once if the native VLAN matches.\<close>

definition vswitch_link_remove_from_port_vlan_array :: "u16 \<Rightarrow> port_conf \<Rightarrow> port_conf" where
  "vswitch_link_remove_from_port_vlan_array l p =
     (case List.find (\<lambda>i. vswitch_link_id_of_vlan p ! i = l \<or> vswitch_link_id_of_native_vlan p = l) [0..<vlan_size p] of
        None \<Rightarrow> p
      | Some i \<Rightarrow>
          if vswitch_link_id_of_vlan p ! i = l then
            p\<lparr>vswitch_link_id_of_vlan := memmove i (Suc i) (vlan_size p - i - 1) (vswitch_link_id_of_vlan p),
              vlan_size := vlan_size p - 1\<rparr>
          else p\<lparr>vswitch_link_id_of_native_vlan := -1\<rparr>)"

text \<open>This loop does not stop at a match; it goes on with the next index and the shorter array.\<close>

function remove_link_loop :: "u16 \<Rightarrow> nat \<Rightarrow> nat \<Rightarrow> u16 list \<Rightarrow> nat \<times> u16 list" where
  "remove_link_loop l i n xs =
     (if i < n then
        (if xs ! i = l then remove_link_loop l (i + 1) (n - 1) (memmove i (Suc i) (n - i - 1) xs)
         else remove_link_loop l (i + 1) n xs)
      else (n, xs))"
  by pat_completeness auto
termination by (relation "measure (\<lambda>(l, i, n, xs). n - i)") auto

declare remove_link_loop.simps [simp del]

definition vswitch_link_remove_from_vswitch_port_array :: "u16 \<Rightarrow> vswitch_conf \<Rightarrow> vswitch_conf" where
  "vswitch_link_remove_from_vswitch_port_array l v =
     (case remove_link_loop l 0 (vs_port_size v) (vs_link_id v) of
        (n, xs) \<Rightarrow> v\<lparr>vs_port_size := n, vs_link_id := xs\<rparr>)"

definition vswitch_link_delete :: "'a vs_info_scheme \<Rightarrow> u16 \<Rightarrow> 'a vs_info_scheme option" where
  "vswitch_link_delete s link_id =
     (let l = unat link_id;
          vswitch_id = vl_vswitch_id (vswitch_link s ! l);
          port_id = vl_port_id (vswitch_link s ! l)
      in case vswitch_lookup s vswitch_id of
           None \<Rightarrow> None
         | Some vi \<Rightarrow>
             (let s = upd_vswitch vi (vswitch_link_remove_from_vswitch_port_array link_id) s;
                  s = upd_port (unat port_id) (vswitch_link_remove_from_port_vlan_array link_id) s;
                  s = fold (\<lambda>i s. if vl_vswitch_id (vswitch_link s ! i) = vswitch_id
                                  then upd_link i (\<lambda>vl. vl\<lparr>vl_vswitch_port := vl_vswitch_port vl - 1\<rparr>) s else s)
                        [l..<vswitch_link_size s] s
              in Some (upd_link l (\<lambda>vl. vl\<lparr>vl_is_deleted := True\<rparr>) s)))"

definition router_if_delete :: "if_rings \<Rightarrow> 'a vs_info_scheme \<Rightarrow> u16 \<Rightarrow> (if_rings \<times> 'a vs_info_scheme) option" where
  "router_if_delete rings s vswitch_id =
     (case vswitch_lookup s vswitch_id of
        None \<Rightarrow> None
      | Some vi \<Rightarrow>
          Some (rings\<lparr>router_if_ring_up := (router_if_ring_up rings)(unat vswitch_id := None),
                      router_if_ring_dn := (router_if_ring_dn rings)(unat vswitch_id := None)\<rparr>,
                upd_vswitch vi (\<lambda>v. v\<lparr>vs_router_if := zero_router_if\<lparr>rif_sockfd := -1, rif_tap_ring_id := -1,
                                        rif_ifindex := -1\<rparr>\<rparr>) s))"

definition capture_if_delete :: "if_rings \<Rightarrow> 'a vs_info_scheme \<Rightarrow> u16 \<Rightarrow> (if_rings \<times> 'a vs_info_scheme) option" where
  "capture_if_delete rings s vswitch_id =
     (case vswitch_lookup s vswitch_id of
        None \<Rightarrow> None
      | Some vi \<Rightarrow>
          Some (rings\<lparr>capture_if_ring_up := (capture_if_ring_up rings)(unat vswitch_id := None),
                      capture_if_ring_dn := (capture_if_ring_dn rings)(unat vswitch_id := None)\<rparr>,
                upd_vswitch vi (\<lambda>v. v\<lparr>vs_capture_if := zero_capture_if\<lparr>cif_sockfd := -1, cif_tap_ring_id := -1\<rparr>\<rparr>) s))"

text \<open>\<^verbatim>\<open>while (vswitch->vswitch_port_size > 0) vswitch_link_delete (...)\<close>\<close>

partial_function (option) vswitch_delete_links :: "'a vs_info_scheme \<Rightarrow> nat \<Rightarrow> 'a vs_info_scheme option" where
  "vswitch_delete_links s vi =
     (if 0 < vs_port_size (vswitch s ! vi)
      then Option.bind (vswitch_link_delete s (vs_link_id (vswitch s ! vi) ! 0)) (\<lambda>s. vswitch_delete_links s vi)
      else Some s)"

definition vswitch_delete :: "if_rings \<Rightarrow> 'a vs_info_scheme \<Rightarrow> u16 \<Rightarrow> (if_rings \<times> 'a vs_info_scheme) option" where
  "vswitch_delete rings s vswitch_id =
     (case vswitch_lookup s vswitch_id of
        None \<Rightarrow> Some (rings, s)
      | Some vi \<Rightarrow>
          Option.bind (if 0 \<le> rif_sockfd (vs_router_if (vswitch s ! vi))
                       then router_if_delete rings s vswitch_id else Some (rings, s)) (\<lambda>(rings, s).
          Option.bind (if 0 \<le> cif_sockfd (vs_capture_if (vswitch s ! vi))
                       then capture_if_delete rings s vswitch_id else Some (rings, s)) (\<lambda>(rings, s).
          Option.bind (vswitch_delete_links s vi) (\<lambda>s.
          Some (rings, upd_vswitch vi (\<lambda>v. v\<lparr>vs_is_deleted := True\<rparr>) s)))))"

definition port_set_native_vlan :: "nat \<Rightarrow> nat \<Rightarrow> 'a vs_info_scheme \<Rightarrow> 'a vs_info_scheme" where
  "port_set_native_vlan pi l s =
     upd_port pi (\<lambda>p. p\<lparr>vswitch_link_id_of_native_vlan := vl_vswitch_link_id (vswitch_link s ! l)\<rparr>)
       (upd_link l (\<lambda>vl. vl\<lparr>vl_tag_id := 0\<rparr>) s)"

definition port_add_tagged_vlan :: "nat \<Rightarrow> nat \<Rightarrow> 'a vs_info_scheme \<Rightarrow> 'a vs_info_scheme" where
  "port_add_tagged_vlan pi l s =
     (if MAX_VLAN_PER_PORT \<le> vlan_size (port s ! pi) then s
      else upd_port pi (\<lambda>p. p\<lparr>vlan_size := vlan_size p + 1,
             vswitch_link_id_of_vlan := (vswitch_link_id_of_vlan p)[vlan_size p := vl_vswitch_link_id (vswitch_link s ! l)]\<rparr>) s)"

section \<open>The message handlers for switches and ports\<close>

text \<open>The cases of \<^verbatim>\<open>rib_manager_process_message\<close> that use the functions above.\<close>

record internal_msg_vswitch_port =
  mvp_vswitch_id :: u16
  mvp_port_id :: u16
  mvp_tag_id :: u16
  mvp_is_tagged :: bool

definition msg_vswitch_set :: "u16 \<Rightarrow> u16 \<Rightarrow> 'a vs_info_scheme \<Rightarrow> 'a vs_info_scheme" where
  "msg_vswitch_set vswitch_id vlan_id s =
     (if vswitch_lookup s vswitch_id \<noteq> None then s else fst (vswitch_new s vswitch_id vlan_id))"

definition msg_vswitch_no_set :: "u16 \<Rightarrow> if_rings \<times> 'a vs_info_scheme \<Rightarrow> (if_rings \<times> 'a vs_info_scheme) option" where
  "msg_vswitch_no_set vswitch_id rs =
     (if vswitch_lookup (snd rs) vswitch_id = None then Some rs
      else vswitch_delete (fst rs) (snd rs) vswitch_id)"

definition msg_vswitch_port_set :: "internal_msg_vswitch_port \<Rightarrow> 'a vs_info_scheme \<Rightarrow> 'a vs_info_scheme" where
  "msg_vswitch_port_set m s =
     (case vswitch_lookup s (mvp_vswitch_id m) of
        None \<Rightarrow> s
      | Some vi \<Rightarrow>
          (let pi = unat (mvp_port_id m)
           in case vswitch_link_new s vi pi of
                (s, None) \<Rightarrow> s
              | (s, Some l) \<Rightarrow>
                  if \<not> mvp_is_tagged m then port_set_native_vlan pi l s
                  else
                    port_add_tagged_vlan pi l
                      (if mvp_tag_id m \<noteq> 0 \<and> mvp_tag_id m \<noteq> vl_tag_id (vswitch_link s ! l)
                       then upd_link l (\<lambda>vl. vl\<lparr>vl_tag_id := mvp_tag_id m\<rparr>) s else s)))"

definition msg_vswitch_port_no_set :: "internal_msg_vswitch_port \<Rightarrow> 'a vs_info_scheme \<Rightarrow> 'a vs_info_scheme option" where
  "msg_vswitch_port_no_set m s =
     (case vswitch_lookup s (mvp_vswitch_id m) of
        None \<Rightarrow> Some s
      | Some vi \<Rightarrow>
          (case vswitch_link_lookup s vi (unat (mvp_port_id m)) of
             None \<Rightarrow> Some s
           | Some l \<Rightarrow> vswitch_link_delete s (vl_vswitch_link_id (vswitch_link s ! l))))"

section \<open>Invariant\<close>

text \<open>The ports of a switch, as links, in the order of \<^verbatim>\<open>vswitch_link_id[]\<close>.\<close>

definition vs_members :: "vswitch_conf \<Rightarrow> u16 list" where
  "vs_members v = take (vs_port_size v) (vs_link_id v)"

definition active_vswitch :: "'a vs_info_scheme \<Rightarrow> nat \<Rightarrow> bool" where
  "active_vswitch s i \<longleftrightarrow> i < vswitch_size s \<and> \<not> vs_is_deleted (vswitch s ! i)"

definition active_link :: "'a vs_info_scheme \<Rightarrow> nat \<Rightarrow> bool" where
  "active_link s l \<longleftrightarrow> l < vswitch_link_size s \<and> \<not> vl_is_deleted (vswitch_link s ! l)"

definition link_ids_ok :: "u16 list \<Rightarrow> bool" where
  "link_ids_ok ids \<longleftrightarrow> (\<forall>l \<in> set ids. unat l < MAX_VSWITCH_LINK)"

definition vswitch_conf_ok :: "vswitch_conf \<Rightarrow> bool" where
  "vswitch_conf_ok v \<longleftrightarrow> length (vs_link_id v) = MAX_VSWITCH_PORTS \<and> vs_port_size v \<le> MAX_VSWITCH_PORTS
     \<and> link_ids_ok (vs_link_id v)"

definition port_conf_ok :: "port_conf \<Rightarrow> bool" where
  "port_conf_ok p \<longleftrightarrow> length (vswitch_link_id_of_vlan p) = MAX_VLAN_PER_PORT \<and> vlan_size p \<le> MAX_VLAN_PER_PORT
     \<and> unat (dpdk_port_id p) < MAX_ETH_PORTS \<and> link_ids_ok (vswitch_link_id_of_vlan p)"

definition vs_sizes_ok :: "'a vs_info_scheme \<Rightarrow> bool" where
  "vs_sizes_ok s \<longleftrightarrow>
     length (vswitch s) = MAX_VSWITCH \<and> vswitch_size s \<le> MAX_VSWITCH
     \<and> length (vswitch_link s) = MAX_VSWITCH_LINK \<and> vswitch_link_size s \<le> MAX_VSWITCH_LINK
     \<and> length (port s) = MAX_ETH_PORTS
     \<and> (\<forall>v \<in> set (vswitch s). vswitch_conf_ok v)
     \<and> (\<forall>vl \<in> set (vswitch_link s). unat (vl_port_id vl) < MAX_ETH_PORTS)
     \<and> (\<forall>i<MAX_VSWITCH. vswitch_size s \<le> i \<longrightarrow> vs_port_size (vswitch s ! i) = 0)
     \<and> (\<forall>p \<in> set (port s). port_conf_ok p)"

definition vs_links_ok :: "'a vs_info_scheme \<Rightarrow> bool" where
  "vs_links_ok s \<longleftrightarrow>
     (\<forall>l. active_link s l \<longrightarrow> vl_vswitch_link_id (vswitch_link s ! l) = of_nat l
          \<and> unat (vl_port_id (vswitch_link s ! l)) < MAX_ETH_PORTS)
     \<and> (\<forall>i j. active_vswitch s i \<longrightarrow> active_vswitch s j \<longrightarrow>
          vs_vswitch_id (vswitch s ! i) = vs_vswitch_id (vswitch s ! j) \<longrightarrow> i = j)
     \<and> (\<forall>i. active_vswitch s i \<longrightarrow> distinct (vs_members (vswitch s ! i))
          \<and> (\<forall>l \<in> set (vs_members (vswitch s ! i)). active_link s (unat l)
               \<and> vl_vswitch_id (vswitch_link s ! unat l) = vs_vswitch_id (vswitch s ! i)))"

definition vs_ok :: "'a vs_info_scheme \<Rightarrow> bool" where
  "vs_ok s \<longleftrightarrow> vs_sizes_ok s \<and> vs_links_ok s"

section \<open>Removing a link\<close>

lemma remove_link_absent:
  "l \<notin> set (drop i (take n xs)) \<Longrightarrow> n \<le> length xs \<Longrightarrow> remove_link_loop l i n xs = (n, xs)"
proof (induction l i n xs rule: remove_link_loop.induct)
  case (1 l i n xs)
  show ?case
  proof (cases "i < n")
    case True
    then have "drop i (take n xs) = xs ! i # drop (Suc i) (take n xs)"
      using 1(4) by (simp add: Cons_nth_drop_Suc [symmetric])
    with 1 True show ?thesis by (subst remove_link_loop.simps) auto
  qed (simp add: remove_link_loop.simps [of l i n xs])
qed

lemma remove1_split: "i < length xs \<Longrightarrow> xs ! i \<notin> set (take i xs) \<Longrightarrow> remove1 (xs ! i) xs = take i xs @ drop (Suc i) xs"
  by (subst (2) id_take_nth_drop [of i xs]) (auto simp: remove1_append)

lemma remove_link_loop_remove1:
  assumes "distinct (take n xs)" "n \<le> length xs" "l \<notin> set (take i (take n xs))"
  shows "case remove_link_loop l i n xs of (n', xs') \<Rightarrow>
           take n' xs' = remove1 l (take n xs) \<and> length xs' = length xs \<and> n' \<le> n"
  using assms
proof (induction l i n xs rule: remove_link_loop.induct)
  case (1 l i n xs)
  consider "n \<le> i" | "i < n" "xs ! i \<noteq> l" | "i < n" "xs ! i = l" by linarith
  then show ?case
  proof cases
    case 1
    then have "remove1 l (take n xs) = take n xs"
      using \<open>l \<notin> _\<close> by (simp add: remove1_idem)
    with 1 show ?thesis by (simp add: remove_link_loop.simps [of l i n xs])
  next
    case 2
    then have "take (Suc i) (take n xs) = take i (take n xs) @ [xs ! i]"
      using \<open>n \<le> length xs\<close> by (simp add: take_Suc_conv_app_nth)
    with 1(2) [OF 2] 1(3-5) 2 show ?thesis by (simp add: remove_link_loop.simps [of l i n xs])
  next
    case 3
    define ys where "ys = memmove i (Suc i) (n - i - 1) xs"
    obtain m where m: "n = Suc m" using 3 by (cases n) auto
    have t: "take (n - 1) ys = remove1 l (take n xs)" "length ys = length xs"
    proof -
      have "take m ys = take i (take n xs) @ drop (Suc i) (take n xs)"
        using 3 1(4) m take_memmove_remove [of i m xs] by (simp add: ys_def)
      also have "\<dots> = remove1 l (take n xs)"
        using remove1_split [of i "take n xs"] 3 1(4,5) by simp
      finally show "take (n - 1) ys = remove1 l (take n xs)" using m by simp
      show "length ys = length xs" using 3 1(4) by (simp add: ys_def array_simps)
    qed
    moreover have "l \<notin> set (remove1 l (take n xs))" using 1(3) by simp
    ultimately have "l \<notin> set (take (n - 1) ys)" by simp
    then have "l \<notin> set (drop (i + 1) (take (n - 1) ys))" by (meson in_set_dropD)
    then have "remove_link_loop l (i + 1) (n - 1) ys = (n - 1, ys)"
      using t 1(4) by (intro remove_link_absent) auto
    then have "remove_link_loop l i n xs = (n - 1, ys)"
      using 3 by (simp add: remove_link_loop.simps [of l i n xs] ys_def)
    with t show ?thesis by simp
  qed
qed

lemma link_ids_ok_memmove: "link_ids_ok xs \<Longrightarrow> link_ids_ok (memmove d s n xs)"
  by (auto simp: link_ids_ok_def memmove_def dest: in_set_takeD in_set_dropD)

lemma link_ids_ok_update: "link_ids_ok xs \<Longrightarrow> unat l < MAX_VSWITCH_LINK \<Longrightarrow> link_ids_ok (xs[i := l])"
  using set_update_subset_insert [of xs i l] by (auto simp: link_ids_ok_def)

lemma link_ids_ok_remove: "link_ids_ok xs \<Longrightarrow> link_ids_ok (snd (remove_link_loop l i n xs))"
  by (induction l i n xs rule: remove_link_loop.induct) (subst remove_link_loop.simps, simp add: link_ids_ok_memmove)

lemma members_remove:
  assumes "distinct (vs_members v)" "vs_port_size v \<le> length (vs_link_id v)"
    and "v' = vswitch_link_remove_from_vswitch_port_array l v"
  shows "vs_members v' = remove1 l (vs_members v) \<and> length (vs_link_id v') = length (vs_link_id v)
         \<and> vs_port_size v' \<le> vs_port_size v \<and> vs_vswitch_id v' = vs_vswitch_id v \<and> vs_is_deleted v' = vs_is_deleted v
         \<and> (link_ids_ok (vs_link_id v) \<longrightarrow> link_ids_ok (vs_link_id v'))"
  using remove_link_loop_remove1 [of "vs_port_size v" "vs_link_id v" l 0] link_ids_ok_remove [of "vs_link_id v" l 0 "vs_port_size v"] assms
  by (auto simp: vswitch_link_remove_from_vswitch_port_array_def vs_members_def split: prod.splits)

text \<open>The VLAN table of a port loses one entry of the link, or its native VLAN, if it has entries at all.\<close>

lemma vlan_array_sizes:
  assumes "port_conf_ok p" and "p' = vswitch_link_remove_from_port_vlan_array l p"
  shows "port_conf_ok p'"
proof (cases "List.find (\<lambda>i. vswitch_link_id_of_vlan p ! i = l \<or> vswitch_link_id_of_native_vlan p = l) [0..<vlan_size p]")
  case None
  then show ?thesis using assms by (simp add: vswitch_link_remove_from_port_vlan_array_def)
next
  case (Some i)
  from find_upt_Some [OF this] assms Some show ?thesis
    by (auto simp: vswitch_link_remove_from_port_vlan_array_def port_conf_ok_def array_simps link_ids_ok_memmove)
qed

text \<open>
  The loop over later links changes only \<^verbatim>\<open>vswitch_port\<close>; \<open>link_core\<close> is the rest of a
  link.
\<close>

definition link_core :: "vswitch_link \<Rightarrow> vswitch_link" where
  "link_core vl = vl\<lparr>vl_vswitch_port := 0\<rparr>"

lemma link_core_eqD:
  "link_core a = link_core b \<Longrightarrow>
     vl_vswitch_link_id a = vl_vswitch_link_id b \<and> vl_port_id a = vl_port_id b \<and> vl_vlan_id a = vl_vlan_id b
     \<and> vl_tag_id a = vl_tag_id b \<and> vl_vswitch_id a = vl_vswitch_id b \<and> vl_is_deleted a = vl_is_deleted b"
  unfolding link_core_def by (metis (no_types, lifting) vswitch_link.select_convs vswitch_link.surjective vswitch_link.update_convs(6))

lemma renumber_links:
  "\<exists>ls. fold (\<lambda>i s. if vl_vswitch_id (vswitch_link s ! i) = vid
              then upd_link i (\<lambda>vl. vl\<lparr>vl_vswitch_port := vl_vswitch_port vl - 1\<rparr>) s else s) is s
        = s\<lparr>vswitch_link := ls\<rparr> \<and> map link_core ls = map link_core (vswitch_link s)"
proof (induction "is" arbitrary: s)
  case Nil
  show ?case by (rule exI [of _ "vswitch_link s"]) simp
next
  case (Cons i "is")
  have "map link_core ((vswitch_link s)[i := (vswitch_link s ! i)\<lparr>vl_vswitch_port := x\<rparr>]) = map link_core (vswitch_link s)" for x
    by (cases "i < length (vswitch_link s)") (auto simp: map_update link_core_def list_update_same_conv list_update_beyond)
  then have "\<exists>ls. (if vl_vswitch_id (vswitch_link s ! i) = vid
              then upd_link i (\<lambda>vl. vl\<lparr>vl_vswitch_port := vl_vswitch_port vl - 1\<rparr>) s else s) = s\<lparr>vswitch_link := ls\<rparr>
      \<and> map link_core ls = map link_core (vswitch_link s)"
    by (intro exI [of _ "if vl_vswitch_id (vswitch_link s ! i) = vid
          then (vswitch_link s)[i := (vswitch_link s ! i)\<lparr>vl_vswitch_port := vl_vswitch_port (vswitch_link s ! i) - 1\<rparr>]
          else vswitch_link s"]) (simp add: upd_link_def)
  then obtain ls where ls: "(if vl_vswitch_id (vswitch_link s ! i) = vid
              then upd_link i (\<lambda>vl. vl\<lparr>vl_vswitch_port := vl_vswitch_port vl - 1\<rparr>) s else s) = s\<lparr>vswitch_link := ls\<rparr>"
    "map link_core ls = map link_core (vswitch_link s)" by blast
  with Cons.IH [of "s\<lparr>vswitch_link := ls\<rparr>"] show ?case by simp
qed

text \<open>What the deletion of a link changes.\<close>

definition link_deleted :: "nat \<Rightarrow> 'a vs_info_scheme \<Rightarrow> 'a vs_info_scheme \<Rightarrow> nat \<Rightarrow> bool" where
  "link_deleted vi s s' l \<longleftrightarrow>
     vswitch_size s' = vswitch_size s \<and> vswitch_link_size s' = vswitch_link_size s
     \<and> vswitch s' = (vswitch s)[vi := vswitch_link_remove_from_vswitch_port_array (of_nat l) (vswitch s ! vi)]
     \<and> (\<exists>p<length (port s). p = unat (vl_port_id (vswitch_link s ! l)) \<and> port s' = (port s)[p := vswitch_link_remove_from_port_vlan_array (of_nat l) (port s ! p)])
     \<and> length (vswitch_link s') = length (vswitch_link s)
     \<and> (\<forall>k<length (vswitch_link s). link_core (vswitch_link s' ! k)
          = (if k = l then (link_core (vswitch_link s ! k))\<lparr>vl_is_deleted := True\<rparr> else link_core (vswitch_link s ! k)))"

lemma vs_okD:
  assumes "vs_ok s"
  shows "length (vswitch s) = MAX_VSWITCH" "vswitch_size s \<le> MAX_VSWITCH"
    "length (vswitch_link s) = MAX_VSWITCH_LINK" "vswitch_link_size s \<le> MAX_VSWITCH_LINK"
    "length (port s) = MAX_ETH_PORTS"
  using assms by (auto simp: vs_ok_def vs_sizes_ok_def)

lemma vswitch_lookup_Some:
  "vswitch_lookup s vid = Some vi \<Longrightarrow> active_vswitch s vi \<and> vs_vswitch_id (vswitch s ! vi) = vid"
  unfolding vswitch_lookup_def active_vswitch_def by (drule find_upt_Some) simp

lemma vswitch_lookup_active:
  assumes "vs_ok s" "active_vswitch s vi"
  shows "vswitch_lookup s (vs_vswitch_id (vswitch s ! vi)) = Some vi"
proof (cases "vswitch_lookup s (vs_vswitch_id (vswitch s ! vi))")
  case None
  with assms(2) show ?thesis by (auto simp: vswitch_lookup_def find_upt_None active_vswitch_def)
next
  case (Some i)
  from vswitch_lookup_Some [OF this] assms show ?thesis using Some by (auto simp: vs_ok_def vs_links_ok_def)
qed

lemma vswitch_link_delete_Some:
  assumes "vs_ok s" "active_link s l" "vswitch_lookup s (vl_vswitch_id (vswitch_link s ! l)) = Some vi"
  shows "\<exists>s'. vswitch_link_delete s (of_nat l) = Some s' \<and> link_deleted vi s s' l"
proof -
  have l: "l < 32" using assms(1,2) by (auto simp: active_link_def vs_ok_def vs_sizes_ok_def MAX_VSWITCH_LINK_def)
  then have u: "unat (of_nat l :: u16) = l" by (simp add: unat_of_nat take_bit_nat_eq_self)
  let ?p = "unat (vl_port_id (vswitch_link s ! l))" and ?vid = "vl_vswitch_id (vswitch_link s ! l)"
  have p: "?p < length (port s)"
    using assms(1,2) vs_okD(5) [OF assms(1)] unfolding vs_ok_def vs_links_ok_def by metis
  define s1 where "s1 = upd_port ?p (vswitch_link_remove_from_port_vlan_array (of_nat l))
    (upd_vswitch vi (vswitch_link_remove_from_vswitch_port_array (of_nat l)) s)"
  obtain ls where ls: "fold (\<lambda>i s. if vl_vswitch_id (vswitch_link s ! i) = ?vid
              then upd_link i (\<lambda>vl. vl\<lparr>vl_vswitch_port := vl_vswitch_port vl - 1\<rparr>) s else s) [l..<vswitch_link_size s1] s1
        = s1\<lparr>vswitch_link := ls\<rparr>" "map link_core ls = map link_core (vswitch_link s)"
    using renumber_links [of ?vid "[l..<vswitch_link_size s1]" s1] by (auto simp: s1_def upd_port_def upd_vswitch_def)
  have "vswitch_link_delete s (of_nat l) = Some (upd_link l (\<lambda>vl. vl\<lparr>vl_is_deleted := True\<rparr>) (s1\<lparr>vswitch_link := ls\<rparr>))"
    using assms(3) ls(1) by (simp add: vswitch_link_delete_def u Let_def s1_def)
  moreover have len: "length ls = length (vswitch_link s)" using ls(2) map_eq_imp_length_eq by blast
  moreover have "link_core (ls ! k) = link_core (vswitch_link s ! k)" if "k < length (vswitch_link s)" for k
    using ls(2) that len by (metis nth_map)
  moreover have "link_core (x\<lparr>vl_is_deleted := True\<rparr>) = (link_core x)\<lparr>vl_is_deleted := True\<rparr>" for x
    by (simp add: link_core_def)
  ultimately show ?thesis using p
    by (intro exI conjI) (auto simp: link_deleted_def s1_def upd_link_def upd_port_def upd_vswitch_def nth_list_update)
qed

lemma link_deleted_active_link:
  assumes "link_deleted vi s s' l" "vs_sizes_ok s"
  shows "active_link s' k \<longleftrightarrow> active_link s k \<and> k \<noteq> l"
    and "active_link s k \<Longrightarrow> k \<noteq> l \<Longrightarrow> link_core (vswitch_link s' ! k) = link_core (vswitch_link s ! k)"
proof -
  have *: "vl_is_deleted (vswitch_link s' ! k) \<longleftrightarrow> k = l \<or> vl_is_deleted (vswitch_link s ! k)"
    if "k < vswitch_link_size s"
  proof -
    have "k < length (vswitch_link s)" using that assms(2) by (simp add: vs_sizes_ok_def)
    with assms(1) have "link_core (vswitch_link s' ! k)
      = (if k = l then (link_core (vswitch_link s ! k))\<lparr>vl_is_deleted := True\<rparr> else link_core (vswitch_link s ! k))"
      by (simp add: link_deleted_def)
    then have "vl_is_deleted (link_core (vswitch_link s' ! k)) \<longleftrightarrow> k = l \<or> vl_is_deleted (link_core (vswitch_link s ! k))"
      by simp
    then show ?thesis by (simp add: link_core_def)
  qed
  with assms(1) show "active_link s' k \<longleftrightarrow> active_link s k \<and> k \<noteq> l"
    by (auto simp: active_link_def link_deleted_def)
  assume "active_link s k" "k \<noteq> l"
  with assms show "link_core (vswitch_link s' ! k) = link_core (vswitch_link s ! k)"
    by (auto simp: active_link_def link_deleted_def vs_sizes_ok_def)
qed

text \<open>The invariant of one switch: no link twice, every link in use and its own.\<close>

lemma vs_linksD:
  assumes "vs_ok s" "active_vswitch s i"
  shows "distinct (vs_members (vswitch s ! i))"
    and "m \<in> set (vs_members (vswitch s ! i)) \<Longrightarrow>
      active_link s (unat m) \<and> vl_vswitch_id (vswitch_link s ! unat m) = vs_vswitch_id (vswitch s ! i)"
  using assms by (auto simp: vs_ok_def vs_links_ok_def)

lemma vs_entryD:
  assumes "vs_ok s" "i < MAX_VSWITCH"
  shows "length (vs_link_id (vswitch s ! i)) = MAX_VSWITCH_PORTS" "vs_port_size (vswitch s ! i) \<le> MAX_VSWITCH_PORTS"
    "link_ids_ok (vs_link_id (vswitch s ! i))"
  using assms by (auto simp: vs_ok_def vs_sizes_ok_def vswitch_conf_ok_def)

lemma active_bound: "vs_ok s \<Longrightarrow> active_vswitch s i \<Longrightarrow> i < MAX_VSWITCH"
  by (auto simp: vs_ok_def vs_sizes_ok_def active_vswitch_def)

lemma link_deleted_members:
  assumes "vs_ok s" "active_vswitch s vi" "link_deleted vi s s' l"
  shows "active_vswitch s' i \<longleftrightarrow> active_vswitch s i"
    and "vs_vswitch_id (vswitch s' ! i) = vs_vswitch_id (vswitch s ! i)"
    and "vs_members (vswitch s' ! i) = (if i = vi then remove1 (of_nat l) (vs_members (vswitch s ! i)) else vs_members (vswitch s ! i))"
proof -
  have b: "vi < length (vswitch s)" using active_bound [OF assms(1,2)] vs_okD(1) [OF assms(1)] by simp
  have r: "vs_members v' = remove1 (of_nat l) (vs_members (vswitch s ! vi)) \<and> vs_vswitch_id v' = vs_vswitch_id (vswitch s ! vi)
      \<and> vs_is_deleted v' = vs_is_deleted (vswitch s ! vi)"
    if "v' = vswitch_link_remove_from_vswitch_port_array (of_nat l) (vswitch s ! vi)" for v'
    using members_remove [OF vs_linksD(1) [OF assms(1,2)] _ that] vs_entryD [OF assms(1) active_bound [OF assms(1,2)]] by simp
  show "active_vswitch s' i \<longleftrightarrow> active_vswitch s i"
    "vs_vswitch_id (vswitch s' ! i) = vs_vswitch_id (vswitch s ! i)"
    "vs_members (vswitch s' ! i) = (if i = vi then remove1 (of_nat l) (vs_members (vswitch s ! i)) else vs_members (vswitch s ! i))"
    using assms(3) b r [OF refl] by (auto simp: link_deleted_def active_vswitch_def nth_list_update)
qed

lemma link_deleted_sizes:
  assumes "vs_ok s" "active_vswitch s vi" "link_deleted vi s s' l"
  shows "vs_sizes_ok s'"
proof -
  let ?v = "vswitch_link_remove_from_vswitch_port_array (of_nat l) (vswitch s ! vi)"
  have vb: "vi < MAX_VSWITCH" and va: "vi < vswitch_size s" using active_bound [OF assms(1,2)] assms(2) by (auto simp: active_vswitch_def)
  have v: "vswitch_conf_ok ?v"
    using members_remove [OF vs_linksD(1) [OF assms(1,2)] _ refl, of "of_nat l"] vs_entryD [OF assms(1) vb] by (auto simp: vswitch_conf_ok_def)
  obtain p where p: "p < length (port s)" "port s' = (port s)[p := vswitch_link_remove_from_port_vlan_array (of_nat l) (port s ! p)]"
    using assms(3) by (auto simp: link_deleted_def)
  have pp: "port_conf_ok q" if "q \<in> set (port s')" for q
  proof -
    have *: "port_conf_ok x" if "x \<in> set (port s)" for x using that assms(1) by (simp add: vs_ok_def vs_sizes_ok_def)
    from that p have "q = vswitch_link_remove_from_port_vlan_array (of_nat l) (port s ! p) \<or> q \<in> set (port s)"
      using set_update_subset_insert by fastforce
    with * vlan_array_sizes [OF _ refl, of "port s ! p" "of_nat l"] p(1) show ?thesis by auto
  qed
  have vv: "vswitch_conf_ok w" if "w \<in> set (vswitch s')" for w
  proof -
    from that assms(3) have "w = ?v \<or> w \<in> set (vswitch s)" using set_update_subset_insert by (fastforce simp: link_deleted_def)
    with v assms(1) show ?thesis by (auto simp: vs_ok_def vs_sizes_ok_def)
  qed
  have ll: "unat (vl_port_id vl) < MAX_ETH_PORTS" if "vl \<in> set (vswitch_link s')" for vl
  proof -
    from that assms(3) obtain k where k: "k < length (vswitch_link s)" "vl = vswitch_link s' ! k" by (auto simp: in_set_conv_nth link_deleted_def)
    with assms(3) have "vl_port_id (link_core vl) = vl_port_id (link_core (vswitch_link s ! k))" by (auto simp: link_deleted_def split: if_splits)
    with k(1) assms(1) show ?thesis by (simp add: link_core_def vs_ok_def vs_sizes_ok_def)
  qed
  have z: "vs_port_size (vswitch s' ! i) = 0" if "i < MAX_VSWITCH" "vswitch_size s \<le> i" for i
    using that va assms(1,3) by (auto simp: link_deleted_def vs_ok_def vs_sizes_ok_def)
  show ?thesis unfolding vs_sizes_ok_def using vv pp ll z vs_okD [OF assms(1)] assms(3) p(2) by (simp add: link_deleted_def)
qed

lemma unat_eq_of_nat: "l < 32 \<Longrightarrow> unat (m :: u16) = l \<Longrightarrow> m = of_nat l"
  by (metis of_nat_unat ucast_id)

lemma link_deleted_ok:
  assumes "vs_ok s" "active_vswitch s vi" "link_deleted vi s s' l"
    and own: "vl_vswitch_id (vswitch_link s ! l) = vs_vswitch_id (vswitch s ! vi)"
  shows "vs_ok s'"
proof -
  note sz = assms(1) [unfolded vs_ok_def, THEN conjunct1] and lk = assms(1) [unfolded vs_ok_def vs_links_ok_def, THEN conjunct2]
  note act = link_deleted_active_link [OF assms(3) sz] and mem = link_deleted_members [OF assms(1-3)]
  have "vl_vswitch_link_id (vswitch_link s' ! k) = of_nat k \<and> unat (vl_port_id (vswitch_link s' ! k)) < MAX_ETH_PORTS"
    if "active_link s' k" for k
  proof -
    have "active_link s k" "k \<noteq> l" using that act(1) by auto
    with lk link_core_eqD [OF act(2) [of k]] show ?thesis by auto
  qed
  moreover have "i = j" if "active_vswitch s' i" "active_vswitch s' j"
    "vs_vswitch_id (vswitch s' ! i) = vs_vswitch_id (vswitch s' ! j)" for i j using that lk mem by metis
  moreover have "distinct (vs_members (vswitch s' ! i))" if "active_vswitch s' i" for i
    using that vs_linksD(1) [OF assms(1), of i] mem by (auto simp: distinct_remove1)
  moreover have "active_link s' (unat m) \<and> vl_vswitch_id (vswitch_link s' ! unat m) = vs_vswitch_id (vswitch s' ! i)"
    if i: "active_vswitch s' i" and m: "m \<in> set (vs_members (vswitch s' ! i))" for i m
  proof -
    have i': "active_vswitch s i" and m': "m \<in> set (vs_members (vswitch s ! i))"
      using i m mem by (auto split: if_splits dest: set_mp [OF set_remove1_subset])
    from vs_linksD(2) [OF assms(1) this] have a: "active_link s (unat m)"
      "vl_vswitch_id (vswitch_link s ! unat m) = vs_vswitch_id (vswitch s ! i)" by auto
    have "unat m \<noteq> l"
    proof
      assume e: "unat m = l"
      with a own lk i' assms(2) have vi: "i = vi" by metis
      have "l < 32" using a(1) e vs_okD(4) [OF assms(1)] by (simp add: active_link_def MAX_VSWITCH_LINK_def)
      with e have "m = of_nat l" by (intro unat_eq_of_nat)
      with m vi mem(3) [of vi] vs_linksD(1) [OF assms(1,2)] show False by simp
    qed
    with a link_core_eqD [OF act(2) [of "unat m"]] mem(2) act(1) show ?thesis by metis
  qed
  ultimately have "vs_links_ok s'" unfolding vs_links_ok_def by blast
  with link_deleted_sizes [OF assms(1-3)] show ?thesis by (simp add: vs_ok_def)
qed

section \<open>Deleting a switch\<close>

text \<open>
  Deleting switch \<open>vi\<close> and the links \<open>ls\<close>: the other switches keep their ports and
  identity, the other links everything but the port number.
\<close>

definition links_deleted :: "nat \<Rightarrow> 'a vs_info_scheme \<Rightarrow> 'a vs_info_scheme \<Rightarrow> nat set \<Rightarrow> bool" where
  "links_deleted vi s s' ls \<longleftrightarrow>
     (\<forall>i. active_vswitch s' i \<longleftrightarrow> active_vswitch s i)
     \<and> (\<forall>i. i \<noteq> vi \<longrightarrow> vswitch s' ! i = vswitch s ! i)
     \<and> (\<forall>i. vs_vswitch_id (vswitch s' ! i) = vs_vswitch_id (vswitch s ! i))
     \<and> (\<forall>k. active_link s' k \<longleftrightarrow> active_link s k \<and> k \<notin> ls)
     \<and> (\<forall>k. active_link s' k \<longrightarrow> link_core (vswitch_link s' ! k) = link_core (vswitch_link s ! k))"

lemma link_deleted_links_deleted:
  assumes "vs_ok s" "active_vswitch s vi" "link_deleted vi s s' l"
  shows "links_deleted vi s s' {l}"
  using link_deleted_active_link [OF assms(3)] link_deleted_members [OF assms] assms(1,3)
  by (auto simp: links_deleted_def vs_ok_def) (auto simp: link_deleted_def)

lemma links_deleted_trans:
  "links_deleted vi s s' A \<Longrightarrow> links_deleted vi s' s'' B \<Longrightarrow> links_deleted vi s s'' (A \<union> B)"
  by (simp add: links_deleted_def)

lemma vswitch_delete_links_Some:
  assumes "vs_ok s" "active_vswitch s vi"
  shows "\<exists>s'. vswitch_delete_links s vi = Some s' \<and> vs_ok s' \<and> vs_members (vswitch s' ! vi) = []
           \<and> links_deleted vi s s' (unat ` set (vs_members (vswitch s ! vi)))"
  using assms
proof (induction "vs_members (vswitch s ! vi)" arbitrary: s)
  case Nil
  then have "vs_port_size (vswitch s ! vi) = 0"
    using vs_entryD(1) [OF Nil.prems(1) active_bound [OF Nil.prems]] by (auto simp: vs_members_def MAX_VSWITCH_PORTS_def)
  then have "vswitch_delete_links s vi = Some s" by (simp add: vswitch_delete_links.simps)
  with Nil show ?case by (simp add: links_deleted_def)
next
  case (Cons m ms)
  then have m: "m \<in> set (vs_members (vswitch s ! vi))" by (metis list.set_intros(1))
  have pos: "0 < vs_port_size (vswitch s ! vi)" and hd: "vs_link_id (vswitch s ! vi) ! 0 = m"
  proof -
    show pos: "0 < vs_port_size (vswitch s ! vi)" using Cons.hyps(2) by (cases "vs_port_size (vswitch s ! vi)") (auto simp: vs_members_def)
    then have "vs_members (vswitch s ! vi) ! 0 = vs_link_id (vswitch s ! vi) ! 0" by (simp add: vs_members_def)
    then show "vs_link_id (vswitch s ! vi) ! 0 = m" using Cons.hyps(2) by (metis nth_Cons_0)
  qed
  note a = vs_linksD(2) [OF Cons.prems m]
  have "vswitch_lookup s (vl_vswitch_id (vswitch_link s ! unat m)) = Some vi"
    using a vswitch_lookup_active [OF Cons.prems] by simp
  from vswitch_link_delete_Some [OF Cons.prems(1) _ this] a
  obtain s1 where s1: "vswitch_link_delete s m = Some s1" "link_deleted vi s s1 (unat m)" by auto
  have ok1: "vs_ok s1" using link_deleted_ok [OF Cons.prems s1(2)] a by simp
  have act1: "active_vswitch s1 vi" using link_deleted_members(1) [OF Cons.prems s1(2)] Cons.prems(2) by simp
  have "vs_members (vswitch s1 ! vi) = remove1 m (vs_members (vswitch s ! vi))"
    using link_deleted_members(3) [OF Cons.prems s1(2)] by simp
  then have ms: "ms = vs_members (vswitch s1 ! vi)" by (simp flip: Cons.hyps(2))
  from Cons.hyps(1) [OF this ok1 act1] obtain s2 where s2: "vswitch_delete_links s1 vi = Some s2" "vs_ok s2"
    "vs_members (vswitch s2 ! vi) = []" "links_deleted vi s1 s2 (unat ` set ms)" using ms by auto
  have "links_deleted vi s s2 ({unat m} \<union> unat ` set ms)"
    using links_deleted_trans [OF link_deleted_links_deleted [OF Cons.prems s1(2)] s2(4)] .
  moreover have "vswitch_delete_links s vi = Some s2"
    using pos hd s1(1) s2(1) by (simp add: vswitch_delete_links.simps [of s])
  ultimately show ?case using s2 by (simp flip: Cons.hyps(2))
qed

text \<open>Updates of a switch that keep its identity and ports keep the invariant.\<close>

lemma upd_vswitch_other:
  assumes "vs_ok s" "\<And>v. vs_vswitch_id (f v) = vs_vswitch_id v \<and> vs_port_size (f v) = vs_port_size v \<and> vs_link_id (f v) = vs_link_id v
      \<and> (vs_is_deleted v \<longrightarrow> vs_is_deleted (f v))"
  shows "vs_ok (upd_vswitch i f s)"
proof -
  have nth: "vswitch (upd_vswitch i f s) ! j = vswitch s ! j \<or> vswitch (upd_vswitch i f s) ! j = f (vswitch s ! j)" for j
    by (cases "i < length (vswitch s)"; cases "i = j") (simp_all add: upd_vswitch_def list_update_beyond)
  have act: "active_vswitch (upd_vswitch i f s) j \<Longrightarrow> active_vswitch s j" for j
    using nth [of j] assms(2) [of "vswitch s ! j"] by (auto simp: active_vswitch_def) (simp add: upd_vswitch_def)+
  have fld: "vs_vswitch_id (vswitch (upd_vswitch i f s) ! j) = vs_vswitch_id (vswitch s ! j)"
      "vs_members (vswitch (upd_vswitch i f s) ! j) = vs_members (vswitch s ! j)"
      "vs_port_size (vswitch (upd_vswitch i f s) ! j) = vs_port_size (vswitch s ! j)" for j
    using nth [of j] assms(2) [of "vswitch s ! j"] by (metis vs_members_def)+
  have lk: "active_link (upd_vswitch i f s) k = active_link s k"
    "vswitch_link (upd_vswitch i f s) = vswitch_link s" "vswitch_size (upd_vswitch i f s) = vswitch_size s"
    "vswitch_link_size (upd_vswitch i f s) = vswitch_link_size s" "port (upd_vswitch i f s) = port s" for k
    by (auto simp: active_link_def upd_vswitch_def)
  have "vswitch_conf_ok v"
    if "v \<in> set (vswitch (upd_vswitch i f s))" for v
  proof (cases "i < length (vswitch s)")
    case True
    with that have "v = f (vswitch s ! i) \<or> v \<in> set (vswitch s)"
      using set_update_subset_insert by (fastforce simp: upd_vswitch_def)
    with True assms show ?thesis by (auto simp: vs_ok_def vs_sizes_ok_def vswitch_conf_ok_def)
  next
    case False
    then have "vswitch (upd_vswitch i f s) = vswitch s" by (simp add: upd_vswitch_def list_update_beyond)
    with that assms(1) show ?thesis by (auto simp: vs_ok_def vs_sizes_ok_def)
  qed
  moreover have "length (vswitch (upd_vswitch i f s)) = length (vswitch s)" by (simp add: upd_vswitch_def)
  ultimately have "vs_sizes_ok (upd_vswitch i f s)" using assms(1) by (simp add: vs_ok_def vs_sizes_ok_def lk fld)
  moreover have "vs_links_ok (upd_vswitch i f s)"
    using assms(1) act unfolding vs_ok_def vs_links_ok_def lk fld by blast
  ultimately show ?thesis by (simp add: vs_ok_def)
qed


text \<open>The deletion of interfaces changes nothing but the interfaces.\<close>

definition keeps_ports :: "(vswitch_conf \<Rightarrow> vswitch_conf) \<Rightarrow> bool" where
  "keeps_ports f \<longleftrightarrow> (\<forall>v. vs_vswitch_id (f v) = vs_vswitch_id v \<and> vs_port_size (f v) = vs_port_size v
     \<and> vs_link_id (f v) = vs_link_id v \<and> vs_is_deleted (f v) = vs_is_deleted v)"

lemma router_if_delete_Some:
  assumes "vs_ok s" "active_vswitch s vi"
  shows "\<exists>r f. router_if_delete rings s (vs_vswitch_id (vswitch s ! vi)) = Some (r, upd_vswitch vi f s) \<and> keeps_ports f"
    and "\<exists>r f. capture_if_delete rings s (vs_vswitch_id (vswitch s ! vi)) = Some (r, upd_vswitch vi f s) \<and> keeps_ports f"
  using vswitch_lookup_active [OF assms]
  by (simp_all add: router_if_delete_def capture_if_delete_def keeps_ports_def)
    (intro exI conjI, rule refl, simp)+

lemma upd_vswitch_keeps:
  assumes "keeps_ports f" "vs_ok s" "active_vswitch s vi" "s' = upd_vswitch vi f s"
  shows "vs_ok s'" "active_vswitch s' vi" "vs_vswitch_id (vswitch s' ! vi) = vs_vswitch_id (vswitch s ! vi)"
    "vs_members (vswitch s' ! vi) = vs_members (vswitch s ! vi)" "links_deleted vi s s' {}"
proof -
  have b: "vi < length (vswitch s)" using active_bound [OF assms(2,3)] vs_okD(1) [OF assms(2)] by simp
  show "vs_ok s'" unfolding assms(4) by (rule upd_vswitch_other) (use assms in \<open>auto simp: keeps_ports_def\<close>)
  show 1: "active_vswitch s' vi" "vs_vswitch_id (vswitch s' ! vi) = vs_vswitch_id (vswitch s ! vi)"
    "vs_members (vswitch s' ! vi) = vs_members (vswitch s ! vi)"
    using assms b by (auto simp: active_vswitch_def upd_vswitch_def keeps_ports_def vs_members_def)
  have "active_vswitch s' i = active_vswitch s i" "i \<noteq> vi \<longrightarrow> vswitch s' ! i = vswitch s ! i" "active_link s' i = active_link s i"
    "vswitch_link s' = vswitch_link s" for i
    using assms 1 by (cases "i = vi"; simp add: active_vswitch_def active_link_def upd_vswitch_def)+
  with 1(2) show "links_deleted vi s s' {}" unfolding links_deleted_def by (simp; metis)
qed

lemma vswitch_delete_Some:
  assumes "vs_ok s" "vswitch_lookup s vid = Some vi"
  shows "\<exists>r s2. vswitch_delete rings s vid = Some (r, upd_vswitch vi (\<lambda>v. v\<lparr>vs_is_deleted := True\<rparr>) s2)
           \<and> vs_ok s2 \<and> links_deleted vi s s2 (unat ` set (vs_members (vswitch s ! vi)))"
proof -
  have vid: "vid = vs_vswitch_id (vswitch s ! vi)" and act: "active_vswitch s vi" using vswitch_lookup_Some [OF assms(2)] by auto
  have id: "keeps_ports (\<lambda>v. v)" "upd_vswitch vi (\<lambda>v. v) t = t" for t :: "'a vs_info_scheme"
    by (simp_all add: keeps_ports_def upd_vswitch_def)
  let ?A = "if 0 \<le> rif_sockfd (vs_router_if (vswitch s ! vi)) then router_if_delete rings s vid else Some (rings, s)"
  obtain r1 f where A: "?A = Some (r1, upd_vswitch vi f s)" and f: "keeps_ports f"
    using router_if_delete_Some(1) [OF assms(1) act, of rings] id unfolding vid by (metis (full_types))
  note t = upd_vswitch_keeps [OF f assms(1) act refl]
  define s1 where "s1 = upd_vswitch vi f s"
  let ?B = "if 0 \<le> cif_sockfd (vs_capture_if (vswitch s1 ! vi)) then capture_if_delete r1 s1 vid else Some (r1, s1)"
  obtain r2 g where B: "?B = Some (r2, upd_vswitch vi g s1)" and g: "keeps_ports g"
    using router_if_delete_Some(2) [OF t(1,2), of r1] id t(3) unfolding vid s1_def by (metis (full_types))
  note u = upd_vswitch_keeps [OF g t(1,2) refl, folded s1_def]
  from vswitch_delete_links_Some [OF u(1,2)] obtain s2 where s2: "vswitch_delete_links (upd_vswitch vi g s1) vi = Some s2"
    "vs_ok s2" "links_deleted vi (upd_vswitch vi g s1) s2 (unat ` set (vs_members (vswitch s ! vi)))"
    using u(4) t(4) by (auto simp: s1_def)
  have "links_deleted vi s s2 ({} \<union> ({} \<union> (unat ` set (vs_members (vswitch s ! vi)))))"
    using links_deleted_trans [OF t(5) links_deleted_trans [OF u(5) [unfolded s1_def] s2(3) [unfolded s1_def]]] .
  moreover have "vswitch_delete rings s vid = Some (r2, upd_vswitch vi (\<lambda>v. v\<lparr>vs_is_deleted := True\<rparr>) s2)"
    using A B s2(1) assms(2) by (simp add: vswitch_delete_def flip: s1_def)
  ultimately show ?thesis using s2(2) by auto
qed

section \<open>Adding switches and links\<close>

lemma install_link:
  assumes ok: "vs_ok s" and s': "s' = s\<lparr>vswitch_link_size := n, vswitch_link := (vswitch_link s)[l := nl]\<rparr>"
    and n: "l < n" "vswitch_link_size s \<le> n" "n \<le> MAX_VSWITCH_LINK" "n = vswitch_link_size s \<or> n = Suc (vswitch_link_size s) \<and> l = vswitch_link_size s"
    and fresh: "\<not> active_link s l"
    and nl: "vl_vswitch_link_id nl = of_nat l" "unat (vl_port_id nl) < MAX_ETH_PORTS" "\<not> vl_is_deleted nl"
  shows "vs_ok s' \<and> (\<forall>k. active_link s' k \<longleftrightarrow> active_link s k \<or> k = l)"
proof -
  have len: "l < length (vswitch_link s)" using n vs_okD(3) [OF ok] by simp
  have act: "active_link s' k \<longleftrightarrow> active_link s k \<or> k = l" for k
    using n len nl(3) fresh by (cases "k = l") (auto simp: active_link_def s')
  have "unat (vl_port_id vl) < MAX_ETH_PORTS" if "vl \<in> set (vswitch_link s')" for vl
    using that set_update_subset_insert [of "vswitch_link s" l nl] ok nl(2) by (auto simp: s' vs_ok_def vs_sizes_ok_def)
  then have "vs_sizes_ok s'" using ok n by (simp add: vs_ok_def vs_sizes_ok_def s')
  moreover have "vs_links_ok s'"
  proof -
    have v: "active_vswitch s' i = active_vswitch s i" "vswitch s' = vswitch s" for i by (auto simp: active_vswitch_def s')
    have k: "vswitch_link s' ! k = vswitch_link s ! k" if "active_link s k" for k using that fresh by (cases "k = l") (auto simp: s')
    have "vswitch_link s' ! l = nl" using len by (simp add: s')
    with ok nl k act show ?thesis unfolding vs_ok_def vs_links_ok_def v by metis
  qed
  ultimately show ?thesis using act by (simp add: vs_ok_def)
qed

lemma append_member:
  assumes ok: "vs_ok s" and vi: "active_vswitch s vi" and n: "n = vs_port_size (vswitch s ! vi)" "n < MAX_VSWITCH_PORTS"
    and l: "active_link s (unat l)" "vl_vswitch_id (vswitch_link s ! unat l) = vs_vswitch_id (vswitch s ! vi)"
      "l \<notin> set (vs_members (vswitch s ! vi))"
    and s': "s' = upd_vswitch vi (\<lambda>v. v\<lparr>vs_port_size := n + 1, vs_link_id := (vs_link_id v)[n := l]\<rparr>) s"
  shows "vs_ok s' \<and> vs_members (vswitch s' ! vi) = vs_members (vswitch s ! vi) @ [l]"
proof -
  have b: "vi < length (vswitch s)" "vi < MAX_VSWITCH" using active_bound [OF ok vi] vs_okD(1) [OF ok] by auto
  have lb: "unat l < MAX_VSWITCH_LINK" using l(1) vs_okD(4) [OF ok] by (simp add: active_link_def)
  have m: "vs_members (vswitch s' ! vi) = vs_members (vswitch s ! vi) @ [l]"
    using vs_entryD [OF ok b(2)] n b(1) by (simp add: s' upd_vswitch_def vs_members_def take_Suc_conv_app_nth)
  have o: "vswitch s' ! i = vswitch s ! i" if "i \<noteq> vi" for i using that by (simp add: s' upd_vswitch_def)
  have o2: "vs_vswitch_id (vswitch s' ! i) = vs_vswitch_id (vswitch s ! i)" "active_vswitch s' i = active_vswitch s i" for i
    using b(1) by (cases "i = vi"; simp add: s' upd_vswitch_def active_vswitch_def)+
  have e: "active_link s' k = active_link s k" "vswitch_link s' = vswitch_link s" "vswitch_size s' = vswitch_size s"
    "vswitch_link_size s' = vswitch_link_size s" "port s' = port s" for k by (auto simp: s' upd_vswitch_def active_link_def)
  have "vswitch_conf_ok v" if v: "v \<in> set (vswitch s')" for v
  proof -
    from v have "v = (vswitch s ! vi)\<lparr>vs_port_size := n + 1, vs_link_id := (vs_link_id (vswitch s ! vi))[n := l]\<rparr> \<or> v \<in> set (vswitch s)"
      using set_update_subset_insert by (fastforce simp: s' upd_vswitch_def)
    with n vs_entryD [OF ok b(2)] ok lb show ?thesis by (auto simp: vs_ok_def vs_sizes_ok_def vswitch_conf_ok_def link_ids_ok_update)
  qed
  moreover have "vs_port_size (vswitch s' ! i) = 0" if "i < MAX_VSWITCH" "vswitch_size s \<le> i" for i
    using that ok vi o [of i] by (auto simp: vs_ok_def vs_sizes_ok_def active_vswitch_def)
  moreover have "length (vswitch s') = length (vswitch s)" by (simp add: s' upd_vswitch_def)
  ultimately have "vs_sizes_ok s'" using ok unfolding vs_ok_def vs_sizes_ok_def e by (metis (no_types, lifting))
  moreover have "distinct (vs_members (vswitch s' ! i)) \<and> (\<forall>m \<in> set (vs_members (vswitch s' ! i)). active_link s (unat m)
      \<and> vl_vswitch_id (vswitch_link s ! unat m) = vs_vswitch_id (vswitch s ! i))" if "active_vswitch s i" for i
    using vs_linksD [OF ok that] l m o [of i] by (cases "i = vi") auto
  then have "vs_links_ok s'" using ok unfolding vs_ok_def vs_links_ok_def e o2 by blast
  ultimately show ?thesis using m by (simp add: vs_ok_def)
qed

lemma upd_link_other:
  assumes "vs_ok s" "\<And>x. vl_vswitch_link_id (f x) = vl_vswitch_link_id x \<and> vl_port_id (f x) = vl_port_id x
      \<and> vl_vswitch_id (f x) = vl_vswitch_id x \<and> vl_is_deleted (f x) = vl_is_deleted x"
  shows "vs_ok (upd_link l f s)" "active_link (upd_link l f s) k = active_link s k"
    "vswitch (upd_link l f s) = vswitch s" "active_vswitch (upd_link l f s) i = active_vswitch s i"
    "vl_vswitch_id (vswitch_link (upd_link l f s) ! k) = vl_vswitch_id (vswitch_link s ! k)"
    "vl_port_id (vswitch_link (upd_link l f s) ! k) = vl_port_id (vswitch_link s ! k)"
    "vl_vswitch_link_id (vswitch_link (upd_link l f s) ! k) = vl_vswitch_link_id (vswitch_link s ! k)"
proof -
  have nth: "vswitch_link (upd_link l f s) ! k = vswitch_link s ! k \<or> vswitch_link (upd_link l f s) ! k = f (vswitch_link s ! k)" for k
    by (cases "l < length (vswitch_link s)"; cases "l = k") (simp_all add: upd_link_def list_update_beyond)
  have sz: "vswitch_link_size (upd_link l f s) = vswitch_link_size s" by (simp add: upd_link_def)
  have fld: "vl_vswitch_link_id (vswitch_link (upd_link l f s) ! k) = vl_vswitch_link_id (vswitch_link s ! k)"
    "vl_port_id (vswitch_link (upd_link l f s) ! k) = vl_port_id (vswitch_link s ! k)"
    "vl_vswitch_id (vswitch_link (upd_link l f s) ! k) = vl_vswitch_id (vswitch_link s ! k)"
    "active_link (upd_link l f s) k = active_link s k" for k
    using nth [of k] assms(2) [of "vswitch_link s ! k"] unfolding active_link_def sz by metis+
  have v: "vswitch (upd_link l f s) = vswitch s" "active_vswitch (upd_link l f s) i = active_vswitch s i" for i
    by (auto simp: upd_link_def active_vswitch_def)
  from fld v show "active_link (upd_link l f s) k = active_link s k"
    "vswitch (upd_link l f s) = vswitch s" "active_vswitch (upd_link l f s) i = active_vswitch s i"
    "vl_vswitch_id (vswitch_link (upd_link l f s) ! k) = vl_vswitch_id (vswitch_link s ! k)"
    "vl_port_id (vswitch_link (upd_link l f s) ! k) = vl_port_id (vswitch_link s ! k)"
    "vl_vswitch_link_id (vswitch_link (upd_link l f s) ! k) = vl_vswitch_link_id (vswitch_link s ! k)" by auto
  have "unat (vl_port_id vl) < MAX_ETH_PORTS" if "vl \<in> set (vswitch_link (upd_link l f s))" for vl
  proof -
    from that obtain k where "k < length (vswitch_link s)" "vl = vswitch_link (upd_link l f s) ! k"
      by (auto simp: in_set_conv_nth upd_link_def)
    with fld(2) [of k] assms(1) show ?thesis by (simp add: vs_ok_def vs_sizes_ok_def)
  qed
  then have "vs_sizes_ok (upd_link l f s)" using assms(1) by (simp add: vs_ok_def vs_sizes_ok_def upd_link_def)
  moreover have "vs_links_ok (upd_link l f s)" using assms(1) unfolding vs_ok_def vs_links_ok_def fld v by blast
  ultimately show "vs_ok (upd_link l f s)" by (simp add: vs_ok_def)
qed

lemma upd_port_other:
  assumes "vs_ok s" "\<And>p. port_conf_ok p \<Longrightarrow> p = port s ! i \<Longrightarrow> port_conf_ok (f p)"
  shows "vs_ok (upd_port i f s)"
proof -
  have ps: "port_conf_ok p"
    if "p \<in> set (port s)" for p using that assms(1) by (simp add: vs_ok_def vs_sizes_ok_def)
  have "port_conf_ok p"
    if "p \<in> set (port (upd_port i f s))" for p
  proof (cases "i < length (port s)")
    case True
    with that have "p = f (port s ! i) \<or> p \<in> set (port s)" using set_update_subset_insert by (fastforce simp: upd_port_def)
    with ps assms(2) [of "port s ! i"] True show ?thesis by auto
  next
    case False
    with that ps show ?thesis by (simp add: upd_port_def list_update_beyond)
  qed
  moreover have "vswitch_size (upd_port i f s) = vswitch_size s" "vswitch_link_size (upd_port i f s) = vswitch_link_size s"
    "vswitch (upd_port i f s) = vswitch s" "vswitch_link (upd_port i f s) = vswitch_link s" "length (port (upd_port i f s)) = length (port s)"
    by (auto simp: upd_port_def)
  ultimately show ?thesis using assms(1) unfolding vs_ok_def vs_sizes_ok_def vs_links_ok_def active_link_def active_vswitch_def
    by simp
qed

lemma link_slot_cases:
  assumes "vs_ok s" "link_slot s = (s1, lo)"
  obtains (full) "lo = None" "s1 = s" "vswitch_link_size s = MAX_VSWITCH_LINK" "\<forall>l<MAX_VSWITCH_LINK. active_link s l"
  | (slot) l n x where "lo = Some l" "s1 = s\<lparr>vswitch_link_size := n, vswitch_link := (vswitch_link s)[l := x]\<rparr>"
      "l < n" "vswitch_link_size s \<le> n" "n \<le> MAX_VSWITCH_LINK" "\<not> active_link s l"
      "n = vswitch_link_size s \<or> n = Suc (vswitch_link_size s) \<and> l = vswitch_link_size s"
proof (cases "List.find (\<lambda>i. vl_is_deleted (vswitch_link s ! i)) [0..<vswitch_link_size s]")
  case None
  show ?thesis
  proof (cases "MAX_VSWITCH_LINK \<le> vswitch_link_size s")
    case True
    then have e: "vswitch_link_size s = MAX_VSWITCH_LINK" using vs_okD(4) [OF assms(1)] by simp
    moreover from None e have "\<forall>l<MAX_VSWITCH_LINK. active_link s l" by (simp add: find_upt_None active_link_def)
    ultimately show ?thesis using full assms(2) None True by (simp add: link_slot_def)
  next
    case False
    show ?thesis
      by (rule slot [where l = "vswitch_link_size s" and n = "Suc (vswitch_link_size s)" and x = "vswitch_link s ! vswitch_link_size s"])
        (use assms(2) None False in \<open>auto simp: link_slot_def active_link_def\<close>)
  qed
next
  case (Some l)
  show ?thesis
    by (rule slot [where l = l and n = "vswitch_link_size s" and x = zero_vswitch_link])
      (use assms(2) Some find_upt_Some [OF Some] vs_okD(4) [OF assms(1)] in \<open>auto simp: link_slot_def active_link_def upd_link_def\<close>)
qed

text \<open>What a new link changes.\<close>

definition link_added :: "nat \<Rightarrow> nat \<Rightarrow> 'a vs_info_scheme \<Rightarrow> 'a vs_info_scheme \<Rightarrow> nat \<Rightarrow> bool" where
  "link_added vi pi s s' l \<longleftrightarrow>
     \<not> active_link s l \<and> (\<forall>k. active_link s' k \<longleftrightarrow> active_link s k \<or> k = l)
     \<and> (\<forall>k. k \<noteq> l \<longrightarrow> vl_vswitch_id (vswitch_link s' ! k) = vl_vswitch_id (vswitch_link s ! k)
          \<and> vl_port_id (vswitch_link s' ! k) = vl_port_id (vswitch_link s ! k))
     \<and> vl_vswitch_id (vswitch_link s' ! l) = vs_vswitch_id (vswitch s ! vi)
     \<and> vl_port_id (vswitch_link s' ! l) = dpdk_port_id (port s ! pi)
     \<and> vl_vswitch_link_id (vswitch_link s' ! l) = of_nat l
     \<and> (\<forall>i. active_vswitch s' i = active_vswitch s i) \<and> (\<forall>i. vs_vswitch_id (vswitch s' ! i) = vs_vswitch_id (vswitch s ! i))
     \<and> (\<forall>i. i \<noteq> vi \<longrightarrow> vswitch s' ! i = vswitch s ! i)
     \<and> vs_members (vswitch s' ! vi) = (if length (vs_members (vswitch s ! vi)) < MAX_VSWITCH_PORTS
         then vs_members (vswitch s ! vi) @ [of_nat l] else vs_members (vswitch s ! vi))"

lemma vswitch_link_new_cases:
  assumes ok: "vs_ok s" and vi: "active_vswitch s vi" and pi: "pi < MAX_ETH_PORTS"
    and new: "vswitch_link_new s vi pi = (s', lo)"
  obtains (full) "lo = None" "s' = s" "\<forall>l<MAX_VSWITCH_LINK. active_link s l"
  | (added) l where "lo = Some l" "vs_ok s'" "link_added vi pi s s' l" "port s' = port s"
proof -
  obtain s1 lo1 where sl: "link_slot s = (s1, lo1)" by fastforce
  from ok sl show ?thesis
  proof (cases rule: link_slot_cases)
    case full
    with that(1) new sl show ?thesis by (simp add: vswitch_link_new_def)
  next
    case (slot l n x)
    let ?v = "vswitch s ! vi" and ?p = "port s ! pi"
    define nl where "nl = link_init l ?v ?p x"
    define s2 where "s2 = s\<lparr>vswitch_link_size := n, vswitch_link := (vswitch_link s)[l := nl]\<rparr>"
    have ll: "l < length (vswitch_link s)" "l < 32" using slot vs_okD(3) [OF ok] by (auto simp: MAX_VSWITCH_LINK_def)
    then have u: "unat (of_nat l :: u16) = l" by (simp add: unat_of_nat take_bit_nat_eq_self)
    have "unat (dpdk_port_id ?p) < MAX_ETH_PORTS" using ok pi vs_okD(5) [OF ok] by (auto simp: vs_ok_def vs_sizes_ok_def port_conf_ok_def)
    then have nl: "vl_vswitch_link_id nl = of_nat l" "unat (vl_port_id nl) < MAX_ETH_PORTS" "\<not> vl_is_deleted nl"
      by (simp_all add: nl_def link_init_def)
    from install_link [OF ok s2_def slot(3-5,7,6) nl] have ok2: "vs_ok s2" "active_link s2 k \<longleftrightarrow> active_link s k \<or> k = l" for k by auto
    have v2: "vswitch s2 = vswitch s" "active_vswitch s2 i = active_vswitch s i" for i by (auto simp: s2_def active_vswitch_def)
    have l2: "vswitch_link s2 ! l = nl" "k \<noteq> l \<longrightarrow> vswitch_link s2 ! k = vswitch_link s ! k" for k using ll by (auto simp: s2_def)
    have s2': "upd_link l (link_init l (vswitch s1 ! vi) (port s1 ! pi)) s1 = s2"
      using ll by (simp add: slot(2) s2_def nl_def upd_link_def)
    have sz: "length (vs_members ?v) = vs_port_size ?v" using vs_entryD [OF ok active_bound [OF ok vi]] by (simp add: vs_members_def)
    have nm: "of_nat l \<notin> set (vs_members ?v)" using vs_linksD(2) [OF ok vi] u slot(6) by metis
    show ?thesis
    proof (cases "vs_port_size ?v < MAX_VSWITCH_PORTS")
      case False
      then have "s' = s2" "lo = Some l" using new sl slot(1) s2' v2 by (auto simp: vswitch_link_new_def Let_def)
      moreover have "link_added vi pi s s2 l"
        using ok2 v2 l2 False slot(6) sz by (simp add: link_added_def nl_def link_init_def)
      ultimately show ?thesis using that(2) ok2(1) by (simp add: s2_def)
    next
      case True
      define s3 where "s3 = upd_vswitch vi (\<lambda>v. v\<lparr>vs_port_size := vs_port_size ?v + 1, vs_link_id := (vs_link_id v)[vs_port_size ?v := of_nat l]\<rparr>) s2"
      have ap: "vs_ok s3 \<and> vs_members (vswitch s3 ! vi) = vs_members ?v @ [of_nat l]"
        using append_member [OF ok2(1), of vi "vs_port_size ?v" "of_nat l", OF _ _ True _ _ _ s3_def] v2 vi nm ok2 l2 u
        by (simp add: nl_def link_init_def)
      have s3: "active_link s3 k = active_link s2 k" "vswitch_link s3 = vswitch_link s2" "port s3 = port s2"
        "active_vswitch s3 i = active_vswitch s2 i" "vs_vswitch_id (vswitch s3 ! i) = vs_vswitch_id (vswitch s2 ! i)"
        "i \<noteq> vi \<longrightarrow> vswitch s3 ! i = vswitch s2 ! i" for k i
        using active_bound [OF ok vi] vs_okD(1) [OF ok]
        by (cases "i = vi"; simp add: s3_def upd_vswitch_def active_link_def active_vswitch_def v2)+
      define s4 where "s4 = upd_link l (\<lambda>vl. vl\<lparr>vl_vswitch_port := of_nat (vs_port_size ?v)\<rparr>) s3"
      have s4: "s' = s4" "lo = Some l" using new sl slot(1) s2' v2 True by (auto simp: vswitch_link_new_def Let_def s4_def s3_def)
      note keep = upd_link_other [of s3 "\<lambda>vl. vl\<lparr>vl_vswitch_port := of_nat (vs_port_size ?v)\<rparr>", folded s4_def]
      have "link_added vi pi s s4 l"
        using keep ap s3 ok2 v2 l2 True slot(6) sz
        by (simp add: link_added_def s4_def nl_def link_init_def)
      moreover have "vs_ok s4" using keep(1) ap by (simp add: s4_def)
      moreover have "port s4 = port s" by (simp add: s4_def upd_link_def s3_def upd_vswitch_def s2_def)
      ultimately show ?thesis using that(2) s4 by simp
    qed
  qed
qed

lemma vswitch_new_cases:
  assumes ok: "vs_ok s" and fresh: "vswitch_lookup s vid = None" and new: "vswitch_new s vid vlan = (s', vo)"
  obtains (full) "vo = None" "s' = s" "\<forall>i<MAX_VSWITCH. active_vswitch s i"
  | (added) vi where "vo = Some vi" "vs_ok s'" "vswitch_lookup s' vid = Some vi" "vs_members (vswitch s' ! vi) = []"
      "\<not> active_vswitch s vi" "\<forall>i. active_vswitch s i \<longrightarrow> active_vswitch s' i \<and> vswitch s' ! i = vswitch s ! i"
      "vswitch_link s' = vswitch_link s" "vswitch_link_size s' = vswitch_link_size s"
proof -
  have install: thesis
    if s': "s' = s\<lparr>vswitch_size := n, vswitch := (vswitch s)[vi := nv]\<rparr>" "vo = Some vi" "vi < n" "vswitch_size s \<le> n" "n \<le> MAX_VSWITCH"
      "n = vswitch_size s \<or> n = Suc (vswitch_size s) \<and> vi = vswitch_size s" "\<not> active_vswitch s vi"
      and nv: "vs_vswitch_id nv = vid" "vs_port_size nv = 0" "length (vs_link_id nv) = MAX_VSWITCH_PORTS" "\<not> vs_is_deleted nv"
        "link_ids_ok (vs_link_id nv)" for n vi nv
  proof -
    have len: "vi < length (vswitch s)" using s' vs_okD(1) [OF ok] by simp
    have act: "active_vswitch s' i \<longleftrightarrow> active_vswitch s i \<or> i = vi" for i
      using s'(3-7) len nv(4) by (cases "i = vi") (auto simp: active_vswitch_def s'(1))
    have nth: "vswitch s' ! i = (if i = vi then nv else vswitch s ! i)" for i using len by (simp add: s'(1))
    have lk: "active_link s' k = active_link s k" "vswitch_link s' = vswitch_link s" "vswitch_link_size s' = vswitch_link_size s" "port s' = port s" for k
      by (auto simp: s'(1) active_link_def)
    have uniq: "vs_vswitch_id (vswitch s ! i) \<noteq> vid" if "active_vswitch s i" for i
      using fresh that by (auto simp: vswitch_lookup_def find_upt_None active_vswitch_def)
    have "vswitch_conf_ok v" if v: "v \<in> set (vswitch s')" for v
    proof -
      from v have "v = nv \<or> v \<in> set (vswitch s)" using set_update_subset_insert by (fastforce simp: s'(1))
      with nv ok show ?thesis by (auto simp: vs_ok_def vs_sizes_ok_def vswitch_conf_ok_def)
    qed
    moreover have "vs_port_size (vswitch s' ! i) = 0" if "i < MAX_VSWITCH" "vswitch_size s' \<le> i" for i
    proof -
      have "vswitch_size s \<le> i" using that(2) s'(4) by (simp add: s'(1))
      with that(1) ok nv(2) show ?thesis by (simp add: nth vs_ok_def vs_sizes_ok_def)
    qed
    ultimately have "vs_sizes_ok s'" using ok s'(5) by (auto simp: vs_ok_def vs_sizes_ok_def s'(1))
    moreover have "vs_links_ok s'"
      unfolding vs_links_ok_def lk act using ok nv s'(7)
      by (auto simp: nth vs_ok_def vs_links_ok_def vs_members_def dest: uniq)
    ultimately have ok': "vs_ok s'" by (simp add: vs_ok_def)
    have "vswitch_lookup s' vid = Some vi" using vswitch_lookup_active [OF ok', of vi] act nth nv(1) by simp
    then show thesis using that(1,2) ok' act nth nv(2) s'(2,7) lk added by (metis take0 vs_members_def)
  qed
  show thesis
  proof (cases "List.find (\<lambda>i. vs_is_deleted (vswitch s ! i)) [0..<vswitch_size s]")
    case None
    show thesis
    proof (cases "MAX_VSWITCH \<le> vswitch_size s")
      case True
      with vs_okD(2) [OF ok] None have "\<forall>i<MAX_VSWITCH. active_vswitch s i" by (simp add: find_upt_None active_vswitch_def)
      with full new None True show thesis by (simp add: vswitch_new_def)
    next
      case False
      let ?v = "vswitch s ! vswitch_size s"
      have z: "vs_port_size ?v = 0" "length (vs_link_id ?v) = MAX_VSWITCH_PORTS" "link_ids_ok (vs_link_id ?v)"
        using False ok vs_entryD(1,3) [OF ok] by (auto simp: vs_ok_def vs_sizes_ok_def)
      show thesis
        by (rule install [where n = "Suc (vswitch_size s)" and vi = "vswitch_size s" and nv = "vswitch_init vid vlan ?v"])
          (use new None False z in \<open>auto simp: vswitch_new_def upd_vswitch_def vswitch_init_def active_vswitch_def\<close>)
    qed
  next
    case (Some i)
    note i = find_upt_Some [OF Some]
    show thesis
    proof (rule install [where n = "vswitch_size s" and vi = i and nv = "vswitch_init vid vlan zero_vswitch"])
      show "s' = s\<lparr>vswitch_size := vswitch_size s, vswitch := (vswitch s)[i := vswitch_init vid vlan zero_vswitch]\<rparr>" "vo = Some i"
        using new Some by (simp_all add: vswitch_new_def upd_vswitch_def)
    qed (use i vs_okD(2) [OF ok] in \<open>simp_all add: active_vswitch_def vswitch_init_def zero_vswitch_def link_ids_ok_def MAX_VSWITCH_LINK_def\<close>)
  qed
qed

lemma msg_vswitch_set_ok:
  assumes "vs_ok s"
  shows "vs_ok (msg_vswitch_set vid vlan s)"
proof (cases "vswitch_lookup s vid")
  case None
  obtain s' vo where new: "vswitch_new s vid vlan = (s', vo)" by fastforce
  from assms None new have "vs_ok s'" by (cases rule: vswitch_new_cases) (use assms in auto)
  with None new show ?thesis by (simp add: msg_vswitch_set_def)
qed (use assms in \<open>simp add: msg_vswitch_set_def\<close>)

lemma msg_vswitch_port_set_eq:
  assumes "vs_ok s" "vswitch_lookup s (mvp_vswitch_id m) = Some vi" "unat (mvp_port_id m) < MAX_ETH_PORTS"
    and "vswitch_link_new s vi (unat (mvp_port_id m)) = (s1, Some l)"
  shows "\<exists>f g. msg_vswitch_port_set m s = upd_port (unat (mvp_port_id m)) g (upd_link l f s1)
    \<and> (\<forall>x. vl_vswitch_link_id (f x) = vl_vswitch_link_id x \<and> vl_port_id (f x) = vl_port_id x
          \<and> vl_vswitch_id (f x) = vl_vswitch_id x \<and> vl_is_deleted (f x) = vl_is_deleted x)
    \<and> dpdk_port_id (g (port s1 ! unat (mvp_port_id m))) = dpdk_port_id (port s1 ! unat (mvp_port_id m))
    \<and> (unat (vl_vswitch_link_id (vswitch_link s1 ! l)) < MAX_VSWITCH_LINK \<longrightarrow> port_conf_ok (port s1 ! unat (mvp_port_id m))
          \<longrightarrow> port_conf_ok (g (port s1 ! unat (mvp_port_id m))))"
proof -
  let ?pi = "unat (mvp_port_id m)" and ?x = "vswitch_link s1 ! l"
  have id: "s1 = upd_link l (\<lambda>x. x) s1" "t = upd_port i (\<lambda>p. p) t" for t :: "'a vs_info_scheme" and i
    by (simp_all add: upd_link_def upd_port_def)
  show ?thesis
  proof (cases "mvp_is_tagged m")
    case False
    then show ?thesis using assms(2,4)
      by (intro exI [of _ "\<lambda>vl. vl\<lparr>vl_tag_id := 0\<rparr>"] exI [of _ "\<lambda>p. p\<lparr>vswitch_link_id_of_native_vlan := vl_vswitch_link_id ?x\<rparr>"])
        (simp add: msg_vswitch_port_set_def port_set_native_vlan_def Let_def port_conf_ok_def)
  next
    case True
    define f :: "vswitch_link \<Rightarrow> vswitch_link" where "f = (if mvp_tag_id m \<noteq> 0 \<and> mvp_tag_id m \<noteq> vl_tag_id ?x then (\<lambda>vl. vl\<lparr>vl_tag_id := mvp_tag_id m\<rparr>) else (\<lambda>x. x))"
    define s2 where "s2 = upd_link l f s1"
    have e: "msg_vswitch_port_set m s = port_add_tagged_vlan ?pi l s2"
      using True assms(2,4) by (simp add: msg_vswitch_port_set_def Let_def f_def s2_def upd_link_def)
    have p: "port s2 = port s1" by (simp add: s2_def upd_link_def)
    define g :: "port_conf \<Rightarrow> port_conf" where "g = (\<lambda>p. if MAX_VLAN_PER_PORT \<le> vlan_size p then p else p\<lparr>vlan_size := vlan_size p + 1,
             vswitch_link_id_of_vlan := (vswitch_link_id_of_vlan p)[vlan_size p := vl_vswitch_link_id (vswitch_link s2 ! l)]\<rparr>)"
    have "port_add_tagged_vlan ?pi l s2 = upd_port ?pi g s2" by (simp add: port_add_tagged_vlan_def g_def upd_port_def)
    moreover have "vl_vswitch_link_id (vswitch_link s2 ! l) = vl_vswitch_link_id ?x"
      by (cases "l < length (vswitch_link s1)") (auto simp: s2_def upd_link_def f_def list_update_beyond)
    ultimately show ?thesis using e p
      by (intro exI [of _ f] exI [of _ g]) (auto simp: s2_def g_def f_def port_conf_ok_def link_ids_ok_update)
  qed
qed

text \<open>A port is added to a switch that has room for it.\<close>

lemma msg_vswitch_port_set_cases:
  assumes ok: "vs_ok s" and vi: "vswitch_lookup s (mvp_vswitch_id m) = Some vi" and pi: "unat (mvp_port_id m) < MAX_ETH_PORTS"
  obtains (full) "msg_vswitch_port_set m s = s" "\<forall>l<MAX_VSWITCH_LINK. active_link s l"
  | (added) l where "vs_ok (msg_vswitch_port_set m s)" "link_added vi (unat (mvp_port_id m)) s (msg_vswitch_port_set m s) l"
      "\<forall>i. dpdk_port_id (port (msg_vswitch_port_set m s) ! i) = dpdk_port_id (port s ! i)"
proof -
  obtain s1 lo where new: "vswitch_link_new s vi (unat (mvp_port_id m)) = (s1, lo)" by fastforce
  from ok vswitch_lookup_Some [OF vi, THEN conjunct1] pi new show thesis
  proof (cases rule: vswitch_link_new_cases)
    case full
    with that(1) new vi show thesis by (simp add: msg_vswitch_port_set_def Let_def)
  next
    case (added l)
    let ?pi = "unat (mvp_port_id m)"
    from msg_vswitch_port_set_eq [OF ok vi pi new [unfolded added(1)]] obtain f g where
      e: "msg_vswitch_port_set m s = upd_port ?pi g (upd_link l f s1)"
      and f: "\<And>x. vl_vswitch_link_id (f x) = vl_vswitch_link_id x \<and> vl_port_id (f x) = vl_port_id x
          \<and> vl_vswitch_id (f x) = vl_vswitch_id x \<and> vl_is_deleted (f x) = vl_is_deleted x"
      and g: "dpdk_port_id (g (port s1 ! ?pi)) = dpdk_port_id (port s1 ! ?pi)"
        "unat (vl_vswitch_link_id (vswitch_link s1 ! l)) < MAX_VSWITCH_LINK \<longrightarrow> port_conf_ok (port s1 ! ?pi) \<longrightarrow> port_conf_ok (g (port s1 ! ?pi))"
      by blast
    have "active_link s1 l" "vl_vswitch_link_id (vswitch_link s1 ! l) = of_nat l" using added(3) by (simp_all add: link_added_def)
    then have lb: "unat (vl_vswitch_link_id (vswitch_link s1 ! l)) < MAX_VSWITCH_LINK"
      using vs_okD(4) [OF added(2)] by (simp add: active_link_def MAX_VSWITCH_LINK_def unat_of_nat take_bit_nat_eq_self)
    note k = upd_link_other [OF added(2), of f l, OF f]
    have p: "port (upd_link l f s1) = port s1" by (simp add: upd_link_def)
    have "vs_ok (msg_vswitch_port_set m s)" unfolding e by (rule upd_port_other [OF k(1)]) (use g p lb in auto)
    moreover have "vswitch (upd_port i h t) = vswitch t" "vswitch_link (upd_port i h t) = vswitch_link t"
      "active_link (upd_port i h t) j = active_link t j" "active_vswitch (upd_port i h t) j = active_vswitch t j"
      for i h j and t :: "'a vs_info_scheme" by (simp_all add: upd_port_def active_link_def active_vswitch_def)
    then have "link_added vi ?pi s (msg_vswitch_port_set m s) l"
      using added(3) k unfolding e link_added_def by simp
    moreover have "dpdk_port_id (port (msg_vswitch_port_set m s) ! i) = dpdk_port_id (port s ! i)" for i
      using g(1) p added(4) pi vs_okD(5) [OF ok] by (cases "i = ?pi") (auto simp: e upd_port_def)
    ultimately show thesis using that(2) by blast
  qed
qed

section \<open>Messages\<close>

lemma msg_vswitch_port_no_set_cases:
  assumes ok: "vs_ok s"
  obtains (none) "msg_vswitch_port_no_set m s = Some s"
  | (deleted) vi l s' where "vswitch_lookup s (mvp_vswitch_id m) = Some vi"
      "vswitch_link_lookup s vi (unat (mvp_port_id m)) = Some l" "active_link s l"
      "msg_vswitch_port_no_set m s = Some s'" "vs_ok s'" "link_deleted vi s s' l"
proof (cases "vswitch_lookup s (mvp_vswitch_id m)")
  case None
  with none show thesis by (simp add: msg_vswitch_port_no_set_def)
next
  case (Some vi)
  show thesis
  proof (cases "vswitch_link_lookup s vi (unat (mvp_port_id m))")
    case None
    with none Some show thesis by (simp add: msg_vswitch_port_no_set_def)
  next
    case l: (Some l)
    from find_upt_Some [OF l [unfolded vswitch_link_lookup_def]]
    have act: "active_link s l" "vl_vswitch_id (vswitch_link s ! l) = vs_vswitch_id (vswitch s ! vi)" by (auto simp: active_link_def)
    note vi = vswitch_lookup_Some [OF Some]
    have id: "vl_vswitch_link_id (vswitch_link s ! l) = of_nat l" using ok act by (simp add: vs_ok_def vs_links_ok_def)
    from vswitch_link_delete_Some [OF ok act(1)] act(2) vi Some
    obtain s' where s': "vswitch_link_delete s (of_nat l) = Some s'" "link_deleted vi s s' l" by auto
    from link_deleted_ok [OF ok _ s'(2) act(2)] vi have "vs_ok s'" by simp
    with s' deleted [OF Some l act(1)] Some l id show thesis by (simp add: msg_vswitch_port_no_set_def)
  qed
qed

lemma msg_vswitch_port_set_ok:
  assumes "vs_ok s" "unat (mvp_port_id m) < MAX_ETH_PORTS"
  shows "vs_ok (msg_vswitch_port_set m s)"
proof (cases "vswitch_lookup s (mvp_vswitch_id m)")
  case None
  with assms show ?thesis by (simp add: msg_vswitch_port_set_def)
next
  case (Some vi)
  from assms(1) Some assms(2) show ?thesis by (cases rule: msg_vswitch_port_set_cases) (use assms in auto)
qed

datatype vs_request =
    VsSet u16 u16
  | VsNoSet u16
  | VsPortSet internal_msg_vswitch_port
  | VsPortNoSet internal_msg_vswitch_port

definition vs_step :: "(if_rings \<times> 'a vs_info_scheme) option \<Rightarrow> vs_request \<Rightarrow> (if_rings \<times> 'a vs_info_scheme) option" where
  "vs_step rso req = Option.bind rso (\<lambda>(rings, s).
     case req of
       VsSet vid vlan \<Rightarrow> Some (rings, msg_vswitch_set vid vlan s)
     | VsNoSet vid \<Rightarrow> msg_vswitch_no_set vid (rings, s)
     | VsPortSet m \<Rightarrow> Some (rings, msg_vswitch_port_set m s)
     | VsPortNoSet m \<Rightarrow> map_option (Pair rings) (msg_vswitch_port_no_set m s))"

definition vs_valid :: "vs_request \<Rightarrow> bool" where
  "vs_valid req = (case req of VsPortSet m \<Rightarrow> unat (mvp_port_id m) < MAX_ETH_PORTS | _ \<Rightarrow> True)"

definition vs_start :: vs_info where
  "vs_start = \<lparr>vswitch_size = 0, vswitch_link_size = 0, vswitch = replicate MAX_VSWITCH zero_vswitch,
     vswitch_link = replicate MAX_VSWITCH_LINK zero_vswitch_link,
     port = map (\<lambda>i. zero_port\<lparr>dpdk_port_id := of_nat i\<rparr>) [0..<MAX_ETH_PORTS]\<rparr>"

definition no_rings :: if_rings where
  "no_rings = \<lparr>router_if_ring_up = Map.empty, router_if_ring_dn = Map.empty, capture_if_ring_up = Map.empty, capture_if_ring_dn = Map.empty\<rparr>"

lemma vs_ok_start: "vs_ok vs_start"
proof -
  have "unat (of_nat i :: u16) < MAX_ETH_PORTS" if "i < MAX_ETH_PORTS" for i
    using that by (simp add: unat_of_nat take_bit_nat_eq_self MAX_ETH_PORTS_def)
  then show ?thesis
    by (auto simp: vs_ok_def vs_sizes_ok_def vs_links_ok_def vs_start_def active_vswitch_def active_link_def
        zero_vswitch_def zero_port_def zero_vswitch_link_def vswitch_conf_ok_def port_conf_ok_def link_ids_ok_def nth_replicate
        MAX_VSWITCH_LINK_def MAX_ETH_PORTS_def)
qed

lemma msg_vswitch_no_set_ok:
  assumes "vs_ok s"
  shows "\<exists>r s'. msg_vswitch_no_set vid (rings, s) = Some (r, s') \<and> vs_ok s'"
proof (cases "vswitch_lookup s vid")
  case None
  with assms show ?thesis by (simp add: msg_vswitch_no_set_def)
next
  case (Some vi)
  from vswitch_delete_Some [OF assms Some, of rings] obtain r s2 where
    "vswitch_delete rings s vid = Some (r, upd_vswitch vi (\<lambda>v. v\<lparr>vs_is_deleted := True\<rparr>) s2)" "vs_ok s2" by blast
  moreover from this(2) have "vs_ok (upd_vswitch vi (\<lambda>v. v\<lparr>vs_is_deleted := True\<rparr>) s2)" by (rule upd_vswitch_other) simp
  ultimately show ?thesis using Some by (simp add: msg_vswitch_no_set_def)
qed

interpretation vsw: stepping vs_step "\<lambda>rso. \<exists>r s. rso = Some (r, s) \<and> vs_ok s" vs_valid
proof
  fix rso :: "(if_rings \<times> 'a vs_info_scheme) option" and req
  assume "\<exists>r s. rso = Some (r, s) \<and> vs_ok s" and v: "vs_valid req"
  then obtain r s where rs: "rso = Some (r, s)" "vs_ok s" by blast
  show "\<exists>r s. vs_step rso req = Some (r, s) \<and> vs_ok s"
  proof (cases req)
    case (VsSet vid vlan)
    with rs msg_vswitch_set_ok show ?thesis by (simp add: vs_step_def)
  next
    case (VsNoSet vid)
    with rs msg_vswitch_no_set_ok show ?thesis by (simp add: vs_step_def)
  next
    case (VsPortSet m)
    with v have "unat (mvp_port_id m) < MAX_ETH_PORTS" by (simp add: vs_valid_def)
    from msg_vswitch_port_set_ok [OF rs(2) this]
    show ?thesis using rs VsPortSet by (simp add: vs_step_def)
  next
    case (VsPortNoSet m)
    from rs(2) have "\<exists>s'. msg_vswitch_port_no_set m s = Some s' \<and> vs_ok s'"
      by (cases rule: msg_vswitch_port_no_set_cases [where m = m]) (use rs in auto)
    with rs VsPortNoSet show ?thesis by (auto simp: vs_step_def)
  qed
qed

text \<open>
  C11: Switch configuration is safe.  Any sequence of switch and port messages (with port
  numbers of existing ports) is processed from the empty configuration without following
  a null pointer and without a loop that does not end, and leaves the tables consistent:
  array counters in bounds, switch identifiers unique, and the ports of every switch
  distinct links that are in use, carry their own slot number and belong to that switch.
\<close>

theorem vswitch_messages_safe:
  assumes "\<forall>req \<in> set reqs. vs_valid req"
  shows "\<exists>rings s. foldl vs_step (Some (no_rings, vs_start)) reqs = Some (rings, s)
    \<and> length (vswitch s) = MAX_VSWITCH \<and> vswitch_size s \<le> MAX_VSWITCH \<and> vswitch_link_size s \<le> MAX_VSWITCH_LINK
    \<and> (\<forall>i j. active_vswitch s i \<and> active_vswitch s j \<and> vs_vswitch_id (vswitch s ! i) = vs_vswitch_id (vswitch s ! j) \<longrightarrow> i = j)
    \<and> (\<forall>i. active_vswitch s i \<longrightarrow> vs_port_size (vswitch s ! i) \<le> MAX_VSWITCH_PORTS
         \<and> distinct (vs_members (vswitch s ! i))
         \<and> (\<forall>l \<in> set (vs_members (vswitch s ! i)). active_link s (unat l)
              \<and> vl_vswitch_link_id (vswitch_link s ! unat l) = l
              \<and> vl_vswitch_id (vswitch_link s ! unat l) = vs_vswitch_id (vswitch s ! i)))"
proof -
  have "\<exists>r s. foldl vs_step (Some (no_rings, vs_start)) reqs = Some (r, s) \<and> vs_ok s"
    by (rule vsw.run_invar) (use vs_ok_start assms in auto)
  then obtain r s where s: "foldl vs_step (Some (no_rings, vs_start)) reqs = Some (r, s)" "vs_ok s" by blast
  have "vl_vswitch_link_id (vswitch_link s ! unat l) = l" if "active_link s (unat l)" for l
    using s(2) that by (simp add: vs_ok_def vs_links_ok_def)
  with s vs_okD [OF s(2)] vs_linksD [OF s(2)] vs_entryD(2) [OF s(2) active_bound [OF s(2)]] show ?thesis
    by (intro exI [of _ r] exI [of _ s]) (auto simp: vs_ok_def vs_links_ok_def)
qed

definition sample_vs_requests :: "vs_request list" where
  "sample_vs_requests =
     [VsSet 1 100,
      VsPortSet \<lparr>mvp_vswitch_id = 1, mvp_port_id = 0, mvp_tag_id = 0, mvp_is_tagged = True\<rparr>,
      VsPortSet \<lparr>mvp_vswitch_id = 1, mvp_port_id = 3, mvp_tag_id = 0, mvp_is_tagged = False\<rparr>,
      VsPortNoSet \<lparr>mvp_vswitch_id = 1, mvp_port_id = 0, mvp_tag_id = 0, mvp_is_tagged = True\<rparr>]"

lemma vswitch_messages_safe_witness:
  "\<exists>rings s. foldl vs_step (Some (no_rings, vs_start)) sample_vs_requests = Some (rings, s)
     \<and> vswitch_size s \<le> 4 \<and> vswitch_link_size s \<le> 32"
proof -
  have "\<forall>req \<in> set sample_vs_requests. vs_valid req"
    by (simp add: sample_vs_requests_def vs_valid_def MAX_ETH_PORTS_def)
  from vswitch_messages_safe [OF this] show ?thesis by (auto simp: MAX_VSWITCH_def MAX_VSWITCH_LINK_def)
qed


definition sample_vs :: vs_info where
  "sample_vs = msg_vswitch_set 7 100 vs_start"

lemma sample_vs_ok: "vs_ok sample_vs \<and> vswitch_lookup sample_vs 7 = Some 0"
  using msg_vswitch_set_ok [OF vs_ok_start, of 7 100]
  by (simp add: sample_vs_def msg_vswitch_set_def vswitch_new_def vs_start_def vswitch_lookup_def upd_vswitch_def vswitch_init_def
      zero_vswitch_def MAX_VSWITCH_def)


lemma link_added_lookup:
  assumes ok: "vs_ok s'" and ad: "link_added vi pi s s' l" and no: "vswitch_link_lookup s vi pi = None"
    and vi: "active_vswitch s vi" and p: "dpdk_port_id (port s' ! pi) = dpdk_port_id (port s ! pi)"
  shows "vswitch_link_lookup s' vi pi = Some l"
proof -
  have no': "\<not> (vl_vswitch_id (vswitch_link s' ! k) = vs_vswitch_id (vswitch s' ! vi)
      \<and> vl_port_id (vswitch_link s' ! k) = dpdk_port_id (port s' ! pi))" if "active_link s' k" "k \<noteq> l" for k
  proof -
    from that ad have "active_link s k" "vl_vswitch_id (vswitch_link s' ! k) = vl_vswitch_id (vswitch_link s ! k)"
      "vl_port_id (vswitch_link s' ! k) = vl_port_id (vswitch_link s ! k)" by (auto simp: link_added_def)
    moreover have "vs_vswitch_id (vswitch s' ! vi) = vs_vswitch_id (vswitch s ! vi)" using ad by (simp add: link_added_def)
    ultimately show ?thesis using no p by (auto simp: vswitch_link_lookup_def find_upt_None active_link_def)
  qed
  have l: "active_link s' l" "vl_vswitch_id (vswitch_link s' ! l) = vs_vswitch_id (vswitch s' ! vi)"
    "vl_port_id (vswitch_link s' ! l) = dpdk_port_id (port s' ! pi)" using ad p by (auto simp: link_added_def)
  show ?thesis
  proof (cases "vswitch_link_lookup s' vi pi")
    case None
    with l show ?thesis by (auto simp: vswitch_link_lookup_def find_upt_None active_link_def)
  next
    case (Some k)
    from find_upt_Some [OF this [unfolded vswitch_link_lookup_def]] no' [of k] Some show ?thesis by (auto simp: active_link_def)
  qed
qed

text \<open>
  Adding a port and removing it.  If a switch has no link on a port yet, has room for
  one more port and a link slot is free, then VSWITCH_PORT_SET appends one new link to the
  switch's ports, the link is found for this switch and port, and VSWITCH_PORT_NO_SET
  restores the set of links in use and the ports of every switch.
\<close>

theorem vswitch_port_set_no_set:
  assumes ok: "vs_ok s" and vi: "vswitch_lookup s (mvp_vswitch_id m) = Some vi" and pi: "unat (mvp_port_id m) < MAX_ETH_PORTS"
    and no: "vswitch_link_lookup s vi (unat (mvp_port_id m)) = None"
    and room: "length (vs_members (vswitch s ! vi)) < MAX_VSWITCH_PORTS" "\<exists>l<MAX_VSWITCH_LINK. \<not> active_link s l"
  shows "\<exists>l s2. vswitch_link_lookup (msg_vswitch_port_set m s) vi (unat (mvp_port_id m)) = Some l \<and> \<not> active_link s l
     \<and> vs_members (vswitch (msg_vswitch_port_set m s) ! vi) = vs_members (vswitch s ! vi) @ [of_nat l]
     \<and> msg_vswitch_port_no_set m (msg_vswitch_port_set m s) = Some s2 \<and> vs_ok s2
     \<and> (\<forall>k. active_link s2 k = active_link s k) \<and> (\<forall>i. vs_members (vswitch s2 ! i) = vs_members (vswitch s ! i))"
  using ok vi pi
proof (cases rule: msg_vswitch_port_set_cases)
  case full
  with room(2) show ?thesis by blast
next
  case (added l)
  define s1 where "s1 = msg_vswitch_port_set m s"
  have ok1: "vs_ok s1" and ad: "link_added vi (unat (mvp_port_id m)) s s1 l" using added by (simp_all add: s1_def)
  have av: "active_vswitch s vi" using vswitch_lookup_Some [OF vi] by simp
  have lk: "vswitch_link_lookup s1 vi (unat (mvp_port_id m)) = Some l"
    using link_added_lookup [OF ok1 ad no av] added(3) by (simp add: s1_def)
  have av1: "active_vswitch s1 vi" and id1: "vs_vswitch_id (vswitch s1 ! vi) = mvp_vswitch_id m"
    using ad av vswitch_lookup_Some [OF vi] by (auto simp: link_added_def)
  then have vi1: "vswitch_lookup s1 (mvp_vswitch_id m) = Some vi" using vswitch_lookup_active [OF ok1] by metis
  have al: "active_link s1 l" "vl_vswitch_link_id (vswitch_link s1 ! l) = of_nat l"
    "vl_vswitch_id (vswitch_link s1 ! l) = vs_vswitch_id (vswitch s1 ! vi)" using ad by (auto simp: link_added_def)
  from vswitch_link_delete_Some [OF ok1 al(1)] al(3) vi1 id1 obtain s2 where
    d: "vswitch_link_delete s1 (of_nat l) = Some s2" "link_deleted vi s1 s2 l" by auto
  have e: "msg_vswitch_port_no_set m s1 = Some s2" using vi1 lk al(2) d(1) by (simp add: msg_vswitch_port_no_set_def)
  have m1: "vs_members (vswitch s1 ! vi) = vs_members (vswitch s ! vi) @ [of_nat l]"
    "i \<noteq> vi \<Longrightarrow> vswitch s1 ! i = vswitch s ! i" for i using ad room(1) by (auto simp: link_added_def)
  have nm: "of_nat l \<notin> set (vs_members (vswitch s ! vi))"
    using vs_linksD(1) [OF ok1 av1] m1(1) by simp
  have "vs_members (vswitch s2 ! i) = vs_members (vswitch s ! i)" for i
    using link_deleted_members(3) [OF ok1 av1 d(2)] m1 nm by (cases "i = vi") (auto simp: remove1_append remove1_idem)
  moreover have "active_link s2 k = active_link s k" for k
    using link_deleted_active_link(1) [OF d(2)] ok1 ad by (auto simp: vs_ok_def link_added_def)
  moreover have "\<not> active_link s l" using ad by (simp add: link_added_def)
  ultimately show ?thesis using lk m1(1) e link_deleted_ok [OF ok1 av1 d(2) al(3)] by (auto simp flip: s1_def)
qed

definition sample_port_msg :: internal_msg_vswitch_port where
  "sample_port_msg = \<lparr>mvp_vswitch_id = 7, mvp_port_id = 2, mvp_tag_id = 0, mvp_is_tagged = True\<rparr>"

lemma vswitch_port_set_no_set_witness:
  "\<exists>s2. msg_vswitch_port_no_set sample_port_msg (msg_vswitch_port_set sample_port_msg sample_vs) = Some s2
     \<and> (\<forall>k. active_link s2 k = active_link sample_vs k)"
proof -
  have 1: "vswitch_link_lookup sample_vs 0 2 = None" "\<exists>l<MAX_VSWITCH_LINK. \<not> active_link sample_vs l"
    "vs_members (vswitch sample_vs ! 0) = []"
    by (simp_all add: vswitch_link_lookup_def sample_vs_def active_link_def vs_members_def msg_vswitch_set_def vswitch_new_def vs_start_def
        vswitch_lookup_def upd_vswitch_def vswitch_init_def zero_vswitch_def MAX_VSWITCH_def MAX_VSWITCH_LINK_def) (auto intro: exI [of _ 0])
  from vswitch_port_set_no_set [of sample_vs sample_port_msg 0] 1 sample_vs_ok show ?thesis
    by (auto simp: sample_port_msg_def MAX_ETH_PORTS_def MAX_VSWITCH_PORTS_def)
qed

text \<open>
  The native VLAN outlives its link.  If a port has no tagged VLAN and the link of its
  native VLAN is deleted, the deletion succeeds and the link is out of use, but the port
  still names it as its native VLAN: the loop that would clear the field runs over the
  tagged VLANs, of which there are none.
\<close>

theorem native_vlan_left_dangling:
  assumes "vs_ok s" "active_link s l" "vswitch_lookup s (vl_vswitch_id (vswitch_link s ! l)) = Some vi"
    and "p = unat (vl_port_id (vswitch_link s ! l))" "vlan_size (port s ! p) = 0"
    and "vswitch_link_id_of_native_vlan (port s ! p) = of_nat l"
  shows "\<exists>s'. vswitch_link_delete s (of_nat l) = Some s' \<and> \<not> active_link s' l
           \<and> vswitch_link_id_of_native_vlan (port s' ! p) = of_nat l"
proof -
  from vswitch_link_delete_Some [OF assms(1-3)] obtain s' where
    d: "vswitch_link_delete s (of_nat l) = Some s'" "link_deleted vi s s' l" by blast
  have "port s' ! p = port s ! p"
    using d(2) assms(4,5) by (auto simp: link_deleted_def vswitch_link_remove_from_port_vlan_array_def)
  with d assms(6) link_deleted_active_link(1) [OF d(2), of l] assms(1) show ?thesis by (auto simp: vs_ok_def)
qed

definition sample_native :: vs_info where
  "sample_native = msg_vswitch_port_set (sample_port_msg\<lparr>mvp_is_tagged := False\<rparr>) sample_vs"

lemma native_vlan_left_dangling_witness:
  "\<exists>s'. vswitch_link_delete sample_native 0 = Some s' \<and> \<not> active_link s' 0
      \<and> vswitch_link_id_of_native_vlan (port s' ! 2) = 0"
proof -
  note defs = sample_native_def sample_port_msg_def msg_vswitch_port_set_def sample_vs_def vswitch_link_new_def link_slot_def link_init_def
    active_link_def msg_vswitch_set_def vswitch_new_def vs_start_def vswitch_lookup_def upd_vswitch_def upd_link_def upd_port_def
    vswitch_init_def zero_vswitch_def zero_vswitch_link_def zero_port_def port_set_native_vlan_def
    MAX_VSWITCH_def MAX_VSWITCH_LINK_def MAX_VSWITCH_PORTS_def MAX_ETH_PORTS_def MAX_VLAN_PER_PORT_def Let_def
  have ok: "vs_ok sample_native"
    unfolding sample_native_def by (rule msg_vswitch_port_set_ok) (simp_all add: sample_vs_ok sample_port_msg_def MAX_ETH_PORTS_def)
  have 1: "active_link sample_native 0" "vswitch_lookup sample_native (vl_vswitch_id (vswitch_link sample_native ! 0)) = Some 0"
    "unat (vl_port_id (vswitch_link sample_native ! 0)) = 2" "vlan_size (port sample_native ! 2) = 0"
    "vswitch_link_id_of_native_vlan (port sample_native ! 2) = 0"
    by (simp_all add: defs)
  from native_vlan_left_dangling [OF ok 1(1,2) refl] 1 show ?thesis by simp
qed

end
