(* ===== verification/Rib_Check.thy ===== *)
theory Rib_Check
  imports Vswitch "HOL-Library.Multiset"
begin

text \<open>
  \<^verbatim>\<open>rib_check\<close> of \<^verbatim>\<open>rib_manager.c\<close>: the test that the receive queues assigned to the
  lcores are the queues 0, 1, 2, ... of every port, the settings with which the ports are
  configured, and the creation of the rings of ports and of the switches' interfaces.
  Calls into DPDK are represented by the settings they are given (\<open>port_setup\<close>) and by the
  function \<open>ring_create\<close> for \<^verbatim>\<open>rte_ring_create\<close>.
\<close>

section \<open>Data\<close>

record port_queue_conf =
  pq_port_id :: u16
  pq_queue_id :: u16

record lcore_qconf =
  lq_nrxq :: nat
  rx_queue_list :: "port_queue_conf list"

text \<open>The part of \<^verbatim>\<open>struct rib_info\<close> that the check reads and writes.\<close>

record q_info = vs_info +
  lcore_size :: u8
  lcore_qconf_of :: "lcore_qconf list"

text \<open>The global rings of ports, \<^verbatim>\<open>ring_up[port][queue]\<close> and \<^verbatim>\<open>ring_dn[port][queue]\<close>.\<close>

record rings = if_rings +
  ring_up :: "nat \<times> nat \<Rightarrow> ring"
  ring_dn :: "nat \<times> nat \<Rightarrow> ring"

text \<open>The settings of one port: arguments of \<^verbatim>\<open>rte_eth_dev_configure\<close>, \<^verbatim>\<open>_set_mtu\<close>, \<^verbatim>\<open>_queue_setup\<close>.\<close>

record port_setup =
  ps_port :: nat
  ps_nrxq :: nat
  ps_ntxq :: nat
  ps_mtu :: "u16 option"
  ps_nb_rxd :: u16
  ps_nb_txd :: u16

definition RX_DESC_DEFAULT :: u16 where "RX_DESC_DEFAULT = 1024"
definition TX_DESC_DEFAULT :: u16 where "TX_DESC_DEFAULT = 1024"

section \<open>Operations\<close>

definition port_qconf_compare :: "port_queue_conf \<Rightarrow> port_queue_conf \<Rightarrow> int" where
  "port_qconf_compare pa pb =
     (if pq_port_id pa < pq_port_id pb then -1
      else if pq_port_id pb < pq_port_id pa then 1
      else if pq_queue_id pa < pq_queue_id pb then -1
      else if pq_queue_id pb < pq_queue_id pa then 1
      else 0)"

text \<open>
  The result of \<^verbatim>\<open>qsort\<close> with that comparison: insertion into a sorted list.  Elements that
  compare equal are equal, so the result does not depend on the algorithm.
\<close>

fun qsort_insert :: "port_queue_conf \<Rightarrow> port_queue_conf list \<Rightarrow> port_queue_conf list" where
  "qsort_insert x [] = [x]"
| "qsort_insert x (y # ys) = (if port_qconf_compare x y \<le> 0 then x # y # ys else y # qsort_insert x ys)"

definition qsort :: "port_queue_conf list \<Rightarrow> port_queue_conf list" where
  "qsort xs = foldr qsort_insert xs []"

definition lcore_queues :: "lcore_qconf \<Rightarrow> port_queue_conf list" where
  "lcore_queues q = take (lq_nrxq q) (rx_queue_list q)"

definition port_qconf :: "'a q_info_scheme \<Rightarrow> port_queue_conf list" where
  "port_qconf s = concat (map (\<lambda>lcore. lcore_queues (lcore_qconf_of s ! lcore)) [0..<unat (lcore_size s)])"

definition max_lcore :: "'a q_info_scheme \<Rightarrow> nat" where
  "max_lcore s = fold (\<lambda>lcore m. if lcore_queues (lcore_qconf_of s ! lcore) \<noteq> [] \<and> m < lcore then lcore else m)
     [0..<unat (lcore_size s)] 0"

text \<open>The loop over the sorted queues; \<open>nrxq\<close> is \<^verbatim>\<open>port_nrxq[]\<close>.\<close>

fun check_order :: "(nat \<Rightarrow> nat) \<Rightarrow> port_queue_conf list \<Rightarrow> (nat \<Rightarrow> nat) option" where
  "check_order nrxq [] = Some nrxq"
| "check_order nrxq (rxq # qs) =
     (if nrxq (unat (pq_port_id rxq)) = unat (pq_queue_id rxq)
      then check_order (nrxq(unat (pq_port_id rxq) := nrxq (unat (pq_port_id rxq)) + 1)) qs
      else None)"

text \<open>
  The loop over the ports.  \<open>ntxq\<close> is not reset: what one port asks for is a lower bound for
  the later ones.
\<close>

fun setup_ports :: "'a q_info_scheme \<Rightarrow> (nat \<Rightarrow> nat) \<Rightarrow> nat list \<Rightarrow> nat \<Rightarrow> port_setup list" where
  "setup_ports s port_nrxq [] ntxq = []"
| "setup_ports s port_nrxq (i # is) ntxq =
     (let p = port s ! i;
          nrxq = (if pc_nrxq p \<noteq> 0 \<and> port_nrxq i < unat (pc_nrxq p) then unat (pc_nrxq p) else port_nrxq i);
          ntxq = (if pc_ntxq p \<noteq> 0 \<and> ntxq < unat (pc_ntxq p) then unat (pc_ntxq p) else ntxq)
      in \<lparr>ps_port = i, ps_nrxq = nrxq, ps_ntxq = ntxq,
          ps_mtu = (if pc_mtu p \<noteq> 0 then Some (pc_mtu p) else None),
          ps_nb_rxd = (if pc_nb_rxd p \<noteq> 0 then pc_nb_rxd p else RX_DESC_DEFAULT),
          ps_nb_txd = (if pc_nb_txd p \<noteq> 0 then pc_nb_txd p else TX_DESC_DEFAULT)\<rparr>
         # setup_ports s port_nrxq is ntxq)"

definition make_ring :: "(ring_name \<Rightarrow> ring) \<Rightarrow> ring_name \<Rightarrow> ring \<Rightarrow> ring" where
  "make_ring ring_create name r = (case r of None \<Rightarrow> ring_create name | Some n \<Rightarrow> Some n)"

definition make_port_rings :: "(ring_name \<Rightarrow> ring) \<Rightarrow> 'a q_info_scheme \<Rightarrow> rings \<Rightarrow> rings" where
  "make_port_rings ring_create s rs =
     fold (\<lambda>rxq rs.
         let pq = (unat (pq_port_id rxq), unat (pq_queue_id rxq))
         in rs\<lparr>ring_up := (ring_up rs)(pq := make_ring ring_create (port_up (fst pq) (snd pq)) (ring_up rs pq)),
               ring_dn := (ring_dn rs)(pq := make_ring ring_create (port_dn (fst pq) (snd pq)) (ring_dn rs pq))\<rparr>)
       (concat (map lcore_queues (lcore_qconf_of s))) rs"

definition make_router_rings :: "(ring_name \<Rightarrow> ring) \<Rightarrow> nat \<Rightarrow> rings \<times> 'a q_info_scheme \<Rightarrow> rings \<times> 'a q_info_scheme" where
  "make_router_rings ring_create i rs_s =
     (case rs_s of (rs, s) \<Rightarrow>
        if rif_sockfd (vs_router_if (vswitch s ! i)) < 0 then (rs, s)
        else
          (let rs = rs\<lparr>router_if_ring_up := (router_if_ring_up rs)(i := make_ring ring_create (router_up i) (router_if_ring_up rs i)),
                       router_if_ring_dn := (router_if_ring_dn rs)(i := make_ring ring_create (router_dn i) (router_if_ring_dn rs i))\<rparr>
           in (rs, upd_vswitch i (\<lambda>v. v\<lparr>vs_router_if := (vs_router_if v)\<lparr>rif_ring_up := router_if_ring_up rs i,
                     rif_ring_dn := router_if_ring_dn rs i\<rparr>\<rparr>) s)))"

definition make_capture_rings :: "(ring_name \<Rightarrow> ring) \<Rightarrow> nat \<Rightarrow> rings \<times> 'a q_info_scheme \<Rightarrow> rings \<times> 'a q_info_scheme" where
  "make_capture_rings ring_create i rs_s =
     (case rs_s of (rs, s) \<Rightarrow>
        if cif_sockfd (vs_capture_if (vswitch s ! i)) < 0 then (rs, s)
        else
          (let rs = rs\<lparr>capture_if_ring_up := (capture_if_ring_up rs)(i := make_ring ring_create (capture_up i) (capture_if_ring_up rs i)),
                       capture_if_ring_dn := (capture_if_ring_dn rs)(i := make_ring ring_create (capture_dn i) (capture_if_ring_dn rs i))\<rparr>
           in (rs, upd_vswitch i (\<lambda>v. v\<lparr>vs_capture_if := (vs_capture_if v)\<lparr>cif_ring_up := capture_if_ring_up rs i,
                     cif_ring_dn := capture_if_ring_dn rs i\<rparr>\<rparr>) s)))"

definition make_vswitch_rings :: "(ring_name \<Rightarrow> ring) \<Rightarrow> rings \<times> 'a q_info_scheme \<Rightarrow> rings \<times> 'a q_info_scheme" where
  "make_vswitch_rings ring_create rs_s =
     fold (\<lambda>i rs_s. if vs_vlan_id (vswitch (snd rs_s) ! i) = 0 then rs_s
                    else make_capture_rings ring_create i (make_router_rings ring_create i rs_s))
       [0..<vswitch_size (snd rs_s)] rs_s"

text \<open>
  The whole check: \<open>None\<close> for the return value -1, otherwise the rings, the new
  \<^verbatim>\<open>rib_info\<close> and the settings given to the ports.
\<close>

definition rib_check ::
  "(ring_name \<Rightarrow> ring) \<Rightarrow> nat \<Rightarrow> rings \<Rightarrow> 'a q_info_scheme \<Rightarrow> (rings \<times> 'a q_info_scheme \<times> port_setup list) option"
where
  "rib_check ring_create dev_count rs s =
     (case check_order (\<lambda>_. 0) (qsort (port_qconf s)) of
        None \<Rightarrow> None
      | Some port_nrxq \<Rightarrow>
          (let setups = setup_ports s port_nrxq [0..<min dev_count MAX_ETH_PORTS] (max_lcore s + 1);
               (rs, s) = make_vswitch_rings ring_create (make_port_rings ring_create s rs, s)
           in Some (rs, s, setups)))"

section \<open>The order of queues\<close>

lemma compare_le_iff:
  "port_qconf_compare a b \<le> 0 \<longleftrightarrow> pq_port_id a < pq_port_id b \<or> pq_port_id a = pq_port_id b \<and> pq_queue_id a \<le> pq_queue_id b"
  by (auto simp: port_qconf_compare_def)

lemma mset_qsort [simp]: "mset (qsort xs) = mset xs"
proof -
  have "mset (qsort_insert x ys) = add_mset x (mset ys)" for x ys by (induction ys) auto
  then show ?thesis unfolding qsort_def by (induction xs) auto
qed

lemma sorted_qsort: "sorted_wrt (\<lambda>a b. port_qconf_compare a b \<le> 0) (qsort xs)"
proof -
  have set_ins: "set (qsort_insert x ys) = insert x (set ys)" for x ys by (induction ys) auto
  have "sorted_wrt (\<lambda>a b. port_qconf_compare a b \<le> 0) (qsort_insert x ys)"
    if "sorted_wrt (\<lambda>a b. port_qconf_compare a b \<le> 0) ys" for x ys
    using that
  proof (induction ys)
    case (Cons y ys)
    then show ?case by (auto simp: set_ins compare_le_iff)
  qed simp
  then show ?thesis unfolding qsort_def by (induction xs) auto
qed

text \<open>The queue numbers of a port.\<close>

definition queues_of :: "nat \<Rightarrow> port_queue_conf list \<Rightarrow> nat list" where
  "queues_of p qs = map (unat \<circ> pq_queue_id) (filter (\<lambda>q. unat (pq_port_id q) = p) qs)"

lemma Cons_eq_upt_iff: "x # xs = [n..<n + length (x # xs)] \<longleftrightarrow> x = n \<and> xs = [Suc n..<Suc n + length xs]"
  by (simp add: upt_conv_Cons del: upt_Suc)

lemma check_order_iff:
  "check_order nrxq qs = (if \<forall>p. queues_of p qs = [nrxq p..<nrxq p + length (queues_of p qs)]
     then Some (\<lambda>p. nrxq p + length (queues_of p qs)) else None)"
proof (induction qs arbitrary: nrxq)
  case (Cons q qs)
  let ?p = "unat (pq_port_id q)" and ?x = "unat (pq_queue_id q)"
  have qo: "queues_of p (q # qs) = (if p = ?p then ?x # queues_of p qs else queues_of p qs)" for p
    by (auto simp: queues_of_def)
  show ?case
  proof (cases "nrxq ?p = ?x")
    case True
    let ?n = "nrxq(?p := nrxq ?p + 1)"
    have c: "queues_of p (q # qs) = [nrxq p..<nrxq p + length (queues_of p (q # qs))]
        \<longleftrightarrow> queues_of p qs = [?n p..<?n p + length (queues_of p qs)]" for p
      using True Cons_eq_upt_iff [of ?x "queues_of ?p qs" "nrxq ?p"] by (cases "p = ?p") (simp_all add: qo del: upt_Suc)
    have f: "(\<lambda>p. nrxq p + length (queues_of p (q # qs))) = (\<lambda>p. ?n p + length (queues_of p qs))"
      by (auto simp: qo fun_eq_iff)
    have "check_order nrxq (q # qs) = check_order ?n qs" using True by simp
    then show ?thesis unfolding c f Cons.IH [of ?n] .
  next
    case False
    then have "queues_of ?p (q # qs) \<noteq> [nrxq ?p..<nrxq ?p + length (queues_of ?p (q # qs))]"
      using Cons_eq_upt_iff [of ?x "queues_of ?p qs" "nrxq ?p"] by (simp add: qo del: upt_Suc)
    then have "\<not> (\<forall>p. queues_of p (q # qs) = [nrxq p..<nrxq p + length (queues_of p (q # qs))])" by blast
    with False show ?thesis by simp
  qed
qed (simp add: queues_of_def)

lemma queues_of_qsort:
  "mset (queues_of p (qsort xs)) = mset (queues_of p xs)" "sorted (queues_of p (qsort xs))"
  "length (queues_of p (qsort xs)) = length (queues_of p xs)"
proof -
  show m: "mset (queues_of p (qsort xs)) = mset (queues_of p xs)" by (simp add: queues_of_def mset_filter)
  from mset_eq_length [OF this] show "length (queues_of p (qsort xs)) = length (queues_of p xs)" .
  have "sorted_wrt (\<lambda>a b. port_qconf_compare a b \<le> 0) (filter (\<lambda>q. unat (pq_port_id q) = p) (qsort xs))"
    by (rule sorted_wrt_filter [OF sorted_qsort])
  then have "sorted_wrt (\<lambda>a b. unat (pq_queue_id a) \<le> unat (pq_queue_id b)) (filter (\<lambda>q. unat (pq_port_id q) = p) (qsort xs))"
    by (rule sorted_wrt_mono_rel [rotated]) (auto simp: compare_le_iff word_le_nat_alt word_less_nat_alt)
  then show "sorted (queues_of p (qsort xs))" by (simp add: queues_of_def sorted_wrt_map)
qed

lemma sorted_perm_upt: "sorted (xs :: nat list) \<Longrightarrow> xs = [0..<n] \<longleftrightarrow> mset xs = mset [0..<n]"
  by (metis properties_for_sort sorted_sort_id sorted_upt)

lemma check_order_sorted:
  "check_order (\<lambda>_. 0) (qsort qs) =
     (if \<forall>p. mset (queues_of p qs) = mset [0..<length (queues_of p qs)]
      then Some (\<lambda>p. length (queues_of p qs)) else None)"
  using sorted_perm_upt [OF queues_of_qsort(2)] by (simp add: check_order_iff queues_of_qsort(1,3))


section \<open>Settings of the ports\<close>

lemma setup_ports_spec:
  "ps \<in> set (setup_ports s nrxq is ntxq) \<Longrightarrow>
     ps_port ps \<in> set is \<and> ps_nrxq ps = max (nrxq (ps_port ps)) (unat (pc_nrxq (port s ! ps_port ps)))
     \<and> ntxq \<le> ps_ntxq ps \<and> unat (pc_ntxq (port s ! ps_port ps)) \<le> ps_ntxq ps"
proof (induction "is" arbitrary: ntxq)
  case (Cons i "is")
  from Cons.prems consider (hd) "ps = hd (setup_ports s nrxq (i # is) ntxq)"
    | (tl) "ps \<in> set (setup_ports s nrxq is (if pc_ntxq (port s ! i) \<noteq> 0 \<and> ntxq < unat (pc_ntxq (port s ! i)) then unat (pc_ntxq (port s ! i)) else ntxq))"
    by (auto simp: Let_def)
  then show ?case
  proof cases
    case hd
    then show ?thesis by (auto simp: Let_def max_def)
  next
    case tl
    from Cons.IH [OF this] show ?thesis by (auto split: if_splits)
  qed
qed simp

lemma sorted_setup_ports: "sorted (map ps_ntxq (setup_ports s nrxq is ntxq))"
proof (induction "is" arbitrary: ntxq)
  case (Cons i "is")
  then show ?case using setup_ports_spec [of _ s nrxq "is"] by (fastforce simp: Let_def)
qed simp

lemma max_lcore_bound:
  assumes "lcore < unat (lcore_size s)" "lcore_queues (lcore_qconf_of s ! lcore) \<noteq> []"
  shows "lcore \<le> max_lcore s"
proof -
  let ?f = "\<lambda>lcore m. if lcore_queues (lcore_qconf_of s ! lcore) \<noteq> [] \<and> m < lcore then lcore else m"
  have mono: "m \<le> fold ?f ls m" for ls m
  proof (induction ls arbitrary: m)
    case (Cons l ls)
    have "m \<le> ?f l m" by simp
    also have "\<dots> \<le> fold ?f ls (?f l m)" by (rule Cons.IH)
    finally show ?case by simp
  qed simp
  have "lcore \<in> set ls \<Longrightarrow> lcore \<le> fold ?f ls m" for ls m
  proof (induction ls arbitrary: m)
    case (Cons l ls)
    show ?case
    proof (cases "l = lcore")
      case True
      have "lcore \<le> ?f lcore m" using assms(2) by simp
      with mono [of "?f lcore m" ls] True show ?thesis by simp
    qed (use Cons in simp)
  qed simp
  then show ?thesis using assms(1) by (simp add: max_lcore_def)
qed

text \<open>
  The settings given to the ports.  When the check passes, every port is configured with
  at least as many receive queues as the lcores poll, at least as many queues of either kind
  as its own configuration asks for, and a transmit queue for every lcore that polls a
  queue; the number of transmit queues never decreases from one port to the next.
\<close>

theorem rib_check_port_setups:
  assumes "rib_check ring_create dev_count rs s = Some (rs', s', setups)" "ps \<in> set setups"
  shows "ps_port ps < MAX_ETH_PORTS
    \<and> ps_nrxq ps = max (length (queues_of (ps_port ps) (port_qconf s))) (unat (pc_nrxq (port s ! ps_port ps)))
    \<and> unat (pc_ntxq (port s ! ps_port ps)) \<le> ps_ntxq ps
    \<and> (\<forall>lcore<unat (lcore_size s). lcore_queues (lcore_qconf_of s ! lcore) \<noteq> [] \<longrightarrow> lcore < ps_ntxq ps)
    \<and> sorted (map ps_ntxq setups)"
proof -
  let ?n = "\<lambda>p. length (queues_of p (port_qconf s))"
  from assms(1) have s: "setups = setup_ports s ?n [0..<min dev_count MAX_ETH_PORTS] (max_lcore s + 1)"
    by (auto simp: rib_check_def check_order_sorted split: if_splits prod.splits)
  from setup_ports_spec [OF assms(2) [unfolded s]] max_lcore_bound [of _ s] sorted_setup_ports show ?thesis
    by (fastforce simp: s)
qed

definition sample_q :: q_info where
  "sample_q = vs_info.extend vs_start
     \<lparr>lcore_size = 2, lcore_qconf_of =
        [\<lparr>lq_nrxq = 1, rx_queue_list = replicate 16 \<lparr>pq_port_id = 0, pq_queue_id = 1\<rparr>\<rparr>,
         \<lparr>lq_nrxq = 1, rx_queue_list = replicate 16 \<lparr>pq_port_id = 0, pq_queue_id = 0\<rparr>\<rparr>]\<rparr>"

definition sample_rings :: rings where
  "sample_rings = if_rings.extend no_rings \<lparr>ring_up = Map.empty, ring_dn = Map.empty\<rparr>"

lemma rib_check_port_setups_witness:
  "\<exists>rs' s' ps. rib_check Some 1 sample_rings sample_q = Some (rs', s', [ps]) \<and> ps_nrxq ps = 2 \<and> 1 < ps_ntxq ps"
proof -
  have two: "[0..<2] = [0, 1]" by (simp add: upt_conv_Cons numeral_2_eq_2)
  have q: "port_qconf sample_q = [\<lparr>pq_port_id = 0, pq_queue_id = 1\<rparr>, \<lparr>pq_port_id = 0, pq_queue_id = 0\<rparr>]"
    "lcore_queues (lcore_qconf_of sample_q ! 1) \<noteq> []" "unat (lcore_size sample_q) = 2" "port sample_q ! 0 = zero_port"
    by (simp_all add: port_qconf_def sample_q_def vs_info.extend_def lcore_queues_def two vs_start_def MAX_ETH_PORTS_def
        zero_port_def)
  have one: "[0..<min 1 MAX_ETH_PORTS] = [0]" by (simp add: MAX_ETH_PORTS_def)
  obtain rs' s' where mk: "make_vswitch_rings Some (make_port_rings Some sample_q sample_rings, sample_q) = (rs', s')" by fastforce
  have "\<exists>ps. rib_check Some 1 sample_rings sample_q = Some (rs', s', [ps]) \<and> ps_port ps = 0"
    unfolding rib_check_def one by (simp add: q(1) mk qsort_def port_qconf_compare_def Let_def)
  then obtain ps where r: "rib_check Some 1 sample_rings sample_q = Some (rs', s', [ps])" and p: "ps_port ps = 0" by blast
  note t = rib_check_port_setups [OF r, of ps, simplified]
  have "ps_nrxq ps = max (length (queues_of (ps_port ps) (port_qconf sample_q))) (unat (pc_nrxq (port sample_q ! ps_port ps)))"
    using t by blast
  moreover have "1 < ps_ntxq ps" using t q(2,3) by (metis one_less_numeral_iff semiring_norm(76))
  ultimately show ?thesis using r by (auto simp: p q queues_of_def zero_port_def)
qed

section \<open>Rings\<close>

definition ready_router :: "rings \<Rightarrow> vswitch_conf \<Rightarrow> nat \<Rightarrow> bool" where
  "ready_router rs v i \<longleftrightarrow> vs_vlan_id v \<noteq> 0 \<and> 0 \<le> rif_sockfd (vs_router_if v) \<longrightarrow>
     router_if_ring_up rs i \<noteq> None \<and> router_if_ring_dn rs i \<noteq> None
     \<and> rif_ring_up (vs_router_if v) = router_if_ring_up rs i \<and> rif_ring_dn (vs_router_if v) = router_if_ring_dn rs i"

definition ready_capture :: "rings \<Rightarrow> vswitch_conf \<Rightarrow> nat \<Rightarrow> bool" where
  "ready_capture rs v i \<longleftrightarrow> vs_vlan_id v \<noteq> 0 \<and> 0 \<le> cif_sockfd (vs_capture_if v) \<longrightarrow>
     capture_if_ring_up rs i \<noteq> None \<and> capture_if_ring_dn rs i \<noteq> None
     \<and> cif_ring_up (vs_capture_if v) = capture_if_ring_up rs i \<and> cif_ring_dn (vs_capture_if v) = capture_if_ring_dn rs i"

text \<open>What one pass of the loop changes: entries \<open>i\<close> of the ring tables and of the switches.\<close>

definition rings_made :: "nat \<Rightarrow> rings \<times> 'a q_info_scheme \<Rightarrow> rings \<times> 'a q_info_scheme \<Rightarrow> bool" where
  "rings_made i x y \<longleftrightarrow> (case (x, y) of ((rs, s), (rs', s')) \<Rightarrow>
     (\<exists>g. s' = upd_vswitch i g s \<and> keeps_ports g \<and> (\<forall>v. vs_vlan_id (g v) = vs_vlan_id v
        \<and> rif_sockfd (vs_router_if (g v)) = rif_sockfd (vs_router_if v) \<and> cif_sockfd (vs_capture_if (g v)) = cif_sockfd (vs_capture_if v)))
     \<and> ring_up rs' = ring_up rs \<and> ring_dn rs' = ring_dn rs
     \<and> (\<forall>j. j \<noteq> i \<longrightarrow> (\<forall>v. ready_router rs' v j = ready_router rs v j \<and> ready_capture rs' v j = ready_capture rs v j)))"

lemma rings_made_refl: "rings_made i x x"
  by (auto simp: rings_made_def keeps_ports_def upd_vswitch_def split: prod.splits intro!: exI [of _ "\<lambda>v. v"])

lemma make_ring_not_None: "\<forall>n. ring_create n \<noteq> None \<Longrightarrow> make_ring ring_create n r \<noteq> None"
  by (cases r) (simp_all add: make_ring_def)

lemma make_router_rings_spec:
  assumes "\<forall>n. ring_create n \<noteq> None" "i < length (vswitch s)" "make_router_rings ring_create i (rs, s) = (rs', s')"
  shows "rings_made i (rs, s) (rs', s') \<and> ready_router rs' (vswitch s' ! i) i"
proof (cases "rif_sockfd (vs_router_if (vswitch s ! i)) < 0")
  case True
  with assms(3) show ?thesis by (auto simp: make_router_rings_def rings_made_refl ready_router_def)
next
  case False
  let ?u = "make_ring ring_create (router_up i) (router_if_ring_up rs i)" and ?d = "make_ring ring_create (router_dn i) (router_if_ring_dn rs i)"
  have rs': "rs' = rs\<lparr>router_if_ring_up := (router_if_ring_up rs)(i := ?u), router_if_ring_dn := (router_if_ring_dn rs)(i := ?d)\<rparr>"
    and s': "s' = upd_vswitch i (\<lambda>v. v\<lparr>vs_router_if := (vs_router_if v)\<lparr>rif_ring_up := ?u, rif_ring_dn := ?d\<rparr>\<rparr>) s"
    using assms(3) False by (auto simp: make_router_rings_def Let_def)
  have "ready_router rs' (vswitch s' ! i) i"
    using assms(1,2) make_ring_not_None by (simp add: rs' s' ready_router_def upd_vswitch_def)
  moreover have "rings_made i (rs, s) (rs', s')" unfolding rings_made_def prod.case
    by (intro conjI exI [of _ "\<lambda>v. v\<lparr>vs_router_if := (vs_router_if v)\<lparr>rif_ring_up := ?u, rif_ring_dn := ?d\<rparr>\<rparr>"])
      (auto simp: s' rs' keeps_ports_def ready_router_def ready_capture_def)
  ultimately show ?thesis by blast
qed

lemma make_capture_rings_spec:
  assumes "\<forall>n. ring_create n \<noteq> None" "i < length (vswitch s)" "make_capture_rings ring_create i (rs, s) = (rs', s')"
  shows "rings_made i (rs, s) (rs', s') \<and> ready_capture rs' (vswitch s' ! i) i
    \<and> (ready_router rs (vswitch s ! i) i \<longrightarrow> ready_router rs' (vswitch s' ! i) i)"
proof (cases "cif_sockfd (vs_capture_if (vswitch s ! i)) < 0")
  case True
  with assms(3) show ?thesis by (auto simp: make_capture_rings_def rings_made_refl ready_capture_def)
next
  case False
  let ?u = "make_ring ring_create (capture_up i) (capture_if_ring_up rs i)" and ?d = "make_ring ring_create (capture_dn i) (capture_if_ring_dn rs i)"
  have rs': "rs' = rs\<lparr>capture_if_ring_up := (capture_if_ring_up rs)(i := ?u), capture_if_ring_dn := (capture_if_ring_dn rs)(i := ?d)\<rparr>"
    and s': "s' = upd_vswitch i (\<lambda>v. v\<lparr>vs_capture_if := (vs_capture_if v)\<lparr>cif_ring_up := ?u, cif_ring_dn := ?d\<rparr>\<rparr>) s"
    using assms(3) False by (auto simp: make_capture_rings_def Let_def)
  have "ready_capture rs' (vswitch s' ! i) i" "ready_router rs (vswitch s ! i) i \<longrightarrow> ready_router rs' (vswitch s' ! i) i"
    using assms(1,2) make_ring_not_None by (simp_all add: rs' s' ready_capture_def ready_router_def upd_vswitch_def)
  moreover have "rings_made i (rs, s) (rs', s')" unfolding rings_made_def prod.case
    by (intro conjI exI [of _ "\<lambda>v. v\<lparr>vs_capture_if := (vs_capture_if v)\<lparr>cif_ring_up := ?u, cif_ring_dn := ?d\<rparr>\<rparr>"])
      (auto simp: s' rs' keeps_ports_def ready_router_def ready_capture_def)
  ultimately show ?thesis by blast
qed

lemma rings_made_ok:
  assumes "rings_made i (rs, s) (rs', s')" "vs_ok s"
  shows "vs_ok s' \<and> vswitch_size s' = vswitch_size s \<and> length (vswitch s') = length (vswitch s)
    \<and> (\<forall>j. j \<noteq> i \<longrightarrow> vswitch s' ! j = vswitch s ! j \<and> (\<forall>v. ready_router rs' v j = ready_router rs v j \<and> ready_capture rs' v j = ready_capture rs v j))
    \<and> ring_up rs' = ring_up rs \<and> ring_dn rs' = ring_dn rs
    \<and> (i < length (vswitch s) \<longrightarrow> vs_vlan_id (vswitch s' ! i) = vs_vlan_id (vswitch s ! i)
       \<and> rif_sockfd (vs_router_if (vswitch s' ! i)) = rif_sockfd (vs_router_if (vswitch s ! i))
       \<and> cif_sockfd (vs_capture_if (vswitch s' ! i)) = cif_sockfd (vs_capture_if (vswitch s ! i)))"
proof -
  from assms(1) obtain g where g: "s' = upd_vswitch i g s" "keeps_ports g" "\<forall>v. vs_vlan_id (g v) = vs_vlan_id v
        \<and> rif_sockfd (vs_router_if (g v)) = rif_sockfd (vs_router_if v) \<and> cif_sockfd (vs_capture_if (g v)) = cif_sockfd (vs_capture_if v)"
    by (auto simp: rings_made_def)
  have "vs_ok s'" unfolding g(1) by (rule upd_vswitch_other [OF assms(2)]) (use g(2) in \<open>simp add: keeps_ports_def\<close>)
  with assms(1) g show ?thesis by (simp add: rings_made_def upd_vswitch_def)
qed

definition same_ifs :: "vswitch_conf \<Rightarrow> vswitch_conf \<Rightarrow> bool" where
  "same_ifs v w \<longleftrightarrow> vs_vlan_id v = vs_vlan_id w \<and> rif_sockfd (vs_router_if v) = rif_sockfd (vs_router_if w)
     \<and> cif_sockfd (vs_capture_if v) = cif_sockfd (vs_capture_if w)"

lemma make_vswitch_rings_spec:
  assumes rc: "\<forall>n. ring_create n \<noteq> None" and ok: "vs_ok s" and mk: "make_vswitch_rings ring_create (rs, s) = (rs', s')"
  shows "vs_ok s' \<and> ring_up rs' = ring_up rs \<and> ring_dn rs' = ring_dn rs
    \<and> (\<forall>i<vswitch_size s. same_ifs (vswitch s' ! i) (vswitch s ! i) \<and> ready_router rs' (vswitch s' ! i) i \<and> ready_capture rs' (vswitch s' ! i) i)"
proof -
  define f where "f = (\<lambda>i (rs_s :: rings \<times> 'a q_info_scheme). if vs_vlan_id (vswitch (snd rs_s) ! i) = 0 then rs_s
                    else make_capture_rings ring_create i (make_router_rings ring_create i rs_s))"
  have "n \<le> vswitch_size s \<Longrightarrow> fold f [0..<n] (rs, s) = (rs', s') \<Longrightarrow>
      vs_ok s' \<and> vswitch_size s' = vswitch_size s \<and> ring_up rs' = ring_up rs \<and> ring_dn rs' = ring_dn rs
      \<and> (\<forall>i\<ge>n. vswitch s' ! i = vswitch s ! i)
      \<and> (\<forall>i<n. same_ifs (vswitch s' ! i) (vswitch s ! i) \<and> ready_router rs' (vswitch s' ! i) i \<and> ready_capture rs' (vswitch s' ! i) i)"
    for n rs' s'
  proof (induction n arbitrary: rs' s')
    case 0
    then show ?case using ok by simp
  next
    case (Suc n)
    obtain rs1 s1 where 1: "fold f [0..<n] (rs, s) = (rs1, s1)" by fastforce
    note IH = Suc.IH [OF Suc_leD [OF Suc.prems(1)] 1]
    from Suc.prems(2) 1 have f: "f n (rs1, s1) = (rs', s')" by simp
    have n: "n < length (vswitch s1)" using Suc.prems(1) IH vs_okD(1,2) [of s1] by simp
    show ?case
    proof (cases "vs_vlan_id (vswitch s1 ! n) = 0")
      case True
      with f IH show ?thesis by (auto simp: f_def less_Suc_eq ready_router_def ready_capture_def same_ifs_def)
    next
      case False
      obtain rs2 s2 where 2: "make_router_rings ring_create n (rs1, s1) = (rs2, s2)" by fastforce
      with f False have 3: "make_capture_rings ring_create n (rs2, s2) = (rs', s')" by (simp add: f_def)
      from make_router_rings_spec [OF rc n 2] have m2: "rings_made n (rs1, s1) (rs2, s2)" "ready_router rs2 (vswitch s2 ! n) n" by auto
      note k2 = rings_made_ok [OF m2(1) IH [THEN conjunct1]]
      from make_capture_rings_spec [OF rc _ 3] k2 IH n have m3: "rings_made n (rs2, s2) (rs', s')"
        "ready_router rs' (vswitch s' ! n) n" "ready_capture rs' (vswitch s' ! n) n" using m2(2) by auto
      show ?thesis using IH k2 rings_made_ok [OF m3(1) k2 [THEN conjunct1]] m3(2,3) n by (auto simp: less_Suc_eq same_ifs_def)
    qed
  qed
  from this [OF le_refl, of rs' s'] mk show ?thesis
    unfolding make_vswitch_rings_def snd_conv f_def [symmetric] by blast
qed

lemma make_port_rings_spec:
  assumes "\<forall>n. ring_create n \<noteq> None" "lq \<in> set (lcore_qconf_of s)" "q \<in> set (lcore_queues lq)"
  shows "ring_up (make_port_rings ring_create s rs) (unat (pq_port_id q), unat (pq_queue_id q)) \<noteq> None
    \<and> ring_dn (make_port_rings ring_create s rs) (unat (pq_port_id q), unat (pq_queue_id q)) \<noteq> None"
proof -
  define f where "f = (\<lambda>(rxq :: port_queue_conf) (rs :: rings).
         let pq = (unat (pq_port_id rxq), unat (pq_queue_id rxq))
         in rs\<lparr>ring_up := (ring_up rs)(pq := make_ring ring_create (port_up (fst pq) (snd pq)) (ring_up rs pq)),
               ring_dn := (ring_dn rs)(pq := make_ring ring_create (port_dn (fst pq) (snd pq)) (ring_dn rs pq))\<rparr>)"
  let ?k = "\<lambda>q. (unat (pq_port_id q), unat (pq_queue_id q))"
  have step: "ring_up rs k \<noteq> None \<and> ring_dn rs k \<noteq> None \<Longrightarrow> ring_up (f q rs) k \<noteq> None \<and> ring_dn (f q rs) k \<noteq> None" for q rs k
    by (auto simp: f_def Let_def make_ring_def split: option.splits)
  have keep: "ring_up rs k \<noteq> None \<and> ring_dn rs k \<noteq> None \<Longrightarrow> ring_up (fold f qs rs) k \<noteq> None \<and> ring_dn (fold f qs rs) k \<noteq> None" for qs rs k
  proof (induction qs arbitrary: rs)
    case (Cons p qs)
    from Cons.IH [OF step [OF Cons.prems]] show ?case by simp
  qed simp
  have "q \<in> set qs \<Longrightarrow> ring_up (fold f qs rs) (?k q) \<noteq> None \<and> ring_dn (fold f qs rs) (?k q) \<noteq> None" for qs rs
  proof (induction qs arbitrary: rs)
    case (Cons p qs)
    show ?case
    proof (cases "p = q")
      case True
      have "ring_up (f q rs) (?k q) \<noteq> None \<and> ring_dn (f q rs) (?k q) \<noteq> None"
        using make_ring_not_None [OF assms(1)] by (simp add: f_def Let_def)
      with keep True show ?thesis by simp
    qed (use Cons in auto)
  qed simp
  moreover have "q \<in> set (concat (map lcore_queues (lcore_qconf_of s)))" using assms(2,3) by auto
  ultimately show ?thesis unfolding make_port_rings_def f_def [symmetric] by blast
qed

lemma rib_check_Some:
  assumes "rib_check ring_create dev_count rs s = Some (rs', s', setups)"
  shows "make_vswitch_rings ring_create (make_port_rings ring_create s rs, s) = (rs', s')"
  using assms by (auto simp: rib_check_def split: option.splits prod.splits)

text \<open>
  After a successful check every polled queue has its pair of rings, and every switch
  with a VLAN and an open router or capture interface points to the rings of its slot,
  provided that ring creation succeeds; the switch tables stay consistent.
\<close>

theorem rib_check_rings_ready:
  assumes "rib_check ring_create dev_count rs s = Some (rs', s', setups)" "vs_ok s" "\<forall>n. ring_create n \<noteq> None"
  shows "vs_ok s'
    \<and> (\<forall>lq \<in> set (lcore_qconf_of s). \<forall>q \<in> set (lcore_queues lq).
         ring_up rs' (unat (pq_port_id q), unat (pq_queue_id q)) \<noteq> None
         \<and> ring_dn rs' (unat (pq_port_id q), unat (pq_queue_id q)) \<noteq> None)
    \<and> (\<forall>i<vswitch_size s. vs_vlan_id (vswitch s ! i) \<noteq> 0 \<and> 0 \<le> rif_sockfd (vs_router_if (vswitch s ! i)) \<longrightarrow>
         rif_ring_up (vs_router_if (vswitch s' ! i)) = router_if_ring_up rs' i \<and> router_if_ring_up rs' i \<noteq> None
         \<and> rif_ring_dn (vs_router_if (vswitch s' ! i)) = router_if_ring_dn rs' i \<and> router_if_ring_dn rs' i \<noteq> None)
    \<and> (\<forall>i<vswitch_size s. vs_vlan_id (vswitch s ! i) \<noteq> 0 \<and> 0 \<le> cif_sockfd (vs_capture_if (vswitch s ! i)) \<longrightarrow>
         cif_ring_up (vs_capture_if (vswitch s' ! i)) = capture_if_ring_up rs' i \<and> capture_if_ring_up rs' i \<noteq> None
         \<and> cif_ring_dn (vs_capture_if (vswitch s' ! i)) = capture_if_ring_dn rs' i \<and> capture_if_ring_dn rs' i \<noteq> None)"
proof -
  note m = make_vswitch_rings_spec [OF assms(3,2) rib_check_Some [OF assms(1)]]
  then have p: "ring_up rs' = ring_up (make_port_rings ring_create s rs)" "ring_dn rs' = ring_dn (make_port_rings ring_create s rs)"
    by auto
  have "\<forall>lq \<in> set (lcore_qconf_of s). \<forall>q \<in> set (lcore_queues lq).
         ring_up rs' (unat (pq_port_id q), unat (pq_queue_id q)) \<noteq> None
         \<and> ring_dn rs' (unat (pq_port_id q), unat (pq_queue_id q)) \<noteq> None"
    unfolding p using make_port_rings_spec [OF assms(3)] by blast
  with m show ?thesis by (simp add: same_ifs_def ready_router_def ready_capture_def)
qed

lemma rib_check_rings_ready_witness:
  "\<exists>rs' s' setups. rib_check Some 1 sample_rings sample_q = Some (rs', s', setups) \<and> vs_ok s' \<and> ring_up rs' (0, 1) \<noteq> None"
proof -
  have two: "[0..<2] = [0, 1]" by (simp add: upt_conv_Cons numeral_2_eq_2)
  have q: "port_qconf sample_q = [\<lparr>pq_port_id = 0, pq_queue_id = 1\<rparr>, \<lparr>pq_port_id = 0, pq_queue_id = 0\<rparr>]"
    by (simp add: port_qconf_def sample_q_def vs_info.extend_def lcore_queues_def two)
  have ok: "vs_ok sample_q" using vs_ok_start
    by (simp add: vs_ok_def vs_sizes_ok_def vs_links_ok_def active_link_def active_vswitch_def sample_q_def vs_info.extend_def)
  have "rib_check Some 1 sample_rings sample_q \<noteq> None"
    by (simp add: rib_check_def q qsort_def port_qconf_compare_def Let_def split: prod.splits)
  then obtain rs' s' setups where r: "rib_check Some 1 sample_rings sample_q = Some (rs', s', setups)" by auto
  from rib_check_rings_ready [OF r ok] show ?thesis using r
    by (auto simp: sample_q_def vs_info.extend_def lcore_queues_def)
qed

end
