(* ===== verification/Radix.thy ===== *)
theory Radix
  imports Prelude
begin

text \<open>
  The routing information base of \<^verbatim>\<open>sdplane/radix.c\<close> and \<^verbatim>\<open>radix.h\<close>: a binary
  trie whose node at depth \<open>d\<close> stands for the first \<open>d\<close> bits of an address.  A pointer to
  a node is a value of \<open>rib_node\<close> with \<open>RNull\<close> for \<^verbatim>\<open>NULL\<close>; a function that updates
  a subtree in place returns the new subtree, as the C code does.  The out-parameter
  \<^verbatim>\<open>int *success\<close> and the allocation outcomes are passed and returned.

  \<open>rib_map\<close> abstracts a trie to the finite map from prefixes (bit lists) to route
  entries; insertion, deletion, look-up and traversal are specified over that map.
\<close>

section \<open>Data\<close>

record route_dst_info =
  rdi_family :: int
  dst_ip_addr :: "u8 list"
  plen :: nat

record route_entry =
  re_dst :: route_dst_info
  re_sdplane_nh_id :: int

datatype rib_node =
    RNull
  | RNode (rn_valid: bool) (rn_entry: route_entry) (rn_left: rib_node) (rn_right: rib_node)

record rib_tree =
  rt_family :: int
  rt_table_id :: int
  rt_root :: rib_node

definition zero_route_entry :: route_entry where
  "zero_route_entry =
     \<lparr>re_dst = \<lparr>rdi_family = 0, dst_ip_addr = replicate 16 0, plen = 0\<rparr>, re_sdplane_nh_id = 0\<rparr>"

section \<open>Operations\<close>

definition BIT_CHECK :: "key \<Rightarrow> nat \<Rightarrow> u8" where
  "BIT_CHECK key b = key (b div 8) AND (drop_bit (b mod 8) 0x80)"

definition rib_new :: "rib_tree option \<Rightarrow> mallocs \<Rightarrow> rib_tree option \<times> mallocs" where
  "rib_new t ms =
     (case t of
        None \<Rightarrow>
          (case malloc_ok ms of (ok, ms') \<Rightarrow>
             (if ok then Some \<lparr>rt_family = 0, rt_table_id = 0, rt_root = RNull\<rparr> else None, ms'))
      | Some t' \<Rightarrow> (Some (t'\<lparr>rt_root := RNull, rt_family := 0, rt_table_id := 0\<rparr>), ms))"

definition create_rib_node :: "mallocs \<Rightarrow> rib_node \<times> mallocs" where
  "create_rib_node ms =
     (case malloc_ok ms of (ok, ms') \<Rightarrow>
        (if ok then RNode False zero_route_entry RNull RNull else RNull, ms'))"

text \<open>
  The recursion starts at depth 0 and stops when the depth is the key length; a depth
  beyond the key length is not reached.
\<close>

function radix_add ::
  "rib_node \<Rightarrow> key \<Rightarrow> nat \<Rightarrow> route_entry \<Rightarrow> nat \<Rightarrow> int \<Rightarrow> mallocs \<Rightarrow> rib_node \<times> int \<times> mallocs"
where
  "radix_add n key keylen data depth success ms =
     (case (if n = RNull then create_rib_node ms else (n, ms)) of
        (RNull, ms) \<Rightarrow> (RNull, -1, ms)
      | (RNode v e l r, ms) \<Rightarrow>
          if depth = keylen then
            (if v then (RNode v data l r, 0, ms)
             else (RNode True data l r, 0, ms))
          else if keylen < depth then (RNode v e l r, success, ms)
          else if BIT_CHECK key depth \<noteq> 0 then
            (case radix_add r key keylen data (depth + 1) success ms of
               (r', s, ms) \<Rightarrow> (RNode v e l r', s, ms))
          else
            (case radix_add l key keylen data (depth + 1) success ms of
               (l', s, ms) \<Rightarrow> (RNode v e l' r, s, ms)))"
  by pat_completeness auto
termination
  by (relation "measure (\<lambda>(n, key, keylen, data, depth, success, ms). keylen - depth)") auto

declare radix_add.simps [simp del]

definition rib_route_add ::
  "rib_tree \<Rightarrow> key \<Rightarrow> nat \<Rightarrow> route_entry \<Rightarrow> mallocs \<Rightarrow> rib_tree \<times> int \<times> mallocs"
where
  "rib_route_add t key keylen data ms =
     (case radix_add (rt_root t) key keylen data 0 0 ms of
        (root, success, ms') \<Rightarrow> (t\<lparr>rt_root := root\<rparr>, success, ms'))"

fun radix_shrink :: "rib_node \<Rightarrow> rib_node" where
  "radix_shrink RNull = RNull"
| "radix_shrink (RNode v e l r) =
     (let l' = radix_shrink l; r' = radix_shrink r
      in if l' = RNull \<and> r' = RNull \<and> \<not> v then RNull else RNode v e l' r')"

fun radix_delete :: "rib_node \<Rightarrow> key \<Rightarrow> nat \<Rightarrow> nat \<Rightarrow> int \<Rightarrow> rib_node \<times> int" where
  "radix_delete RNull key keylen depth success = (RNull, success)"
| "radix_delete (RNode v e l r) key keylen depth success =
     (if depth = keylen then
        (if v then (radix_shrink (RNode False zero_route_entry l r), 0)
         else (RNull, -1))
      else if BIT_CHECK key depth \<noteq> 0 then
        (case radix_delete r key keylen (depth + 1) success of (r', s) \<Rightarrow> (RNode v e l r', s))
      else
        (case radix_delete l key keylen (depth + 1) success of (l', s) \<Rightarrow> (RNode v e l' r, s)))"

definition rib_route_delete :: "rib_tree \<Rightarrow> key \<Rightarrow> nat \<Rightarrow> rib_tree \<times> int" where
  "rib_route_delete t key keylen =
     (case radix_delete (rt_root t) key keylen 0 0 of
        (root, success) \<Rightarrow> (t\<lparr>rt_root := root\<rparr>, success))"

fun radix_lookup :: "rib_node \<Rightarrow> rib_node \<Rightarrow> key \<Rightarrow> nat \<Rightarrow> rib_node" where
  "radix_lookup RNull cand key depth = cand"
| "radix_lookup (RNode v e l r) cand key depth =
     (let cand' = (if v then RNode v e l r else cand)
      in if BIT_CHECK key depth \<noteq> 0 then radix_lookup r cand' key (depth + 1)
         else radix_lookup l cand' key (depth + 1))"

definition rib_route_lookup :: "rib_tree \<Rightarrow> key \<Rightarrow> rib_node" where
  "rib_route_lookup t key = radix_lookup (rt_root t) RNull key 0"

text \<open>
  A traversal callback reads and updates its argument and the file's global
  \<^verbatim>\<open>route_count\<close>, which \<^verbatim>\<open>rib_traverse\<close> resets.
\<close>

type_synonym 's rib_traverse_callback = "rib_node \<Rightarrow> u32 \<times> 's \<Rightarrow> int \<times> u32 \<times> 's"

fun radix_traverse :: "rib_node \<Rightarrow> 's rib_traverse_callback \<Rightarrow> u32 \<times> 's \<Rightarrow> int \<times> u32 \<times> 's" where
  "radix_traverse RNull callback arg = (0, arg)"
| "radix_traverse (RNode v e l r) callback arg =
     (case (if v then callback (RNode v e l r) arg else (0, arg)) of (ret, arg) \<Rightarrow>
        if ret \<noteq> 0 then (-1, arg)
        else case radix_traverse l callback arg of (ret, arg) \<Rightarrow>
          if ret \<noteq> 0 then (-1, arg)
          else case radix_traverse r callback arg of (ret, arg) \<Rightarrow>
            if ret \<noteq> 0 then (-1, arg) else (0, arg))"

definition rib_traverse ::
  "rib_tree option \<Rightarrow> 's rib_traverse_callback option \<Rightarrow> u32 \<times> 's \<Rightarrow> int \<times> u32 \<times> 's"
where
  "rib_traverse t callback arg =
     (let arg = (0, snd arg)
      in case (t, callback) of
           (Some t', Some cb) \<Rightarrow>
             (if rt_root t' = RNull then (0, arg) else radix_traverse (rt_root t') cb arg)
         | _ \<Rightarrow> (0, arg))"

section \<open>Abstraction: a trie as a finite map from prefixes\<close>

fun rib_map :: "rib_node \<Rightarrow> bool list \<Rightarrow> route_entry option" where
  "rib_map RNull bs = None"
| "rib_map (RNode v e l r) [] = (if v then Some e else None)"
| "rib_map (RNode v e l r) (b # bs) = rib_map (if b then r else l) bs"

definition rib_routes :: "rib_tree \<Rightarrow> bool list \<Rightarrow> route_entry option" where
  "rib_routes t = rib_map (rt_root t)"

text \<open>
  \<open>longest_match m k e\<close>: \<open>e\<close> is the entry that the map \<open>m\<close> holds for the longest prefix
  of the address \<open>k\<close> that is in its domain (\<open>None\<close> if there is no such prefix).
\<close>

definition longest_match :: "(bool list \<Rightarrow> 'e option) \<Rightarrow> key \<Rightarrow> 'e option \<Rightarrow> bool" where
  "longest_match m k eo \<longleftrightarrow>
     (case eo of
        None \<Rightarrow> \<forall>n. m (key_bits k 0 n) = None
      | Some e \<Rightarrow> \<exists>n. m (key_bits k 0 n) = Some e \<and> (\<forall>j>n. m (key_bits k 0 j) = None))"

text \<open>Every entry is stored under its own destination prefix.\<close>

definition rib_consistent :: "(bool list \<Rightarrow> route_entry option) \<Rightarrow> bool" where
  "rib_consistent m \<longleftrightarrow>
     (\<forall>p e. m p = Some e \<longrightarrow>
        p = key_bits (bytes_at (dst_ip_addr (re_dst e))) 0 (plen (re_dst e)) \<and>
        plen (re_dst e) \<le> 128 \<and> length (dst_ip_addr (re_dst e)) = 16)"

text \<open>No useless nodes: the invariant that \<^verbatim>\<open>_shrink\<close> establishes.\<close>

fun radix_shrunk :: "rib_node \<Rightarrow> bool" where
  "radix_shrunk RNull = True"
| "radix_shrunk (RNode v e l r) =
     (radix_shrunk l \<and> radix_shrunk r \<and> (l = RNull \<and> r = RNull \<longrightarrow> v))"

section \<open>Bits\<close>

lemma BIT_CHECK_iff [bits_simps]: "BIT_CHECK key b \<noteq> 0 \<longleftrightarrow> key_bit key b"
proof -
  have b8: "b mod 8 = 0 \<or> b mod 8 = 1 \<or> b mod 8 = 2 \<or> b mod 8 = 3 \<or>
      b mod 8 = 4 \<or> b mod 8 = 5 \<or> b mod 8 = 6 \<or> b mod 8 = 7"
    by presburger
  have "drop_bit (b mod 8) (0x80 :: u8) = push_bit (7 - b mod 8) 1"
    using b8 by (elim disjE) (simp_all)
  then have "BIT_CHECK key b = key (b div 8) AND push_bit (7 - b mod 8) 1"
    by (simp add: BIT_CHECK_def)
  also have "\<dots> \<noteq> 0 \<longleftrightarrow> bit (key (b div 8)) (7 - b mod 8)"
    by (auto simp: and_exp_eq_0_iff_not_bit push_bit_eq_mult)
  finally show ?thesis by (simp add: key_bit_def)
qed


section \<open>Insertion\<close>

lemma rib_map_RNode:
  "rib_map (RNode v e l r) bs =
     (case bs of [] \<Rightarrow> if v then Some e else None | b # bs' \<Rightarrow> rib_map (if b then r else l) bs')"
  by (cases bs) auto

lemma create_rib_node_cases:
  "create_rib_node ms = (n, ms') \<Longrightarrow>
     n = RNull \<and> \<not> never_fails ms \<or>
     n = RNode False zero_route_entry RNull RNull \<and> (never_fails ms \<longrightarrow> never_fails ms')"
  by (cases ms) (auto simp: create_rib_node_def never_fails_def)

text \<open>
  One step of the recursion: the node that is inspected is the one found or the one just
  created, and both stand for the same (possibly empty) set of routes.
\<close>

lemma radix_add_node:
  assumes "(if n = RNull then create_rib_node ms else (n, ms)) = (RNode v e l r, ms1)"
  shows "rib_map n = rib_map (RNode v e l r) \<and> (never_fails ms \<longrightarrow> never_fails ms1)"
proof (cases "n = RNull")
  case True
  with assms have "create_rib_node ms = (RNode v e l r, ms1)" by simp
  from create_rib_node_cases [OF this] True show ?thesis
    by (auto simp: fun_eq_iff rib_map_RNode split: list.splits)
qed (use assms in auto)

lemma radix_add_spec:
  assumes "radix_add n key keylen data depth success ms = (n', s', ms')" "depth \<le> keylen"
  shows "(s' = 0 \<and> rib_map n' = (rib_map n)(key_bits key depth keylen \<mapsto> data) \<or>
          s' = -1 \<and> rib_map n' = rib_map n)
       \<and> (never_fails ms \<longrightarrow> s' = 0 \<and> never_fails ms')"
  using assms
proof (induction n key keylen data depth success ms arbitrary: n' s' ms' rule: radix_add.induct)
  case (1 n key keylen data depth success ms)
  note unf = radix_add.simps [of n key keylen data depth success ms]
  obtain m ms1 where m: "(if n = RNull then create_rib_node ms else (n, ms)) = (m, ms1)"
    by fastforce
  show ?case
  proof (cases m)
    case RNull
    then have "n = RNull" using m by (auto split: if_splits)
    with m RNull have "\<not> never_fails ms"
      using create_rib_node_cases [of ms RNull ms1] by auto
    moreover have "n' = RNull" "s' = -1"
      using "1.prems"(1) m RNull by (simp_all add: unf)
    ultimately show ?thesis using \<open>n = RNull\<close> by simp
  next
    case (RNode v e l r)
    note mm = m [unfolded RNode]
    note node = radix_add_node [OF mm]
    note eq = "1.prems"(1) [unfolded unf mm prod.case rib_node.case]
    show ?thesis
    proof (cases "depth = keylen")
      case True
      with eq have "n' = RNode True data l r" "s' = 0" "ms' = ms1"
        by (auto split: if_splits)
      with True node show ?thesis
        by (auto simp: fun_eq_iff rib_map_RNode split: list.splits)
    next
      case False
      with "1.prems" have lt: "depth < keylen" by simp
      obtain c s2 ms2 where c: "radix_add (if key_bit key depth then r else l) key keylen data
          (depth + 1) success ms1 = (c, s2, ms2)"
        by (metis prod_cases3)
      have res: "n' = (if key_bit key depth then RNode v e l c else RNode v e c r)"
          "s' = s2" "ms' = ms2"
        using eq lt False c by (auto simp: BIT_CHECK_iff split: if_splits)
      have ih: "(s2 = 0 \<and> rib_map c = (rib_map (if key_bit key depth then r else l))
              (key_bits key (Suc depth) keylen \<mapsto> data) \<or>
            s2 = -1 \<and> rib_map c = rib_map (if key_bit key depth then r else l))
          \<and> (never_fails ms1 \<longrightarrow> s2 = 0 \<and> never_fails ms2)"
        using "1.IH" [OF m [symmetric] RNode False] mm c lt
        by (cases "key_bit key depth") (auto simp: BIT_CHECK_iff)
      show ?thesis
        using ih node res lt
        by (auto simp: fun_eq_iff rib_map_RNode key_bits_Cons split: list.splits)
    qed
  qed
qed

lemma radix_add_not_RNull:
  "never_fails ms \<Longrightarrow> fst (radix_add n key keylen data depth success ms) \<noteq> RNull"
  using create_rib_node_cases [of ms]
  by (subst radix_add.simps)
    (auto split: rib_node.splits prod.splits if_splits dest!: create_rib_node_cases)


section \<open>Deletion\<close>

lemma rib_map_shrink [simp]: "rib_map (radix_shrink n) = rib_map n"
  by (induction n) (auto simp: fun_eq_iff rib_map_RNode Let_def split: list.splits)

lemma radix_shrunk_shrink: "radix_shrunk (radix_shrink n)"
  by (induction n) (auto simp: Let_def)

text \<open>The node that a path leads to.\<close>

fun radix_at :: "rib_node \<Rightarrow> bool list \<Rightarrow> rib_node" where
  "radix_at RNull bs = RNull"
| "radix_at (RNode v e l r) [] = RNode v e l r"
| "radix_at (RNode v e l r) (b # bs) = radix_at (if b then r else l) bs"

lemma rib_map_radix_at:
  "rib_map n bs = (case radix_at n bs of RNull \<Rightarrow> None | RNode v e l r \<Rightarrow> if v then Some e else None)"
  by (induction n bs rule: rib_map.induct) auto

lemma radix_delete_present:
  assumes "rib_map n (key_bits key depth keylen) = Some e" "depth \<le> keylen"
  shows "snd (radix_delete n key keylen depth success) = 0
       \<and> rib_map (fst (radix_delete n key keylen depth success))
         = (rib_map n)(key_bits key depth keylen := None)"
  using assms
proof (induction n arbitrary: depth)
  case (RNode v x l r)
  show ?case
  proof (cases "depth = keylen")
    case True
    with RNode.prems show ?thesis
      by (auto simp: fun_eq_iff rib_map_RNode simp del: radix_shrink.simps
            split: if_splits list.splits)
  next
    case False
    with RNode.prems have lt: "depth < keylen" by simp
    show ?thesis
      using RNode.IH(1) [of "Suc depth"] RNode.IH(2) [of "Suc depth"] RNode.prems lt
      by (cases "key_bit key depth")
        (auto simp: fun_eq_iff rib_map_RNode key_bits_Cons BIT_CHECK_iff
           split: prod.splits list.splits if_splits)
  qed
qed simp

lemma radix_delete_no_node:
  assumes "radix_at n (key_bits key depth keylen) = RNull" "depth \<le> keylen"
  shows "radix_delete n key keylen depth success = (n, success)"
  using assms
proof (induction n arbitrary: depth)
  case (RNode v x l r)
  show ?case
  proof (cases "depth = keylen")
    case False
    with RNode.prems have "depth < keylen" by simp
    with RNode.IH(1) [of "Suc depth"] RNode.IH(2) [of "Suc depth"] RNode.prems show ?thesis
      by (cases "key_bit key depth") (auto simp: key_bits_Cons BIT_CHECK_iff)
  qed (use RNode.prems in simp)
qed simp

text \<open>
  The remaining case: the path ends in a node that exists only because longer prefixes
  run through it.  The code unlinks that node together with everything below it.
\<close>

lemma radix_delete_branch_node:
  assumes "radix_at n (key_bits key depth keylen) = RNode False e l r" "depth \<le> keylen"
  shows "snd (radix_delete n key keylen depth success) = -1
       \<and> (\<forall>bs. rib_map (fst (radix_delete n key keylen depth success)) bs
           = (if take (keylen - depth) bs = key_bits key depth keylen then None else rib_map n bs))"
  using assms
proof (induction n arbitrary: depth)
  case (RNode v x nl nr)
  show ?case
  proof (cases "depth = keylen")
    case True
    with RNode.prems show ?thesis by (auto simp: rib_map_RNode)
  next
    case False
    with RNode.prems have lt: "depth < keylen" by simp
    then have d: "keylen - depth = Suc (keylen - Suc depth)" by simp
    show ?thesis
      using RNode.IH(1) [of "Suc depth"] RNode.IH(2) [of "Suc depth"] RNode.prems lt
      by (cases "key_bit key depth")
        (auto simp: rib_map_RNode key_bits_Cons BIT_CHECK_iff d
           split: prod.splits list.splits if_splits)
  qed
qed simp

section \<open>Look-up\<close>

definition rib_node_entry :: "rib_node \<Rightarrow> route_entry option" where
  "rib_node_entry n = (case n of RNull \<Rightarrow> None | RNode v e l r \<Rightarrow> Some e)"

lemma key_bits_add_Suc:
  "key_bits k d (d + Suc j) = key_bit k d # key_bits k (Suc d) (Suc d + j)"
  by (simp add: key_bits_Cons)

lemma radix_lookup_spec:
  "(radix_lookup n cand key d = cand \<and> (\<forall>k. rib_map n (key_bits key d (d + k)) = None))
   \<or> (\<exists>k e. rib_node_entry (radix_lookup n cand key d) = Some e
        \<and> rib_map n (key_bits key d (d + k)) = Some e
        \<and> (\<forall>j>k. rib_map n (key_bits key d (d + j)) = None))"
proof (induction n arbitrary: cand d)
  case (RNode v e l r)
  define c where "c = (if key_bit key d then r else l)"
  define cand' where "cand' = (if v then RNode v e l r else cand)"
  have lk: "radix_lookup (RNode v e l r) cand key d = radix_lookup c cand' key (Suc d)"
    by (simp add: c_def cand'_def BIT_CHECK_iff Let_def)
  have mp: "rib_map (RNode v e l r) (key_bits key d (d + Suc k))
      = rib_map c (key_bits key (Suc d) (Suc d + k))" for k
    by (simp add: key_bits_add_Suc c_def del: add_Suc_right)
  have m0: "rib_map (RNode v e l r) (key_bits key d (d + 0)) = (if v then Some e else None)"
    by simp
  have all: "(\<forall>k. Q k) \<longleftrightarrow> Q 0 \<and> (\<forall>k. Q (Suc k))" for Q :: "nat \<Rightarrow> bool"
    by (metis not0_implies_Suc)
  have ih: "(radix_lookup c cand' key (Suc d) = cand' \<and>
        (\<forall>k. rib_map c (key_bits key (Suc d) (Suc d + k)) = None))
      \<or> (\<exists>k e. rib_node_entry (radix_lookup c cand' key (Suc d)) = Some e
        \<and> rib_map c (key_bits key (Suc d) (Suc d + k)) = Some e
        \<and> (\<forall>j>k. rib_map c (key_bits key (Suc d) (Suc d + j)) = None))"
    using RNode.IH(1) [of cand' "Suc d"] RNode.IH(2) [of cand' "Suc d"]
    by (cases "key_bit key d") (simp_all add: c_def)
  show ?case
  proof (cases "radix_lookup c cand' key (Suc d) = cand' \<and>
        (\<forall>k. rib_map c (key_bits key (Suc d) (Suc d + k)) = None)")
    case True
    show ?thesis
    proof (cases v)
      case v: True
      have "\<forall>j>0. rib_map (RNode v e l r) (key_bits key d (d + j)) = None"
        using True mp by (metis Suc_pred)
      with True v m0 lk show ?thesis
        by (intro disjI2 exI [of _ 0] exI [of _ e]) (simp add: cand'_def rib_node_entry_def)
    next
      case v: False
      with True mp m0 have "\<forall>k. rib_map (RNode v e l r) (key_bits key d (d + k)) = None"
        using all [of "\<lambda>k. rib_map (RNode v e l r) (key_bits key d (d + k)) = None"] by simp
      with True v lk show ?thesis by (simp add: cand'_def)
    qed
  next
    case False
    with ih obtain k x where k: "rib_node_entry (radix_lookup c cand' key (Suc d)) = Some x"
        "rib_map c (key_bits key (Suc d) (Suc d + k)) = Some x"
        "\<forall>j>k. rib_map c (key_bits key (Suc d) (Suc d + j)) = None"
      by blast
    have "\<forall>j>Suc k. rib_map (RNode v e l r) (key_bits key d (d + j)) = None"
      using k(3) mp by (metis Suc_lessE)
    with k mp lk show ?thesis
      by (intro disjI2 exI [of _ "Suc k"] exI [of _ x]) simp
  qed
qed simp

lemma rib_route_lookup_longest_match:
  "longest_match (rib_routes t) key (rib_node_entry (rib_route_lookup t key))"
  using radix_lookup_spec [of "rt_root t" RNull key 0]
  by (auto simp: longest_match_def rib_route_lookup_def rib_routes_def
        rib_node_entry_def split: option.splits rib_node.splits)

lemma longest_match_unique:
  assumes "longest_match m k a" "longest_match m k b"
  shows "a = b"
proof (cases a; cases b)
  fix x y
  assume ab: "a = Some x" "b = Some y"
  from assms ab obtain i j where
    "m (key_bits k 0 i) = Some x" "\<forall>h>i. m (key_bits k 0 h) = None"
    "m (key_bits k 0 j) = Some y" "\<forall>h>j. m (key_bits k 0 h) = None"
    by (auto simp: longest_match_def)
  then have "i = j" by (metis linorder_neqE_nat option.distinct(1))
  with ab \<open>m (key_bits k 0 i) = Some x\<close> \<open>m (key_bits k 0 j) = Some y\<close> show ?thesis by simp
qed (use assms in \<open>auto simp: longest_match_def\<close>)


section \<open>Traversal\<close>

text \<open>
  The valid nodes in visiting order, each with its prefix.  A traversal runs the callback
  over that list until the callback reports an error.
\<close>

fun radix_nodes :: "rib_node \<Rightarrow> (bool list \<times> rib_node) list" where
  "radix_nodes RNull = []"
| "radix_nodes (RNode v e l r) =
     (if v then [([], RNode v e l r)] else [])
     @ map (apfst ((#) False)) (radix_nodes l) @ map (apfst ((#) True)) (radix_nodes r)"

fun run_callback :: "'s rib_traverse_callback \<Rightarrow> rib_node list \<Rightarrow> u32 \<times> 's \<Rightarrow> int \<times> u32 \<times> 's" where
  "run_callback cb [] arg = (0, arg)"
| "run_callback cb (n # ns) arg =
     (case cb n arg of (ret, arg) \<Rightarrow> if ret \<noteq> 0 then (-1, arg) else run_callback cb ns arg)"

lemma run_callback_append:
  "run_callback cb (ms @ ns) arg =
     (case run_callback cb ms arg of (ret, arg) \<Rightarrow>
        if ret \<noteq> 0 then (-1, arg) else run_callback cb ns arg)"
  by (induction ms arbitrary: arg) (auto split: prod.splits)

lemma run_callback_error: "run_callback cb ns arg = (ret, arg') \<Longrightarrow> ret \<noteq> 0 \<Longrightarrow> ret = -1"
  by (induction ns arbitrary: arg) (auto split: prod.splits if_splits)

lemma radix_traverse_run:
  "radix_traverse n cb arg = run_callback cb (map snd (radix_nodes n)) arg"
  by (induction n arbitrary: arg)
    (auto simp: run_callback_append comp_def split: prod.splits dest: run_callback_error)

lemma radix_nodes_map:
  "(p, m) \<in> set (radix_nodes n) \<Longrightarrow> rib_map n p = rib_node_entry m \<and> rn_valid m \<and> m \<noteq> RNull"
  by (induction n arbitrary: p) (auto simp: rib_node_entry_def split: if_splits)

lemma rib_map_radix_nodes:
  "rib_map n p = Some e \<Longrightarrow> \<exists>m. (p, m) \<in> set (radix_nodes n) \<and> rib_node_entry m = Some e"
proof (induction n arbitrary: p)
  case (RNode v x l r)
  show ?case
  proof (cases p)
    case Nil
    with RNode.prems show ?thesis by (auto simp: rib_node_entry_def split: if_splits)
  next
    case (Cons b bs)
    with RNode.IH RNode.prems show ?thesis
      by (cases b) (force simp: image_iff)+
  qed
qed simp

lemma distinct_radix_nodes: "distinct (map fst (radix_nodes n))"
  by (induction n) (auto simp: distinct_map inj_on_def comp_def)

lemma rib_traverse_run:
  "rib_traverse (Some t) (Some cb) (c, s) = run_callback cb (map snd (radix_nodes (rt_root t))) (0, s)"
  by (simp add: rib_traverse_def Let_def radix_traverse_run)

section \<open>Properties\<close>

text \<open>\<^verbatim>\<open>rib_route_add\<close> either installs the route under exactly its prefix and
  returns 0, keeping every other route, or runs out of memory, returns -1 and leaves the
  set of routes as it was; without allocation failure it succeeds.\<close>

theorem rib_route_add_correct:
  assumes "rib_route_add t key keylen data ms = (t', ret, ms')"
  shows "(ret = 0 \<and> rib_routes t' = (rib_routes t)(key_bits key 0 keylen \<mapsto> data)
          \<or> ret = -1 \<and> rib_routes t' = rib_routes t)
       \<and> (never_fails ms \<longrightarrow> ret = 0)
       \<and> rt_family t' = rt_family t \<and> rt_table_id t' = rt_table_id t"
proof -
  obtain n' where n': "radix_add (rt_root t) key keylen data 0 0 ms = (n', ret, ms')"
      "t' = t\<lparr>rt_root := n'\<rparr>"
    using assms by (auto simp: rib_route_add_def split: prod.splits)
  from radix_add_spec [OF n'(1)] n'(2) show ?thesis by (auto simp: rib_routes_def)
qed

theorem rib_route_add_correct_witness:
  "\<exists>t'. rib_route_add \<lparr>rt_family = 2, rt_table_id = 254, rt_root = RNull\<rparr>
          (bytes_at [10, 0, 0, 0]) 2 zero_route_entry [] = (t', 0, [])
      \<and> rib_routes t' [False, False] = Some zero_route_entry"
proof -
  define t where "t = \<lparr>rt_family = 2, rt_table_id = 254, rt_root = RNull\<rparr>"
  obtain t' ret ms' where r:
    "rib_route_add t (bytes_at [10, 0, 0, 0]) 2 zero_route_entry [] = (t', ret, ms')"
    by (metis prod_cases3)
  have k: "key_bits (bytes_at [10, 0, 0, 0]) 0 2 = [False, False]" by code_simp
  have "ms' = []"
    using r by (simp add: t_def rib_route_add_def radix_add.simps create_rib_node_def BIT_CHECK_def
        bytes_at_def split: prod.splits)
  with rib_route_add_correct [OF r] r k show ?thesis by (auto simp: t_def)
qed

text \<open>C32: a look-up in the RIB returns the entry of the longest prefix of the address
  that has a route, and \<^verbatim>\<open>NULL\<close> exactly when no prefix of the address has one.\<close>

theorem rib_route_lookup_is_longest_match:
  "longest_match (rib_routes t) key (rib_node_entry (rib_route_lookup t key))"
  by (rule rib_route_lookup_longest_match)

text \<open>C33: deleting an installed route returns 0 and removes that route and no other.\<close>

theorem rib_route_delete_present:
  assumes "rib_routes t (key_bits key 0 keylen) \<noteq> None"
  shows "snd (rib_route_delete t key keylen) = 0
       \<and> rib_routes (fst (rib_route_delete t key keylen))
         = (rib_routes t)(key_bits key 0 keylen := None)"
  using assms radix_delete_present [of "rt_root t" key 0 keylen _ 0]
  by (auto simp: rib_routes_def rib_route_delete_def split: prod.splits)

theorem rib_route_delete_present_witness:
  "snd (rib_route_delete
      \<lparr>rt_family = 2, rt_table_id = 254,
       rt_root = RNode False zero_route_entry RNull (RNode True zero_route_entry RNull RNull)\<rparr>
      (bytes_at [128]) 1) = 0"
  by (rule rib_route_delete_present [THEN conjunct1]) code_simp

text \<open>C39: deleting a prefix that has no route but lies on the path to longer prefixes
  returns -1 and also drops every route below that prefix (the subtree is unlinked).\<close>

theorem rib_route_delete_drops_subtree:
  assumes "radix_at (rt_root t) (key_bits key 0 keylen) = RNode False e l r"
  shows "snd (rib_route_delete t key keylen) = -1
       \<and> (\<forall>p. take keylen p = key_bits key 0 keylen
             \<longrightarrow> rib_routes (fst (rib_route_delete t key keylen)) p = None)
       \<and> (\<forall>p. take keylen p \<noteq> key_bits key 0 keylen
             \<longrightarrow> rib_routes (fst (rib_route_delete t key keylen)) p = rib_routes t p)"
  using radix_delete_branch_node [OF assms, of 0]
  by (auto simp: rib_routes_def rib_route_delete_def split: prod.splits)

theorem rib_route_delete_drops_subtree_witness:
  "rib_routes
      \<lparr>rt_family = 2, rt_table_id = 254,
       rt_root = RNode False zero_route_entry RNull
         (RNode False zero_route_entry RNull (RNode True zero_route_entry RNull RNull))\<rparr>
      [True, True] = Some zero_route_entry
   \<and> rib_routes (fst (rib_route_delete
      \<lparr>rt_family = 2, rt_table_id = 254,
       rt_root = RNode False zero_route_entry RNull
         (RNode False zero_route_entry RNull (RNode True zero_route_entry RNull RNull))\<rparr>
      (bytes_at [128]) 1)) [True, True] = None"
proof -
  define t where "t = \<lparr>rt_family = 2, rt_table_id = 254,
       rt_root = RNode False zero_route_entry RNull
         (RNode False zero_route_entry RNull (RNode True zero_route_entry RNull RNull))\<rparr>"
  have k: "key_bits (bytes_at [128]) 0 1 = [True]" by code_simp
  have "radix_at (rt_root t) (key_bits (bytes_at [128]) 0 1)
      = RNode False zero_route_entry RNull (RNode True zero_route_entry RNull RNull)"
    unfolding k by (simp add: t_def)
  from rib_route_delete_drops_subtree [OF this] k
  show ?thesis by (simp add: t_def rib_routes_def)
qed

text \<open>\<^verbatim>\<open>rib_traverse\<close> calls the callback on the node of every route, each exactly
  once, in an order with distinct prefixes, and stops with -1 at the first callback that
  reports an error.\<close>

theorem rib_traverse_visits_all_routes:
  "rib_traverse (Some t) (Some cb) (c, s) = run_callback cb (map snd (radix_nodes (rt_root t))) (0, s)
   \<and> distinct (map fst (radix_nodes (rt_root t)))
   \<and> (\<forall>p e. rib_routes t p = Some e
        \<longleftrightarrow> (\<exists>m. (p, m) \<in> set (radix_nodes (rt_root t)) \<and> rib_node_entry m = Some e))"
  using rib_map_radix_nodes radix_nodes_map
  by (fastforce simp: rib_traverse_run distinct_radix_nodes rib_routes_def)

end
