(* ===== verification/Fib.thy ===== *)
theory Fib
  imports Radix Interfaces
begin

text \<open>
  The forwarding information base of \<^verbatim>\<open>sdplane/fib.c\<close>: a trie with \<^verbatim>\<open>K = 2\<close> bits per
  level in which every address that has a route ends in exactly one leaf (routes are pushed
  down to the leaves when they are added), and the rebuild of the FIB from the RIB at the
  end of \<^verbatim>\<open>radix.c\<close>.

  \<^verbatim>\<open>_add\<close> recurses both on the tree and on the current prefix length, so its model takes
  a recursion budget and returns \<open>None\<close> when the budget is exhausted.  \<^verbatim>\<open>fib_route_add\<close>
  gives it \<open>fib_fuel = 66\<close> levels; the theorems below show that for prefix lengths up to 128
  (65 levels of two bits) the budget is never exhausted.
\<close>

section \<open>Data\<close>

definition K :: nat where "K = 2"

definition BRANCH_SZ :: nat where "BRANCH_SZ = 2 ^ K"

datatype fib_node =
    FNull
  | FNode (fn_leaf: bool) (key_ip_addr: "u8 list") (fn_keylen: nat) (fn_sdplane_nh_id: int)
      (child: "fib_node list")

record fib_tree =
  ft_family :: int
  ft_table_id :: int
  ft_root :: fib_node

section \<open>Operations\<close>

text \<open>
  The local buffer \<^verbatim>\<open>key_safe[17]\<close> holds 16 key bytes and a zero byte.  At start bit 128
  the code also reads \<^verbatim>\<open>key_safe[17]\<close>, past the buffer: \<open>oob\<close> is whatever byte is there.
\<close>

definition key_safe :: "u8 \<Rightarrow> key \<Rightarrow> nat \<Rightarrow> u8" where
  "key_safe oob key i = (if i < 16 then key i else if i = 16 then 0 else oob)"

definition BIT_INDEX :: "u8 \<Rightarrow> key \<Rightarrow> nat \<Rightarrow> nat \<Rightarrow> u16" where
  "BIT_INDEX oob key s n =
     ucast (drop_bit (16 - (s mod 8 + n))
              (push_bit 8 (ucast (key_safe oob key (s div 8))) OR ucast (key_safe oob key (s div 8 + 1)) :: u32)
            AND (push_bit n 1 - 1))"

definition fib_new :: "fib_tree option \<Rightarrow> mallocs \<Rightarrow> fib_tree option \<times> mallocs" where
  "fib_new t ms =
     (case t of
        None \<Rightarrow>
          (case malloc_ok ms of (ok, ms') \<Rightarrow>
             (if ok then Some \<lparr>ft_family = 0, ft_table_id = 0, ft_root = FNull\<rparr> else None, ms'))
      | Some t' \<Rightarrow> (Some (t'\<lparr>ft_root := FNull, ft_family := 0, ft_table_id := 0\<rparr>), ms))"

definition create_fib_node :: "mallocs \<Rightarrow> fib_node \<times> mallocs" where
  "create_fib_node ms =
     (case malloc_ok ms of (ok, ms') \<Rightarrow>
        (if ok then FNode False (replicate 16 0) 0 0 (replicate BRANCH_SZ FNull) else FNull, ms'))"

text \<open>The loops over \<^verbatim>\<open>child[0..BRANCH_SZ-1]\<close>, threading \<^verbatim>\<open>*success\<close> and the allocations.\<close>

fun fib_children ::
  "(nat \<Rightarrow> fib_node \<Rightarrow> int \<Rightarrow> mallocs \<Rightarrow> (fib_node \<times> int \<times> mallocs) option)
     \<Rightarrow> nat \<Rightarrow> fib_node list \<Rightarrow> int \<Rightarrow> mallocs \<Rightarrow> (fib_node list \<times> int \<times> mallocs) option"
where
  "fib_children f i [] success ms = Some ([], success, ms)"
| "fib_children f i (c # cs) success ms =
     (case f i c success ms of
        None \<Rightarrow> None
      | Some (c', success, ms) \<Rightarrow>
          (case fib_children f (Suc i) cs success ms of
             None \<Rightarrow> None
           | Some (cs', success, ms) \<Rightarrow> Some (c' # cs', success, ms)))"

primrec fib_add ::
  "nat \<Rightarrow> u8 \<Rightarrow> fib_node \<Rightarrow> key \<Rightarrow> nat \<Rightarrow> int \<Rightarrow> nat \<Rightarrow> int \<Rightarrow> mallocs
     \<Rightarrow> (fib_node \<times> int \<times> mallocs) option"
where
  "fib_add 0 oob n key keylen nh cur_plen success ms = None"
| "fib_add (Suc fuel) oob n key keylen nh cur_plen success ms =
     (let exists = (n \<noteq> FNull)
      in case (if \<not> exists then create_fib_node ms else (n, ms)) of
        (FNull, ms) \<Rightarrow> Some (FNull, -1, ms)
      | (FNode leaf nkey nkeylen nnh cs, ms) \<Rightarrow>
          if keylen \<le> cur_plen then
            (if \<not> leaf \<and> exists then
               (case fib_children
                       (\<lambda>i c success ms. fib_add fuel oob c key keylen nh (cur_plen + K) success ms)
                       0 cs success ms of
                  None \<Rightarrow> None
                | Some (cs', success, ms) \<Rightarrow> Some (FNode leaf nkey nkeylen nnh cs', success, ms))
             else if leaf then
               (if nkeylen < keylen then Some (FNode leaf (map key [0..<16]) keylen nh cs, 0, ms)
                else Some (FNode leaf nkey nkeylen nnh cs, 0, ms))
             else Some (FNode True (map key [0..<16]) keylen nh cs, 0, ms))
          else if keylen < cur_plen + K \<or> leaf then
            (let bits_in_depth = (if K - 1 < keylen - cur_plen then K else keylen - cur_plen);
                 base = unat (BIT_INDEX oob key cur_plen bits_in_depth);
                 first = base * 2 ^ (K - bits_in_depth);
                 count = 2 ^ (K - bits_in_depth)
             in case fib_children
                  (\<lambda>i c success ms.
                     case (if leaf
                           then fib_add fuel oob c (bytes_at nkey) nkeylen nnh (cur_plen + K) success ms
                           else Some (c, success, ms)) of
                       None \<Rightarrow> None
                     | Some (c, success, ms) \<Rightarrow>
                         if first \<le> i \<and> i < first + count
                         then fib_add fuel oob c key keylen nh (cur_plen + K) success ms
                         else Some (c, success, ms))
                  0 cs success ms of
                  None \<Rightarrow> None
                | Some (cs', success, ms) \<Rightarrow> Some (FNode False nkey 0 nnh cs', 0, ms))
          else
            (let index = unat (BIT_INDEX oob key cur_plen K)
             in case fib_add fuel oob (cs ! index) key keylen nh (cur_plen + K) success ms of
                  None \<Rightarrow> None
                | Some (c', success, ms) \<Rightarrow>
                    Some (FNode leaf nkey nkeylen nnh (cs[index := c']), success, ms)))"

declare fib_add.simps [simp del]

definition fib_fuel :: nat where "fib_fuel = 66"

definition fib_route_add ::
  "u8 \<Rightarrow> fib_tree \<Rightarrow> key \<Rightarrow> nat \<Rightarrow> int \<Rightarrow> mallocs \<Rightarrow> (fib_tree \<times> int \<times> mallocs) option"
where
  "fib_route_add oob t key keylen nh ms =
     (case fib_add fib_fuel oob (ft_root t) key keylen nh 0 0 ms of
        None \<Rightarrow> None
      | Some (root, success, ms') \<Rightarrow> Some (t\<lparr>ft_root := root\<rparr>, success, ms'))"

lemma size_child [termination_simp]: "i < length cs \<Longrightarrow> size (cs ! i) < Suc (size_list size cs)"
  for cs :: "fib_node list"
  by (meson less_Suc_eq_le nat_less_le nth_mem size_list_estimation' order_refl)

text \<open>A look-up never leaves the \<^verbatim>\<open>child\<close> array; the guard makes the model total.\<close>

fun fib_lookup :: "u8 \<Rightarrow> fib_node \<Rightarrow> fib_node \<Rightarrow> key \<Rightarrow> nat \<Rightarrow> fib_node" where
  "fib_lookup oob FNull cand key cur_plen = cand"
| "fib_lookup oob (FNode leaf nkey nkeylen nnh cs) cand key cur_plen =
     (let cand' = (if leaf then FNode leaf nkey nkeylen nnh cs else cand);
          index = unat (BIT_INDEX oob key cur_plen K)
      in if index < length cs then fib_lookup oob (cs ! index) cand' key (cur_plen + K) else cand')"

definition fib_route_lookup :: "u8 \<Rightarrow> fib_tree \<Rightarrow> key \<Rightarrow> fib_node" where
  "fib_route_lookup oob t key = fib_lookup oob (ft_root t) FNull key 0"

text \<open>\<^verbatim>\<open>_traverse\<close>: the callback is run on the leaves, children in order, until it fails.\<close>

fun fib_walk :: "fib_node \<Rightarrow> (fib_node \<Rightarrow> 's \<Rightarrow> int \<times> 's) \<Rightarrow> 's \<Rightarrow> int \<times> 's"
  and fib_walks :: "fib_node list \<Rightarrow> (fib_node \<Rightarrow> 's \<Rightarrow> int \<times> 's) \<Rightarrow> 's \<Rightarrow> int \<times> 's"
where
  "fib_walk FNull callback arg = (0, arg)"
| "fib_walk (FNode leaf nkey nkeylen nnh cs) callback arg =
     (case (if leaf then callback (FNode leaf nkey nkeylen nnh cs) arg else (0, arg)) of (ret, arg) \<Rightarrow>
        if ret \<noteq> 0 then (-1, arg) else fib_walks cs callback arg)"
| "fib_walks [] callback arg = (0, arg)"
| "fib_walks (c # cs) callback arg =
     (case fib_walk c callback arg of (ret, arg) \<Rightarrow>
        if ret \<noteq> 0 then (-1, arg) else fib_walks cs callback arg)"

definition fib_traverse ::
  "fib_tree option \<Rightarrow> (fib_node \<Rightarrow> 's \<Rightarrow> int \<times> 's) option \<Rightarrow> 's \<Rightarrow> int \<times> 's"
where
  "fib_traverse t callback arg =
     (case (t, callback) of
        (Some t', Some cb) \<Rightarrow> if ft_root t' = FNull then (0, arg) else fib_walk (ft_root t') cb arg
      | _ \<Rightarrow> (0, arg))"

text \<open>
  The callback of the rebuild.  Its argument is the FIB tree; \<open>None\<close> records an exhausted
  recursion budget, after which nothing else is done.
\<close>

definition add_to_fib :: "u8 \<Rightarrow> (fib_tree \<times> mallocs) option rib_traverse_callback" where
  "add_to_fib oob n arg =
     (case arg of (rc, st) \<Rightarrow>
        case (n, st) of
          (RNode v e l r, Some (t, ms)) \<Rightarrow>
            (case fib_route_add oob t (bytes_at (dst_ip_addr (re_dst e))) (plen (re_dst e))
                    (re_sdplane_nh_id e) ms of
               None \<Rightarrow> (-1, rc, None)
             | Some (t', ret, ms') \<Rightarrow> (ret, rc, Some (t', ms')))
        | _ \<Rightarrow> (-1, rc, st))"

definition rebuild_fib_from_rib ::
  "u8 \<Rightarrow> rib_tree \<Rightarrow> fib_tree \<Rightarrow> mallocs \<Rightarrow> int \<times> u32 \<times> (fib_tree \<times> mallocs) option"
where
  "rebuild_fib_from_rib oob rib_t fib_t ms =
     rib_traverse (Some rib_t) (Some (add_to_fib oob))
       (0, Some (fib_t\<lparr>ft_family := rt_family rib_t, ft_table_id := rt_table_id rib_t\<rparr>, ms))"

section \<open>Invariant and abstraction\<close>

fun fib_wf :: "nat \<Rightarrow> fib_node \<Rightarrow> bool" where
  "fib_wf cur FNull = True"
| "fib_wf cur (FNode leaf nkey nkeylen nnh cs) =
     (length cs = BRANCH_SZ
      \<and> (if leaf then nkeylen \<le> cur \<and> (\<forall>c\<in>set cs. c = FNull)
         else cur < 128 \<and> (\<forall>c\<in>set cs. fib_wf (cur + K) c)))"

text \<open>The two bits of an address that select the child at level \<open>cur\<close>.\<close>

definition branch :: "key \<Rightarrow> nat \<Rightarrow> nat" where
  "branch a cur = 2 * of_bool (key_bit a cur) + of_bool (key_bit a (Suc cur))"

text \<open>The leaf that an address ends in, as a prefix length and a next hop.\<close>

fun fib_find :: "nat \<Rightarrow> fib_node \<Rightarrow> key \<Rightarrow> int answer" where
  "fib_find cur FNull a = None"
| "fib_find cur (FNode leaf nkey nkeylen nnh cs) a =
     (if leaf then Some (nkeylen, nnh)
      else if branch a cur < length cs then fib_find (cur + K) (cs ! branch a cur) a
      else None)"

section \<open>Branching\<close>

lemma bit_two_bytes:
  fixes hi lo :: u8
  assumes "8 \<le> p" "p < 16"
  shows "bit (push_bit 8 (ucast hi) OR ucast lo :: u32) p \<longleftrightarrow> bit hi (p - 8)"
proof -
  have "\<not> bit lo p" using assms(1) by (auto dest: bit_imp_le_length)
  then show ?thesis using assms by (auto simp add: bit_or_iff bit_push_bit_iff bit_unsigned_iff)
qed

lemma bit_BIT_INDEX_byte:
  assumes "s mod 8 + n \<le> 8"
  shows "bit (BIT_INDEX oob key s n) j
    \<longleftrightarrow> j < n \<and> bit (key_safe oob key (s div 8)) (16 - (s mod 8 + n) + j - 8)"
proof -
  have "push_bit n 1 - 1 = (mask n :: u32)" by (simp add: mask_eq_exp_minus_1)
  then have idx: "bit (BIT_INDEX oob key s n) j \<longleftrightarrow>
      j < 16 \<and> j < 32 \<and> j < n \<and> bit (push_bit 8 (ucast (key_safe oob key (s div 8)))
        OR ucast (key_safe oob key (s div 8 + 1)) :: u32) (16 - (s mod 8 + n) + j)"
    unfolding BIT_INDEX_def by (simp only: bit_unsigned_iff bit_and_iff bit_drop_bit_eq bit_mask_iff o_def)
      (simp add: conj_ac)
  show ?thesis
  proof (cases "j < n")
    case True
    then have "8 \<le> 16 - (s mod 8 + n) + j" "16 - (s mod 8 + n) + j < 16" "j < 16" "j < 32"
      using assms by simp_all
    with idx show ?thesis by (simp add: bit_two_bytes)
  qed (simp add: idx)
qed

lemma bit_BIT_INDEX:
  assumes "s < 128" "s mod 8 + n \<le> 8"
  shows "bit (BIT_INDEX oob key s n) j \<longleftrightarrow> j < n \<and> key_bit key (s + (n - 1 - j))"
proof (cases "j < n")
  case True
  have "s + (n - 1 - j) = (s mod 8 + (n - 1 - j)) + s div 8 * 8"
    by (metis add.assoc add.commute mod_div_mult_eq)
  moreover have "s mod 8 + (n - 1 - j) < 8" using True assms(2) by linarith
  ultimately have "(s + (n - 1 - j)) div 8 = s div 8" "(s + (n - 1 - j)) mod 8 = s mod 8 + (n - 1 - j)"
    by (metis div_less div_mult_self1 add_0_right add.right_neutral zero_neq_numeral)
      (metis \<open>s + (n - 1 - j) = (s mod 8 + (n - 1 - j)) + s div 8 * 8\<close>
        \<open>s mod 8 + (n - 1 - j) < 8\<close> mod_less mod_mult_self1)
  moreover have "7 - (s mod 8 + (n - 1 - j)) = 16 - (s mod 8 + n) + j - 8"
    using True assms(2) by simp
  moreover have "s div 8 < 16" using assms(1) by (simp add: less_mult_imp_div_less)
  ultimately show ?thesis
    using True assms by (simp add: bit_BIT_INDEX_byte key_safe_def key_bit_def)
qed (simp add: bit_BIT_INDEX_byte assms)

lemma BIT_INDEX_oob:
  assumes "s \<le> 128" "s mod 8 + n \<le> 8"
  shows "BIT_INDEX oob key s n = BIT_INDEX oob' key s n"
proof -
  have "s div 8 \<le> 16" using div_le_mono [OF assms(1), of 8] by simp
  then have "key_safe oob key (s div 8) = key_safe oob' key (s div 8)" by (simp add: key_safe_def)
  then show ?thesis by (intro bit_eqI) (simp add: bit_BIT_INDEX_byte [OF assms(2)])
qed

lemma unat_two_bits:
  fixes x :: "'a::len word"
  assumes "\<And>j. 2 \<le> j \<Longrightarrow> \<not> bit x j"
  shows "unat x = of_bool (bit x 0) + 2 * of_bool (bit x 1)"
proof -
  have "x = take_bit 2 x" using assms by (auto simp: bit_eq_iff bit_take_bit_iff not_less [symmetric])
  then have "unat x = take_bit 2 (unat x)" by (metis unsigned_take_bit_eq)
  also have "\<dots> = of_bool (bit (unat x) 0) + 2 * of_bool (bit (unat x) 1)"
    by (simp add: take_bit_rec [of 2] take_bit_rec [of 1] bit_0 bit_Suc mod2_eq_if)
  finally show ?thesis by (simp add: bit_unsigned_iff)
qed

lemma BIT_INDEX_2:
  "s < 128 \<Longrightarrow> even s \<Longrightarrow> unat (BIT_INDEX oob key s 2) = branch key s"
proof -
  assume s: "s < 128" "even s"
  then have "s mod 8 + 2 \<le> 8" by presburger
  note b = bit_BIT_INDEX [OF s(1) this, of oob key]
  show ?thesis by (subst unat_two_bits) (auto simp: b branch_def)
qed

lemma BIT_INDEX_1:
  "s < 128 \<Longrightarrow> unat (BIT_INDEX oob key s 1) = of_bool (key_bit key s)"
proof -
  assume s: "s < 128"
  have "s mod 8 + 1 \<le> 8" by presburger
  note b = bit_BIT_INDEX [OF s this, of oob key]
  show ?thesis by (subst unat_two_bits) (auto simp: b simp del: One_nat_def)
qed

lemma branch_less: "branch a cur < 4"
  by (simp add: branch_def)

lemma key_bits_two:
  "key_bits k cur (cur + 2) = key_bits a cur (cur + 2) \<longleftrightarrow> branch k cur = branch a cur"
  by (auto simp: key_bits_Cons branch_def of_bool_def split: if_splits)

text \<open>The children \<open>first .. first + count - 1\<close> are those whose addresses extend the prefix.\<close>

definition child_range :: "u8 \<Rightarrow> key \<Rightarrow> nat \<Rightarrow> nat \<Rightarrow> nat \<Rightarrow> bool" where
  "child_range oob key keylen cur i \<longleftrightarrow>
     (let b = (if K - 1 < keylen - cur then K else keylen - cur);
          base = unat (BIT_INDEX oob key cur b)
      in base * 2 ^ (K - b) \<le> i \<and> i < base * 2 ^ (K - b) + 2 ^ (K - b))"

lemma child_range_iff:
  assumes "cur < keylen" "cur < 128" "even cur"
  shows "child_range oob key keylen cur (branch a cur)
    \<longleftrightarrow> key_bits key cur (min keylen (cur + 2)) = key_bits a cur (min keylen (cur + 2))"
proof (cases "keylen = Suc cur")
  case True
  have "unat (BIT_INDEX oob key cur 1) = of_bool (key_bit key cur)"
    using assms(2) by (rule BIT_INDEX_1)
  with True show ?thesis
    by (auto simp: child_range_def K_def branch_def key_bits_Cons of_bool_def)
next
  case False
  with assms(1) have "1 < keylen - cur" "min keylen (cur + 2) = cur + 2" by auto
  with assms BIT_INDEX_2 [of cur oob key] show ?thesis
    by (auto simp: child_range_def K_def Let_def key_bits_two [simplified])
qed

lemma covers_split:
  "m \<le> n \<Longrightarrow> covers a k n \<longleftrightarrow> covers a k m \<and> key_bits k m n = key_bits a m n"
  by (auto simp: covers_def key_bits_eq_iff) (metis not_le)+

section \<open>Adding a route\<close>

lemma create_fib_node_ok:
  "never_fails ms \<Longrightarrow> \<exists>ms'. create_fib_node ms =
     (FNode False (replicate 16 0) 0 0 (replicate BRANCH_SZ FNull), ms') \<and> never_fails ms'"
  using malloc_never_fails [of ms] by (auto simp: create_fib_node_def)

lemma fib_children_ok:
  assumes "\<And>j ms. j < length cs \<Longrightarrow> never_fails ms \<Longrightarrow>
      \<exists>c' ms'. f (i + j) (cs ! j) 0 ms = Some (c', 0, ms') \<and> never_fails ms' \<and> R (i + j) (cs ! j) c'"
    and "never_fails ms"
  shows "\<exists>cs' ms'. fib_children f i cs 0 ms = Some (cs', 0, ms') \<and> never_fails ms'
     \<and> length cs' = length cs \<and> (\<forall>j<length cs. R (i + j) (cs ! j) (cs' ! j))"
  using assms
proof (induction cs arbitrary: i ms)
  case (Cons c cs)
  from Cons.prems(1) [of 0 ms] Cons.prems(2) obtain c' ms1 where
    c': "f i c 0 ms = Some (c', 0, ms1)" "never_fails ms1" "R i c c'" by auto
  from Cons.IH [of "Suc i" ms1] Cons.prems(1) [of "Suc _"] c'(2) obtain cs' ms' where
    cs': "fib_children f (Suc i) cs 0 ms1 = Some (cs', 0, ms')" "never_fails ms'"
      "length cs' = length cs" "\<forall>j<length cs. R (Suc i + j) (cs ! j) (cs' ! j)" by fastforce
  have "R (i + j) ((c # cs) ! j) ((c' # cs') ! j)" if "j < length (c # cs)" for j
    using that c'(3) cs'(4) by (cases j) auto
  with c' cs' show ?case by simp
qed simp

lemma fib_add_new_leaf:
  assumes "keylen \<le> cur" "never_fails ms"
  shows "\<exists>ms'. fib_add (Suc fuel) oob FNull key keylen nh cur s ms
      = Some (FNode True (map key [0..<16]) keylen nh (replicate BRANCH_SZ FNull), 0, ms') \<and> never_fails ms'"
  using create_fib_node_ok [OF assms(2)] assms(1) by (auto simp: fib_add.simps)

text \<open>What adding a route does to the subtree at level \<open>cur\<close>.\<close>

definition fib_added :: "nat \<Rightarrow> key \<Rightarrow> nat \<Rightarrow> int \<Rightarrow> fib_node \<Rightarrow> fib_node \<Rightarrow> bool" where
  "fib_added cur key keylen nh n n' \<longleftrightarrow>
     fib_wf cur n' \<and>
     (\<forall>a. covers a key (min keylen cur) \<longrightarrow>
        fib_find cur n' a = improve a (key, keylen, nh) (fib_find cur n a))"

lemma fib_added_new_leaf:
  "keylen \<le> cur \<Longrightarrow>
     fib_added cur key keylen nh FNull (FNode True k keylen nh (replicate BRANCH_SZ FNull))"
  by (simp add: fib_added_def improve_def answer_len_def)

lemma fib_added_leaf:
  assumes "keylen \<le> cur" "fib_wf cur (FNode True nkey nkeylen nnh cs)"
  shows "fib_added cur key keylen nh (FNode True nkey nkeylen nnh cs)
    (if nkeylen < keylen then FNode True k keylen nh cs else FNode True nkey nkeylen nnh cs)"
  using assms by (auto simp: fib_added_def improve_def answer_len_def)

text \<open>
  An internal node whose children were updated: those on the path of the prefix got the
  route, the others kept their answers.
\<close>

lemma fib_added_internal:
  assumes "length cs' = BRANCH_SZ" "cur < 128" "\<forall>c\<in>set cs'. fib_wf (cur + K) c"
    and old: "\<And>a. fib_find cur n a = g (branch a cur) a"
    and ins: "\<And>a. covers a key (min keylen (cur + K)) \<Longrightarrow>
        fib_find (cur + K) (cs' ! branch a cur) a = improve a (key, keylen, nh) (g (branch a cur) a)"
    and outs: "\<And>a. covers a key (min keylen cur) \<Longrightarrow> \<not> covers a key (min keylen (cur + K)) \<Longrightarrow>
        fib_find (cur + K) (cs' ! branch a cur) a = g (branch a cur) a"
  shows "fib_added cur key keylen nh n (FNode False k kl nnh cs')"
proof -
  have "fib_find cur (FNode False k kl nnh cs') a = improve a (key, keylen, nh) (fib_find cur n a)"
    if c: "covers a key (min keylen cur)" for a
  proof -
    have br: "branch a cur < length cs'" using branch_less assms(1) by (simp add: BRANCH_SZ_def K_def)
    show ?thesis
    proof (cases "covers a key (min keylen (cur + K))")
      case True
      with ins br old show ?thesis by simp
    next
      case False
      then have "\<not> covers a key keylen"
        using covers_split [of "min keylen (cur + K)" keylen a key] by auto
      with outs [OF c False] br old show ?thesis by (simp add: improve_def)
    qed
  qed
  with assms(1-3) show ?thesis by (simp add: fib_added_def)
qed

lemma covers_level:
  assumes "cur < keylen" "cur < 128" "even cur" "covers a key (min keylen cur)"
  shows "covers a key (min keylen (cur + K)) \<longleftrightarrow> child_range oob key keylen cur (branch a cur)"
  using assms covers_split [of cur "min keylen (cur + 2)" a key] child_range_iff [OF assms(1-3), of oob key a]
  by (simp add: K_def)

text \<open>
  The induction step, one lemma per case of the code.  \<open>fib_adds fuel oob cur\<close> says that
  the budget \<open>fuel\<close> is enough at level \<open>cur\<close> and that the result is as specified.
\<close>

definition fib_adds :: "nat \<Rightarrow> u8 \<Rightarrow> nat \<Rightarrow> bool" where
  "fib_adds fuel oob cur \<longleftrightarrow>
     (\<forall>n key keylen nh ms. keylen \<le> 128 \<and> fib_wf cur n \<and> never_fails ms \<longrightarrow>
        (\<exists>n' ms'. fib_add fuel oob n key keylen nh cur 0 ms = Some (n', 0, ms')
           \<and> never_fails ms' \<and> fib_added cur key keylen nh n n'))"

lemma fib_addsD:
  "\<lbrakk> fib_adds fuel oob cur; keylen \<le> 128; fib_wf cur n; never_fails ms \<rbrakk> \<Longrightarrow>
     \<exists>n' ms'. fib_add fuel oob n key keylen nh cur 0 ms = Some (n', 0, ms')
           \<and> never_fails ms' \<and> fib_added cur key keylen nh n n'"
  by (auto simp: fib_adds_def)

lemma fib_add_case1:
  assumes ih: "fib_adds fuel oob (cur + K)" and wf: "fib_wf cur (FNode False nkey nkeylen nnh cs)"
    and le: "keylen \<le> cur" "keylen \<le> 128" and ms: "never_fails ms"
  shows "\<exists>n' ms'. fib_add (Suc fuel) oob (FNode False nkey nkeylen nnh cs) key keylen nh cur 0 ms
      = Some (n', 0, ms') \<and> never_fails ms' \<and> fib_added cur key keylen nh (FNode False nkey nkeylen nnh cs) n'"
proof -
  have step: "\<exists>c' ms'. fib_add fuel oob (cs ! j) key keylen nh (cur + K) 0 ms = Some (c', 0, ms')
      \<and> never_fails ms' \<and> fib_added (cur + K) key keylen nh (cs ! j) c'"
    if "j < length cs" "never_fails ms" for j ms
    using fib_addsD [OF ih le(2), of "cs ! j" ms] wf that by simp
  obtain cs' ms' where cs': "fib_children (\<lambda>i c success ms. fib_add fuel oob c key keylen nh (cur + K) success ms)
        0 cs 0 ms = Some (cs', 0, ms')" "never_fails ms'" "length cs' = length cs"
      "\<forall>j<length cs. fib_added (cur + K) key keylen nh (cs ! j) (cs' ! j)"
    using fib_children_ok [where f = "\<lambda>i c success ms. fib_add fuel oob c key keylen nh (cur + K) success ms"
        and R = "\<lambda>i. fib_added (cur + K) key keylen nh" and i = 0, OF _ ms, of cs] step by auto
  have "fib_added cur key keylen nh (FNode False nkey nkeylen nnh cs) (FNode False nkey nkeylen nnh cs')"
  proof (rule fib_added_internal [where g = "\<lambda>i. fib_find (cur + K) (cs ! i)"])
    show "length cs' = BRANCH_SZ" "cur < 128" using cs'(3) wf by simp_all
    show "\<forall>c\<in>set cs'. fib_wf (cur + K) c"
      using cs'(3,4) by (auto simp: in_set_conv_nth fib_added_def)
  next
    fix a
    have br: "branch a cur < length cs" using branch_less wf by (simp add: BRANCH_SZ_def K_def)
    then show "fib_find cur (FNode False nkey nkeylen nnh cs) a = fib_find (cur + K) (cs ! branch a cur) a"
      by simp
    show "fib_find (cur + K) (cs' ! branch a cur) a
        = improve a (key, keylen, nh) (fib_find (cur + K) (cs ! branch a cur) a)"
      if "covers a key (min keylen (cur + K))"
      using cs'(4) br that by (auto simp: fib_added_def)
  qed (use le(1) in \<open>simp add: min_def\<close>)
  with cs' le(1) show ?thesis by (simp add: fib_add.simps)
qed

lemma fib_add_case2:
  assumes ih: "fib_adds (Suc fuel) oob (cur + K)" and wf: "fib_wf cur (FNode leaf nkey nkeylen nnh cs)"
    and lt: "cur < keylen" "keylen \<le> 128" "even cur" and case2: "keylen < cur + K \<or> leaf" and ms: "never_fails ms"
  shows "\<exists>n' ms'. fib_add (Suc (Suc fuel)) oob (FNode leaf nkey nkeylen nnh cs) key keylen nh cur 0 ms
      = Some (n', 0, ms') \<and> never_fails ms' \<and> fib_added cur key keylen nh (FNode leaf nkey nkeylen nnh cs) n'"
proof -
  define g where "g = (\<lambda>i a. if leaf then Some (nkeylen, nnh) else fib_find (cur + K) (cs ! i) a)"
  define R where "R = (\<lambda>i c'. fib_wf (cur + K) c' \<and> (\<forall>a.
      (child_range oob key keylen cur i \<longrightarrow> covers a key (min keylen (cur + K)) \<longrightarrow>
         fib_find (cur + K) c' a = improve a (key, keylen, nh) (g i a))
      \<and> (\<not> child_range oob key keylen cur i \<longrightarrow> fib_find (cur + K) c' a = g i a)))"
  define f where "f = (\<lambda>i c success ms.
      case (if leaf then fib_add (Suc fuel) oob c (bytes_at nkey) nkeylen nnh (cur + K) success ms
            else Some (c, success, ms)) of
        None \<Rightarrow> None
      | Some (c, success, ms) \<Rightarrow>
          if child_range oob key keylen cur i
          then fib_add (Suc fuel) oob c key keylen nh (cur + K) success ms
          else Some (c, success, ms))"
  have step: "\<exists>c' ms'. f j (cs ! j) 0 ms = Some (c', 0, ms') \<and> never_fails ms' \<and> R j c'"
    if j: "j < length cs" and ms: "never_fails ms" for j ms
  proof -
    obtain c ms1 where c: "(if leaf then fib_add (Suc fuel) oob (cs ! j) (bytes_at nkey) nkeylen nnh (cur + K) 0 ms
            else Some (cs ! j, 0, ms)) = Some (c, 0, ms1)" "never_fails ms1" "fib_wf (cur + K) c"
        "\<forall>a. fib_find (cur + K) c a = g j a"
    proof (cases leaf)
      case True
      then have "cs ! j = FNull" "nkeylen \<le> cur" using wf nth_mem [OF j] by auto
      with that True fib_add_new_leaf [of nkeylen "cur + K" ms fuel oob "bytes_at nkey" nnh 0] ms
      show thesis by (auto simp: g_def)
    qed (use that wf j ms in \<open>auto simp: g_def\<close>)
    show ?thesis
      using fib_addsD [OF ih lt(2) c(3,2), of key nh] c by (auto simp: f_def R_def fib_added_def)
  qed
  obtain cs' ms' where cs': "fib_children f 0 cs 0 ms = Some (cs', 0, ms')" "never_fails ms'"
      "length cs' = length cs" "\<forall>j<length cs. R j (cs' ! j)"
    using fib_children_ok [where f = f and R = "\<lambda>i c. R i" and i = 0, OF _ ms, of cs] step by auto
  have "fib_added cur key keylen nh (FNode leaf nkey nkeylen nnh cs) (FNode False nkey 0 nnh cs')"
  proof (rule fib_added_internal [where g = g])
    show "length cs' = BRANCH_SZ" "cur < 128" using cs'(3) wf lt by (simp_all split: if_splits)
    show "\<forall>c\<in>set cs'. fib_wf (cur + K) c" using cs'(3,4) by (auto simp: in_set_conv_nth R_def)
  next
    fix a
    have br: "branch a cur < length cs" using branch_less wf by (simp add: BRANCH_SZ_def K_def)
    then show "fib_find cur (FNode leaf nkey nkeylen nnh cs) a = g (branch a cur) a" by (simp add: g_def)
    have lvl: "covers a key (min keylen (cur + K)) \<longleftrightarrow> child_range oob key keylen cur (branch a cur)"
      if "covers a key (min keylen cur)"
      using covers_level [OF lt(1) _ lt(3) that] lt by simp
    show "fib_find (cur + K) (cs' ! branch a cur) a = improve a (key, keylen, nh) (g (branch a cur) a)"
      if c: "covers a key (min keylen (cur + K))"
    proof -
      have "covers a key (min keylen cur)"
        using c covers_split [of "min keylen cur" "min keylen (cur + K)" a key] by auto
      with lvl cs'(4) br c show ?thesis by (auto simp: R_def)
    qed
    show "fib_find (cur + K) (cs' ! branch a cur) a = g (branch a cur) a"
      if "covers a key (min keylen cur)" "\<not> covers a key (min keylen (cur + K))"
      using lvl cs'(4) br that by (auto simp: R_def)
  qed
  moreover have "fib_add (Suc (Suc fuel)) oob (FNode leaf nkey nkeylen nnh cs) key keylen nh cur 0 ms
      = (case fib_children f 0 cs 0 ms of None \<Rightarrow> None | Some (cs', success, ms) \<Rightarrow> Some (FNode False nkey 0 nnh cs', 0, ms))"
    using lt(1) case2
    by (simp only: fib_add.simps(2) [of "Suc fuel"] f_def child_range_def Let_def) auto
  ultimately show ?thesis using cs' by simp
qed

lemma fib_add_case3:
  assumes ih: "fib_adds fuel oob (cur + K)" and wf: "fib_wf cur (FNode False nkey nkeylen nnh cs)"
    and le: "cur + K \<le> keylen" "keylen \<le> 128" "even cur" and ms: "never_fails ms"
  shows "\<exists>n' ms'. fib_add (Suc fuel) oob (FNode False nkey nkeylen nnh cs) key keylen nh cur 0 ms
      = Some (n', 0, ms') \<and> never_fails ms' \<and> fib_added cur key keylen nh (FNode False nkey nkeylen nnh cs) n'"
proof -
  let ?i = "branch key cur"
  have idx: "unat (BIT_INDEX oob key cur K) = ?i"
    using BIT_INDEX_2 [of cur oob key] le by (simp add: K_def)
  have br: "branch a cur < length cs" for a using branch_less wf by (simp add: BRANCH_SZ_def K_def)
  obtain c' ms' where c': "fib_add fuel oob (cs ! ?i) key keylen nh (cur + K) 0 ms = Some (c', 0, ms')"
      "never_fails ms'" "fib_added (cur + K) key keylen nh (cs ! ?i) c'"
    using fib_addsD [OF ih le(2), of "cs ! ?i" ms key nh] wf br ms by auto
  have "fib_added cur key keylen nh (FNode False nkey nkeylen nnh cs)
      (FNode False nkey nkeylen nnh (cs[?i := c']))"
  proof (rule fib_added_internal [where g = "\<lambda>i. fib_find (cur + K) (cs ! i)"])
    show "length (cs[?i := c']) = BRANCH_SZ" "cur < 128" using wf by simp_all
    show "\<forall>c\<in>set (cs[?i := c']). fib_wf (cur + K) c"
      using wf c'(3) by (auto simp: fib_added_def dest!: set_update_subset_insert [THEN subsetD])
  next
    fix a
    show "fib_find cur (FNode False nkey nkeylen nnh cs) a = fib_find (cur + K) (cs ! branch a cur) a"
      using br by simp
    have lvl: "covers a key (cur + K) \<longleftrightarrow> covers a key cur \<and> branch key cur = branch a cur"
      using covers_split [of cur "cur + 2" a key] by (simp add: K_def key_bits_two [simplified])
    show "fib_find (cur + K) (cs[?i := c'] ! branch a cur) a
        = improve a (key, keylen, nh) (fib_find (cur + K) (cs ! branch a cur) a)"
      if "covers a key (min keylen (cur + K))"
      using c'(3) that lvl le br by (simp add: fib_added_def min.absorb2)
    show "fib_find (cur + K) (cs[?i := c'] ! branch a cur) a = fib_find (cur + K) (cs ! branch a cur) a"
      if "covers a key (min keylen cur)" "\<not> covers a key (min keylen (cur + K))"
      using that lvl le by (auto simp: min_def K_def split: if_splits)
  qed
  with c' le(1) show ?thesis by (simp add: fib_add.simps K_def Let_def idx [unfolded K_def])
qed

text \<open>A missing node is first replaced by an empty internal node.\<close>

lemma fib_add_fresh:
  assumes "cur < keylen" "create_fib_node ms = (FNode leaf nkey nkeylen nnh cs, ms')"
  shows "fib_add (Suc fuel) oob FNull key keylen nh cur s ms
    = fib_add (Suc fuel) oob (FNode leaf nkey nkeylen nnh cs) key keylen nh cur s ms'"
  using assms by (simp add: fib_add.simps)

lemma fib_adds_node:
  assumes ih: "cur < 128 \<Longrightarrow> 0 < fuel \<and> fib_adds fuel oob (cur + K)" and "even cur" "cur \<le> 128"
    and wf: "fib_wf cur (FNode leaf nkey nkeylen nnh cs)" and "keylen \<le> 128" "never_fails ms"
  shows "\<exists>n' ms'. fib_add (Suc fuel) oob (FNode leaf nkey nkeylen nnh cs) key keylen nh cur 0 ms
      = Some (n', 0, ms') \<and> never_fails ms' \<and> fib_added cur key keylen nh (FNode leaf nkey nkeylen nnh cs) n'"
proof -
  consider "keylen \<le> cur" "leaf" | "keylen \<le> cur" "\<not> leaf"
    | "cur < keylen" "keylen < cur + K \<or> leaf" | "cur + K \<le> keylen" "\<not> leaf" by linarith
  then show ?thesis
  proof cases
    case 1
    with fib_added_leaf [of keylen cur nkey nkeylen nnh cs key nh "map key [0..<16]"] wf assms(6) show ?thesis
      by (auto simp: fib_add.simps split: if_splits)
  next
    case 2
    with wf have "cur < 128" by simp
    with 2 ih wf assms(5,6) show ?thesis by (auto intro: fib_add_case1)
  next
    case 3
    with ih assms(5) obtain fuel' where "fuel = Suc fuel'" "fib_adds fuel oob (cur + K)"
      by (cases fuel) auto
    with fib_add_case2 [of fuel' oob cur leaf nkey nkeylen nnh cs keylen ms key nh] 3 wf assms show ?thesis by auto
  next
    case 4
    with wf have "cur < 128" by simp
    with 4 ih wf assms(2,5,6) show ?thesis by (auto intro: fib_add_case3)
  qed
qed

lemma fib_adds_Suc:
  assumes ih: "cur < 128 \<Longrightarrow> 0 < fuel \<and> fib_adds fuel oob (cur + K)" and "even cur" "cur \<le> 128"
  shows "fib_adds (Suc fuel) oob cur"
  unfolding fib_adds_def
proof (intro allI impI, elim conjE)
  fix n :: fib_node and key :: key and keylen :: nat and nh :: int and ms :: mallocs
  assume le: "keylen \<le> 128" and wf: "fib_wf cur n" and ms: "never_fails ms"
  show "\<exists>n' ms'. fib_add (Suc fuel) oob n key keylen nh cur 0 ms = Some (n', 0, ms')
      \<and> never_fails ms' \<and> fib_added cur key keylen nh n n'"
  proof (cases n)
    case (FNode leaf nkey nkeylen nnh cs)
    with fib_adds_node [OF ih assms(2,3) _ le ms] wf show ?thesis by simp
  next
    case FNull
    show ?thesis
    proof (cases "keylen \<le> cur")
      case True
      with fib_add_new_leaf [OF True ms, of fuel oob key nh 0] fib_added_new_leaf [of keylen cur key nh]
      show ?thesis by (auto simp: FNull)
    next
      case False
      define fresh where "fresh = FNode False (replicate 16 0) 0 0 (replicate BRANCH_SZ FNull)"
      obtain ms1 where ms1: "create_fib_node ms = (fresh, ms1)" "never_fails ms1"
        using create_fib_node_ok [OF ms] by (auto simp: fresh_def)
      have "fib_find cur fresh a = None" for a
        using branch_less [of a cur] by (simp add: fresh_def BRANCH_SZ_def K_def)
      then have same: "fib_added cur key keylen nh fresh n' = fib_added cur key keylen nh FNull n'" for n'
        by (simp add: fib_added_def)
      have wf: "fib_wf cur fresh" using False le by (simp add: fresh_def)
      have eq: "fib_add (Suc fuel) oob FNull key keylen nh cur 0 ms
          = fib_add (Suc fuel) oob fresh key keylen nh cur 0 ms1"
        unfolding fresh_def using False ms1(1) by (intro fib_add_fresh) (simp_all add: fresh_def)
      show ?thesis
        unfolding FNull eq same [symmetric] unfolding fresh_def
        by (rule fib_adds_node [OF ih assms(2,3) wf [unfolded fresh_def] le ms1(2)])
    qed
  qed
qed

lemma fib_adds_enough:
  "130 \<le> 2 * fuel + cur \<Longrightarrow> even cur \<Longrightarrow> cur \<le> 128 \<Longrightarrow> fib_adds fuel oob cur"
proof (induction fuel arbitrary: cur)
  case (Suc fuel)
  show ?case
  proof (rule fib_adds_Suc)
    assume "cur < 128"
    with Suc.prems have "even (cur + K)" "cur + K \<le> 128" "0 < fuel"
      by (auto simp: K_def elim!: evenE)
    with Suc show "0 < fuel \<and> fib_adds fuel oob (cur + K)" by (simp add: K_def)
  qed (use Suc.prems in auto)
qed simp

section \<open>Routes, look-ups and the rebuild\<close>

lemma fib_route_add_ok:
  assumes "fib_wf 0 (ft_root t)" "keylen \<le> 128" "never_fails ms"
  shows "\<exists>root ms'. fib_route_add oob t key keylen nh ms = Some (t\<lparr>ft_root := root\<rparr>, 0, ms')
     \<and> never_fails ms' \<and> fib_wf 0 root
     \<and> (\<forall>a. fib_find 0 root a = improve a (key, keylen, nh) (fib_find 0 (ft_root t) a))"
proof -
  have "fib_adds fib_fuel oob 0" by (rule fib_adds_enough) (simp_all add: fib_fuel_def)
  from fib_addsD [OF this assms(2,1,3), of key nh] show ?thesis
    by (auto simp: fib_route_add_def fib_added_def covers_def)
qed

definition fib_insert :: "fib_tree \<Rightarrow> key \<times> nat \<times> int \<Rightarrow> fib_tree" where
  "fib_insert t r =
     (case r of (key, keylen, nh) \<Rightarrow>
        case fib_route_add 0 t key keylen nh [] of None \<Rightarrow> t | Some (t', success, ms') \<Rightarrow> t')"

interpretation fib: longest_prefix_table
  "\<lambda>t. fib_find 0 (ft_root t)" fib_insert "\<lambda>t. fib_wf 0 (ft_root t)" 128
proof
  fix t :: fib_tree and r :: "key \<times> nat \<times> int" and a :: key
  assume a: "fib_wf 0 (ft_root t)" "fst (snd r) \<le> 128"
  obtain key keylen nh where r: "r = (key, keylen, nh)" by (metis prod_cases3)
  from fib_route_add_ok [OF a(1), of keylen "[]" 0 key nh] a(2) r
  show "fib_wf 0 (ft_root (fib_insert t r))
      \<and> fib_find 0 (ft_root (fib_insert t r)) a = improve a r (fib_find 0 (ft_root t) a)"
    by (auto simp: fib_insert_def)
qed

text \<open>The look-up of the code goes on below the leaf, where there is nothing.\<close>

definition fib_answer :: "fib_node \<Rightarrow> int answer" where
  "fib_answer n = (case n of FNull \<Rightarrow> None | FNode leaf nkey nkeylen nnh cs \<Rightarrow> Some (nkeylen, nnh))"

lemma fib_lookup_below_leaf:
  "\<forall>c\<in>set cs. c = FNull \<Longrightarrow> i < length cs \<Longrightarrow> fib_lookup oob (cs ! i) cand a cur = cand"
  by (metis fib_lookup.simps(1) nth_mem)

lemma fib_lookup_find:
  assumes "fib_wf cur n" "even cur"
  shows "fib_answer (fib_lookup oob n FNull a cur) = fib_find cur n a"
  using assms
proof (induction cur n a rule: fib_find.induct)
  case (2 cur leaf nkey nkeylen nnh cs a)
  show ?case
  proof (cases leaf)
    case True
    with 2 show ?thesis by (simp add: fib_lookup_below_leaf Let_def fib_answer_def)
  next
    case False
    with 2(2,3) have "unat (BIT_INDEX oob a cur K) = branch a cur" "branch a cur < length cs"
      using BIT_INDEX_2 [of cur oob a] branch_less [of a cur] by (simp_all add: K_def BRANCH_SZ_def)
    with 2 False show ?thesis by (simp add: Let_def K_def)
  qed
qed (simp add: fib_answer_def)

definition entry_route :: "route_entry \<Rightarrow> key \<times> nat \<times> int" where
  "entry_route e = (bytes_at (dst_ip_addr (re_dst e)), plen (re_dst e), re_sdplane_nh_id e)"

definition entry_answer :: "route_entry \<Rightarrow> nat \<times> int" where
  "entry_answer e = (plen (re_dst e), re_sdplane_nh_id e)"

lemma run_add_to_fib:
  assumes "\<forall>n\<in>set ns. n \<noteq> RNull \<and> plen (re_dst (rn_entry n)) \<le> 128"
    and "fib_wf 0 (ft_root t)" "never_fails ms"
  shows "\<exists>root ms'. run_callback (add_to_fib oob) ns (rc, Some (t, ms)) = (0, rc, Some (t\<lparr>ft_root := root\<rparr>, ms'))
     \<and> never_fails ms' \<and> fib_wf 0 root
     \<and> (\<forall>a. fib_find 0 root a = fold (improve a) (map (entry_route \<circ> rn_entry) ns) (fib_find 0 (ft_root t) a))"
  using assms
proof (induction ns arbitrary: t ms)
  case Nil
  then show ?case by (intro exI [of _ "ft_root t"] exI [of _ ms]) simp
next
  case (Cons n ns)
  then obtain v e l r where n: "n = RNode v e l r" by (cases n) auto
  with Cons.prems fib_route_add_ok [of t "plen (re_dst e)" ms oob "bytes_at (dst_ip_addr (re_dst e))" "re_sdplane_nh_id e"]
  obtain root ms1 where r: "fib_route_add oob t (bytes_at (dst_ip_addr (re_dst e))) (plen (re_dst e)) (re_sdplane_nh_id e) ms
        = Some (t\<lparr>ft_root := root\<rparr>, 0, ms1)" "never_fails ms1" "fib_wf 0 root"
      "\<forall>a. fib_find 0 root a = improve a (entry_route e) (fib_find 0 (ft_root t) a)"
    by (auto simp: entry_route_def)
  from Cons.IH [of "t\<lparr>ft_root := root\<rparr>" ms1] Cons.prems(1) r n show ?case
    by (auto simp: add_to_fib_def)
qed

lemma rib_consistent_covers:
  assumes "rib_consistent m" "m p = Some e" "entry_route e = (k, n, v)"
  shows "p = key_bits k 0 n" and "covers a k n \<longleftrightarrow> p = key_bits a 0 n" and "n \<le> 128"
  using assms by (auto simp: rib_consistent_def entry_route_def covers_def)

lemma best_of_longest_match:
  assumes cons: "rib_consistent m" and eo: "longest_match m a eo"
    and dom: "set es = {e. \<exists>p. m p = Some e}" and best: "best_of (map entry_route es) a ans"
  shows "ans = map_option entry_answer eo"
proof (cases ans)
  case None
  show ?thesis
  proof (cases eo)
    case (Some e)
    with eo obtain n where n: "m (key_bits a 0 n) = Some e" by (auto simp: longest_match_def)
    obtain k l v where r: "entry_route e = (k, l, v)" by (metis prod_cases3)
    from rib_consistent_covers (1) [OF cons n r] have "n = l"
      by (metis length_key_bits minus_nat.diff_0)
    with rib_consistent_covers (2) [OF cons n r, of a] have "covers a k l" by simp
    moreover from n dom r have "(k, l, v) \<in> set (map entry_route es)" by (force simp: image_iff)
    ultimately show ?thesis using best None by (auto simp: best_of_def)
  qed (simp add: None)
next
  case (Some nv)
  then obtain n v where ans: "ans = Some (n, v)" by (cases nv) auto
  with best obtain k where k: "(k, n, v) \<in> set (map entry_route es)" "covers a k n"
      "\<forall>(k', n', v') \<in> set (map entry_route es). covers a k' n' \<longrightarrow> n' \<le> n"
    by (auto simp: best_of_def)
  then obtain e p where e: "entry_route e = (k, n, v)" "m p = Some e" using dom by auto
  with rib_consistent_covers (2) [OF cons e(2,1), of a] k(2) have p: "m (key_bits a 0 n) = Some e" by simp
  have "m (key_bits a 0 j) = None" if "n < j" for j
  proof (rule ccontr)
    assume "m (key_bits a 0 j) \<noteq> None"
    then obtain e' where e': "m (key_bits a 0 j) = Some e'" by auto
    obtain k' l v' where r: "entry_route e' = (k', l, v')" by (metis prod_cases3)
    from rib_consistent_covers (1) [OF cons e' r] have "j = l"
      by (metis length_key_bits minus_nat.diff_0)
    with rib_consistent_covers (2) [OF cons e' r, of a] have "covers a k' j" by simp
    moreover from e' dom r \<open>j = l\<close> have "(k', j, v') \<in> set (map entry_route es)" by (force simp: image_iff)
    ultimately have "j \<le> n" using k(3) by auto
    with that show False by simp
  qed
  with p have "longest_match m a (Some e)" by (auto simp: longest_match_def)
  with eo longest_match_unique have "eo = Some e" by blast
  with ans e(1) show ?thesis by (simp add: entry_answer_def entry_route_def)
qed

lemma radix_nodes_entries:
  "set (map (rn_entry \<circ> snd) (radix_nodes n)) = {e. \<exists>p. rib_map n p = Some e}"
proof (intro set_eqI iffI)
  fix e
  assume "e \<in> set (map (rn_entry \<circ> snd) (radix_nodes n))"
  then obtain p m where "(p, m) \<in> set (radix_nodes n)" "rn_entry m = e" by auto
  with radix_nodes_map [of p m n] show "e \<in> {e. \<exists>p. rib_map n p = Some e}"
    by (cases m) (auto simp: rib_node_entry_def)
next
  fix e
  assume "e \<in> {e. \<exists>p. rib_map n p = Some e}"
  then obtain p m where "(p, m) \<in> set (radix_nodes n)" "rib_node_entry m = Some e"
    using rib_map_radix_nodes by blast
  then show "e \<in> set (map (rn_entry \<circ> snd) (radix_nodes n))"
    by (cases m) (force simp: rib_node_entry_def image_iff)+
qed

lemma rebuild_fib_spec:
  assumes cons: "rib_consistent (rib_routes rib_t)" and empty: "ft_root fib_t = FNull" and ms: "never_fails ms"
  shows "\<exists>root ms'. rebuild_fib_from_rib oob rib_t fib_t ms =
      (0, 0, Some (\<lparr>ft_family = rt_family rib_t, ft_table_id = rt_table_id rib_t, ft_root = root\<rparr>, ms'))
      \<and> never_fails ms' \<and> fib_wf 0 root
      \<and> (\<forall>a. fib_find 0 root a = map_option entry_answer (rib_node_entry (rib_route_lookup rib_t a)))"
proof -
  let ?ns = "map snd (radix_nodes (rt_root rib_t))"
  let ?t = "fib_t\<lparr>ft_family := rt_family rib_t, ft_table_id := rt_table_id rib_t\<rparr>"
  have dom: "set (map rn_entry ?ns) = {e. \<exists>p. rib_routes rib_t p = Some e}"
    using radix_nodes_entries [of "rt_root rib_t"] by (simp add: rib_routes_def)
  have nodes: "\<forall>n\<in>set ?ns. n \<noteq> RNull \<and> plen (re_dst (rn_entry n)) \<le> 128"
  proof
    fix n
    assume n: "n \<in> set ?ns"
    with dom have "\<exists>p. rib_routes rib_t p = Some (rn_entry n)" by (auto simp: image_image)
    with cons n radix_nodes_map show "n \<noteq> RNull \<and> plen (re_dst (rn_entry n)) \<le> 128"
      by (fastforce simp: rib_consistent_def)
  qed
  from run_add_to_fib [OF nodes, of ?t ms oob 0] empty ms obtain root ms' where
    r: "run_callback (add_to_fib oob) ?ns (0, Some (?t, ms)) = (0, 0, Some (?t\<lparr>ft_root := root\<rparr>, ms'))"
      "never_fails ms'" "fib_wf 0 root"
      "\<forall>a. fib_find 0 root a = fold (improve a) (map entry_route (map rn_entry ?ns)) None"
    by (fastforce simp: comp_def)
  have "fib_find 0 root a = map_option entry_answer (rib_node_entry (rib_route_lookup rib_t a))" for a
    using best_of_longest_match [OF cons rib_route_lookup_longest_match dom fold_improve_best [where a = a]] r(4)
    by simp
  moreover have "?t\<lparr>ft_root := root\<rparr> = \<lparr>ft_family = rt_family rib_t, ft_table_id = rt_table_id rib_t, ft_root = root\<rparr>"
    by simp
  ultimately show ?thesis using r(1-3) unfolding rebuild_fib_from_rib_def rib_traverse_run
    by (metis (no_types, lifting))
qed

lemma fib_lookup_oob:
  assumes "fib_wf cur n" "even cur" "cur \<le> 128"
  shows "fib_lookup oob n cand a cur = fib_lookup oob' n cand a cur"
  using assms
proof (induction oob n cand a cur rule: fib_lookup.induct)
  case (2 oob leaf nkey nkeylen nnh cs cand a cur)
  have "cur mod 8 + 2 \<le> 8" using 2(3) by presburger
  with 2(4) have idx: "BIT_INDEX oob a cur K = BIT_INDEX oob' a cur K"
    using BIT_INDEX_oob [of cur 2 oob a oob'] by (simp add: K_def)
  show ?case
  proof (cases leaf)
    case True
    with 2(2) idx show ?thesis by (auto simp: fib_lookup_below_leaf Let_def)
  next
    case False
    with 2(2) have "cur < 128" by simp
    with 2(3) have "cur + K \<le> 128" "even (cur + K)" by (auto simp: K_def elim!: evenE)
    with 2(1) [OF refl refl] 2(2) False idx show ?thesis by (auto simp: Let_def)
  qed
qed simp

text \<open>The leaves in traversal order.\<close>

fun fib_leaves :: "fib_node \<Rightarrow> fib_node list" where
  "fib_leaves FNull = []"
| "fib_leaves (FNode leaf nkey nkeylen nnh cs) =
     (if leaf then [FNode leaf nkey nkeylen nnh cs] else []) @ concat (map fib_leaves cs)"

fun run_leaves :: "(fib_node \<Rightarrow> 's \<Rightarrow> int \<times> 's) \<Rightarrow> fib_node list \<Rightarrow> 's \<Rightarrow> int \<times> 's" where
  "run_leaves cb [] arg = (0, arg)"
| "run_leaves cb (n # ns) arg = (case cb n arg of (ret, arg) \<Rightarrow> if ret \<noteq> 0 then (-1, arg) else run_leaves cb ns arg)"

lemma run_leaves_append:
  "run_leaves cb (ms @ ns) arg =
     (case run_leaves cb ms arg of (ret, arg) \<Rightarrow> if ret \<noteq> 0 then (-1, arg) else run_leaves cb ns arg)"
  by (induction ms arbitrary: arg) (auto split: prod.splits)

lemma fib_walk_leaves:
  "fib_walk n cb arg = run_leaves cb (fib_leaves n) arg"
  "fib_walks cs cb arg = run_leaves cb (concat (map fib_leaves cs)) arg"
  by (induction n cb arg and cs cb arg rule: fib_walk_fib_walks.induct)
    (auto simp: run_leaves_append split: prod.splits)

section \<open>Properties\<close>

text \<open>
  C5: Rebuilding the FIB from the RIB succeeds when allocation does (the recursion of
  \<^verbatim>\<open>_add\<close> ends within its 66 levels), and the rebuilt FIB forwards every address as the
  RIB says: a look-up returns the prefix length and next hop of the longest RIB route that
  matches the address, and \<^verbatim>\<open>NULL\<close> if there is none.
\<close>

theorem rebuilt_fib_agrees_with_rib:
  assumes "rib_consistent (rib_routes rib_t)" "ft_root fib_t = FNull" "never_fails ms"
  shows "\<exists>fib' ms'. rebuild_fib_from_rib oob rib_t fib_t ms = (0, 0, Some (fib', ms'))
     \<and> ft_family fib' = rt_family rib_t \<and> ft_table_id fib' = rt_table_id rib_t
     \<and> (\<forall>a. fib_answer (fib_route_lookup oob fib' a)
            = map_option (\<lambda>e. (plen (re_dst e), re_sdplane_nh_id e))
                (rib_node_entry (rib_route_lookup rib_t a)))"
  using rebuild_fib_spec [OF assms, of oob]
  by (fastforce simp: fib_route_lookup_def fib_lookup_find entry_answer_def [abs_def])

definition sample_entry :: route_entry where
  "sample_entry = \<lparr>re_dst = \<lparr>rdi_family = 2, dst_ip_addr = 128 # replicate 15 0, plen = 1\<rparr>, re_sdplane_nh_id = 5\<rparr>"

definition sample_rib :: rib_tree where
  "sample_rib = \<lparr>rt_family = 2, rt_table_id = 254,
     rt_root = RNode False zero_route_entry RNull (RNode True sample_entry RNull RNull)\<rparr>"

lemma sample_rib_consistent: "rib_consistent (rib_routes sample_rib)"
proof -
  have "key_bits (bytes_at (128 # replicate 15 0)) 0 1 = [True]" by code_simp
  then have "key_bits (bytes_at (128 # replicate 15 0)) 0 (Suc 0) = [True]" by simp
  then show ?thesis
    by (auto simp: rib_consistent_def rib_routes_def sample_rib_def rib_map_RNode sample_entry_def
        split: list.splits if_splits)
qed

lemma rebuilt_fib_agrees_with_rib_witness:
  "\<exists>fib' ms'. rebuild_fib_from_rib 0 sample_rib \<lparr>ft_family = 0, ft_table_id = 0, ft_root = FNull\<rparr> []
      = (0, 0, Some (fib', ms'))
    \<and> fib_answer (fib_route_lookup 0 fib' (bytes_at [192, 168, 0, 1])) = Some (1, 5)"
proof -
  have "rib_node_entry (rib_route_lookup sample_rib (bytes_at [192, 168, 0, 1])) = Some sample_entry"
    by code_simp
  with rebuilt_fib_agrees_with_rib [OF sample_rib_consistent, of "\<lparr>ft_family = 0, ft_table_id = 0, ft_root = FNull\<rparr>" "[]" 0]
  show ?thesis by (auto simp: sample_entry_def)
qed

text \<open>
  C6: Adding a route to a well-formed FIB keeps it well-formed and changes look-ups by the
  longest-prefix rule only: an address covered by the new prefix gets the new route unless
  its present answer is at least as long; all other addresses keep their answer.  Without
  allocation failure the call returns 0.
\<close>

theorem fib_route_add_longest_prefix:
  assumes "fib_wf 0 (ft_root t)" "keylen \<le> 128" "never_fails ms"
  shows "\<exists>t' ms'. fib_route_add oob t key keylen nh ms = Some (t', 0, ms') \<and> fib_wf 0 (ft_root t')
     \<and> (\<forall>a. fib_answer (fib_route_lookup oob t' a) =
            (case fib_answer (fib_route_lookup oob t a) of
               None \<Rightarrow> if covers a key keylen then Some (keylen, nh) else None
             | Some (len, old) \<Rightarrow>
                 if covers a key keylen \<and> len < keylen then Some (keylen, nh) else Some (len, old)))"
  using fib_route_add_ok [OF assms, of oob key nh] assms(1)
  by (fastforce simp: fib_route_lookup_def fib_lookup_find improve_def answer_len_def split: option.splits)

lemma fib_route_add_longest_prefix_witness:
  "\<exists>t' ms'. fib_route_add 0 \<lparr>ft_family = 2, ft_table_id = 254, ft_root = FNull\<rparr> (bytes_at [128]) 1 5 [] = Some (t', 0, ms')
     \<and> fib_answer (fib_route_lookup 0 t' (bytes_at [200])) = Some (1, 5)"
proof -
  have "covers (bytes_at [200]) (bytes_at [128]) 1" by code_simp
  with fib_route_add_longest_prefix [of "\<lparr>ft_family = 2, ft_table_id = 254, ft_root = FNull\<rparr>" 1 "[]" 0 "bytes_at [128]" 5]
  show ?thesis by (auto simp: fib_route_lookup_def fib_answer_def)
qed

text \<open>
  The byte that \<^verbatim>\<open>BIT_INDEX\<close> reads past its 17-byte buffer at bit 128 has no
  influence: in a well-formed FIB the look-up of any address gives the same node whatever
  that byte is.
\<close>

theorem fib_route_lookup_ignores_overread:
  assumes "fib_wf 0 (ft_root t)"
  shows "fib_route_lookup oob t a = fib_route_lookup oob' t a"
  using assms by (simp add: fib_route_lookup_def fib_lookup_oob [of 0 _ oob _ _ oob'])

lemma fib_route_lookup_ignores_overread_witness:
  "fib_route_lookup 0 \<lparr>ft_family = 2, ft_table_id = 254, ft_root = FNode True [] 0 5 (replicate 4 FNull)\<rparr> (bytes_at [1])
   = fib_route_lookup 255 \<lparr>ft_family = 2, ft_table_id = 254, ft_root = FNode True [] 0 5 (replicate 4 FNull)\<rparr> (bytes_at [1])"
  by (rule fib_route_lookup_ignores_overread) (simp add: BRANCH_SZ_def K_def)

text \<open>
  \<^verbatim>\<open>fib_route_add\<close> can report success although memory ran out and the route is not
  installed: \<^verbatim>\<open>_add\<close> resets \<^verbatim>\<open>*success\<close> after distributing a route over the children.
\<close>

theorem fib_route_add_masks_failure:
  "\<exists>t' ms'. fib_route_add 0 \<lparr>ft_family = 2, ft_table_id = 254, ft_root = FNull\<rparr> (bytes_at [128]) 1 5
       [True, False, False] = Some (t', 0, ms')
     \<and> fib_route_lookup 0 t' (bytes_at [128]) = FNull"
proof -
  have "fib_route_add 0 \<lparr>ft_family = 2, ft_table_id = 254, ft_root = FNull\<rparr> (bytes_at [128]) 1 5 [True, False, False]
      = Some (\<lparr>ft_family = 2, ft_table_id = 254,
          ft_root = FNode False (replicate 16 0) 0 0 (replicate 4 FNull)\<rparr>, 0, [])"
    by code_simp
  moreover have "fib_route_lookup 0 \<lparr>ft_family = 2, ft_table_id = 254,
      ft_root = FNode False (replicate 16 0) 0 0 (replicate 4 FNull)\<rparr> (bytes_at [128]) = FNull"
    by code_simp
  ultimately show ?thesis by blast
qed

lemma fib_lookup_leaf: "fib_lookup oob n cand a cur = cand \<or> fib_lookup oob n cand a cur \<in> set (fib_leaves n)"
proof (induction oob n cand a cur rule: fib_lookup.induct)
  case (2 oob leaf nkey nkeylen nnh cs cand a cur)
  then show ?case by (cases "unat (BIT_INDEX oob a cur K) < length cs") (auto simp: Let_def split: if_splits)
qed simp

text \<open>
  \<^verbatim>\<open>fib_traverse\<close> runs the callback on the leaves of the tree in order and stops at the
  first failure; every look-up returns one of those leaves or \<^verbatim>\<open>NULL\<close>.
\<close>

theorem fib_traverse_visits_leaves:
  "fib_traverse (Some t) (Some cb) arg = run_leaves cb (fib_leaves (ft_root t)) arg
   \<and> fib_route_lookup oob t a \<in> insert FNull (set (fib_leaves (ft_root t)))"
  using fib_lookup_leaf [of oob "ft_root t" FNull a 0]
  by (auto simp: fib_traverse_def fib_walk_leaves fib_route_lookup_def)

end
