(* ===== verification/Hash_Table.thy ===== *)
theory Hash_Table
  imports Interfaces
begin

text \<open>
  The Jenkins hash of \<^verbatim>\<open>sdplane/jhash.h\<close> and the chained hash table of
  \<^verbatim>\<open>sdplane/hash_table.c\<close>.  A bucket is the list of its nodes, first node first; the
  hash and comparison functions are fields of the table, as in the C structure.  A
  look-up returns \<open>None\<close> where the code returns \<^verbatim>\<open>NULL\<close> because no node matches.
\<close>

section \<open>The Jenkins hash\<close>

definition JHASH_SEED :: u32 where
  "JHASH_SEED = 0xdeadbeef"

definition jhash_rot :: "u32 \<Rightarrow> nat \<Rightarrow> u32" where
  "jhash_rot x k = push_bit k x OR drop_bit (32 - k) x"

definition jhash_mix :: "u32 \<times> u32 \<times> u32 \<Rightarrow> u32 \<times> u32 \<times> u32" where
  "jhash_mix abc =
     (case abc of (a, b, c) \<Rightarrow>
        let a = a - c; a = a XOR jhash_rot c 4; c = c + b;
            b = b - a; b = b XOR jhash_rot a 6; a = a + c;
            c = c - b; c = c XOR jhash_rot b 8; b = b + a;
            a = a - c; a = a XOR jhash_rot c 16; c = c + b;
            b = b - a; b = b XOR jhash_rot a 19; a = a + c;
            c = c - b; c = c XOR jhash_rot b 4; b = b + a
        in (a, b, c))"

definition jhash_final :: "u32 \<times> u32 \<times> u32 \<Rightarrow> u32 \<times> u32 \<times> u32" where
  "jhash_final abc =
     (case abc of (a, b, c) \<Rightarrow>
        let c = c XOR b; c = c - jhash_rot b 14;
            a = a XOR c; a = a - jhash_rot c 11;
            b = b XOR a; b = b - jhash_rot a 25;
            c = c XOR b; c = c - jhash_rot b 16;
            a = a XOR c; a = a - jhash_rot c 4;
            b = b XOR a; b = b - jhash_rot a 14;
            c = c XOR b; c = c - jhash_rot b 24
        in (a, b, c))"

text \<open>The \<^verbatim>\<open>while (length > 3)\<close> loop and the fall-through \<^verbatim>\<open>switch\<close> on what is left.\<close>

fun jhash_words :: "u32 list \<Rightarrow> u32 \<times> u32 \<times> u32 \<Rightarrow> u32" where
  "jhash_words (k0 # k1 # k2 # k3 # ks) (a, b, c) =
     jhash_words (k3 # ks) (jhash_mix (a + k0, b + k1, c + k2))"
| "jhash_words [k0, k1, k2] (a, b, c) = snd (snd (jhash_final (a + k0, b + k1, c + k2)))"
| "jhash_words [k0, k1] (a, b, c) = snd (snd (jhash_final (a + k0, b + k1, c)))"
| "jhash_words [k0] (a, b, c) = snd (snd (jhash_final (a + k0, b, c)))"
| "jhash_words [] (a, b, c) = c"

definition jhash :: "u32 list \<Rightarrow> u32 \<Rightarrow> u32" where
  "jhash key initval =
     (let abc = JHASH_SEED + push_bit 2 (of_nat (length key)) + initval
      in jhash_words key (abc, abc, abc))"

section \<open>The hash table\<close>

record ('k, 'v) hash_table =
  buckets :: "('k \<times> 'v) list list"
  ht_size :: int
  ht_mask :: int
  ht_count :: int
  hash_fn :: "'k \<Rightarrow> u32"
  key_eq :: "'k \<Rightarrow> 'k \<Rightarrow> bool"

definition hash_table_init ::
  "('k, 'v) hash_table \<Rightarrow> int \<Rightarrow> ('k \<Rightarrow> u32) \<Rightarrow> ('k \<Rightarrow> 'k \<Rightarrow> bool) \<Rightarrow> mallocs
     \<Rightarrow> ('k, 'v) hash_table \<times> int \<times> mallocs"
where
  "hash_table_init ht sz hf eq ms =
     (case malloc_ok ms of (ok, ms') \<Rightarrow>
        if ok then
          (ht\<lparr>buckets := replicate (nat sz) [], ht_size := sz, ht_mask := sz - 1,
              ht_count := 0, hash_fn := hf, key_eq := eq\<rparr>, 0, ms')
        else (ht\<lparr>buckets := []\<rparr>, -1, ms'))"

definition hash_table_destroy :: "('k, 'v) hash_table \<Rightarrow> ('k, 'v) hash_table" where
  "hash_table_destroy ht = ht\<lparr>buckets := [], ht_size := 0, ht_mask := 0, ht_count := 0\<rparr>"

definition ht_index :: "('k, 'v) hash_table \<Rightarrow> 'k \<Rightarrow> nat" where
  "ht_index ht key = unat (hash_fn ht key AND word_of_int (ht_mask ht))"

fun bucket_update :: "('k \<Rightarrow> 'k \<Rightarrow> bool) \<Rightarrow> 'k \<Rightarrow> 'v \<Rightarrow> ('k \<times> 'v) list \<Rightarrow> ('k \<times> 'v) list option" where
  "bucket_update eq key val [] = None"
| "bucket_update eq key val ((k, v) # ns) =
     (if eq k key then Some ((k, val) # ns)
      else map_option ((#) (k, v)) (bucket_update eq key val ns))"

fun bucket_remove :: "('k \<Rightarrow> 'k \<Rightarrow> bool) \<Rightarrow> 'k \<Rightarrow> ('k \<times> 'v) list \<Rightarrow> ('k \<times> 'v) list option" where
  "bucket_remove eq key [] = None"
| "bucket_remove eq key ((k, v) # ns) =
     (if eq k key then Some ns else map_option ((#) (k, v)) (bucket_remove eq key ns))"

definition hash_table_insert ::
  "('k, 'v) hash_table \<Rightarrow> 'k \<Rightarrow> 'v \<Rightarrow> mallocs \<Rightarrow> ('k, 'v) hash_table \<times> int \<times> mallocs"
where
  "hash_table_insert ht key value ms =
     (let idx = ht_index ht key
      in case bucket_update (key_eq ht) key value (buckets ht ! idx) of
           Some ns \<Rightarrow> (ht\<lparr>buckets := (buckets ht)[idx := ns]\<rparr>, 0, ms)
         | None \<Rightarrow>
             (case malloc_ok ms of (ok, ms') \<Rightarrow>
                if ok then
                  (ht\<lparr>buckets := (buckets ht)[idx := (key, value) # buckets ht ! idx],
                      ht_count := ht_count ht + 1\<rparr>, 0, ms')
                else (ht, -1, ms')))"

definition hash_table_remove :: "('k, 'v) hash_table \<Rightarrow> 'k \<Rightarrow> ('k, 'v) hash_table \<times> int" where
  "hash_table_remove ht key =
     (let idx = ht_index ht key
      in case bucket_remove (key_eq ht) key (buckets ht ! idx) of
           Some ns \<Rightarrow> (ht\<lparr>buckets := (buckets ht)[idx := ns], ht_count := ht_count ht - 1\<rparr>, 0)
         | None \<Rightarrow> (ht, -1))"

definition hash_table_lookup :: "('k, 'v) hash_table \<Rightarrow> 'k \<Rightarrow> 'v option" where
  "hash_table_lookup ht key =
     map_option snd (List.find (\<lambda>(k, v). key_eq ht k key) (buckets ht ! ht_index ht key))"

section \<open>Invariant\<close>

text \<open>
  The table has a power of two of buckets; a bucket holds only keys that hash to it, each
  at most once; \<^verbatim>\<open>count\<close> is the number of nodes.
\<close>

definition ht_ok :: "('k, 'v) hash_table \<Rightarrow> bool" where
  "ht_ok ht \<longleftrightarrow>
     (\<exists>j<31. ht_size ht = 2 ^ j) \<and> ht_mask ht = ht_size ht - 1
     \<and> length (buckets ht) = nat (ht_size ht) \<and> key_eq ht = (=)
     \<and> (\<forall>i<length (buckets ht). \<forall>(k, v) \<in> set (buckets ht ! i). ht_index ht k = i)
     \<and> (\<forall>i<length (buckets ht). distinct (map fst (buckets ht ! i)))
     \<and> ht_count ht = int (sum_list (map length (buckets ht)))"

section \<open>The mixing steps lose nothing\<close>

text \<open>
  Each of the six lines of the \<^verbatim>\<open>jhash_mix\<close> macro is the same step with the roles of the
  three words rotated; the step is undone by the step below it.
\<close>

definition mix_line :: "nat \<Rightarrow> u32 \<times> u32 \<times> u32 \<Rightarrow> u32 \<times> u32 \<times> u32" where
  "mix_line k abc = (case abc of (a, b, c) \<Rightarrow> (b, c + b, (a - c) XOR jhash_rot c k))"

definition unmix_line :: "nat \<Rightarrow> u32 \<times> u32 \<times> u32 \<Rightarrow> u32 \<times> u32 \<times> u32" where
  "unmix_line k abc = (case abc of (b, c, a) \<Rightarrow> ((a XOR jhash_rot (c - b) k) + (c - b), b, c - b))"

definition jhash_unmix :: "u32 \<times> u32 \<times> u32 \<Rightarrow> u32 \<times> u32 \<times> u32" where
  "jhash_unmix abc =
     unmix_line 4 (unmix_line 6 (unmix_line 8 (unmix_line 16 (unmix_line 19 (unmix_line 4 abc)))))"

lemma xor_xor_cancel [simp]: "(x XOR y) XOR y = x" for x y :: "'a::len word"
  by (simp add: xor.assoc)

lemma unmix_mix_line [simp]: "unmix_line k (mix_line k abc) = abc"
  by (cases abc) (simp add: mix_line_def unmix_line_def)

lemma jhash_mix_lines:
  "jhash_mix abc =
     mix_line 4 (mix_line 19 (mix_line 16 (mix_line 8 (mix_line 6 (mix_line 4 abc)))))"
  by (cases abc) (simp add: jhash_mix_def mix_line_def Let_def add.commute)

lemma jhash_unmix_mix: "jhash_unmix (jhash_mix abc) = abc"
  by (simp add: jhash_unmix_def jhash_mix_lines)

definition jhash_unfinal :: "u32 \<times> u32 \<times> u32 \<Rightarrow> u32 \<times> u32 \<times> u32" where
  "jhash_unfinal abc =
     (case abc of (a, b, c) \<Rightarrow>
        let c = c + jhash_rot b 24; c = c XOR b;
            b = b + jhash_rot a 14; b = b XOR a;
            a = a + jhash_rot c 4; a = a XOR c;
            c = c + jhash_rot b 16; c = c XOR b;
            b = b + jhash_rot a 25; b = b XOR a;
            a = a + jhash_rot c 11; a = a XOR c;
            c = c + jhash_rot b 14; c = c XOR b
        in (a, b, c))"

lemma jhash_unfinal_final: "jhash_unfinal (jhash_final abc) = abc"
  by (cases abc) (simp add: jhash_final_def jhash_unfinal_def Let_def)

section \<open>Buckets as association lists\<close>

lemma bucket_update_None: "bucket_update (=) k v ns = None \<longleftrightarrow> k \<notin> fst ` set ns"
  by (induction ns) (auto split: if_splits)

lemma bucket_update_Some:
  "bucket_update (=) k v ns = Some ns' \<Longrightarrow>
     map fst ns' = map fst ns \<and> map_of ns' = (map_of ns)(k \<mapsto> v) \<and> k \<in> fst ` set ns"
  by (induction ns arbitrary: ns') (auto split: if_splits simp: fun_upd_twist)

lemma bucket_remove_None: "bucket_remove (=) k ns = None \<longleftrightarrow> k \<notin> fst ` set ns"
  by (induction ns) (auto split: if_splits)

lemma bucket_remove_Some:
  "bucket_remove (=) k ns = Some ns' \<Longrightarrow> distinct (map fst ns) \<Longrightarrow>
     set ns' \<subseteq> set ns \<and> distinct (map fst ns') \<and> map_of ns' = (map_of ns)(k := None)
     \<and> k \<in> fst ` set ns \<and> length ns = Suc (length ns')"
proof (induction ns arbitrary: ns')
  case (Cons p ns)
  obtain a b where p: "p = (a, b)" by (cases p)
  show ?case
  proof (cases "a = k")
    case True
    with Cons.prems p have "ns' = ns" "k \<notin> fst ` set ns" by auto
    with Cons.prems True p show ?thesis
      by (auto simp: fun_eq_iff map_of_eq_None_iff)
  next
    case False
    with Cons.prems p obtain ns'' where r: "bucket_remove (=) k ns = Some ns''" "ns' = (a, b) # ns''"
      by auto
    from Cons.IH [OF r(1)] Cons.prems p False r(2) show ?thesis
      by (auto simp: fun_eq_iff)
  qed
qed simp

lemma find_map_of: "map_option snd (List.find (\<lambda>(k, v). k = key) ns) = map_of ns key"
  by (induction ns) auto

section \<open>The table implements a dictionary\<close>

lemma ht_index_less: "ht_ok ht \<Longrightarrow> ht_index ht k < length (buckets ht)"
proof -
  assume ok: "ht_ok ht"
  then obtain j where j: "j < 31" "ht_size ht = 2 ^ j" "ht_mask ht = 2 ^ j - 1"
      "length (buckets ht) = 2 ^ j"
    by (auto simp: ht_ok_def nat_power_eq)
  have "word_of_int (2 ^ j - 1) = (mask j :: u32)"
    by (simp add: mask_eq_exp_minus_1)
  then have "hash_fn ht k AND word_of_int (ht_mask ht) = take_bit j (hash_fn ht k)"
    using j(3) by (simp add: take_bit_eq_mask)
  then have "ht_index ht k = take_bit j (unat (hash_fn ht k))"
    by (simp add: ht_index_def unsigned_take_bit_eq)
  then show ?thesis using j(4) by (simp add: take_bit_nat_less_exp)
qed

lemma hash_table_lookup_map_of:
  "ht_ok ht \<Longrightarrow> hash_table_lookup ht k = map_of (buckets ht ! ht_index ht k) k"
  by (simp add: hash_table_lookup_def find_map_of ht_ok_def)

lemma ht_index_cong:
  "ht_index (ht\<lparr>buckets := bs\<rparr>) = ht_index ht"
  "ht_index (ht\<lparr>buckets := bs, ht_count := c\<rparr>) = ht_index ht"
  by (simp_all add: ht_index_def fun_eq_iff)

lemma sum_list_update_nat:
  "i < length xs \<Longrightarrow> int (sum_list (xs[i := x])) = int (sum_list xs) - int (xs ! i) + int x"
  for xs :: "nat list"
  by (induction xs arbitrary: i) (auto split: nat.splits)

text \<open>What replacing one bucket does to the table and to its look-ups.\<close>

lemma ht_replace_bucket:
  fixes ht :: "('k, 'v) hash_table"
  assumes ok: "ht_ok ht" and idx: "idx = ht_index ht key"
    and keys: "\<forall>(k, v) \<in> set ns. ht_index ht k = idx" and dist: "distinct (map fst ns)"
    and map: "map_of ns = (map_of (buckets ht ! idx))(key := vo)"
    and cnt: "c = ht_count ht - int (length (buckets ht ! idx)) + int (length ns)"
  shows "ht_ok (ht\<lparr>buckets := (buckets ht)[idx := ns], ht_count := c\<rparr>)"
    and "hash_table_lookup (ht\<lparr>buckets := (buckets ht)[idx := ns], ht_count := c\<rparr>)
       = (hash_table_lookup ht)(key := vo)"
proof -
  let ?ht = "ht\<lparr>buckets := (buckets ht)[idx := ns], ht_count := c\<rparr>"
  have less: "idx < length (buckets ht)" using ht_index_less [OF ok] idx by simp
  have "sum_list (map length (buckets ?ht)) = sum_list ((map length (buckets ht))[idx := length ns])"
    by (simp add: map_update)
  then have "int (sum_list (map length (buckets ?ht)))
      = int (sum_list (map length (buckets ht))) - int (length (buckets ht ! idx)) + int (length ns)"
    using less sum_list_update_nat [of idx "map length (buckets ht)" "length ns"] by simp
  moreover have "\<forall>i<length (buckets ?ht). (\<forall>(k, v) \<in> set (buckets ?ht ! i). ht_index ?ht k = i)
      \<and> distinct (map fst (buckets ?ht ! i))"
  proof (intro allI impI)
    fix i
    assume "i < length (buckets ?ht)"
    then show "(\<forall>(k, v) \<in> set (buckets ?ht ! i). ht_index ?ht k = i) \<and> distinct (map fst (buckets ?ht ! i))"
      using ok keys dist by (cases "i = idx") (auto simp: ht_ok_def ht_index_cong)
  qed
  ultimately show ok': "ht_ok ?ht" using ok cnt by (simp add: ht_ok_def)
  show "hash_table_lookup ?ht = (hash_table_lookup ht)(key := vo)"
  proof
    fix k
    show "hash_table_lookup ?ht k = ((hash_table_lookup ht)(key := vo)) k"
      using less idx map hash_table_lookup_map_of [OF ok, of k] hash_table_lookup_map_of [OF ok', of k]
      by (cases "ht_index ht k = idx") (auto simp: ht_index_cong nth_list_update)
  qed
qed

lemma hash_table_insert_law:
  assumes ok: "ht_ok ht" and ins: "hash_table_insert ht k v ms = (ht', r, ms')"
  shows "ht_ok ht' \<and> (r = 0 \<and> hash_table_lookup ht' = (hash_table_lookup ht)(k \<mapsto> v) \<or> r = -1 \<and> ht' = ht)
       \<and> (never_fails ms \<longrightarrow> r = 0 \<and> never_fails ms')"
proof -
  let ?idx = "ht_index ht k"
  let ?ns = "buckets ht ! ?idx"
  have eq: "key_eq ht = (=)" and bucket: "\<forall>(k, v) \<in> set ?ns. ht_index ht k = ?idx" "distinct (map fst ?ns)"
    using ok ht_index_less [OF ok] by (auto simp: ht_ok_def)
  show ?thesis
  proof (cases "bucket_update (=) k v ?ns")
    case (Some ns)
    note upd = bucket_update_Some [OF Some]
    have res: "ht' = ht\<lparr>buckets := (buckets ht)[?idx := ns], ht_count := ht_count ht\<rparr>" "r = 0" "ms' = ms"
      using ins Some eq by (auto simp: hash_table_insert_def Let_def)
    from upd have "fst ` set ns = fst ` set ?ns" by (metis list.set_map)
    with bucket(1) have keys: "\<forall>(k, v) \<in> set ns. ht_index ht k = ?idx" by force
    from upd have "length ns = length ?ns" by (metis length_map)
    then have cnt: "ht_count ht = ht_count ht - int (length ?ns) + int (length ns)" by simp
    from upd bucket(2) have d: "distinct (map fst ns)" by simp
    from upd have m: "map_of ns = (map_of ?ns)(k \<mapsto> v)" by simp
    show ?thesis
      using ht_replace_bucket [OF ok refl keys d m cnt] res by simp
  next
    case None
    show ?thesis
    proof (cases "fst (malloc_ok ms)")
      case False
      with ins None eq ok show ?thesis
        by (cases ms) (auto simp: hash_table_insert_def Let_def never_fails_def)
    next
      case True
      let ?new = "(k, v) # ?ns"
      have res: "ht' = ht\<lparr>buckets := (buckets ht)[?idx := ?new], ht_count := ht_count ht + 1\<rparr>" "r = 0"
          "never_fails ms \<longrightarrow> never_fails ms'"
        using ins None eq True
        by (cases ms; auto simp: hash_table_insert_def Let_def never_fails_def)+
      have "k \<notin> fst ` set ?ns" using None by (simp add: bucket_update_None)
      then have d: "distinct (map fst ?new)" using bucket(2) by simp
      have keys: "\<forall>(k, v) \<in> set ?new. ht_index ht k = ?idx" using bucket(1) by auto
      have m: "map_of ?new = (map_of ?ns)(k \<mapsto> v)" by simp
      have cnt: "ht_count ht + 1 = ht_count ht - int (length ?ns) + int (length ?new)" by simp
      show ?thesis
        using ht_replace_bucket [OF ok refl keys d m cnt] res by simp
    qed
  qed
qed

lemma hash_table_remove_law:
  assumes ok: "ht_ok ht" and rem: "hash_table_remove ht k = (ht', r)"
  shows "ht_ok ht' \<and> hash_table_lookup ht' = (hash_table_lookup ht)(k := None)
       \<and> r = (if hash_table_lookup ht k = None then -1 else 0)"
proof -
  let ?idx = "ht_index ht k"
  let ?ns = "buckets ht ! ?idx"
  have eq: "key_eq ht = (=)" and bucket: "\<forall>(k, v) \<in> set ?ns. ht_index ht k = ?idx" "distinct (map fst ?ns)"
    using ok ht_index_less [OF ok] by (auto simp: ht_ok_def)
  note look = hash_table_lookup_map_of [OF ok, of k]
  show ?thesis
  proof (cases "bucket_remove (=) k ?ns")
    case None
    then have "map_of ?ns k = None" by (simp add: bucket_remove_None map_of_eq_None_iff)
    with None rem eq ok look show ?thesis by (auto simp: hash_table_remove_def Let_def fun_upd_idem)
  next
    case (Some ns)
    note upd = bucket_remove_Some [OF Some bucket(2)]
    have res: "ht' = ht\<lparr>buckets := (buckets ht)[?idx := ns], ht_count := ht_count ht - 1\<rparr>" "r = 0"
      using rem Some eq by (auto simp: hash_table_remove_def Let_def)
    from upd bucket(1) have keys: "\<forall>(k, v) \<in> set ns. ht_index ht k = ?idx" by auto
    from upd have cnt: "ht_count ht - 1 = ht_count ht - int (length ?ns) + int (length ns)" by simp
    from upd have m: "map_of ns = (map_of ?ns)(k := None)" and d: "distinct (map fst ns)"
      and "map_of ?ns k \<noteq> None" by (auto simp: map_of_eq_None_iff)
    with look have "hash_table_lookup ht k \<noteq> None" by simp
    with ht_replace_bucket [OF ok refl keys d m cnt] res show ?thesis by simp
  qed
qed

interpretation ht: dictionary hash_table_lookup hash_table_insert hash_table_remove ht_ok
proof
  show "ht_ok t' \<and> (r = 0 \<and> hash_table_lookup t' = (hash_table_lookup t)(k \<mapsto> v) \<or> r = -1 \<and> t' = t)
      \<and> (never_fails ms \<longrightarrow> r = 0 \<and> never_fails ms')"
    if "ht_ok t" "hash_table_insert t k v ms = (t', r, ms')"
    for t t' :: "('k, 'v) hash_table" and k v ms r ms'
    using that by (rule hash_table_insert_law)
  show "ht_ok t' \<and> hash_table_lookup t' = (hash_table_lookup t)(k := None)
      \<and> r = (if hash_table_lookup t k = None then -1 else 0)"
    if "ht_ok t" "hash_table_remove t k = (t', r)"
    for t t' :: "('k, 'v) hash_table" and k r
    using that by (rule hash_table_remove_law)
qed

lemma hash_table_init_ok:
  assumes "j < 31" "never_fails ms"
  shows "\<exists>ht' ms'. hash_table_init ht (2 ^ j) hf (=) ms = (ht', 0, ms') \<and> ht_ok ht'
           \<and> hash_table_lookup ht' = Map.empty \<and> hash_fn ht' = hf"
proof -
  obtain ms' where ms': "malloc_ok ms = (True, ms')" using malloc_never_fails assms(2) by blast
  let ?ht = "ht\<lparr>buckets := replicate (2 ^ j) [], ht_size := 2 ^ j, ht_mask := 2 ^ j - 1,
      ht_count := 0, hash_fn := hf, key_eq := (=)\<rparr>"
  have ok: "ht_ok ?ht" using assms(1) by (auto simp: ht_ok_def nat_power_eq sum_list_replicate)
  moreover have "hash_table_lookup ?ht = Map.empty"
  proof
    fix k
    show "hash_table_lookup ?ht k = None"
      using hash_table_lookup_map_of [OF ok, of k] ht_index_less [OF ok, of k] by simp
  qed
  ultimately show ?thesis using ms' by (simp add: hash_table_init_def nat_power_eq)
qed

section \<open>Properties\<close>

fun hash_table_run :: "('k \<times> 'v option) list \<Rightarrow> ('k, 'v) hash_table \<Rightarrow> ('k, 'v) hash_table" where
  "hash_table_run [] ht = ht"
| "hash_table_run ((k, Some v) # ops) ht = hash_table_run ops (fst (hash_table_insert ht k v []))"
| "hash_table_run ((k, None) # ops) ht = hash_table_run ops (fst (hash_table_remove ht k))"

lemma hash_table_run_eq: "hash_table_run ops ht = ht.run ops ht"
  by (induction ops ht rule: hash_table_run.induct) simp_all

definition empty_table :: "(u32, nat) hash_table" where
  "empty_table = fst (hash_table_init \<lparr>buckets = [], ht_size = 0, ht_mask = 0, ht_count = 0,
     hash_fn = (\<lambda>k. k), key_eq = (=)\<rparr> 4 (\<lambda>k. jhash [k] 0) (=) [])"

lemma ht_ok_empty_table: "ht_ok empty_table" "hash_table_lookup empty_table = Map.empty"
proof -
  from hash_table_init_ok [of 2 "[]" "\<lparr>buckets = [], ht_size = 0, ht_mask = 0, ht_count = 0,
     hash_fn = (\<lambda>k. k), key_eq = (=)\<rparr> :: (u32, nat) hash_table" "\<lambda>k. jhash [k] 0"]
  show "ht_ok empty_table" "hash_table_lookup empty_table = Map.empty"
    by (auto simp: empty_table_def)
qed

text \<open>
  C34: The table behaves as a map over every sequence of insertions (\<open>Some v\<close>) and removals
  (\<open>None\<close>): starting from a table that satisfies the invariant, when allocation succeeds,
  every look-up returns the value of the last operation on its key, and the invariant
  (buckets by hash, no duplicate keys, \<^verbatim>\<open>count\<close> = number of nodes) holds at the end.
\<close>

theorem hash_table_is_map:
  assumes "ht_ok ht"
  shows "ht_ok (hash_table_run ops ht)
    \<and> hash_table_lookup (hash_table_run ops ht) = fold (\<lambda>(k, vo) m. m(k := vo)) ops (hash_table_lookup ht)"
  unfolding hash_table_run_eq using assms by (rule ht.run_lookup)

lemma hash_table_is_map_witness:
  "hash_table_lookup (hash_table_run [(7, Some 1), (8, Some 2), (7, Some 3), (8, None)] empty_table) 7 = Some 3
   \<and> hash_table_lookup (hash_table_run [(7, Some 1), (8, Some 2), (7, Some 3), (8, None)] empty_table) 8 = None"
  using hash_table_is_map [OF ht_ok_empty_table(1), of "[(7, Some 1), (8, Some 2), (7, Some 3), (8, None)]"]
  by (simp add: ht_ok_empty_table(2))

text \<open>
  The two mixing macros of the Jenkins hash are bijections of the 96-bit state: every
  line can be undone, so no two different states of the hash are merged by mixing.
\<close>

theorem jhash_mixing_bijective: "bij jhash_mix \<and> bij jhash_final"
proof -
  have "inj jhash_mix" by (rule inj_on_inverseI [where g = jhash_unmix]) (simp add: jhash_unmix_mix)
  moreover have "inj jhash_final"
    by (rule inj_on_inverseI [where g = jhash_unfinal]) (simp add: jhash_unfinal_final)
  ultimately show ?thesis by (simp add: bij_def finite_UNIV_inj_surj)
qed

text \<open>
  An insertion that runs out of memory returns -1 and leaves the table as it was; a
  removal of a key that is not there returns -1 and leaves it as it was, and the removal of
  a key just inserted undoes the insertion for every look-up.
\<close>

theorem hash_table_errors:
  assumes "ht_ok ht" "hash_table_insert ht k v ms = (ht', r, ms')"
  shows "(r < 0 \<longrightarrow> ht' = ht \<and> \<not> never_fails ms)
       \<and> (hash_table_lookup ht k = None \<longrightarrow> hash_table_remove ht k = (ht, -1))
       \<and> (hash_table_lookup ht k = None \<and> r = 0 \<longrightarrow>
            hash_table_lookup (fst (hash_table_remove ht' k)) = hash_table_lookup ht)"
proof -
  have absent: "hash_table_remove ht k = (ht, -1)" if "hash_table_lookup ht k = None"
  proof -
    have "key_eq ht = (=)" using assms(1) by (simp add: ht_ok_def)
    then show ?thesis using that hash_table_lookup_map_of [OF assms(1), of k]
      by (simp add: hash_table_remove_def bucket_remove_None [THEN iffD2] map_of_eq_None_iff)
  qed
  have undo: "hash_table_lookup (fst (hash_table_remove ht' k)) = hash_table_lookup ht"
    if "hash_table_lookup ht k = None" "r = 0"
    using ht.insert_success [OF assms] ht.remove_law [of ht' k "fst (hash_table_remove ht' k)"
        "snd (hash_table_remove ht' k)"] that by (simp add: fun_upd_idem)
  have "r < 0 \<longrightarrow> ht' = ht \<and> \<not> never_fails ms"
    using ht.insert_error [OF assms] ht.insert_law [OF assms] by auto
  with absent undo show ?thesis by blast
qed

lemma hash_table_errors_witness:
  "hash_table_remove empty_table 5 = (empty_table, -1)
   \<and> hash_table_lookup (fst (hash_table_remove (fst (hash_table_insert empty_table 5 9 [])) 5)) = Map.empty"
proof -
  obtain ht' ms' where i: "hash_table_insert empty_table 5 9 [] = (ht', 0, ms')"
    using ht.insert_ok [OF ht_ok_empty_table(1) never_fails_Nil] by blast
  from hash_table_errors [OF ht_ok_empty_table(1) i] show ?thesis
    by (simp add: i ht_ok_empty_table(2))
qed

end
