(* ===== verification/Nexthop.thy ===== *)
theory Nexthop
  imports Hash_Table
begin

text \<open>
  The next-hop store of \<^verbatim>\<open>sdplane/nexthop.c\<close>: a pool of reference-counted next-hop
  descriptions, a table of next-hop groups whose members point into the pool, and the hash
  table from kernel next-hop ids to group slots.  The pool and the group table are the
  fixed arrays of the C structure, as lists of that length; the global \<^verbatim>\<open>nh_ht\<close> is a field
  of the state.  Indices into the arrays are \<open>nat\<close>; a C \<^verbatim>\<open>int\<close> that may be -1 is an
  \<open>int\<close>.
\<close>

section \<open>Data\<close>

definition MAX_NEXTHOP_INFO_SIZE :: nat where "MAX_NEXTHOP_INFO_SIZE = 4096"
definition MAX_NEXTHOP_GRP_SIZE :: nat where "MAX_NEXTHOP_GRP_SIZE = 4096"
definition MAX_ECMP_ENTRY :: nat where "MAX_ECMP_ENTRY = 32"
definition NEXTHOP_HASH_BUCKETS_SIZE :: int where "NEXTHOP_HASH_BUCKETS_SIZE = 1024"

datatype nexthop_type = NEXTHOP_TYPE_CONNECTED | NEXTHOP_TYPE_GATEWAY

record nh_info =
  nhi_family :: int
  nhi_type :: nexthop_type
  gw :: "u8 list"
  oif :: u32
  oif_name :: string
  refcnt :: int

record nh_member =
  ref_sdplane_nh_id :: int
  info_index :: int
  weight :: u32

record nh_group =
  grp_sdplane_nh_id :: int
  grp_kernel_nh_id :: int
  grp_refcnt :: int
  nhcnt :: int
  members :: "nh_member list"

record nexthop =
  groups :: "nh_group list"
  info_pool :: "nh_info list"
  groups_top :: nat
  info_top :: nat

record nh_state = nexthop +
  nh_ht :: "(64 word, int) hash_table"

text \<open>The contents of a message that announces or withdraws a next hop.\<close>

record internal_msg_nh_member =
  mm_kernel_nh_id :: int
  mm_info :: nh_info
  mm_weight :: u32

record internal_msg_nh_entry =
  msg_kernel_nh_id :: int
  msg_nhcnt :: int
  msg_members :: "internal_msg_nh_member list"

text \<open>What \<^verbatim>\<open>memset (..., 0, ...)\<close> leaves behind.\<close>

definition zero_info :: nh_info where
  "zero_info = \<lparr>nhi_family = 0, nhi_type = NEXTHOP_TYPE_CONNECTED, gw = replicate 16 0,
     oif = 0, oif_name = [], refcnt = 0\<rparr>"

definition zero_member :: nh_member where
  "zero_member = \<lparr>ref_sdplane_nh_id = 0, info_index = 0, weight = 0\<rparr>"

definition zero_group :: nh_group where
  "zero_group = \<lparr>grp_sdplane_nh_id = 0, grp_kernel_nh_id = 0, grp_refcnt = 0, nhcnt = 0,
     members = replicate MAX_ECMP_ENTRY zero_member\<rparr>"

section \<open>The hash table of kernel ids\<close>

text \<open>The pointer \<^verbatim>\<open>(void *)(intptr_t) id\<close>, and its two 32-bit halves on a little-endian machine.\<close>

definition id_ptr :: "int \<Rightarrow> 64 word" where
  "id_ptr i = word_of_int i"

definition nexthop_hash_kernel_nh_id :: "64 word \<Rightarrow> u32" where
  "nexthop_hash_kernel_nh_id p = jhash [ucast p, ucast (drop_bit 32 p)] JHASH_SEED"

definition nexthop_eq_kernel_nh_id :: "64 word \<Rightarrow> 64 word \<Rightarrow> bool" where
  "nexthop_eq_kernel_nh_id a b \<longleftrightarrow> a = b"

definition nexthop_init :: "nh_state \<Rightarrow> mallocs \<Rightarrow> nh_state \<times> mallocs" where
  "nexthop_init st ms =
     (case hash_table_init (nh_ht st) NEXTHOP_HASH_BUCKETS_SIZE nexthop_hash_kernel_nh_id
             nexthop_eq_kernel_nh_id ms of
        (ht, ret, ms') \<Rightarrow> (st\<lparr>nh_ht := ht\<rparr>, ms'))"

definition nexthop_cleanup :: "nh_state \<Rightarrow> nh_state" where
  "nexthop_cleanup st = st\<lparr>nh_ht := hash_table_destroy (nh_ht st)\<rparr>"

text \<open>A stored slot 0 is the pointer value \<^verbatim>\<open>NULL\<close>, which the code takes for "not found".\<close>

definition nexthop_get_index_by_nhid :: "nh_state \<Rightarrow> int \<Rightarrow> int" where
  "nexthop_get_index_by_nhid st kernel_nh_id =
     (if kernel_nh_id = 0 then -1
      else case hash_table_lookup (nh_ht st) (id_ptr kernel_nh_id) of
             None \<Rightarrow> -1
           | Some v \<Rightarrow> if v = 0 then -1 else v)"

section \<open>The pool of next-hop descriptions\<close>

definition info_matches :: "nh_info \<Rightarrow> nh_info \<Rightarrow> bool" where
  "info_matches p src \<longleftrightarrow> nhi_family p = nhi_family src \<and> gw p = gw src \<and> oif p = oif src"

definition int_of_slot :: "nat option \<Rightarrow> int" where
  "int_of_slot s = (case s of None \<Rightarrow> -1 | Some i \<Rightarrow> int i)"

definition info_find :: "nh_state \<Rightarrow> nh_info \<Rightarrow> int" where
  "info_find st src =
     int_of_slot (List.find (\<lambda>i. 0 < refcnt (info_pool st ! i) \<and> info_matches (info_pool st ! i) src)
                    [0..<MAX_NEXTHOP_INFO_SIZE])"

definition info_refcnt_add :: "int \<Rightarrow> nat \<Rightarrow> nh_state \<Rightarrow> nh_state" where
  "info_refcnt_add d i st =
     st\<lparr>info_pool := (info_pool st)[i := (info_pool st ! i)\<lparr>refcnt := refcnt (info_pool st ! i) + d\<rparr>]\<rparr>"

definition info_alloc :: "nh_state \<Rightarrow> nh_info \<Rightarrow> nh_state \<times> int" where
  "info_alloc st src =
     (let idx = info_find st src
      in if 0 \<le> idx then (info_refcnt_add 1 (nat idx) st, idx)
         else
           (let start = info_top st
            in case cyclic_find (\<lambda>i. refcnt (info_pool st ! i) \<le> 0) MAX_NEXTHOP_INFO_SIZE start
                      ((start + 1) mod MAX_NEXTHOP_INFO_SIZE) of
                 None \<Rightarrow> (st, -1)
               | Some i \<Rightarrow>
                   (st\<lparr>info_pool := (info_pool st)[i := src\<lparr>refcnt := 1\<rparr>],
                       info_top := (i + 1) mod MAX_NEXTHOP_INFO_SIZE\<rparr>, int i)))"

definition info_release :: "int \<Rightarrow> nh_state \<Rightarrow> nh_state" where
  "info_release idx st =
     (if idx < 0 \<or> int MAX_NEXTHOP_INFO_SIZE \<le> idx then st
      else
        (let st = info_refcnt_add (-1) (nat idx) st
         in if refcnt (info_pool st ! nat idx) \<le> 0
            then st\<lparr>info_pool := (info_pool st)[nat idx := zero_info]\<rparr> else st))"

section \<open>Groups\<close>

definition upd_group :: "nat \<Rightarrow> (nh_group \<Rightarrow> nh_group) \<Rightarrow> nh_state \<Rightarrow> nh_state" where
  "upd_group s f st = st\<lparr>groups := (groups st)[s := f (groups st ! s)]\<rparr>"

definition upd_member :: "nat \<Rightarrow> nat \<Rightarrow> (nh_member \<Rightarrow> nh_member) \<Rightarrow> nh_state \<Rightarrow> nh_state" where
  "upd_member s i f = upd_group s (\<lambda>g. g\<lparr>members := (members g)[i := f (members g ! i)]\<rparr>)"

definition group_refcnt_add :: "int \<Rightarrow> nat \<Rightarrow> nh_state \<Rightarrow> nh_state" where
  "group_refcnt_add d s = upd_group s (\<lambda>g. g\<lparr>grp_refcnt := grp_refcnt g + d\<rparr>)"

definition member_at :: "'a nexthop_scheme \<Rightarrow> nat \<Rightarrow> nat \<Rightarrow> nh_member" where
  "member_at st s i = members (groups st ! s) ! i"

definition find_next_free_group_slot :: "nh_state \<Rightarrow> nat \<Rightarrow> int" where
  "find_next_free_group_slot st start =
     int_of_slot (cyclic_find (\<lambda>i. nhcnt (groups st ! i) = 0) MAX_NEXTHOP_GRP_SIZE start
                    ((start + 1) mod MAX_NEXTHOP_GRP_SIZE))"

text \<open>The content comparison of a group without kernel id with a message.\<close>

definition legacy_match :: "nh_state \<Rightarrow> internal_msg_nh_entry \<Rightarrow> nat \<Rightarrow> bool" where
  "legacy_match st nh j \<longleftrightarrow>
     (let g = groups st ! j
      in nhcnt g \<noteq> 0 \<and> grp_kernel_nh_id g = 0 \<and> nhcnt g = msg_nhcnt nh
         \<and> list_all (\<lambda>i. 0 \<le> info_index (members g ! i)
              \<and> info_matches (info_pool st ! nat (info_index (members g ! i))) (mm_info (msg_members nh ! i)))
            [0..<nat (msg_nhcnt nh)])"

definition legacy_find :: "nh_state \<Rightarrow> internal_msg_nh_entry \<Rightarrow> int" where
  "legacy_find st nh = int_of_slot (List.find (legacy_match st nh) [0..<MAX_NEXTHOP_GRP_SIZE])"

definition set_weight :: "nat \<Rightarrow> nat \<Rightarrow> u32 \<Rightarrow> nh_state \<Rightarrow> nh_state" where
  "set_weight slot i w = upd_member slot i (\<lambda>m. m\<lparr>weight := w\<rparr>)"

text \<open>The part of the member loop that shares the description of another group's first member.\<close>

definition share_member :: "nat \<Rightarrow> nat \<Rightarrow> nat \<Rightarrow> nh_state \<Rightarrow> nh_state" where
  "share_member slot i ref_slot st =
     (let shared_idx = info_index (member_at st ref_slot 0);
          st = upd_member slot i (\<lambda>m. m\<lparr>info_index := shared_idx, ref_sdplane_nh_id := int ref_slot\<rparr>) st;
          st = (if 0 \<le> shared_idx then info_refcnt_add 1 (nat shared_idx) st else st)
      in group_refcnt_add 1 ref_slot st)"

text \<open>The roll-back loops over the members already populated.\<close>

definition release_infos :: "nat \<Rightarrow> nat \<Rightarrow> nh_state \<Rightarrow> nh_state" where
  "release_infos slot i st = fold (\<lambda>j st. info_release (info_index (member_at st slot j)) st) [0..<i] st"

definition release_members :: "nat \<Rightarrow> nat \<Rightarrow> nh_state \<Rightarrow> nh_state" where
  "release_members slot i st =
     fold (\<lambda>j st.
        let st = (if 0 \<le> ref_sdplane_nh_id (member_at st slot j)
                  then group_refcnt_add (-1) (nat (ref_sdplane_nh_id (member_at st slot j))) st else st)
        in info_release (info_index (member_at st slot j)) st) [0..<i] st"

definition clear_group :: "nat \<Rightarrow> nh_state \<Rightarrow> nh_state" where
  "clear_group slot = upd_group slot (\<lambda>g. zero_group)"

text \<open>
  One pass of the member loop of \<^verbatim>\<open>nexthop_add_entry\<close>.  \<open>rec\<close> is the function called for
  the stand-alone group of a member of a legacy multipath route.  The result says whether
  the loop goes on; if not, the group has been rolled back.
\<close>

type_synonym nh_add = "internal_msg_nh_entry \<Rightarrow> nh_state \<times> mallocs \<Rightarrow> int \<times> nh_state \<times> mallocs"

definition add_member ::
  "nh_add \<Rightarrow> internal_msg_nh_entry \<Rightarrow> nat \<Rightarrow> nat \<Rightarrow> nh_state \<times> mallocs \<Rightarrow> bool \<times> nh_state \<times> mallocs"
where
  "add_member rec nh slot i sm =
     (let (st, ms) = sm;
          member = msg_members nh ! i;
          w = mm_weight member
      in if mm_kernel_nh_id member \<noteq> 0 then
           (let ref_slot = nexthop_get_index_by_nhid st (mm_kernel_nh_id member)
            in if ref_slot < 0 then
                 (True, set_weight slot i w (upd_member slot i (\<lambda>m. m\<lparr>info_index := -1, ref_sdplane_nh_id := -1\<rparr>) st), ms)
               else (True, set_weight slot i w (share_member slot i (nat ref_slot) st), ms))
         else if 1 < msg_nhcnt nh \<and> msg_kernel_nh_id nh = 0 then
           (case rec \<lparr>msg_kernel_nh_id = 0, msg_nhcnt = 1, msg_members = [member]\<rparr> (st, ms) of
              (ref_slot, st, ms) \<Rightarrow>
                if ref_slot < 0 then (False, clear_group slot (release_members slot i st), ms)
                else (True, set_weight slot i w (share_member slot i (nat ref_slot) st), ms))
         else
           (case info_alloc st (mm_info member) of
              (st, info_idx) \<Rightarrow>
                if info_idx < 0 then (False, clear_group slot (release_infos slot i st), ms)
                else
                  (True, set_weight slot i w (upd_member slot i
                     (\<lambda>m. m\<lparr>info_index := info_idx, ref_sdplane_nh_id := -1\<rparr>) st), ms)))"

fun add_members ::
  "nh_add \<Rightarrow> internal_msg_nh_entry \<Rightarrow> nat \<Rightarrow> nat \<Rightarrow> nat \<Rightarrow> nh_state \<times> mallocs \<Rightarrow> bool \<times> nh_state \<times> mallocs"
where
  "add_members rec nh slot i 0 sm = (True, sm)"
| "add_members rec nh slot i (Suc k) sm =
     (case add_member rec nh slot i sm of (ok, sm) \<Rightarrow>
        if ok then add_members rec nh slot (Suc i) k sm else (False, sm))"

text \<open>The body of \<^verbatim>\<open>nexthop_add_entry\<close> after the search for an existing group.\<close>

definition create_group :: "nh_add \<Rightarrow> nh_add" where
  "create_group rec nh sm =
     (let (st, ms) = sm;
          slot = (if nhcnt (groups st ! groups_top st) = 0 then int (groups_top st)
                  else find_next_free_group_slot st (groups_top st))
      in if slot < 0 then (-1, st, ms)
         else
           (let slot = nat slot;
                st = upd_group slot (\<lambda>g. g\<lparr>grp_sdplane_nh_id := int slot,
                       grp_kernel_nh_id := msg_kernel_nh_id nh, grp_refcnt := 0, nhcnt := msg_nhcnt nh\<rparr>) st
            in case add_members rec nh slot 0 (nat (msg_nhcnt nh)) (st, ms) of
                 (ok, st, ms) \<Rightarrow>
                   if \<not> ok then (-1, st, ms)
                   else
                     (let next_free = find_next_free_group_slot st slot;
                          st = st\<lparr>groups_top := (if 0 \<le> next_free then nat next_free else slot)\<rparr>
                      in if msg_kernel_nh_id nh \<noteq> 0 then
                           (case hash_table_insert (nh_ht st) (id_ptr (msg_kernel_nh_id nh)) (int slot) ms of
                              (ht, ret, ms) \<Rightarrow>
                                (let st = st\<lparr>nh_ht := ht\<rparr>
                                 in if ret < 0 then
                                      (-1, clear_group slot
                                         (release_infos slot (nat (nhcnt (groups st ! slot))) st), ms)
                                    else (int slot, st, ms)))
                         else (int slot, st, ms))))"

definition nexthop_add_body :: "nh_add \<Rightarrow> nh_add" where
  "nexthop_add_body rec nh sm =
     (let existing = (if msg_kernel_nh_id nh \<noteq> 0
                      then nexthop_get_index_by_nhid (fst sm) (msg_kernel_nh_id nh)
                      else legacy_find (fst sm) nh)
      in if 0 \<le> existing then (existing, sm) else create_group rec nh sm)"

text \<open>
  The recursive call is always made with a single member and no kernel id, where it cannot
  recurse again (lemma \<open>nexthop_add_entry_rec\<close> below), so two levels of the body are the
  whole recursion.
\<close>

definition nexthop_add_entry :: nh_add where
  "nexthop_add_entry = nexthop_add_body (nexthop_add_body (\<lambda>nh sm. (-1, sm)))"

definition nexthop_del_group :: "nat \<Rightarrow> nh_state \<Rightarrow> nh_state" where
  "nexthop_del_group slot st =
     clear_group slot
       (fold (\<lambda>j st.
          let st = info_release (info_index (member_at st slot j)) st
          in if 0 \<le> ref_sdplane_nh_id (member_at st slot j)
             then group_refcnt_add (-1) (nat (ref_sdplane_nh_id (member_at st slot j))) st else st)
        [0..<nat (nhcnt (groups st ! slot))] st)"

definition nexthop_del_entry :: "nh_state \<Rightarrow> internal_msg_nh_entry \<Rightarrow> nh_state \<times> int" where
  "nexthop_del_entry st nh =
     (if msg_kernel_nh_id nh \<noteq> 0 then
        (let slot = nexthop_get_index_by_nhid st (msg_kernel_nh_id nh)
         in if slot < 0 then (st, -1)
            else (nexthop_del_group (nat slot)
                    (st\<lparr>nh_ht := fst (hash_table_remove (nh_ht st) (id_ptr (msg_kernel_nh_id nh)))\<rparr>), slot))
      else
        (let slot = legacy_find st nh
         in if slot < 0 then (st, -1) else (nexthop_del_group (nat slot) st, slot)))"

definition nexthop_increment_refcnt :: "nh_state \<Rightarrow> int \<Rightarrow> nh_state" where
  "nexthop_increment_refcnt st i =
     (if 0 \<le> i \<and> i < int MAX_NEXTHOP_GRP_SIZE then group_refcnt_add 1 (nat i) st else st)"

definition nexthop_decrement_refcnt :: "nh_state \<Rightarrow> int \<Rightarrow> nh_state" where
  "nexthop_decrement_refcnt st i =
     (if 0 \<le> i \<and> i < int MAX_NEXTHOP_GRP_SIZE then group_refcnt_add (-1) (nat i) st else st)"

definition nexthop_get_info_by_index :: "'a nexthop_scheme \<Rightarrow> int \<Rightarrow> nh_info option" where
  "nexthop_get_info_by_index st i =
     (if i < 0 \<or> int MAX_NEXTHOP_GRP_SIZE \<le> i then None
      else
        (let idx = info_index (member_at st (nat i) 0)
         in if idx < 0 then None else Some (info_pool st ! nat idx)))"

section \<open>The reference-count invariant\<close>

text \<open>
  A state is seen through two functions: the reference count of each pool entry and the
  pool index of each group member.  \<open>live s\<close> is the set of the members of group \<open>s\<close> that
  count; while a group is being built or taken down its \<^verbatim>\<open>nhcnt\<close> is set but only the members
  populated, or not yet released, count.
\<close>

definition rc :: "nh_state \<Rightarrow> nat \<Rightarrow> int" where
  "rc st k = refcnt (info_pool st ! k)"

definition ii :: "nh_state \<Rightarrow> nat \<Rightarrow> nat \<Rightarrow> int" where
  "ii st s j = info_index (member_at st s j)"

definition row_refs :: "nh_state \<Rightarrow> nat \<Rightarrow> nat set \<Rightarrow> nat \<Rightarrow> int" where
  "row_refs st s A k = (\<Sum>j\<in>A. of_bool (ii st s j = int k))"

definition info_refs :: "nh_state \<Rightarrow> (nat \<Rightarrow> nat set) \<Rightarrow> nat \<Rightarrow> int" where
  "info_refs st live k = (\<Sum>s<MAX_NEXTHOP_GRP_SIZE. row_refs st s (live s) k)"

definition nh_sizes :: "nh_state \<Rightarrow> bool" where
  "nh_sizes st \<longleftrightarrow> length (groups st) = MAX_NEXTHOP_GRP_SIZE \<and> length (info_pool st) = MAX_NEXTHOP_INFO_SIZE
     \<and> (\<forall>s<MAX_NEXTHOP_GRP_SIZE. length (members (groups st ! s)) = MAX_ECMP_ENTRY)
     \<and> groups_top st < MAX_NEXTHOP_GRP_SIZE \<and> info_top st < MAX_NEXTHOP_INFO_SIZE"

definition ht_slots_ok :: "nh_state \<Rightarrow> bool" where
  "ht_slots_ok st \<longleftrightarrow> ht_ok (nh_ht st)
     \<and> (\<forall>p v. hash_table_lookup (nh_ht st) p = Some v \<longrightarrow> 0 \<le> v \<and> v < int MAX_NEXTHOP_GRP_SIZE)"

definition counts_ok :: "(nat \<Rightarrow> nat set) \<Rightarrow> nh_state \<Rightarrow> bool" where
  "counts_ok live st \<longleftrightarrow> nh_sizes st
     \<and> (\<forall>k<MAX_NEXTHOP_INFO_SIZE. rc st k = info_refs st live k)
     \<and> (\<forall>s<MAX_NEXTHOP_GRP_SIZE. \<forall>j<MAX_ECMP_ENTRY. -1 \<le> ii st s j \<and> ii st s j < int MAX_NEXTHOP_INFO_SIZE)
     \<and> (\<forall>s<MAX_NEXTHOP_GRP_SIZE. live s \<subseteq> {..<MAX_ECMP_ENTRY}) \<and> ht_slots_ok st"

named_theorems nh_view \<open>effect of the primitive updates on the view of the state\<close>

lemma row_refs_insert:
  "finite A \<Longrightarrow> j \<notin> A \<Longrightarrow> row_refs st s (insert j A) k = row_refs st s A k + of_bool (ii st s j = int k)"
  by (simp add: row_refs_def)

lemma row_refs_nonneg: "0 \<le> row_refs st s A k"
  by (simp add: row_refs_def sum_nonneg)

lemma info_refs_nonneg: "0 \<le> info_refs st live k"
  by (simp add: info_refs_def row_refs_nonneg sum_nonneg)

lemma info_refs_live:
  assumes "s < MAX_NEXTHOP_GRP_SIZE"
  shows "info_refs st (live(s := A)) k = info_refs st live k - row_refs st s (live s) k + row_refs st s A k"
proof -
  let ?S = "{..<MAX_NEXTHOP_GRP_SIZE}"
  have "info_refs st l k = row_refs st s (l s) k + (\<Sum>t\<in>?S - {s}. row_refs st t (l t) k)" for l
    unfolding info_refs_def using assms by (subst sum.remove [of _ s]) auto
  moreover have "(\<Sum>t\<in>?S - {s}. row_refs st t ((live(s := A)) t) k) = (\<Sum>t\<in>?S - {s}. row_refs st t (live t) k)"
    by (rule sum.cong) auto
  ultimately show ?thesis by simp
qed

lemma info_refs_cong:
  assumes "\<And>s j. s < MAX_NEXTHOP_GRP_SIZE \<Longrightarrow> j \<in> live s \<Longrightarrow> ii st' s j = ii st s j"
  shows "info_refs st' live k = info_refs st live k"
  unfolding info_refs_def row_refs_def by (intro sum.cong refl) (auto simp: assms)

lemma member_at_upd_group:
  "member_at (upd_group s f st) t j = (if t = s \<and> s < length (groups st) then members (f (groups st ! s)) ! j else member_at st t j)"
  by (cases "s < length (groups st)") (auto simp: member_at_def upd_group_def nth_list_update list_update_beyond)

lemma nh_view_info_refcnt_add [nh_view]:
  "k < length (info_pool st) \<Longrightarrow> rc (info_refcnt_add d k st) = (rc st)(k := rc st k + d)"
  "ii (info_refcnt_add d k st) = ii st"
  "nh_ht (info_refcnt_add d k st) = nh_ht st" "groups (info_refcnt_add d k st) = groups st"
  "length (info_pool (info_refcnt_add d k st)) = length (info_pool st)"
  "groups_top (info_refcnt_add d k st) = groups_top st" "info_top (info_refcnt_add d k st) = info_top st"
  by (auto simp: info_refcnt_add_def rc_def ii_def member_at_def fun_eq_iff nth_list_update)

lemma nh_view_upd_group [nh_view]:
  "rc (upd_group s f st) = rc st" "nh_ht (upd_group s f st) = nh_ht st" "info_pool (upd_group s f st) = info_pool st"
  "length (groups (upd_group s f st)) = length (groups st)"
  "groups_top (upd_group s f st) = groups_top st" "info_top (upd_group s f st) = info_top st"
  "s < length (groups st) \<Longrightarrow> groups (upd_group s f st) ! t = (if t = s then f (groups st ! s) else groups st ! t)"
  by (auto simp: upd_group_def rc_def nth_list_update)

lemma ii_upd_group_same [nh_view]:
  "(\<And>g. members (f g) = members g) \<Longrightarrow> ii (upd_group s f st) = ii st"
  by (auto simp: ii_def fun_eq_iff member_at_upd_group) (simp add: member_at_def)

lemma ii_upd_member [nh_view]:
  assumes "nh_sizes st" "s < MAX_NEXTHOP_GRP_SIZE" "i < MAX_ECMP_ENTRY"
  shows "ii (upd_member s i f st) =
    (\<lambda>t j. if t = s \<and> j = i then info_index (f (member_at st s i)) else ii st t j)"
  using assms by (auto simp: fun_eq_iff ii_def upd_member_def member_at_upd_group nh_sizes_def)
    (auto simp: member_at_def nth_list_update)

lemma ii_clear_group [nh_view]:
  assumes "nh_sizes st" "s < MAX_NEXTHOP_GRP_SIZE" "j < MAX_ECMP_ENTRY"
  shows "ii (clear_group s st) t j = (if t = s then 0 else ii st t j)"
  using assms by (auto simp: ii_def clear_group_def member_at_upd_group nh_sizes_def zero_group_def zero_member_def)

text \<open>How each primitive acts on the invariant.\<close>

lemma counts_okD:
  assumes "counts_ok live st"
  shows "nh_sizes st" "ht_slots_ok st" 
    "s < MAX_NEXTHOP_GRP_SIZE \<Longrightarrow> finite (live s)" "s < MAX_NEXTHOP_GRP_SIZE \<Longrightarrow> live s \<subseteq> {..<MAX_ECMP_ENTRY}"
    "k < MAX_NEXTHOP_INFO_SIZE \<Longrightarrow> rc st k = info_refs st live k"
    "s < MAX_NEXTHOP_GRP_SIZE \<Longrightarrow> j < MAX_ECMP_ENTRY \<Longrightarrow> -1 \<le> ii st s j \<and> ii st s j < int MAX_NEXTHOP_INFO_SIZE"
  using assms finite_subset [of "live s" "{..<MAX_ECMP_ENTRY}"] by (auto simp: counts_ok_def)

lemma counts_ok_refcnt_nonneg: "counts_ok live st \<Longrightarrow> k < MAX_NEXTHOP_INFO_SIZE \<Longrightarrow> 0 \<le> rc st k"
  using counts_okD(5) info_refs_nonneg by simp

lemma counts_ok_same_view:
  assumes "counts_ok live st" "nh_sizes st'" "rc st' = rc st" "ii st' = ii st" "nh_ht st' = nh_ht st"
  shows "counts_ok live st'"
proof -
  have "info_refs st' live k = info_refs st live k" for k
    by (rule info_refs_cong) (simp add: assms(4))
  with assms show ?thesis by (simp add: counts_ok_def ht_slots_ok_def)
qed

lemma nh_sizes_upd_group:
  "nh_sizes st \<Longrightarrow> (\<And>g. length (members g) = MAX_ECMP_ENTRY \<Longrightarrow> length (members (f g)) = MAX_ECMP_ENTRY) \<Longrightarrow>
     nh_sizes (upd_group s f st)"
  by (cases "s < length (groups st)") (auto simp: nh_sizes_def upd_group_def nth_list_update list_update_beyond)

lemma nh_sizes_upd_member [simp]: "nh_sizes st \<Longrightarrow> nh_sizes (upd_member s i f st)"
  unfolding upd_member_def by (rule nh_sizes_upd_group) auto

lemma nh_sizes_info_refcnt_add [simp]: "nh_sizes st \<Longrightarrow> nh_sizes (info_refcnt_add d k st)"
  by (simp add: nh_sizes_def nh_view)

lemma counts_ok_upd_group:
  assumes "counts_ok live st" "\<And>g. members (f g) = members g"
  shows "counts_ok live (upd_group s f st)"
  using assms(1)
  by (rule counts_ok_same_view) (use counts_okD(1) [OF assms(1)] assms(2) in \<open>simp_all add: nh_view nh_sizes_upd_group\<close>)

lemma counts_ok_group_refcnt_add: "counts_ok live st \<Longrightarrow> counts_ok live (group_refcnt_add d s st)"
  unfolding group_refcnt_add_def by (rule counts_ok_upd_group) simp_all

lemma nh_view_upd_member [nh_view]:
  "rc (upd_member s i f st) = rc st" "nh_ht (upd_member s i f st) = nh_ht st"
  by (simp_all add: upd_member_def nh_view)

lemma counts_ok_upd_member:
  assumes ok: "counts_ok live st" and si: "s < MAX_NEXTHOP_GRP_SIZE" "i < MAX_ECMP_ENTRY"
    and f: "i \<notin> live s \<and> -1 \<le> info_index (f (member_at st s i)) \<and> info_index (f (member_at st s i)) < int MAX_NEXTHOP_INFO_SIZE
      \<or> info_index (f (member_at st s i)) = ii st s i"
  shows "counts_ok live (upd_member s i f st)"
proof -
  note ii' = ii_upd_member [OF counts_okD(1) [OF ok] si, of f]
  have "info_refs (upd_member s i f st) live k = info_refs st live k" for k
    by (rule info_refs_cong) (use f in \<open>auto simp: ii'\<close>)
  with ok f si show ?thesis by (auto simp: counts_ok_def ht_slots_ok_def ii' nh_view)
qed

lemma counts_ok_add_ref:
  assumes ok: "counts_ok live st" and s: "s < MAX_NEXTHOP_GRP_SIZE" "i < MAX_ECMP_ENTRY" "i \<notin> live s"
    and st': "nh_sizes st'" "nh_ht st' = nh_ht st"
      "\<And>t j. ii st' t j = (if t = s \<and> j = i then idx else ii st t j)"
      "\<And>k. k < MAX_NEXTHOP_INFO_SIZE \<Longrightarrow> rc st' k = rc st k + of_bool (idx = int k)"
    and idx: "-1 \<le> idx" "idx < int MAX_NEXTHOP_INFO_SIZE"
  shows "counts_ok (live(s := insert i (live s))) st'"
proof -
  have "info_refs st' live k = info_refs st live k" for k
    by (rule info_refs_cong) (use s(3) in \<open>auto simp: st'(3)\<close>)
  moreover have "info_refs st' (live(s := insert i (live s))) k = info_refs st' live k + of_bool (idx = int k)" for k
    using info_refs_live [OF s(1)] row_refs_insert [OF counts_okD(3) [OF ok s(1)] s(3)] st'(3) by simp
  moreover have "ht_slots_ok st'" using counts_okD(2) [OF ok] st'(2) by (simp add: ht_slots_ok_def)
  ultimately show ?thesis
    using ok s st'(1,3,4) idx by (auto simp: counts_ok_def)
qed

lemma nh_view_info_release [nh_view]:
  assumes "nh_sizes st"
  shows "ii (info_release k st) = ii st" "nh_ht (info_release k st) = nh_ht st" "groups (info_release k st) = groups st"
    "nh_sizes (info_release k st)" "member_at (info_release k st) = member_at st"
  using assms
  by (auto simp: info_release_def Let_def info_refcnt_add_def ii_def member_at_def nh_sizes_def fun_eq_iff)

lemma rc_info_release:
  assumes "nh_sizes st" "k < MAX_NEXTHOP_INFO_SIZE" "0 < rc st k"
  shows "rc (info_release (int k) st) = (rc st)(k := rc st k - 1)"
  using assms by (auto simp: info_release_def Let_def info_refcnt_add_def rc_def nh_sizes_def fun_eq_iff
      nth_list_update zero_info_def)

lemma counts_ok_release:
  assumes ok: "counts_ok live st" and s: "s < MAX_NEXTHOP_GRP_SIZE" "i < MAX_ECMP_ENTRY" "i \<in> live s"
  shows "counts_ok (live(s := live s - {i})) (info_release (ii st s i) st)"
    (is "counts_ok ?live ?st")
proof -
  have sz: "nh_sizes st" by (rule counts_okD(1) [OF ok])
  have "live = ?live(s := insert i (?live s))" using s(3) by (auto simp: insert_absorb)
  moreover have "finite (?live s)" using counts_okD(3) [OF ok s(1)] by simp
  ultimately have refs: "info_refs st live k = info_refs st ?live k + of_bool (ii st s i = int k)" for k
    using info_refs_live [OF s(1), of st ?live "live s" k] row_refs_insert [of "?live s" i st s k] s(3)
    by (simp add: insert_absorb)
  have range: "-1 \<le> ii st s i \<and> ii st s i < int MAX_NEXTHOP_INFO_SIZE" using counts_okD(6) [OF ok s(1,2)] .
  have "rc ?st k = rc st k - of_bool (ii st s i = int k)" if k: "k < MAX_NEXTHOP_INFO_SIZE" for k
  proof (cases "ii st s i < 0")
    case True
    then show ?thesis by (simp add: info_release_def)
  next
    case False
    define m where "m = nat (ii st s i)"
    have m: "ii st s i = int m" "m < MAX_NEXTHOP_INFO_SIZE" using False range by (auto simp: m_def)
    from refs [of m] m info_refs_nonneg [of st ?live m] counts_okD(5) [OF ok m(2)] have "0 < rc st m" by simp
    from rc_info_release [OF sz m(2) this] m(1) show ?thesis by auto
  qed
  moreover have "info_refs ?st ?live k = info_refs st ?live k" for k
    by (rule info_refs_cong) (simp add: nh_view sz)
  ultimately show ?thesis
    using ok refs sz unfolding counts_ok_def by (auto simp: nh_view ht_slots_ok_def)
qed

lemma counts_ok_cong:
  assumes "counts_ok live st" "\<And>s. s < MAX_NEXTHOP_GRP_SIZE \<Longrightarrow> live' s = live s"
  shows "counts_ok live' st"
proof -
  have "info_refs st live' k = info_refs st live k" for k
    unfolding info_refs_def by (rule sum.cong) (auto simp: assms(2))
  with assms show ?thesis by (simp add: counts_ok_def)
qed

lemma nh_view_clear_group [nh_view]:
  "rc (clear_group s st) = rc st" "nh_ht (clear_group s st) = nh_ht st"
  by (simp_all add: clear_group_def nh_view)

lemma counts_ok_clear:
  assumes ok: "counts_ok live st" and s: "s < MAX_NEXTHOP_GRP_SIZE" "live s = {}"
  shows "counts_ok live (clear_group s st)"
proof -
  have sz: "nh_sizes st" by (rule counts_okD(1) [OF ok])
  have sz': "nh_sizes (clear_group s st)"
    unfolding clear_group_def by (rule nh_sizes_upd_group [OF sz]) (simp add: zero_group_def)
  have "info_refs (clear_group s st) live k = info_refs st live k" for k
    using counts_okD(4) [OF ok] s by (intro info_refs_cong) (auto simp: ii_clear_group [OF sz s(1)] subset_iff)
  then show ?thesis
    using ok sz' by (auto simp: counts_ok_def ii_clear_group [OF sz s(1)] ht_slots_ok_def nh_view)
      (simp add: MAX_NEXTHOP_INFO_SIZE_def)
qed

section \<open>Every operation keeps the reference counts\<close>

text \<open>
  \<open>keeps x live st live' st'\<close>: the counts hold in \<open>st'\<close>; groups in use before, other than
  \<open>x\<close>, are as before; groups that were free either stay free or are complete.
\<close>

definition used :: "nh_state \<Rightarrow> nat \<Rightarrow> int" where
  "used st s = nhcnt (groups st ! s)"

definition keeps :: "nat \<Rightarrow> (nat \<Rightarrow> nat set) \<Rightarrow> nh_state \<Rightarrow> (nat \<Rightarrow> nat set) \<Rightarrow> nh_state \<Rightarrow> bool" where
  "keeps x live st live' st' \<longleftrightarrow> counts_ok live' st'
     \<and> (\<forall>s<MAX_NEXTHOP_GRP_SIZE. s \<noteq> x \<longrightarrow>
          (if used st s \<noteq> 0 then live' s = live s \<and> used st' s = used st s
           else live' s = {..<nat (used st' s)}))"

definition free_unlive :: "(nat \<Rightarrow> nat set) \<Rightarrow> nh_state \<Rightarrow> bool" where
  "free_unlive live st \<longleftrightarrow> (\<forall>s<MAX_NEXTHOP_GRP_SIZE. used st s = 0 \<longrightarrow> live s = {})"

lemma keeps_trans: "keeps x live st live1 st1 \<Longrightarrow> keeps x live1 st1 live2 st2 \<Longrightarrow> keeps x live st live2 st2"
  unfolding keeps_def by (metis (no_types, lifting))

lemma used_simps [nh_view]:
  "used (info_refcnt_add d k st) = used st"
  "nh_sizes st \<Longrightarrow> used (info_release i st) = used st"
  "(\<And>g. nhcnt (f g) = nhcnt g) \<Longrightarrow> used (upd_group s f st) = used st"
  by (auto simp: used_def fun_eq_iff nh_view upd_group_def nth_list_update)
     (metis list_update_beyond not_less nth_list_update nth_list_update_neq)

lemma used_upd_member [nh_view]: "used (upd_member s i f st) = used st"
  unfolding upd_member_def by (simp add: nh_view)

lemma used_group_refcnt_add [nh_view]:
  "used (group_refcnt_add d s st) = used st" "ii (group_refcnt_add d s st) = ii st"
  unfolding group_refcnt_add_def by (simp_all add: nh_view)

lemma used_clear_group [nh_view]:
  "nh_sizes st \<Longrightarrow> s < MAX_NEXTHOP_GRP_SIZE \<Longrightarrow> used (clear_group s st) t = (if t = s then 0 else used st t)"
  by (auto simp: used_def clear_group_def nh_view nh_sizes_def zero_group_def)

text \<open>The release loops take the members out of the live set one by one.\<close>

lemma release_loop:
  assumes step: "\<And>live st j. counts_ok live st \<Longrightarrow> j < MAX_ECMP_ENTRY \<Longrightarrow> j \<in> live slot \<Longrightarrow>
      counts_ok (live(slot := live slot - {j})) (f j st) \<and> used (f j st) = used st"
    and "counts_ok live st" "live slot = {i..<n}" "i \<le> n" "n \<le> MAX_ECMP_ENTRY"
  shows "counts_ok (live(slot := {})) (fold f [i..<n] st) \<and> used (fold f [i..<n] st) = used st"
  using assms(2-)
proof (induction "n - i" arbitrary: i live st)
  case (Suc m)
  then have lt: "i < n" by simp
  have "counts_ok (live(slot := live slot - {i})) (f i st) \<and> used (f i st) = used st"
    using step [of live st i] Suc.prems lt by simp
  moreover have "live slot - {i} = {Suc i..<n}" unfolding Suc.prems(2) by (rule set_eqI) (simp, linarith)
  moreover from lt Suc.hyps(2) have "m = n - Suc i" by simp
  ultimately have x: "counts_ok (live(slot := {Suc i..<n})) (f i st)" "used (f i st) = used st" "m = n - Suc i"
    by simp_all
  have y: "[i..<n] = i # [Suc i..<n]" using lt by (rule upt_conv_Cons)
  show ?case
    unfolding y fold_simps using Suc.hyps(1) [OF x(3) x(1)] Suc.prems(4) lt x(2) by simp
qed (simp add: fun_upd_idem)

lemma release_infos_ok:
  assumes "counts_ok live st" "slot < MAX_NEXTHOP_GRP_SIZE" "live slot = {..<n}" "n \<le> MAX_ECMP_ENTRY"
  shows "counts_ok (live(slot := {})) (release_infos slot n st) \<and> used (release_infos slot n st) = used st"
  unfolding release_infos_def
proof (rule release_loop [OF _ assms(1)])
  fix live st j
  assume "counts_ok live st" "j < MAX_ECMP_ENTRY" "j \<in> live slot"
  with counts_ok_release [OF this(1) assms(2) this(2,3)] counts_okD(1) [OF this(1)]
  show "counts_ok (live(slot := live slot - {j})) (info_release (info_index (member_at st slot j)) st)
      \<and> used (info_release (info_index (member_at st slot j)) st) = used st"
    by (simp add: ii_def nh_view)
qed (use assms in \<open>simp_all add: lessThan_atLeast0\<close>)

lemma release_members_ok:
  assumes "counts_ok live st" "slot < MAX_NEXTHOP_GRP_SIZE" "live slot = {..<n}" "n \<le> MAX_ECMP_ENTRY"
  shows "counts_ok (live(slot := {})) (release_members slot n st) \<and> used (release_members slot n st) = used st"
  unfolding release_members_def
proof (rule release_loop [OF _ assms(1)])
  fix live st j
  assume a: "counts_ok live st" "j < MAX_ECMP_ENTRY" "j \<in> live slot"
  define st1 where "st1 = (if 0 \<le> ref_sdplane_nh_id (member_at st slot j)
      then group_refcnt_add (-1) (nat (ref_sdplane_nh_id (member_at st slot j))) st else st)"
  have 1: "counts_ok live st1" "used st1 = used st"
    using a(1) by (simp_all add: st1_def counts_ok_group_refcnt_add nh_view)
  with counts_ok_release [OF 1(1) assms(2) a(2,3)] counts_okD(1) [OF 1(1)]
  show "counts_ok (live(slot := live slot - {j}))
      (let st = if 0 \<le> ref_sdplane_nh_id (member_at st slot j)
          then group_refcnt_add (-1) (nat (ref_sdplane_nh_id (member_at st slot j))) st else st
       in info_release (info_index (member_at st slot j)) st)
    \<and> used (let st = if 0 \<le> ref_sdplane_nh_id (member_at st slot j)
          then group_refcnt_add (-1) (nat (ref_sdplane_nh_id (member_at st slot j))) st else st
       in info_release (info_index (member_at st slot j)) st) = used st"
    unfolding Let_def st1_def [symmetric] by (simp add: ii_def nh_view)
qed (use assms in \<open>simp_all add: lessThan_atLeast0\<close>)

lemma nexthop_del_group_ok:
  assumes "counts_ok live st" "slot < MAX_NEXTHOP_GRP_SIZE" "live slot = {..<nat (used st slot)}"
  shows "counts_ok (live(slot := {})) (nexthop_del_group slot st)
    \<and> used (nexthop_del_group slot st) = (used st)(slot := 0)"
proof -
  let ?f = "\<lambda>j st. let st = info_release (info_index (member_at st slot j)) st
      in if 0 \<le> ref_sdplane_nh_id (member_at st slot j)
         then group_refcnt_add (-1) (nat (ref_sdplane_nh_id (member_at st slot j))) st else st"
  have n: "nat (used st slot) \<le> MAX_ECMP_ENTRY"
    using counts_okD(4) [OF assms(1,2)] assms(3) by simp
  have loop: "counts_ok (live(slot := {})) (fold ?f [0..<nat (used st slot)] st)
      \<and> used (fold ?f [0..<nat (used st slot)] st) = used st"
  proof (rule release_loop [OF _ assms(1)])
    fix live st j
    assume a: "counts_ok live st" "j < MAX_ECMP_ENTRY" "j \<in> live slot"
    with counts_ok_release [OF a(1) assms(2) a(2,3)] counts_okD(1) [OF a(1)]
    show "counts_ok (live(slot := live slot - {j})) (?f j st) \<and> used (?f j st) = used st"
      by (simp add: Let_def ii_def nh_view counts_ok_group_refcnt_add)
  qed (use assms(3) n in \<open>simp_all add: lessThan_atLeast0\<close>)
  define st1 where "st1 = fold ?f [0..<nat (used st slot)] st"
  have "nexthop_del_group slot st = clear_group slot st1"
    by (simp add: nexthop_del_group_def st1_def used_def)
  moreover have "counts_ok (live(slot := {})) (clear_group slot st1)"
    using loop assms(2) by (intro counts_ok_clear) (simp_all add: st1_def)
  moreover have "used (clear_group slot st1) = (used st)(slot := 0)"
    using loop counts_okD(1) [of "live(slot := {})" st1] assms(2)
    by (auto simp: fun_eq_iff nh_view st1_def [symmetric])
  ultimately show ?thesis by simp
qed

text \<open>One member more.  The three ways to populate it all add one counted reference.\<close>

lemma info_alloc_cases:
  assumes ok: "counts_ok live st" and alloc: "info_alloc st src = (st', idx)"
  shows "idx = -1 \<and> st' = st \<or>
    0 \<le> idx \<and> idx < int MAX_NEXTHOP_INFO_SIZE \<and> nh_sizes st' \<and> nh_ht st' = nh_ht st \<and> groups st' = groups st
    \<and> (\<forall>k<MAX_NEXTHOP_INFO_SIZE. rc st' k = rc st k + of_bool (idx = int k))"
proof (cases "0 \<le> info_find st src")
  case True
  then obtain i where i: "info_find st src = int i" "i < MAX_NEXTHOP_INFO_SIZE"
    using find_upt_Some by (fastforce simp: info_find_def int_of_slot_def split: option.splits)
  with alloc True have "st' = info_refcnt_add 1 i st" "idx = int i" by (simp_all add: info_alloc_def Let_def)
  with i counts_okD(1) [OF ok] show ?thesis by (auto simp: nh_view nh_sizes_def)
next
  case False
  show ?thesis
  proof (cases "cyclic_find (\<lambda>i. refcnt (info_pool st ! i) \<le> 0) MAX_NEXTHOP_INFO_SIZE (info_top st)
      ((info_top st + 1) mod MAX_NEXTHOP_INFO_SIZE)")
    case None
    with False alloc show ?thesis by (simp add: info_alloc_def Let_def)
  next
    case (Some i)
    with cyclic_find_Some have i: "rc st i \<le> 0" "i < MAX_NEXTHOP_INFO_SIZE" by (fastforce simp: rc_def)+
    with counts_ok_refcnt_nonneg [OF ok] have "rc st i = 0" by force
    moreover from alloc False Some have
      "st' = st\<lparr>info_pool := (info_pool st)[i := src\<lparr>refcnt := 1\<rparr>], info_top := (i + 1) mod MAX_NEXTHOP_INFO_SIZE\<rparr>"
      "idx = int i" by (simp_all add: info_alloc_def Let_def)
    ultimately show ?thesis
      using i counts_okD(1) [OF ok]
      by (auto simp: nh_sizes_def rc_def nth_list_update MAX_NEXTHOP_INFO_SIZE_def)
  qed
qed

lemma set_weight_ok:
  assumes "counts_ok live st" "slot < MAX_NEXTHOP_GRP_SIZE" "i < MAX_ECMP_ENTRY"
  shows "counts_ok live (set_weight slot i w st) \<and> used (set_weight slot i w st) = used st"
  using counts_ok_upd_member [OF assms] by (simp add: set_weight_def nh_view ii_def)

lemma add_ref_member_ok:
  assumes ok: "counts_ok live st" and s: "slot < MAX_NEXTHOP_GRP_SIZE" "i < MAX_ECMP_ENTRY" "i \<notin> live slot"
    and st1: "nh_sizes st1" "nh_ht st1 = nh_ht st" "groups st1 = groups st"
      "\<forall>k<MAX_NEXTHOP_INFO_SIZE. rc st1 k = rc st k + of_bool (idx = int k)"
    and idx: "-1 \<le> idx" "idx < int MAX_NEXTHOP_INFO_SIZE" and f: "\<And>m. info_index (f m) = idx"
  shows "counts_ok (live(slot := insert i (live slot))) (upd_member slot i f st1)
    \<and> used (upd_member slot i f st1) = used st"
proof
  have "ii st1 = ii st" using st1(3) by (simp add: ii_def member_at_def fun_eq_iff)
  then show "counts_ok (live(slot := insert i (live slot))) (upd_member slot i f st1)"
    using st1 f by (intro counts_ok_add_ref [OF ok s _ _ _ _ idx]) (simp_all add: nh_view s)
  show "used (upd_member slot i f st1) = used st" using st1(3) by (simp add: nh_view) (simp add: used_def fun_eq_iff)
qed

lemma share_member_ok:
  assumes ok: "counts_ok live st" and s: "slot < MAX_NEXTHOP_GRP_SIZE" "i < MAX_ECMP_ENTRY" "i \<notin> live slot"
    and ref: "ref_slot < MAX_NEXTHOP_GRP_SIZE"
  shows "counts_ok (live(slot := insert i (live slot))) (share_member slot i ref_slot st)
    \<and> used (share_member slot i ref_slot st) = used st"
proof -
  define idx where "idx = ii st ref_slot 0"
  define st1 where "st1 = upd_member slot i (\<lambda>m. m\<lparr>info_index := idx, ref_sdplane_nh_id := int ref_slot\<rparr>) st"
  define st2 where "st2 = (if 0 \<le> idx then info_refcnt_add 1 (nat idx) st1 else st1)"
  have idx: "-1 \<le> idx" "idx < int MAX_NEXTHOP_INFO_SIZE"
    using counts_okD(6) [OF ok ref, of 0] by (simp_all add: idx_def MAX_ECMP_ENTRY_def)
  have sz: "nh_sizes st1" "nh_sizes st2" using counts_okD(1) [OF ok] by (simp_all add: st1_def st2_def)
  have "counts_ok (live(slot := insert i (live slot))) st2"
  proof (rule counts_ok_add_ref [OF ok s sz(2) _ _ _ idx])
    show "nh_ht st2 = nh_ht st" by (simp add: st2_def st1_def nh_view)
    show "ii st2 t j = (if t = slot \<and> j = i then idx else ii st t j)" for t j
      using counts_okD(1) [OF ok] s by (simp add: st2_def st1_def nh_view)
    show "rc st2 k = rc st k + of_bool (idx = int k)" if "k < MAX_NEXTHOP_INFO_SIZE" for k
    proof -
      have "rc st1 = rc st" by (simp add: st1_def nh_view)
      then show ?thesis using idx sz(1) by (auto simp: st2_def nh_view nh_sizes_def)
    qed
  qed
  moreover have "used st2 = used st" by (simp add: st2_def st1_def nh_view)
  moreover have "share_member slot i ref_slot st = group_refcnt_add 1 ref_slot st2"
    by (simp add: share_member_def Let_def st2_def st1_def idx_def ii_def)
  ultimately show ?thesis by (simp add: counts_ok_group_refcnt_add nh_view)
qed

lemma keeps_slotI:
  assumes "counts_ok live' st'" "free_unlive live st"
    and "\<And>s. s \<noteq> slot \<Longrightarrow> s < MAX_NEXTHOP_GRP_SIZE \<Longrightarrow> live' s = live s \<and> used st' s = used st s"
  shows "keeps slot live st live' st'"
  using assms by (auto simp: keeps_def free_unlive_def)

lemma keeps_free_unlive:
  "keeps x live st live' st' \<Longrightarrow> x < MAX_NEXTHOP_GRP_SIZE \<longrightarrow> used st' x = 0 \<longrightarrow> live' x = {} \<Longrightarrow> free_unlive live' st'"
  unfolding keeps_def free_unlive_def by (metis lessThan_0 nat_0)

lemma keepsD: "keeps x live st live' st' \<Longrightarrow> counts_ok live' st'"
  by (simp add: keeps_def)

lemma keeps_weaken: "keeps MAX_NEXTHOP_GRP_SIZE live st live' st' \<Longrightarrow> keeps x live st live' st'"
  by (auto simp: keeps_def)

lemma keeps_used:
  "keeps MAX_NEXTHOP_GRP_SIZE live st live' st' \<Longrightarrow> x < MAX_NEXTHOP_GRP_SIZE \<Longrightarrow> used st x \<noteq> 0 \<Longrightarrow>
     live' x = live x \<and> used st' x = used st x"
  by (auto simp: keeps_def)

text \<open>What \<^verbatim>\<open>nexthop_add_entry\<close> promises; the recursive call relies on it.\<close>

definition msg_ok :: "internal_msg_nh_entry \<Rightarrow> bool" where
  "msg_ok nh \<longleftrightarrow> 0 \<le> msg_nhcnt nh \<and> msg_nhcnt nh \<le> int MAX_ECMP_ENTRY"

definition add_contract :: "nh_add \<Rightarrow> bool" where
  "add_contract rec \<longleftrightarrow>
     (\<forall>nh st ms live r st' ms'. counts_ok live st \<and> free_unlive live st \<and> msg_ok nh \<and> rec nh (st, ms) = (r, st', ms')
        \<longrightarrow> r < int MAX_NEXTHOP_GRP_SIZE \<and> (\<exists>live'. keeps MAX_NEXTHOP_GRP_SIZE live st live' st'))"

lemma add_contractD:
  "\<lbrakk> add_contract rec; counts_ok live st; free_unlive live st; msg_ok nh; rec nh (st, ms) = (r, st', ms') \<rbrakk> \<Longrightarrow>
     r < int MAX_NEXTHOP_GRP_SIZE \<and> (\<exists>live'. keeps MAX_NEXTHOP_GRP_SIZE live st live' st')"
  unfolding add_contract_def by blast

lemma nexthop_get_index_less: "ht_slots_ok st \<Longrightarrow> nexthop_get_index_by_nhid st k < int MAX_NEXTHOP_GRP_SIZE"
  by (auto simp: ht_slots_ok_def nexthop_get_index_by_nhid_def MAX_NEXTHOP_GRP_SIZE_def split: option.splits)

definition member_done :: "nat \<Rightarrow> nat \<Rightarrow> (nat \<Rightarrow> nat set) \<Rightarrow> nh_state \<Rightarrow> bool \<Rightarrow> nh_state \<Rightarrow> bool" where
  "member_done slot n live st ok st' \<longleftrightarrow>
     (\<exists>live'. keeps slot live st live' st' \<and>
        (if ok then live' slot = {..<n} \<and> used st' slot = used st slot else live' slot = {} \<and> used st' slot = 0))"

lemma member_doneI:
  assumes "counts_ok (live(slot := insert i (live slot))) st1 \<and> used st1 = used st" "live slot = {..<i}"
    "free_unlive live st" "slot < MAX_NEXTHOP_GRP_SIZE" "i < MAX_ECMP_ENTRY"
  shows "member_done slot (Suc i) live st True (set_weight slot i w st1)"
proof -
  let ?live = "live(slot := insert i (live slot))"
  have 1: "counts_ok ?live (set_weight slot i w st1)" "used (set_weight slot i w st1) = used st"
    using set_weight_ok [of ?live st1 slot i w] assms by simp_all
  then have "keeps slot live st ?live (set_weight slot i w st1)" using assms(3) by (intro keeps_slotI) auto
  moreover have "?live slot = {..<Suc i}" using assms(2) by (simp add: lessThan_Suc)
  ultimately show ?thesis using 1(2) unfolding member_done_def by (intro exI [of _ ?live]) simp
qed

lemma member_done_clear:
  assumes "counts_ok (live(slot := {})) st1 \<and> used st1 = used st" "free_unlive live st" "slot < MAX_NEXTHOP_GRP_SIZE"
  shows "member_done slot n live st False (clear_group slot st1)"
proof -
  let ?live = "live(slot := {})"
  have "counts_ok ?live (clear_group slot st1)" using assms by (intro counts_ok_clear) auto
  moreover have "used (clear_group slot st1) t = (if t = slot then 0 else used st t)" for t
    using counts_okD(1) [of "live(slot := {})" st1] assms by (simp add: nh_view)
  ultimately show ?thesis
    unfolding member_done_def using assms(2) by (intro exI [of _ ?live]) (auto intro!: keeps_slotI)
qed

lemma member_done_trans:
  assumes "keeps slot live st live1 st1" "used st1 slot = used st slot" "member_done slot n live1 st1 ok st2"
  shows "member_done slot n live st ok st2"
  using assms keeps_trans unfolding member_done_def by metis

lemma add_member_ref_ok:
  assumes ok: "counts_ok live st" and free: "free_unlive live st"
    and slot: "slot < MAX_NEXTHOP_GRP_SIZE" and i: "i < MAX_ECMP_ENTRY" "live slot = {..<i}"
    and add: "add_member rec nh slot i (st, ms) = (r, st', ms')"
    and kid: "mm_kernel_nh_id (msg_members nh ! i) \<noteq> 0"
  shows "member_done slot (Suc i) live st r st'"
proof -
  let ?ref = "nexthop_get_index_by_nhid st (mm_kernel_nh_id (msg_members nh ! i))"
  have ni: "i \<notin> live slot" using i(2) by simp
  note fin = member_doneI [OF _ i(2) free slot i(1)]
  show ?thesis
  proof (cases "?ref < 0")
    case True
    have "counts_ok (live(slot := insert i (live slot)))
          (upd_member slot i (\<lambda>m. m\<lparr>info_index := -1, ref_sdplane_nh_id := -1\<rparr>) st)
        \<and> used (upd_member slot i (\<lambda>m. m\<lparr>info_index := -1, ref_sdplane_nh_id := -1\<rparr>) st) = used st"
      by (rule add_ref_member_ok [OF ok slot i(1) ni, where idx = "-1"])
        (use counts_okD(1) [OF ok] in \<open>simp_all add: MAX_NEXTHOP_INFO_SIZE_def\<close>)
    from fin [OF this] add True kid show ?thesis by (auto simp: add_member_def Let_def)
  next
    case False
    then have "nat ?ref < MAX_NEXTHOP_GRP_SIZE"
      using nexthop_get_index_less [OF counts_okD(2) [OF ok], of "mm_kernel_nh_id (msg_members nh ! i)"] by simp
    from fin [OF share_member_ok [OF ok slot i(1) ni this]] add kid False show ?thesis
      by (auto simp: add_member_def Let_def)
  qed
qed

lemma add_member_legacy_ok:
  assumes rec: "add_contract rec" and ok: "counts_ok live st" and free: "free_unlive live st"
    and slot: "slot < MAX_NEXTHOP_GRP_SIZE" "used st slot \<noteq> 0" and i: "i < MAX_ECMP_ENTRY" "live slot = {..<i}"
    and add: "add_member rec nh slot i (st, ms) = (r, st', ms')"
    and c: "mm_kernel_nh_id (msg_members nh ! i) = 0" "1 < msg_nhcnt nh \<and> msg_kernel_nh_id nh = 0"
  shows "member_done slot (Suc i) live st r st'"
proof -
  let ?m = "msg_members nh ! i"
  obtain ref st1 ms1 where r: "rec \<lparr>msg_kernel_nh_id = 0, msg_nhcnt = 1, msg_members = [?m]\<rparr> (st, ms) = (ref, st1, ms1)"
    by (metis prod_cases3)
  have "msg_ok \<lparr>msg_kernel_nh_id = 0, msg_nhcnt = 1, msg_members = [?m]\<rparr>"
    by (simp add: msg_ok_def MAX_ECMP_ENTRY_def)
  from add_contractD [OF rec ok free this r] obtain live1 where
    ref: "ref < int MAX_NEXTHOP_GRP_SIZE" and k: "keeps MAX_NEXTHOP_GRP_SIZE live st live1 st1" by blast
  from keeps_used [OF k slot] i(2) have l1: "live1 slot = {..<i}" "used st1 slot = used st slot" by simp_all
  note ok1 = keepsD [OF k]
  have free1: "free_unlive live1 st1" using keeps_free_unlive [OF k] by simp
  note trans = member_done_trans [OF keeps_weaken [OF k] l1(2)]
  show ?thesis
  proof (cases "ref < 0")
    case True
    from trans [OF member_done_clear [OF release_members_ok [OF ok1 slot(1) l1(1)] free1 slot(1)]] i(1)
      add c r True show ?thesis by (auto simp: add_member_def Let_def)
  next
    case False
    with ref have rl: "nat ref < MAX_NEXTHOP_GRP_SIZE" by simp
    have ni: "i \<notin> live1 slot" using l1(1) by simp
    have "member_done slot (Suc i) live1 st1 True (set_weight slot i (mm_weight ?m) (share_member slot i (nat ref) st1))"
      by (rule member_doneI [OF share_member_ok [OF ok1 slot(1) i(1) ni rl] l1(1) free1 slot(1) i(1)])
    from trans [OF this] add c r False show ?thesis by (auto simp: add_member_def Let_def)
  qed
qed

lemma add_member_inline_ok:
  assumes ok: "counts_ok live st" and free: "free_unlive live st"
    and slot: "slot < MAX_NEXTHOP_GRP_SIZE" and i: "i < MAX_ECMP_ENTRY" "live slot = {..<i}"
    and add: "add_member rec nh slot i (st, ms) = (r, st', ms')"
    and c: "mm_kernel_nh_id (msg_members nh ! i) = 0" "\<not> (1 < msg_nhcnt nh \<and> msg_kernel_nh_id nh = 0)"
  shows "member_done slot (Suc i) live st r st'"
proof -
  obtain st1 idx where a: "info_alloc st (mm_info (msg_members nh ! i)) = (st1, idx)" by fastforce
  from info_alloc_cases [OF ok a] show ?thesis
  proof
    assume "idx = -1 \<and> st1 = st"
    with member_done_clear [OF release_infos_ok [OF ok slot i(2)] free slot] i(1) add c a
    show ?thesis by (auto simp: add_member_def Let_def)
  next
    assume x: "0 \<le> idx \<and> idx < int MAX_NEXTHOP_INFO_SIZE \<and> nh_sizes st1 \<and> nh_ht st1 = nh_ht st \<and> groups st1 = groups st
        \<and> (\<forall>k<MAX_NEXTHOP_INFO_SIZE. rc st1 k = rc st k + of_bool (idx = int k))"
    have ni: "i \<notin> live slot" using i(2) by simp
    from x have "counts_ok (live(slot := insert i (live slot)))
        (upd_member slot i (\<lambda>m. m\<lparr>info_index := idx, ref_sdplane_nh_id := -1\<rparr>) st1)
      \<and> used (upd_member slot i (\<lambda>m. m\<lparr>info_index := idx, ref_sdplane_nh_id := -1\<rparr>) st1) = used st"
      by (intro add_ref_member_ok [OF ok slot i(1) ni]) auto
    from member_doneI [OF this i(2) free slot i(1)] x add c a show ?thesis
      by (auto simp: add_member_def Let_def)
  qed
qed

lemma add_member_ok:
  assumes "add_contract rec" "counts_ok live st" "free_unlive live st"
    "slot < MAX_NEXTHOP_GRP_SIZE" "used st slot \<noteq> 0" "i < MAX_ECMP_ENTRY" "live slot = {..<i}"
    "add_member rec nh slot i (st, ms) = (r, st', ms')"
  shows "member_done slot (Suc i) live st r st'"
proof -
  consider "mm_kernel_nh_id (msg_members nh ! i) \<noteq> 0"
    | "mm_kernel_nh_id (msg_members nh ! i) = 0" "1 < msg_nhcnt nh \<and> msg_kernel_nh_id nh = 0"
    | "mm_kernel_nh_id (msg_members nh ! i) = 0" "\<not> (1 < msg_nhcnt nh \<and> msg_kernel_nh_id nh = 0)"
    by blast
  then show ?thesis
  proof cases
    case 1
    show ?thesis by (rule add_member_ref_ok [OF assms(2-4,6-8) 1])
  next
    case 2
    show ?thesis by (rule add_member_legacy_ok [OF assms 2])
  next
    case 3
    show ?thesis by (rule add_member_inline_ok [OF assms(2-4,6-8) 3])
  qed
qed

lemma add_members_ok:
  assumes "add_contract rec" "counts_ok live st" "free_unlive live st" "slot < MAX_NEXTHOP_GRP_SIZE"
    "0 < k \<longrightarrow> used st slot \<noteq> 0" "i + k \<le> MAX_ECMP_ENTRY" "live slot = {..<i}"
    "add_members rec nh slot i k (st, ms) = (r, st', ms')"
  shows "member_done slot (i + k) live st r st'"
  using assms(2-)
proof (induction k arbitrary: i live st ms)
  case 0
  then have "keeps slot live st live st'" by (intro keeps_slotI) auto
  with 0 show ?case by (auto simp: member_done_def)
next
  case (Suc k)
  obtain r1 st1 ms1 where a: "add_member rec nh slot i (st, ms) = (r1, st1, ms1)" by (metis prod_cases3)
  have d: "member_done slot (Suc i) live st r1 st1"
    using add_member_ok [OF assms(1) Suc.prems(1-3) _ _ Suc.prems(6) a] Suc.prems by simp
  show ?case
  proof (cases r1)
    case False
    with d a Suc.prems show ?thesis by (auto simp: member_done_def)
  next
    case True
    with d obtain live1 where k1: "keeps slot live st live1 st1" "live1 slot = {..<Suc i}" "used st1 slot = used st slot"
      by (auto simp: member_done_def)
    have "free_unlive live1 st1"
      using keeps_free_unlive [OF k1(1)] k1(3) Suc.prems(4) by simp
    with Suc.IH [OF keepsD [OF k1(1)] this Suc.prems(3), of "Suc i" ms1] Suc.prems k1 a True
    have "member_done slot (Suc i + k) live1 st1 r st'" by simp
    from member_done_trans [OF k1(1,3) this] show ?thesis by simp
  qed
qed

lemma find_next_free_group_slot_cases:
  "find_next_free_group_slot st start = -1 \<or>
   (\<exists>i. find_next_free_group_slot st start = int i \<and> i < MAX_NEXTHOP_GRP_SIZE \<and> used st i = 0)"
  using cyclic_find_Some [of "\<lambda>i. nhcnt (groups st ! i) = 0" MAX_NEXTHOP_GRP_SIZE start]
  by (auto simp: find_next_free_group_slot_def int_of_slot_def used_def split: option.splits)

lemma ht_slots_ok_insert:
  assumes "ht_slots_ok st" "slot < MAX_NEXTHOP_GRP_SIZE"
    "hash_table_insert (nh_ht st) p (int slot) ms = (ht', r, ms')" "nh_ht st' = ht'"
  shows "ht_slots_ok st'"
  using ht.insert_law [of "nh_ht st" p "int slot" ms] assms by (auto simp: ht_slots_ok_def split: if_splits)

lemma counts_ok_other_fields:
  assumes "counts_ok live st" "groups st' = groups st" "info_pool st' = info_pool st" "nh_sizes st'" "ht_slots_ok st'"
  shows "counts_ok live st'"
proof -
  have v: "rc st' = rc st" "ii st' = ii st"
    using assms(2,3) by (simp_all add: rc_def ii_def member_at_def fun_eq_iff)
  have "info_refs st' live k = info_refs st live k" for k by (rule info_refs_cong) (simp add: v)
  with assms v show ?thesis by (simp add: counts_ok_def)
qed

text \<open>After the member loop: the free-slot hint and the hash table.\<close>

lemma finish_group_ok:
  assumes done1: "member_done slot n live st True st1" and st: "slot < MAX_NEXTHOP_GRP_SIZE" "used st slot = int n"
    "n \<le> MAX_ECMP_ENTRY" and hint: "hint < MAX_NEXTHOP_GRP_SIZE"
    and ht: "ht_slots_ok st1 \<longrightarrow> ht_slots_ok (st1\<lparr>groups_top := hint, nh_ht := ht'\<rparr>)"
    and st2: "st2 = st1\<lparr>groups_top := hint, nh_ht := ht'\<rparr>"
  shows "member_done slot n live st True st2" "free_unlive live st \<Longrightarrow> member_done slot n live st False (clear_group slot (release_infos slot n st2))"
proof -
  obtain live1 where k: "keeps slot live st live1 st1" "live1 slot = {..<n}" "used st1 slot = used st slot"
    using done1 by (auto simp: member_done_def)
  have u: "used st2 = used st1" by (simp add: used_def fun_eq_iff st2)
  have "counts_ok live1 st2"
  proof (rule counts_ok_other_fields [OF keepsD [OF k(1)]])
    show "nh_sizes st2" using counts_okD(1) [OF keepsD [OF k(1)]] hint by (simp add: nh_sizes_def st2)
    show "ht_slots_ok st2" unfolding st2 by (rule ht [rule_format, OF counts_okD(2) [OF keepsD [OF k(1)]]])
  qed (simp_all add: st2)
  then have k2: "keeps slot live st live1 st2" using k(1) by (simp add: keeps_def u)
  then show "member_done slot n live st True st2" using k u by (auto simp: member_done_def)
  assume free: "free_unlive live st"
  have "free_unlive live1 st2"
    using keeps_free_unlive [OF k2] k(2,3) u st by simp
  from member_done_clear [OF release_infos_ok [OF \<open>counts_ok live1 st2\<close> st(1) k(2) st(3)] this st(1)]
  obtain live2 where "keeps slot live1 st2 live2 (clear_group slot (release_infos slot n st2))" "live2 slot = {}"
      "used (clear_group slot (release_infos slot n st2)) slot = 0"
    by (auto simp: member_done_def)
  with keeps_trans [OF k2] show "member_done slot n live st False (clear_group slot (release_infos slot n st2))"
    by (auto simp: member_done_def)
qed

lemma member_done_keeps:
  assumes "member_done slot n live st r st'" "used st = (used st0)(slot := int n)" "used st0 slot = 0"
    "slot < MAX_NEXTHOP_GRP_SIZE"
  shows "\<exists>live'. keeps MAX_NEXTHOP_GRP_SIZE live st0 live' st'"
proof -
  obtain live' where k: "keeps slot live st live' st'"
      "if r then live' slot = {..<n} \<and> used st' slot = used st slot else live' slot = {} \<and> used st' slot = 0"
    using assms(1) by (auto simp: member_done_def)
  then have "keeps MAX_NEXTHOP_GRP_SIZE live st0 live' st'"
    using assms(2,3) by (auto simp: keeps_def split: if_splits)
  then show ?thesis by blast
qed

definition group_slot :: "nh_state \<Rightarrow> int" where
  "group_slot st = (if nhcnt (groups st ! groups_top st) = 0 then int (groups_top st)
      else find_next_free_group_slot st (groups_top st))"

lemma group_slot_cases:
  assumes "nh_sizes st"
  obtains "group_slot st = -1"
  | slot where "group_slot st = int slot" "slot < MAX_NEXTHOP_GRP_SIZE" "used st slot = 0"
proof (cases "nhcnt (groups st ! groups_top st) = 0")
  case True
  with that(2) [of "groups_top st"] assms show thesis by (simp add: group_slot_def used_def nh_sizes_def)
next
  case False
  then have "group_slot st = find_next_free_group_slot st (groups_top st)" by (simp add: group_slot_def)
  with that find_next_free_group_slot_cases [of st "groups_top st"] show thesis by metis
qed

definition claim_slot :: "internal_msg_nh_entry \<Rightarrow> nat \<Rightarrow> nh_state \<Rightarrow> nh_state" where
  "claim_slot nh slot = upd_group slot (\<lambda>g. g\<lparr>grp_sdplane_nh_id := int slot,
      grp_kernel_nh_id := msg_kernel_nh_id nh, grp_refcnt := 0, nhcnt := msg_nhcnt nh\<rparr>)"

definition slot_hint :: "nh_state \<Rightarrow> nat \<Rightarrow> nat" where
  "slot_hint st slot =
     (if 0 \<le> find_next_free_group_slot st slot then nat (find_next_free_group_slot st slot) else slot)"

lemma slot_hint_less: "slot < MAX_NEXTHOP_GRP_SIZE \<Longrightarrow> slot_hint st slot < MAX_NEXTHOP_GRP_SIZE"
  using find_next_free_group_slot_cases [of st slot] by (auto simp: slot_hint_def)

lemma create_group_unfold:
  assumes "group_slot st0 = int slot" "msg_nhcnt nh = int n"
    and "add_members rec nh slot 0 n (claim_slot nh slot st0, ms) = (b, st1, ms1)"
  shows "create_group rec nh (st0, ms) =
    (if \<not> b then (-1, st1, ms1)
     else if msg_kernel_nh_id nh = 0 then (int slot, st1\<lparr>groups_top := slot_hint st1 slot\<rparr>, ms1)
     else (case hash_table_insert (nh_ht st1) (id_ptr (msg_kernel_nh_id nh)) (int slot) ms1 of
             (ht, ret, ms) \<Rightarrow>
               let st2 = st1\<lparr>groups_top := slot_hint st1 slot, nh_ht := ht\<rparr>
               in if ret < 0 then (-1, clear_group slot (release_infos slot (nat (nhcnt (groups st2 ! slot))) st2), ms)
                  else (int slot, st2, ms)))"
  using assms by (simp add: create_group_def group_slot_def claim_slot_def slot_hint_def Let_def split: prod.splits)

lemma claim_slot_ok:
  assumes ok: "counts_ok live st0" and free: "free_unlive live st0" and slot: "slot < MAX_NEXTHOP_GRP_SIZE" "used st0 slot = 0"
    and n: "msg_nhcnt nh = int n"
  shows "counts_ok live (claim_slot nh slot st0)" "used (claim_slot nh slot st0) = (used st0)(slot := int n)"
    "live slot = {..<0}" "free_unlive live (claim_slot nh slot st0)"
proof -
  show "counts_ok live (claim_slot nh slot st0)" unfolding claim_slot_def by (rule counts_ok_upd_group [OF ok]) simp
  show u: "used (claim_slot nh slot st0) = (used st0)(slot := int n)"
    using counts_okD(1) [OF ok] slot n by (auto simp: claim_slot_def used_def fun_eq_iff nh_view nh_sizes_def)
  show l: "live slot = {..<0}" using free slot by (simp add: free_unlive_def)
  then show "free_unlive live (claim_slot nh slot st0)" using free u by (auto simp: free_unlive_def)
qed

lemma create_group_slot_ok:
  assumes rec: "add_contract rec" and ok: "counts_ok live st0" and free: "free_unlive live st0" and nh: "msg_ok nh"
    and cg: "create_group rec nh (st0, ms) = (r, st', ms')"
    and slot: "group_slot st0 = int slot" "slot < MAX_NEXTHOP_GRP_SIZE" "used st0 slot = 0"
  shows "r < int MAX_NEXTHOP_GRP_SIZE \<and> (\<exists>live'. keeps MAX_NEXTHOP_GRP_SIZE live st0 live' st')"
proof -
  define n where "n = nat (msg_nhcnt nh)"
  have n: "msg_nhcnt nh = int n" "n \<le> MAX_ECMP_ENTRY" using nh by (auto simp: n_def msg_ok_def)
  let ?st = "claim_slot nh slot st0"
  note cl = claim_slot_ok [OF ok free slot(2,3) n(1)]
  obtain b st1 ms1 where am: "add_members rec nh slot 0 n (?st, ms) = (b, st1, ms1)" by (metis prod_cases3)
  note cg = cg [unfolded create_group_unfold [OF slot(1) n(1) am]]
  have "member_done slot (0 + n) live ?st b st1"
    by (rule add_members_ok [OF rec cl(1,4) slot(2) _ _ cl(3) am]) (use cl(2) n in auto)
  then have md: "member_done slot n live ?st b st1" by simp
  note fin = member_done_keeps [OF _ cl(2) slot(3,2)]
  have us: "used ?st slot = int n" using cl(2) by simp
  consider "\<not> b" | "b" "msg_kernel_nh_id nh = 0" | "b" "msg_kernel_nh_id nh \<noteq> 0" by blast
  then show ?thesis
  proof cases
    case 1
    with cg fin [OF md] show ?thesis by (simp add: MAX_NEXTHOP_GRP_SIZE_def)
  next
    case 2
    with cg have st': "r = int slot" "st' = st1\<lparr>groups_top := slot_hint st1 slot, nh_ht := nh_ht st1\<rparr>" by auto
    from 2 md have "member_done slot n live ?st True st1" by simp
    from fin [OF finish_group_ok(1) [OF this slot(2) us n(2) slot_hint_less [OF slot(2)] _ st'(2)]] st'(1) slot(2)
    show ?thesis by (simp add: ht_slots_ok_def)
  next
    case 3
    obtain ht' ret ms2 where ins: "hash_table_insert (nh_ht st1) (id_ptr (msg_kernel_nh_id nh)) (int slot) ms1 = (ht', ret, ms2)"
      by (metis prod_cases3)
    define st2 where "st2 = st1\<lparr>groups_top := slot_hint st1 slot, nh_ht := ht'\<rparr>"
    from 3 md have md1: "member_done slot n live ?st True st1" by simp
    have ht2: "ht_slots_ok st1 \<longrightarrow> ht_slots_ok (st1\<lparr>groups_top := slot_hint st1 slot, nh_ht := ht'\<rparr>)"
    proof
      assume "ht_slots_ok st1"
      then show "ht_slots_ok (st1\<lparr>groups_top := slot_hint st1 slot, nh_ht := ht'\<rparr>)"
        by (rule ht_slots_ok_insert [OF _ slot(2) ins]) simp
    qed
    note f2 = finish_group_ok [OF md1 slot(2) us n(2) slot_hint_less [OF slot(2)] ht2 st2_def]
    have "used st2 slot = int n" using f2(1) us by (auto simp: member_done_def)
    then have "nat (nhcnt (groups st2 ! slot)) = n" by (simp add: used_def)
    with cg 3 ins have "(r, st') = (if ret < 0 then (-1, clear_group slot (release_infos slot n st2)) else (int slot, st2))"
      unfolding st2_def by (auto simp: Let_def split: if_splits)
    with fin [OF f2(1)] fin [OF f2(2) [OF cl(4)]] slot(2) show ?thesis
      by (auto simp: MAX_NEXTHOP_GRP_SIZE_def split: if_splits)
  qed
qed

lemma create_group_ok:
  assumes rec: "add_contract rec" shows "add_contract (create_group rec)"
  unfolding add_contract_def
proof (intro allI impI, elim conjE)
  fix nh st0 ms live r st' ms'
  assume a: "counts_ok live st0" "free_unlive live st0" "msg_ok nh" "create_group rec nh (st0, ms) = (r, st', ms')"
  from counts_okD(1) [OF a(1)] show "r < int MAX_NEXTHOP_GRP_SIZE \<and> (\<exists>live'. keeps MAX_NEXTHOP_GRP_SIZE live st0 live' st')"
  proof (cases rule: group_slot_cases)
    case 1
    then have "r = -1" "st' = st0" using a(4) by (auto simp: create_group_def group_slot_def [symmetric] Let_def)
    moreover have "keeps MAX_NEXTHOP_GRP_SIZE live st0 live st0" using a by (intro keeps_slotI) auto
    ultimately show ?thesis by (auto simp: MAX_NEXTHOP_GRP_SIZE_def)
  next
    case (2 slot)
    with create_group_slot_ok [OF rec a] show ?thesis by blast
  qed
qed

lemma legacy_find_cases:
  "legacy_find st nh = -1 \<or>
   (\<exists>i. legacy_find st nh = int i \<and> i < MAX_NEXTHOP_GRP_SIZE \<and> legacy_match st nh i)"
  using find_upt_Some [of "legacy_match st nh" MAX_NEXTHOP_GRP_SIZE]
  by (auto simp: legacy_find_def int_of_slot_def split: option.splits)

lemma add_contract_body:
  assumes rec: "add_contract rec" shows "add_contract (nexthop_add_body rec)"
  unfolding add_contract_def
proof (intro allI impI, elim conjE)
  fix nh st ms live r st' ms'
  assume a: "counts_ok live st" "free_unlive live st" "msg_ok nh" "nexthop_add_body rec nh (st, ms) = (r, st', ms')"
  let ?e = "if msg_kernel_nh_id nh \<noteq> 0 then nexthop_get_index_by_nhid st (msg_kernel_nh_id nh) else legacy_find st nh"
  show "r < int MAX_NEXTHOP_GRP_SIZE \<and> (\<exists>live'. keeps MAX_NEXTHOP_GRP_SIZE live st live' st')"
  proof (cases "0 \<le> ?e")
    case True
    with a(4) have "r = ?e" "st' = st" by (auto simp: nexthop_add_body_def Let_def split: if_splits)
    moreover have "?e < int MAX_NEXTHOP_GRP_SIZE"
      using nexthop_get_index_less [OF counts_okD(2) [OF a(1)]] legacy_find_cases [of st nh]
      by (auto simp: MAX_NEXTHOP_GRP_SIZE_def)
    moreover have "keeps MAX_NEXTHOP_GRP_SIZE live st live st" using a by (intro keeps_slotI) auto
    ultimately show ?thesis by auto
  next
    case False
    with a(4) have "create_group rec nh (st, ms) = (r, st', ms')"
      by (auto simp: nexthop_add_body_def Let_def split: if_splits)
    with add_contractD [OF create_group_ok [OF rec] a(1-3)] show ?thesis by blast
  qed
qed

lemma add_contract_none: "add_contract (\<lambda>nh sm. (-1, sm))"
  unfolding add_contract_def
proof (intro allI impI, elim conjE)
  fix live r st' ms' and st :: nh_state and ms :: mallocs
  assume "counts_ok live st" "free_unlive live st" "(- 1 :: int, st, ms) = (r, st', ms')"
  then show "r < int MAX_NEXTHOP_GRP_SIZE \<and> (\<exists>live'. keeps MAX_NEXTHOP_GRP_SIZE live st live' st')"
    using keeps_slotI [of live st live st MAX_NEXTHOP_GRP_SIZE] by (auto simp: MAX_NEXTHOP_GRP_SIZE_def)
qed

lemma add_contract_entry: "add_contract nexthop_add_entry"
  unfolding nexthop_add_entry_def by (intro add_contract_body add_contract_none)

text \<open>A message with at most one member never uses the recursive call.\<close>

lemma add_members_rec_irrelevant:
  "msg_nhcnt nh \<le> 1 \<Longrightarrow> add_members rec nh slot i k sm = add_members rec' nh slot i k sm"
proof (induction k arbitrary: i sm)
  case (Suc k)
  from Suc.prems have "\<not> (1 < msg_nhcnt nh \<and> msg_kernel_nh_id nh = 0)" by simp
  then have "add_member rec nh slot i sm = add_member rec' nh slot i sm" by (simp only: add_member_def if_False)
  with Suc show ?case by (simp split: prod.splits)
qed simp

lemma nexthop_add_body_single: "msg_nhcnt nh \<le> 1 \<Longrightarrow> nexthop_add_body rec nh sm = nexthop_add_body rec' nh sm"
  using add_members_rec_irrelevant [of nh rec _ _ _ _ rec']
  by (simp add: nexthop_add_body_def create_group_def Let_def split: prod.splits)

lemma add_member_rec_cong:
  assumes "\<And>m sm. rec \<lparr>msg_kernel_nh_id = 0, msg_nhcnt = 1, msg_members = [m]\<rparr> sm
      = rec' \<lparr>msg_kernel_nh_id = 0, msg_nhcnt = 1, msg_members = [m]\<rparr> sm"
  shows "add_member rec = add_member rec'"
  by (intro ext) (simp only: add_member_def assms)

lemma nexthop_add_body_cong: "add_members rec = add_members rec' \<Longrightarrow> nexthop_add_body rec = nexthop_add_body rec'"
  by (intro ext) (simp only: nexthop_add_body_def create_group_def)

lemma nexthop_add_entry_rec: "nexthop_add_entry = nexthop_add_body nexthop_add_entry"
proof -
  let ?none = "\<lambda>nh sm. (-1, sm) :: int \<times> nh_state \<times> mallocs"
  have "add_member (nexthop_add_body ?none) = add_member (nexthop_add_body (nexthop_add_body ?none))"
    by (rule add_member_rec_cong) (rule nexthop_add_body_single, simp)
  then have "add_members (nexthop_add_body ?none) nh slot i k sm
      = add_members (nexthop_add_body (nexthop_add_body ?none)) nh slot i k sm" for nh slot i k sm
    by (induction k arbitrary: i sm) (simp_all split: prod.splits)
  then show ?thesis unfolding nexthop_add_entry_def by (intro nexthop_add_body_cong ext)
qed

section \<open>The invariant of the store\<close>

text \<open>
  \<open>nh_ok\<close>: every pool entry's reference count is the number of group members that point
  to it, all indices are within the arrays, and the hash table maps ids to slots.
\<close>

definition all_live :: "nh_state \<Rightarrow> nat \<Rightarrow> nat set" where
  "all_live st s = {..<nat (nhcnt (groups st ! s))}"

definition nh_ok :: "nh_state \<Rightarrow> bool" where
  "nh_ok st \<longleftrightarrow> counts_ok (all_live st) st"

lemma free_unlive_all_live: "free_unlive (all_live st) st"
  by (simp add: free_unlive_def all_live_def used_def)

lemma keeps_nh_ok: "keeps MAX_NEXTHOP_GRP_SIZE (all_live st) st live' st' \<Longrightarrow> nh_ok st'"
proof -
  assume k: "keeps MAX_NEXTHOP_GRP_SIZE (all_live st) st live' st'"
  then have "all_live st' s = live' s" if "s < MAX_NEXTHOP_GRP_SIZE" for s
    using that by (cases "used st s = 0") (auto simp: keeps_def all_live_def used_def)
  with counts_ok_cong [OF keepsD [OF k]] show ?thesis by (simp add: nh_ok_def)
qed

lemma nh_ok_add:
  "nh_ok st \<Longrightarrow> msg_ok nh \<Longrightarrow> nexthop_add_entry nh (st, ms) = (r, st', ms') \<Longrightarrow>
     nh_ok st' \<and> r < int MAX_NEXTHOP_GRP_SIZE"
  using add_contractD [OF add_contract_entry _ free_unlive_all_live] keeps_nh_ok unfolding nh_ok_def by metis

lemma nh_ok_del_group:
  assumes "nh_ok st" "slot < MAX_NEXTHOP_GRP_SIZE"
  shows "nh_ok (nexthop_del_group slot st)"
proof -
  have d: "counts_ok ((all_live st)(slot := {})) (nexthop_del_group slot st)"
      "used (nexthop_del_group slot st) = (used st)(slot := 0)"
    using nexthop_del_group_ok [of "all_live st" st slot] assms by (simp_all add: nh_ok_def all_live_def used_def)
  have "all_live (nexthop_del_group slot st) s = ((all_live st)(slot := {})) s" for s
    using fun_cong [OF d(2), of s] by (simp add: all_live_def used_def)
  with counts_ok_cong [OF d(1)] show ?thesis by (simp add: nh_ok_def)
qed

lemma nh_ok_ht:
  assumes "nh_ok st" "ht_slots_ok (st\<lparr>nh_ht := ht\<rparr>)"
  shows "nh_ok (st\<lparr>nh_ht := ht\<rparr>)"
proof -
  have "counts_ok (all_live st) (st\<lparr>nh_ht := ht\<rparr>)"
  proof (rule counts_ok_other_fields)
    show "counts_ok (all_live st) st" using assms(1) by (simp add: nh_ok_def)
    from counts_okD(1) [OF this] show "nh_sizes (st\<lparr>nh_ht := ht\<rparr>)" by (simp add: nh_sizes_def)
  qed (use assms(2) in simp_all)
  moreover have "all_live (st\<lparr>nh_ht := ht\<rparr>) = all_live st" by (simp add: all_live_def fun_eq_iff)
  ultimately show ?thesis by (simp add: nh_ok_def)
qed

lemma nh_ok_del:
  assumes ok: "nh_ok st" and del: "nexthop_del_entry st nh = (st', r)"
  shows "nh_ok st' \<and> (r = -1 \<and> st' = st \<or> 0 \<le> r \<and> r < int MAX_NEXTHOP_GRP_SIZE)"
proof -
  have hs: "ht_slots_ok st" using ok counts_okD(2) by (simp add: nh_ok_def)
  show ?thesis
  proof (cases "msg_kernel_nh_id nh = 0")
    case True
    with legacy_find_cases [of st nh] del ok nh_ok_del_group show ?thesis
      by (auto simp: nexthop_del_entry_def Let_def)
  next
    case False
    let ?slot = "nexthop_get_index_by_nhid st (msg_kernel_nh_id nh)"
    let ?ht = "fst (hash_table_remove (nh_ht st) (id_ptr (msg_kernel_nh_id nh)))"
    have "ht_slots_ok (st\<lparr>nh_ht := ?ht\<rparr>)"
      using ht.remove_law [of "nh_ht st" "id_ptr (msg_kernel_nh_id nh)" ?ht] hs
      by (cases "hash_table_remove (nh_ht st) (id_ptr (msg_kernel_nh_id nh))") (auto simp: ht_slots_ok_def)
    from nh_ok_ht [OF ok this] nh_ok_del_group nexthop_get_index_less [OF hs, of "msg_kernel_nh_id nh"] del False ok
    show ?thesis by (auto simp: nexthop_del_entry_def Let_def split: if_splits)
  qed
qed

section \<open>Properties\<close>

text \<open>The initial state of the store: everything zero, then \<^verbatim>\<open>nexthop_init\<close>.\<close>

definition nh_zero :: nh_state where
  "nh_zero = \<lparr>groups = replicate MAX_NEXTHOP_GRP_SIZE zero_group, info_pool = replicate MAX_NEXTHOP_INFO_SIZE zero_info,
     groups_top = 0, info_top = 0,
     nh_ht = \<lparr>buckets = [], ht_size = 0, ht_mask = 0, ht_count = 0, hash_fn = (\<lambda>_. 0), key_eq = (=)\<rparr>\<rparr>"

definition nh_start :: nh_state where
  "nh_start = fst (nexthop_init nh_zero [])"

lemma nh_start_fields:
  "groups nh_start = replicate MAX_NEXTHOP_GRP_SIZE zero_group"
  "info_pool nh_start = replicate MAX_NEXTHOP_INFO_SIZE zero_info"
  "groups_top nh_start = 0" "info_top nh_start = 0"
  "ht_ok (nh_ht nh_start)" "hash_table_lookup (nh_ht nh_start) = Map.empty"
proof -
  have eq: "nexthop_eq_kernel_nh_id = (=)" by (simp add: fun_eq_iff nexthop_eq_kernel_nh_id_def)
  obtain h ms' where "hash_table_init (nh_ht nh_zero) (2 ^ 10) nexthop_hash_kernel_nh_id (=) [] = (h, 0, ms')"
      "ht_ok h" "hash_table_lookup h = Map.empty"
    using hash_table_init_ok [of 10 "[]" "nh_ht nh_zero" nexthop_hash_kernel_nh_id] by auto
  then have st: "nh_start = nh_zero\<lparr>nh_ht := h\<rparr>" "ht_ok h" "hash_table_lookup h = Map.empty"
    by (simp_all add: nh_start_def nexthop_init_def NEXTHOP_HASH_BUCKETS_SIZE_def eq)
  show "groups nh_start = replicate MAX_NEXTHOP_GRP_SIZE zero_group"
    "info_pool nh_start = replicate MAX_NEXTHOP_INFO_SIZE zero_info"
    "groups_top nh_start = 0" "info_top nh_start = 0"
    "ht_ok (nh_ht nh_start)" "hash_table_lookup (nh_ht nh_start) = Map.empty"
    unfolding st(1) nh_zero_def using st(2,3) by simp_all
qed

lemma nh_ok_start: "nh_ok nh_start"
proof -
  have z: "ii nh_start s j = 0" if "s < MAX_NEXTHOP_GRP_SIZE" "j < MAX_ECMP_ENTRY" for s j
    using that by (simp add: ii_def member_at_def nh_start_fields zero_group_def zero_member_def)
  have l: "all_live nh_start s = {}" if "s < MAX_NEXTHOP_GRP_SIZE" for s
    using that by (simp add: all_live_def nh_start_fields zero_group_def)
  have "info_refs nh_start (all_live nh_start) k = 0" for k
    unfolding info_refs_def by (rule sum.neutral) (simp add: l row_refs_def)
  moreover have "rc nh_start k = 0" if "k < MAX_NEXTHOP_INFO_SIZE" for k
    using that by (simp add: rc_def nh_start_fields zero_info_def)
  ultimately show ?thesis
    using z l unfolding nh_ok_def counts_ok_def ht_slots_ok_def nh_sizes_def
    by (simp add: nh_start_fields zero_group_def MAX_NEXTHOP_INFO_SIZE_def MAX_NEXTHOP_GRP_SIZE_def)
qed

text \<open>A request to the store, as the RIB manager makes them.\<close>

datatype nh_request =
    NhAdd internal_msg_nh_entry mallocs
  | NhDel internal_msg_nh_entry
  | NhInc int
  | NhDec int

definition nh_step :: "nh_state \<Rightarrow> nh_request \<Rightarrow> nh_state" where
  "nh_step st req =
     (case req of
        NhAdd nh ms \<Rightarrow> if msg_ok nh then fst (snd (nexthop_add_entry nh (st, ms))) else st
      | NhDel nh \<Rightarrow> fst (nexthop_del_entry st nh)
      | NhInc i \<Rightarrow> nexthop_increment_refcnt st i
      | NhDec i \<Rightarrow> nexthop_decrement_refcnt st i)"

lemma nh_ok_group_refcnt_add: "nh_ok st \<Longrightarrow> nh_ok (group_refcnt_add d s st)"
proof -
  assume "nh_ok st"
  then have "counts_ok (all_live st) (group_refcnt_add d s st)" by (simp add: nh_ok_def counts_ok_group_refcnt_add)
  moreover have "all_live (group_refcnt_add d s st) = all_live st"
    using used_group_refcnt_add(1) [of d s st] by (simp add: all_live_def used_def fun_eq_iff)
  ultimately show ?thesis by (simp add: nh_ok_def)
qed

interpretation nh: stepping nh_step nh_ok "\<lambda>_. True"
proof
  fix st req
  assume ok: "nh_ok st"
  show "nh_ok (nh_step st req)"
  proof (cases req)
    case (NhAdd nh ms)
    with ok nh_ok_add show ?thesis by (cases "nexthop_add_entry nh (st, ms)") (auto simp: nh_step_def)
  next
    case (NhDel nh)
    with ok nh_ok_del show ?thesis by (cases "nexthop_del_entry st nh") (auto simp: nh_step_def)
  qed (use ok in \<open>simp_all add: nh_step_def nexthop_increment_refcnt_def nexthop_decrement_refcnt_def nh_ok_group_refcnt_add\<close>)
qed

text \<open>
  C7: Reference counting of next hops.  After any sequence of additions (successful, failed
  for lack of memory or slots, or rolled back half-way), deletions and route references from
  the initial state, the reference count of every pool entry is exactly the number of
  members of groups in use that point to it, and every member index lies in the pool or is
  -1.
\<close>

theorem nexthop_refcounts_exact:
  assumes "st = foldl nh_step nh_start reqs"
    and "k < MAX_NEXTHOP_INFO_SIZE" "s < MAX_NEXTHOP_GRP_SIZE" "j < MAX_ECMP_ENTRY"
  shows "refcnt (info_pool st ! k) =
      (\<Sum>t<MAX_NEXTHOP_GRP_SIZE. \<Sum>i<nat (nhcnt (groups st ! t)). of_bool (info_index (members (groups st ! t) ! i) = int k))
    \<and> -1 \<le> info_index (members (groups st ! s) ! j) \<and> info_index (members (groups st ! s) ! j) < int MAX_NEXTHOP_INFO_SIZE"
proof -
  have ok: "counts_ok (all_live st) st" using nh.run_invar [OF nh_ok_start] by (simp add: assms(1) nh_ok_def)
  from counts_okD(5) [OF ok assms(2)] counts_okD(6) [OF ok assms(3,4)] show ?thesis
    by (simp add: rc_def info_refs_def row_refs_def all_live_def ii_def member_at_def)
qed

lemma nexthop_refcounts_exact_witness:
  "refcnt (info_pool (foldl nh_step nh_start [NhInc 3, NhDec 3]) ! 7) =
     (\<Sum>t<4096. \<Sum>i<nat (nhcnt (groups (foldl nh_step nh_start [NhInc 3, NhDec 3]) ! t)).
        of_bool (info_index (members (groups (foldl nh_step nh_start [NhInc 3, NhDec 3]) ! t) ! i) = 7))"
  using nexthop_refcounts_exact [OF refl, of 7 0 0 "[NhInc 3, NhDec 3]"]
  by (simp add: MAX_NEXTHOP_INFO_SIZE_def MAX_NEXTHOP_GRP_SIZE_def MAX_ECMP_ENTRY_def)

lemma create_group_index:
  assumes ok: "nh_ok st" and nh: "msg_ok nh" "msg_kernel_nh_id nh \<noteq> 0"
    and cg: "create_group rec nh (st, ms) = (r, st', ms')" "0 \<le> r" and rec: "add_contract rec"
  shows "hash_table_lookup (nh_ht st') (id_ptr (msg_kernel_nh_id nh)) = Some r"
proof -
  define n where "n = nat (msg_nhcnt nh)"
  have n: "msg_nhcnt nh = int n" "n \<le> MAX_ECMP_ENTRY" using nh by (auto simp: n_def msg_ok_def)
  have cok: "counts_ok (all_live st) st" using ok by (simp add: nh_ok_def)
  from counts_okD(1) [OF cok] show ?thesis
  proof (cases rule: group_slot_cases)
    case 1
    with cg show ?thesis by (auto simp: create_group_def group_slot_def [symmetric] Let_def)
  next
    case (2 slot)
    note cl = claim_slot_ok [OF cok free_unlive_all_live 2(2,3) n(1)]
    obtain b st1 ms1 where am: "add_members rec nh slot 0 n (claim_slot nh slot st, ms) = (b, st1, ms1)" by (metis prod_cases3)
    have "member_done slot (0 + n) (all_live st) (claim_slot nh slot st) b st1"
      by (rule add_members_ok [OF rec cl(1,4) 2(2) _ _ cl(3) am]) (use cl(2) n in auto)
    then have "ht_ok (nh_ht st1)" by (auto simp: member_done_def ht_slots_ok_def dest!: keepsD counts_okD(2))
    moreover obtain ht' ret ms2 where ins: "hash_table_insert (nh_ht st1) (id_ptr (msg_kernel_nh_id nh)) (int slot) ms1 = (ht', ret, ms2)"
      by (metis prod_cases3)
    moreover from cg [unfolded create_group_unfold [OF 2(1) n(1) am]] ins nh(2)
    have "0 \<le> ret" "r = int slot" "nh_ht st' = ht'" by (auto simp: Let_def split: if_splits)
    ultimately show ?thesis using ht.insert_success by fastforce
  qed
qed

text \<open>
  After a next hop with a kernel id has been added, looking its id up gives the slot of
  its group, whether the group is new or was found again, except when that slot is 0: the
  slot number is stored as a pointer, and the look-up reports slot 0 as "not found".
\<close>

theorem nexthop_add_then_lookup:
  assumes "nh_ok st" "msg_ok nh" "msg_kernel_nh_id nh \<noteq> 0" "nexthop_add_entry nh (st, ms) = (r, st', ms')" "0 \<le> r"
  shows "nexthop_get_index_by_nhid st' (msg_kernel_nh_id nh) = (if r = 0 then -1 else r)"
proof (cases "0 \<le> nexthop_get_index_by_nhid st (msg_kernel_nh_id nh)")
  case True
  with assms(3,4) have "r = nexthop_get_index_by_nhid st (msg_kernel_nh_id nh)" "st' = st"
    by (auto simp: nexthop_add_entry_def nexthop_add_body_def Let_def)
  moreover have "nexthop_get_index_by_nhid st (msg_kernel_nh_id nh) \<noteq> 0"
    by (simp add: nexthop_get_index_by_nhid_def split: option.splits)
  ultimately show ?thesis by simp
next
  case False
  with assms(3,4) have "create_group (nexthop_add_body (\<lambda>nh sm. (-1, sm))) nh (st, ms) = (r, st', ms')"
    by (auto simp: nexthop_add_entry_def nexthop_add_body_def [of "nexthop_add_body _"] Let_def split: if_splits)
  from create_group_index [OF assms(1-3) this assms(5) add_contract_body [OF add_contract_none]]
  show ?thesis using assms(3) by (simp add: nexthop_get_index_by_nhid_def)
qed

definition sample_nh :: "int \<Rightarrow> internal_msg_nh_entry" where
  "sample_nh kid = \<lparr>msg_kernel_nh_id = kid, msg_nhcnt = 1,
     msg_members = [\<lparr>mm_kernel_nh_id = 0,
       mm_info = \<lparr>nhi_family = 2, nhi_type = NEXTHOP_TYPE_GATEWAY, gw = 10 # 0 # 0 # 1 # replicate 12 0,
         oif = 3, oif_name = ''eth0'', refcnt = 0\<rparr>, mm_weight = 1\<rparr>]\<rparr>"

lemma cyclic_find_first: "P 1 \<Longrightarrow> 1 < n \<Longrightarrow> cyclic_find P n 0 1 = Some 1"
  by (subst cyclic_find.simps) simp

text \<open>The first next hop registered goes to slot 0.\<close>

lemma first_nh_add:
  assumes n: "msg_nhcnt nh = int 1"
    and am: "\<And>rec. \<exists>st1. add_member rec nh 0 0 (claim_slot nh 0 nh_start, []) = (True, st1, []) \<and> nh_ht st1 = nh_ht nh_start"
  shows "\<exists>st' ms'. nexthop_add_entry nh (nh_start, []) = (0, st', ms')"
proof -
  let ?rec = "nexthop_add_body (\<lambda>nh sm. (-1, sm))"
  have "nexthop_get_index_by_nhid nh_start (msg_kernel_nh_id nh) = -1" by (simp add: nexthop_get_index_by_nhid_def nh_start_fields)
  moreover have "legacy_find nh_start nh = -1"
    using find_upt_None [of "legacy_match nh_start nh" MAX_NEXTHOP_GRP_SIZE]
    by (simp add: legacy_find_def int_of_slot_def legacy_match_def Let_def nh_start_fields zero_group_def)
  ultimately have e: "nexthop_add_entry nh (nh_start, []) = create_group ?rec nh (nh_start, [])"
    by (simp add: nexthop_add_entry_def nexthop_add_body_def [of "nexthop_add_body _"])
  have slot: "group_slot nh_start = int 0"
    by (simp add: group_slot_def nh_start_fields zero_group_def MAX_NEXTHOP_GRP_SIZE_def)
  obtain st1 where st1: "add_members ?rec nh 0 0 1 (claim_slot nh 0 nh_start, []) = (True, st1, [])" "nh_ht st1 = nh_ht nh_start"
    using am [of ?rec] by auto
  obtain ht' ms2 where "hash_table_insert (nh_ht st1) (id_ptr (msg_kernel_nh_id nh)) (int 0) [] = (ht', 0, ms2)"
    using ht.insert_ok [of "nh_ht st1" "[]"] st1(2) nh_start_fields(5) by fastforce
  then show ?thesis unfolding e create_group_unfold [OF slot n st1(1)] by (simp add: Let_def)
qed

lemma inline_nh_add:
  assumes "msg_nhcnt nh = 1" "mm_kernel_nh_id (msg_members nh ! 0) = 0"
  shows "\<exists>st' ms'. nexthop_add_entry nh (nh_start, []) = (0, st', ms')"
proof (rule first_nh_add)
  fix rec
  let ?st = "claim_slot nh 0 nh_start"
  have pool: "info_pool ?st = info_pool nh_start" "info_top ?st = 0" "nh_ht ?st = nh_ht nh_start"
    by (simp_all add: claim_slot_def nh_view nh_start_fields)
  have none: "info_find ?st src = -1" for src
    using find_upt_None [of "\<lambda>i. 0 < refcnt (info_pool ?st ! i) \<and> info_matches (info_pool ?st ! i) src" MAX_NEXTHOP_INFO_SIZE]
    by (simp add: info_find_def int_of_slot_def pool nh_start_fields zero_info_def)
  have "cyclic_find (\<lambda>i. refcnt (info_pool ?st ! i) \<le> 0) MAX_NEXTHOP_INFO_SIZE 0 1 = Some 1"
    by (rule cyclic_find_first) (simp_all add: pool nh_start_fields MAX_NEXTHOP_INFO_SIZE_def zero_info_def)
  moreover have "1 mod MAX_NEXTHOP_INFO_SIZE = 1" by (simp add: MAX_NEXTHOP_INFO_SIZE_def)
  ultimately obtain st2 where "info_alloc ?st (mm_info (msg_members nh ! 0)) = (st2, 1)" "nh_ht st2 = nh_ht nh_start"
    by (simp add: info_alloc_def none pool Let_def)
  then show "\<exists>st1. add_member rec nh 0 0 (?st, []) = (True, st1, []) \<and> nh_ht st1 = nh_ht nh_start"
    by (simp add: add_member_def Let_def assms set_weight_def nh_view)
qed (use assms(1) in simp)

lemma sample_nh_add: "\<exists>st' ms'. nexthop_add_entry (sample_nh kid) (nh_start, []) = (0, st', ms')"
  by (rule inline_nh_add) (simp_all add: sample_nh_def)

text \<open>A group of one next hop that is known by no kernel id.\<close>

definition sample_group :: internal_msg_nh_entry where
  "sample_group = (sample_nh 5)\<lparr>msg_members := [(msg_members (sample_nh 5) ! 0)\<lparr>mm_kernel_nh_id := 9\<rparr>]\<rparr>"

lemma sample_group_add: "\<exists>st' ms'. nexthop_add_entry sample_group (nh_start, []) = (0, st', ms')"
proof (rule first_nh_add)
  fix rec
  let ?st = "claim_slot sample_group 0 nh_start"
  have ht: "nh_ht ?st = nh_ht nh_start" by (simp add: claim_slot_def nh_view)
  then have "nexthop_get_index_by_nhid ?st 9 = -1" by (simp add: nexthop_get_index_by_nhid_def nh_start_fields)
  with ht show "\<exists>st1. add_member rec sample_group 0 0 (?st, []) = (True, st1, []) \<and> nh_ht st1 = nh_ht nh_start"
    by (simp add: add_member_def Let_def) (simp add: sample_group_def sample_nh_def set_weight_def nh_view)
qed (simp_all add: sample_group_def sample_nh_def)

lemma nexthop_add_then_lookup_witness:
  "\<exists>st'. fst (nexthop_add_entry (sample_nh 7) (nh_start, [])) = 0
     \<and> st' = fst (snd (nexthop_add_entry (sample_nh 7) (nh_start, []))) \<and> nexthop_get_index_by_nhid st' 7 = -1"
proof -
  obtain st' ms' where a: "nexthop_add_entry (sample_nh 7) (nh_start, []) = (0, st', ms')"
    using sample_nh_add [of 7] by auto
  have "msg_ok (sample_nh 7)" "msg_kernel_nh_id (sample_nh 7) = 7"
    by (simp_all add: sample_nh_def msg_ok_def MAX_ECMP_ENTRY_def)
  with nexthop_add_then_lookup [OF nh_ok_start _ _ a] a show ?thesis by simp
qed

lemma nh_ht_info_release [nh_view]: "nh_ht (info_release k st) = nh_ht st"
  by (simp add: info_release_def Let_def info_refcnt_add_def)

lemma nh_ht_fold: "(\<And>j st. nh_ht (f j st) = nh_ht st) \<Longrightarrow> nh_ht (fold f xs st) = nh_ht st"
  by (induction xs arbitrary: st) simp_all

lemma nh_ht_del_group [nh_view]: "nh_ht (nexthop_del_group slot st) = nh_ht st"
  unfolding nexthop_del_group_def nh_view_clear_group
  by (rule nh_ht_fold) (simp add: Let_def nh_view group_refcnt_add_def)

text \<open>
  Deleting a next hop by a kernel id that is known frees the slot its id maps to,
  clears that group, forgets the id, leaves every other group's member count alone and keeps
  the reference counts exact; an unknown id is refused with -1 and nothing changes.
\<close>

theorem nexthop_del_by_id:
  assumes "nh_ok st" "msg_kernel_nh_id nh \<noteq> 0" "nexthop_del_entry st nh = (st', r)"
  shows "r = nexthop_get_index_by_nhid st (msg_kernel_nh_id nh) \<and> nh_ok st'
    \<and> (if r < 0 then st' = st
       else nexthop_get_index_by_nhid st' (msg_kernel_nh_id nh) = -1
         \<and> (\<forall>s. nhcnt (groups st' ! s) = (if s = nat r then 0 else nhcnt (groups st ! s))))"
proof -
  let ?id = "id_ptr (msg_kernel_nh_id nh)"
  let ?slot = "nexthop_get_index_by_nhid st (msg_kernel_nh_id nh)"
  let ?st1 = "st\<lparr>nh_ht := fst (hash_table_remove (nh_ht st) ?id)\<rparr>"
  have ok': "nh_ok st'" using nh_ok_del [OF assms(1,3)] by simp
  have hs: "ht_slots_ok st" using assms(1) counts_okD(2) by (simp add: nh_ok_def)
  show ?thesis
  proof (cases "?slot < 0")
    case True
    with assms ok' have "(st', r) = (st, -1)" by (simp add: nexthop_del_entry_def Let_def)
    moreover have "?slot = -1"
      using True hs by (fastforce simp: nexthop_get_index_by_nhid_def ht_slots_ok_def split: option.splits if_splits)
    ultimately show ?thesis using ok' by simp
  next
    case False
    with assms(2,3) have "(nexthop_del_group (nat ?slot) ?st1, ?slot) = (st', r)"
      by (auto simp: nexthop_del_entry_def Let_def)
    then have r: "r = ?slot" "st' = nexthop_del_group (nat ?slot) ?st1" by auto
    have lt: "nat ?slot < MAX_NEXTHOP_GRP_SIZE"
      using nexthop_get_index_less [OF hs, of "msg_kernel_nh_id nh"] False by simp
    have rem: "ht_ok (nh_ht ?st1)" "hash_table_lookup (nh_ht ?st1) = (hash_table_lookup (nh_ht st))(?id := None)"
      using ht.remove_law [of "nh_ht st" ?id] hs by (auto simp: ht_slots_ok_def prod_eq_iff)
    then have hs1: "ht_slots_ok ?st1" using hs by (auto simp: ht_slots_ok_def split: if_splits)
    have "counts_ok (all_live ?st1) ?st1" using nh_ok_ht [OF assms(1) hs1] by (simp add: nh_ok_def)
    from nexthop_del_group_ok [OF this lt] have "used st' = (used ?st1)(nat ?slot := 0)"
      using r(2) by (simp add: all_live_def used_def)
    then have "nhcnt (groups st' ! s) = (if s = nat r then 0 else nhcnt (groups st ! s))" for s
      using r(1) by (simp add: used_def fun_eq_iff)
    moreover have "nexthop_get_index_by_nhid st' (msg_kernel_nh_id nh) = -1"
      using rem(2) r(2) assms(2) by (simp add: nexthop_get_index_by_nhid_def nh_view)
    ultimately show ?thesis using ok' r(1) False by simp
  qed
qed

lemma nexthop_del_by_id_witness: "nexthop_del_entry nh_start (sample_nh 7) = (nh_start, -1)"
proof -
  have id: "msg_kernel_nh_id (sample_nh 7) = 7" by (simp add: sample_nh_def)
  obtain st' r where d: "nexthop_del_entry nh_start (sample_nh 7) = (st', r)" by fastforce
  have "nexthop_get_index_by_nhid nh_start 7 = -1" by (simp add: nexthop_get_index_by_nhid_def nh_start_fields)
  with nexthop_del_by_id [OF nh_ok_start _ d] id d show ?thesis by simp
qed

lemma get_info_after_clear:
  assumes "nh_sizes (clear_group slot st)" "slot < MAX_NEXTHOP_GRP_SIZE"
  shows "nexthop_get_info_by_index (clear_group slot st) (int slot) = Some (info_pool (clear_group slot st) ! 0)"
proof -
  have "length (groups st) = MAX_NEXTHOP_GRP_SIZE" using assms(1) by (simp add: nh_sizes_def clear_group_def upd_group_def)
  then have "groups (clear_group slot st) ! slot = zero_group" using assms(2) by (simp add: clear_group_def upd_group_def)
  then have "info_index (member_at (clear_group slot st) slot 0) = 0"
    by (simp add: member_at_def zero_group_def zero_member_def MAX_ECMP_ENTRY_def)
  then show ?thesis using assms(2) by (simp add: nexthop_get_info_by_index_def)
qed

text \<open>
  A route to a deleted next hop is not dropped.  Deleting a group clears its slot to zeros,
  and the member table of a cleared slot points to entry 0 of the pool; so as long as a route
  still carries the index of the deleted group, the forwarding threads resolve it to whatever
  next hop is in pool entry 0.
\<close>

theorem deleted_nexthop_resolves_to_pool_entry_0:
  assumes ok: "nh_ok st" and del: "nexthop_del_entry st nh = (st', slot)" "0 \<le> slot"
  shows "nexthop_get_info_by_index st' slot = Some (info_pool st' ! 0)"
proof -
  have st': "nh_ok st'" "slot < int MAX_NEXTHOP_GRP_SIZE" using nh_ok_del [OF ok del(1)] del(2) by auto
  obtain st1 where d: "st' = nexthop_del_group (nat slot) st1"
    using del by (auto simp: nexthop_del_entry_def Let_def split: if_splits)
  then obtain st2 where "st' = clear_group (nat slot) st2" by (simp add: nexthop_del_group_def)
  moreover have "nh_sizes st'" using counts_okD(1) st'(1) by (simp add: nh_ok_def)
  ultimately show ?thesis using get_info_after_clear [of "nat slot" st2] st'(2) del(2) by simp
qed

theorem deleted_nexthop_resolves_to_pool_entry_0_witness:
  "\<exists>st st'. nexthop_del_entry st (sample_nh 9) = (st', 5) \<and> nexthop_get_info_by_index st' 5 = Some (info_pool st' ! 0)"
proof -
  obtain ht :: "(64 word, int) hash_table" where ht: "ht_ok ht" "hash_table_lookup ht = [id_ptr 9 \<mapsto> (5 :: int)]"
    using ht.insert_ok [of "nh_ht nh_start" "[]" "id_ptr 9" 5] nh_start_fields(5,6) by auto
  let ?st = "nh_start\<lparr>nh_ht := ht\<rparr>"
  have ok: "nh_ok ?st"
    by (rule nh_ok_ht [OF nh_ok_start]) (use ht in \<open>auto simp: ht_slots_ok_def MAX_NEXTHOP_GRP_SIZE_def split: if_splits\<close>)
  obtain st' where d: "nexthop_del_entry ?st (sample_nh 9) = (st', 5)"
    using ht by (simp add: nexthop_del_entry_def nexthop_get_index_by_nhid_def sample_nh_def)
  from deleted_nexthop_resolves_to_pool_entry_0 [OF ok d] d show ?thesis by auto
qed

section \<open>What a new next hop resolves to\<close>

lemma info_alloc_gives:
  assumes "nh_sizes st" "info_alloc st src = (st', idx)" "0 \<le> idx"
  shows "info_matches (info_pool st' ! nat idx) src \<and> ii st' = ii st \<and> nh_sizes st'"
proof (cases "0 \<le> info_find st src")
  case True
  then obtain i where i: "info_find st src = int i" "i < MAX_NEXTHOP_INFO_SIZE" "info_matches (info_pool st ! i) src"
    by (auto simp: info_find_def int_of_slot_def split: option.splits dest!: find_upt_Some)
  then have "st' = info_refcnt_add 1 i st" "idx = int i" using assms(2) by (simp_all add: info_alloc_def)
  with i assms(1) show ?thesis by (simp add: nh_view) (simp add: info_refcnt_add_def info_matches_def nh_sizes_def)
next
  case False
  then obtain i where i: "cyclic_find (\<lambda>i. refcnt (info_pool st ! i) \<le> 0) MAX_NEXTHOP_INFO_SIZE (info_top st)
      ((info_top st + 1) mod MAX_NEXTHOP_INFO_SIZE) = Some i"
    and st': "st' = st\<lparr>info_pool := (info_pool st)[i := src\<lparr>refcnt := 1\<rparr>], info_top := (i + 1) mod MAX_NEXTHOP_INFO_SIZE\<rparr>" "idx = int i"
    using assms(2,3) by (auto simp: info_alloc_def Let_def split: option.splits)
  have "i < MAX_NEXTHOP_INFO_SIZE" using i cyclic_find_Some by blast
  then show ?thesis using assms(1) by (auto simp: st' info_matches_def nh_sizes_def ii_def member_at_def fun_eq_iff MAX_NEXTHOP_INFO_SIZE_def)
qed

lemma get_info_ii:
  "0 \<le> i \<Longrightarrow> i < int MAX_NEXTHOP_GRP_SIZE \<Longrightarrow>
     nexthop_get_info_by_index st i = (if ii st (nat i) 0 < 0 then None else Some (info_pool st ! nat (ii st (nat i) 0)))"
  by (simp add: nexthop_get_info_by_index_def ii_def Let_def)

lemma add_first_member:
  assumes st: "nh_sizes st" and slot: "slot < MAX_NEXTHOP_GRP_SIZE" and n: "msg_nhcnt nh = 1"
    and am: "add_member rec nh slot 0 (st, ms) = (True, st1, ms1)"
  shows "(mm_kernel_nh_id (msg_members nh ! 0) = 0 \<longrightarrow> 0 \<le> ii st1 slot 0
           \<and> info_matches (info_pool st1 ! nat (ii st1 slot 0)) (mm_info (msg_members nh ! 0)))
    \<and> (mm_kernel_nh_id (msg_members nh ! 0) \<noteq> 0 \<longrightarrow> nexthop_get_index_by_nhid st (mm_kernel_nh_id (msg_members nh ! 0)) < 0
         \<longrightarrow> ii st1 slot 0 = -1)"
proof -
  have e: "0 < MAX_ECMP_ENTRY" by (simp add: MAX_ECMP_ENTRY_def)
  let ?m = "msg_members nh ! 0"
  show ?thesis
  proof (cases "mm_kernel_nh_id ?m = 0")
    case True
    obtain st2 idx where a: "info_alloc st (mm_info ?m) = (st2, idx)" by fastforce
    with am True n have idx: "0 \<le> idx" and st1: "st1 = set_weight slot 0 (mm_weight ?m) (upd_member slot 0 (\<lambda>m. m\<lparr>info_index := idx, ref_sdplane_nh_id := -1\<rparr>) st2)"
      by (auto simp: add_member_def Let_def split: if_splits)
    note g = info_alloc_gives [OF st a idx]
    have "ii st1 slot 0 = idx" "info_pool st1 = info_pool st2"
      using g slot e by (simp_all add: st1 set_weight_def nh_view member_at_def ii_def) 
        (simp_all add: upd_member_def upd_group_def nh_sizes_def)
    with True g idx show ?thesis by simp
  next
    case False
    show ?thesis
    proof (intro conjI impI)
      assume "nexthop_get_index_by_nhid st (mm_kernel_nh_id ?m) < 0"
      with am False have "st1 = set_weight slot 0 (mm_weight ?m) (upd_member slot 0 (\<lambda>m. m\<lparr>info_index := -1, ref_sdplane_nh_id := -1\<rparr>) st)"
        by (auto simp: add_member_def Let_def)
      with st slot e show "ii st1 slot 0 = -1" by (simp add: set_weight_def nh_view member_at_def ii_def)
         (simp add: upd_member_def upd_group_def nh_sizes_def)
    qed (use False in auto)
  qed
qed

lemma create_single_group:
  assumes ok: "nh_ok st" and n: "msg_nhcnt nh = 1" and cg: "create_group rec nh (st, ms) = (slot, st', ms')" "0 \<le> slot"
  shows "slot < int MAX_NEXTHOP_GRP_SIZE
    \<and> (mm_kernel_nh_id (msg_members nh ! 0) = 0 \<longrightarrow> (\<exists>info. nexthop_get_info_by_index st' slot = Some info \<and> info_matches info (mm_info (msg_members nh ! 0))))
    \<and> (mm_kernel_nh_id (msg_members nh ! 0) \<noteq> 0 \<longrightarrow> nexthop_get_index_by_nhid st (mm_kernel_nh_id (msg_members nh ! 0)) < 0
         \<longrightarrow> nexthop_get_info_by_index st' slot = None)"
proof -
  have sz: "nh_sizes st" using ok counts_okD(1) by (simp add: nh_ok_def)
  from sz show ?thesis
  proof (cases rule: group_slot_cases)
    case 1
    then show ?thesis using cg by (simp add: create_group_def group_slot_def)
  next
    case (2 s)
    let ?st = "claim_slot nh s st"
    have st: "nh_sizes ?st" "nh_ht ?st = nh_ht st"
      using sz nh_sizes_upd_group [OF sz] by (simp_all add: claim_slot_def nh_view)
    have lk: "nexthop_get_index_by_nhid ?st k = nexthop_get_index_by_nhid st k" for k
      using st(2) by (simp add: nexthop_get_index_by_nhid_def)
    obtain b st1 ms1 where am: "add_members rec nh s 0 1 (?st, ms) = (b, st1, ms1)" by (metis prod_cases3)
    have "b" and slot: "slot = int s" and st': "info_pool st' = info_pool st1" "ii st' = ii st1"
      using cg create_group_unfold [OF 2(1) _ am] n
      by (auto simp: Let_def ii_def member_at_def fun_eq_iff split: if_splits prod.splits)
    then have "add_member rec nh s 0 (?st, ms) = (True, st1, ms1)" using am by (auto split: prod.splits if_splits)
    from add_first_member [OF st(1) 2(2) n this] show ?thesis
      using 2(2) st' slot lk get_info_ii [of slot st'] by (auto simp: not_less [symmetric])
  qed
qed

lemma nexthop_add_single:
  assumes "nh_ok st" "msg_nhcnt nh = 1" "nexthop_add_entry nh (st, ms) = (slot, st', ms')" "0 \<le> slot"
    and "msg_kernel_nh_id nh \<noteq> 0 \<longrightarrow> nexthop_get_index_by_nhid st (msg_kernel_nh_id nh) < 0"
    and "mm_kernel_nh_id (msg_members nh ! 0) \<noteq> 0 \<longrightarrow> msg_kernel_nh_id nh \<noteq> 0
          \<and> nexthop_get_index_by_nhid st (mm_kernel_nh_id (msg_members nh ! 0)) < 0"
  shows "if mm_kernel_nh_id (msg_members nh ! 0) = 0
         then \<exists>info. nexthop_get_info_by_index st' slot = Some info \<and> info_matches info (mm_info (msg_members nh ! 0))
         else nexthop_get_info_by_index st' slot = None"
proof (cases "msg_kernel_nh_id nh = 0 \<and> 0 \<le> legacy_find st nh")
  case True
  then obtain i where i: "legacy_find st nh = int i" "i < MAX_NEXTHOP_GRP_SIZE" "legacy_match st nh i"
    by (auto simp: legacy_find_def int_of_slot_def split: option.splits dest!: find_upt_Some)
  have "slot = int i" "st' = st" using assms(3) True i(1) by (auto simp: nexthop_add_entry_def nexthop_add_body_def [of "nexthop_add_body _"])
  moreover have "mm_kernel_nh_id (msg_members nh ! 0) = 0" using assms(6) True by blast
  ultimately show ?thesis using i(2,3) assms(2) get_info_ii [of "int i" st] by (auto simp: legacy_match_def Let_def ii_def member_at_def)
next
  case False
  with assms(3,5) have "create_group (nexthop_add_body (\<lambda>nh sm. (-1, sm))) nh (st, ms) = (slot, st', ms')"
    by (auto simp: nexthop_add_entry_def nexthop_add_body_def [of "nexthop_add_body _"] split: if_splits)
  from create_single_group [OF assms(1,2) this assms(4)] assms(6) show ?thesis by auto
qed

text \<open>
  What a next hop resolves to.  A next hop with one member, added under a kernel id not yet
  known or as part of a route, resolves in the forwarding threads to a description with the
  family, gateway and interface of its message; except that if the member refers to another
  next hop by a kernel id that cannot be found, it resolves to nothing.
\<close>

theorem nexthop_add_resolves:
  assumes "nh_ok st" "msg_nhcnt nh = 1" "nexthop_add_entry nh (st, ms) = (slot, st', ms')" "0 \<le> slot"
    and "msg_kernel_nh_id nh \<noteq> 0 \<longrightarrow> nexthop_get_index_by_nhid st (msg_kernel_nh_id nh) < 0"
    and "mm_kernel_nh_id (msg_members nh ! 0) \<noteq> 0 \<longrightarrow> msg_kernel_nh_id nh \<noteq> 0
          \<and> nexthop_get_index_by_nhid st (mm_kernel_nh_id (msg_members nh ! 0)) < 0"
  shows "if mm_kernel_nh_id (msg_members nh ! 0) = 0
         then \<exists>info. nexthop_get_info_by_index st' slot = Some info \<and> info_matches info (mm_info (msg_members nh ! 0))
         else nexthop_get_info_by_index st' slot = None"
  using nexthop_add_single [OF assms] .

theorem nexthop_add_resolves_witness:
  "\<exists>st' ms' info. nexthop_add_entry (sample_nh 7) (nh_start, []) = (0, st', ms') \<and> nexthop_get_info_by_index st' 0 = Some info
     \<and> gw info = 10 # 0 # 0 # 1 # replicate 12 0 \<and> oif info = 3"
proof -
  obtain st' ms' where a: "nexthop_add_entry (sample_nh 7) (nh_start, []) = (0, st', ms')" using sample_nh_add [of 7] by auto
  have "nexthop_get_index_by_nhid nh_start 7 = -1" by (simp add: nexthop_get_index_by_nhid_def nh_start_fields)
  with nexthop_add_resolves [OF nh_ok_start _ a] a show ?thesis
    by (auto simp: sample_nh_def info_matches_def)
qed

end
