(* ===== verification/Neigh.thy ===== *)
theory Neigh
  imports Interfaces
begin

text \<open>
  The neighbor tables of \<^verbatim>\<open>sdplane/neigh_manager.c\<close>: arrays sorted by address and
  searched by bisection, one for ARP and one for neighbor discovery.  The neighbor manager
  owns the master copy and announces every change with the position it changed; the RIB
  manager replays the announcements on its own copy (the two neighbor cases of
  \<^verbatim>\<open>rib_manager_process_message\<close>), which is the copy the forwarding threads read.
\<close>

section \<open>Data\<close>

datatype neigh_type = NEIGH_ARP_TABLE | NEIGH_ND_TABLE

fun neigh_key_lengths :: "neigh_type \<Rightarrow> nat" where
  "neigh_key_lengths NEIGH_ARP_TABLE = 4"
| "neigh_key_lengths NEIGH_ND_TABLE = 16"

record neigh_entry =
  ne_family :: int
  ne_ip_addr :: "u8 list"
  ne_mac_addr :: "u8 list"
  ne_state :: u8
  ne_ifindex :: int

record neigh_table =
  entries :: "neigh_entry list"
  num_entries :: nat

definition MAX_NEIGHBOR_ENTRY_SIZE :: nat where "MAX_NEIGHBOR_ENTRY_SIZE = 1024"

type_synonym neigh_tables = "neigh_type \<Rightarrow> neigh_table"

record internal_msg_neigh_entry =
  mne_type :: neigh_type
  mne_pos :: int
  mne_num_entries :: nat
  mne_data :: neigh_entry

datatype neigh_msg =
    NEIGH_ENTRY_ADD internal_msg_neigh_entry
  | NEIGH_ENTRY_DEL internal_msg_neigh_entry

definition zero_neigh_entry :: neigh_entry where
  "zero_neigh_entry = \<lparr>ne_family = 0, ne_ip_addr = replicate 16 0, ne_mac_addr = replicate 6 0,
     ne_state = 0, ne_ifindex = 0\<rparr>"

definition zero_neigh_table :: neigh_table where
  "zero_neigh_table = \<lparr>entries = replicate MAX_NEIGHBOR_ENTRY_SIZE zero_neigh_entry, num_entries = 0\<rparr>"

section \<open>Operations\<close>

text \<open>The bisection loop; the result is the position and whether the entry was found.\<close>

function neigh_search :: "neigh_entry list \<Rightarrow> neigh_type \<Rightarrow> u8 list \<Rightarrow> int \<Rightarrow> int \<Rightarrow> int \<times> bool" where
  "neigh_search es type key left right =
     (if left \<le> right then
        (let mid = (left + right) div 2;
             ret = memcmp (ne_ip_addr (es ! nat mid)) key (neigh_key_lengths type)
         in if ret = 0 then (mid, True)
            else if ret < 0 then neigh_search es type key (mid + 1) right
            else neigh_search es type key left (mid - 1))
      else (left, False))"
  by pat_completeness auto
termination
  by (relation "measure (\<lambda>(es, type, key, left, right). nat (right - left + 1))") auto

declare neigh_search.simps [simp del]

definition neigh_manager_lookup :: "neigh_table \<Rightarrow> neigh_type \<Rightarrow> u8 list \<Rightarrow> int \<times> bool" where
  "neigh_manager_lookup t type key = neigh_search (entries t) type key 0 (int (num_entries t) - 1)"

definition neigh_manager_add_entry ::
  "neigh_table \<Rightarrow> neigh_type \<Rightarrow> u8 list \<Rightarrow> neigh_entry \<Rightarrow> neigh_table \<times> int"
where
  "neigh_manager_add_entry t type key data =
     (if MAX_NEIGHBOR_ENTRY_SIZE \<le> num_entries t then (t, -1)
      else
        (let (pos, found) = neigh_manager_lookup t type key
         in if found then (t\<lparr>entries := (entries t)[nat pos := data]\<rparr>, pos)
            else if pos < 0 \<or> int (num_entries t) < pos then (t, -1)
            else
              (t\<lparr>entries := (memmove (Suc (nat pos)) (nat pos) (num_entries t - nat pos) (entries t))[nat pos := data],
                 num_entries := num_entries t + 1\<rparr>, pos)))"

definition neigh_manager_delete_entry :: "neigh_table \<Rightarrow> neigh_type \<Rightarrow> u8 list \<Rightarrow> neigh_table \<times> int" where
  "neigh_manager_delete_entry t type key =
     (let (pos, found) = neigh_manager_lookup t type key
      in if found then
           (let n = num_entries t - 1
            in (t\<lparr>num_entries := n,
                  entries := memmove (nat pos) (Suc (nat pos)) (n - nat pos) (entries t)\<rparr>, pos))
         else (t, -1))"

text \<open>One message of the manager's queue: the new master tables and the announcement sent.\<close>

definition neigh_manager_process_message :: "neigh_tables \<Rightarrow> neigh_msg \<Rightarrow> neigh_tables \<times> neigh_msg option" where
  "neigh_manager_process_message ts msg =
     (case msg of
        NEIGH_ENTRY_ADD m \<Rightarrow>
          (case neigh_manager_add_entry (ts (mne_type m)) (mne_type m) (ne_ip_addr (mne_data m)) (mne_data m) of
             (t', ret) \<Rightarrow>
               if ret < 0 then (ts(mne_type m := t'), None)
               else (ts(mne_type m := t'),
                     Some (NEIGH_ENTRY_ADD (m\<lparr>mne_pos := ret, mne_num_entries := num_entries t'\<rparr>))))
      | NEIGH_ENTRY_DEL m \<Rightarrow>
          (case neigh_manager_delete_entry (ts (mne_type m)) (mne_type m) (ne_ip_addr (mne_data m)) of
             (t', ret) \<Rightarrow>
               if ret < 0 then (ts(mne_type m := t'), None)
               else (ts(mne_type m := t'),
                     Some (NEIGH_ENTRY_DEL (m\<lparr>mne_pos := ret, mne_num_entries := num_entries t'\<rparr>)))))"

text \<open>The neighbor cases of the RIB manager, on the copy in \<^verbatim>\<open>rib_info\<close>.\<close>

definition rib_neigh_entry_add :: "internal_msg_neigh_entry \<Rightarrow> neigh_table \<Rightarrow> neigh_table" where
  "rib_neigh_entry_add m t =
     (let pos = nat (mne_pos m);
          es = (if num_entries t < mne_num_entries m
                then memmove (Suc pos) pos (num_entries t - pos) (entries t) else entries t)
      in t\<lparr>entries := es[pos := mne_data m], num_entries := mne_num_entries m\<rparr>)"

definition rib_neigh_entry_del :: "internal_msg_neigh_entry \<Rightarrow> neigh_table \<Rightarrow> neigh_table" where
  "rib_neigh_entry_del m t =
     (let pos = nat (mne_pos m)
      in t\<lparr>num_entries := mne_num_entries m,
           entries := memmove pos (Suc pos) (mne_num_entries m - pos) (entries t)\<rparr>)"

definition rib_neigh_apply :: "neigh_msg \<Rightarrow> neigh_tables \<Rightarrow> neigh_tables" where
  "rib_neigh_apply msg ts =
     (case msg of
        NEIGH_ENTRY_ADD m \<Rightarrow> ts(mne_type m := rib_neigh_entry_add m (ts (mne_type m)))
      | NEIGH_ENTRY_DEL m \<Rightarrow> ts(mne_type m := rib_neigh_entry_del m (ts (mne_type m))))"

section \<open>Invariant and abstraction\<close>

definition neigh_key :: "neigh_type \<Rightarrow> neigh_entry \<Rightarrow> u8 list" where
  "neigh_key type e = take (neigh_key_lengths type) (ne_ip_addr e)"

definition neigh_used :: "neigh_table \<Rightarrow> neigh_entry list" where
  "neigh_used t = take (num_entries t) (entries t)"

definition neigh_ok :: "neigh_type \<Rightarrow> neigh_table \<Rightarrow> bool" where
  "neigh_ok type t \<longleftrightarrow> length (entries t) = MAX_NEIGHBOR_ENTRY_SIZE \<and> num_entries t \<le> MAX_NEIGHBOR_ENTRY_SIZE
     \<and> (\<forall>e \<in> set (neigh_used t). length (ne_ip_addr e) = 16)
     \<and> sorted_wrt (<) (map (neigh_key type) (neigh_used t))"

text \<open>The table as a map from addresses to entries.\<close>

definition neigh_map :: "neigh_type \<Rightarrow> neigh_table \<Rightarrow> u8 list \<Rightarrow> neigh_entry option" where
  "neigh_map type t = map_of (map (\<lambda>e. (neigh_key type e, e)) (neigh_used t))"

section \<open>The bisection\<close>

lemma neigh_search_step:
  assumes "left \<le> right" "mid = (left + right) div 2"
    "c = memcmp (ne_ip_addr (es ! nat mid)) key (neigh_key_lengths type)"
  shows "neigh_search es type key left right =
    (if c = 0 then (mid, True) else if c < 0 then neigh_search es type key (mid + 1) right
     else neigh_search es type key left (mid - 1))"
  by (subst neigh_search.simps) (simp add: assms Let_def)

lemma neigh_search_found:
  assumes "neigh_search es type key left right = (pos, True)" "0 \<le> left"
  shows "left \<le> pos \<and> pos \<le> right \<and> memcmp (ne_ip_addr (es ! nat pos)) key (neigh_key_lengths type) = 0"
  using assms
proof (induction es type key left right arbitrary: pos rule: neigh_search.induct)
  case (1 es type key left right)
  show ?case
  proof (cases "left \<le> right")
    case True
    define mid where "mid = (left + right) div 2"
    have mid: "left \<le> mid" "mid \<le> right" using True by (auto simp: mid_def)
    define c where "c = memcmp (ne_ip_addr (es ! nat mid)) key (neigh_key_lengths type)"
    note eq = "1.prems"(1) [unfolded neigh_search_step [OF True mid_def c_def]]
    consider "c = 0" | "c < 0" | "c > 0" by linarith
    then show ?thesis
    proof cases
      case 1
      with eq mid show ?thesis by (simp add: c_def)
    next
      case 2
      with "1.IH"(1) [OF True mid_def c_def, of pos] eq mid "1.prems"(2) show ?thesis by simp
    next
      case 3
      with "1.IH"(2) [OF True mid_def c_def, of pos] eq mid "1.prems"(2) show ?thesis by simp
    qed
  qed (use "1.prems" in \<open>simp add: neigh_search.simps [of es type key left right]\<close>)
qed

text \<open>
  Not found: everything left of the result is smaller than the key, everything from the
  result on is greater.
\<close>

lemma neigh_search_not_found:
  assumes "neigh_search es type key left right = (pos, False)" "0 \<le> left" "left \<le> right + 1"
    and "\<And>i j. 0 \<le> i \<Longrightarrow> i \<le> j \<Longrightarrow> j < n \<Longrightarrow> C (nat j) < 0 \<Longrightarrow> C (nat i) < (0::int)"
    and "\<And>i j. 0 \<le> i \<Longrightarrow> i \<le> j \<Longrightarrow> j < n \<Longrightarrow> C (nat i) > 0 \<Longrightarrow> C (nat j) > 0"
    and "\<And>i. C i = memcmp (ne_ip_addr (es ! i)) key (neigh_key_lengths type)"
    and "right < n" "\<And>i. 0 \<le> i \<Longrightarrow> i < left \<Longrightarrow> C (nat i) < 0" "\<And>i. right < i \<Longrightarrow> i < n \<Longrightarrow> C (nat i) > 0"
  shows "left \<le> pos \<and> pos \<le> right + 1 \<and> (\<forall>i. 0 \<le> i \<and> i < pos \<longrightarrow> C (nat i) < 0) \<and> (\<forall>i. pos \<le> i \<and> i < n \<longrightarrow> C (nat i) > 0)"
  using assms
proof (induction es type key left right arbitrary: pos rule: neigh_search.induct)
  case (1 es type key left right)
  show ?case
  proof (cases "left \<le> right")
    case False
    with "1.prems" show ?thesis by (auto simp: neigh_search.simps [of es type key left right])
  next
    case True
    define mid where "mid = (left + right) div 2"
    have mid: "left \<le> mid" "mid \<le> right" using True by (auto simp: mid_def)
    note C = "1.prems"(6)
    note eq = "1.prems"(1) [unfolded neigh_search_step [OF True mid_def C]]
    show ?thesis
    proof (cases "C (nat mid) < 0")
      case lt: True
      have left: "C (nat i) < 0" if "0 \<le> i" "i < mid + 1" for i
        using "1.prems"(4) [of i mid] that lt mid "1.prems"(7) by simp
      have "mid + 1 \<le> pos \<and> pos \<le> right + 1 \<and> (\<forall>i. 0 \<le> i \<and> i < pos \<longrightarrow> C (nat i) < 0)
          \<and> (\<forall>i. pos \<le> i \<and> i < n \<longrightarrow> C (nat i) > 0)"
        by (rule "1.IH"(1) [OF True mid_def C _ _ _ _ _ "1.prems"(4,5) C "1.prems"(7) left "1.prems"(9)])
          (use lt eq mid "1.prems"(2) in simp_all)
      with mid show ?thesis by simp
    next
      case ge: False
      with eq have gt: "C (nat mid) > 0" by (auto split: if_splits)
      have right: "C (nat i) > 0" if "mid - 1 < i" "i < n" for i
        using "1.prems"(5) [of mid i] that gt mid "1.prems"(2) by simp
      have "left \<le> pos \<and> pos \<le> mid - 1 + 1 \<and> (\<forall>i. 0 \<le> i \<and> i < pos \<longrightarrow> C (nat i) < 0)
          \<and> (\<forall>i. pos \<le> i \<and> i < n \<longrightarrow> C (nat i) > 0)"
        by (rule "1.IH"(2) [OF True mid_def C _ _ _ _ _ "1.prems"(4,5) C _ "1.prems"(8) right])
          (use gt eq mid "1.prems"(2,7) in simp_all)
      with mid show ?thesis by simp
    qed
  qed
qed

lemma neigh_okD:
  assumes "neigh_ok type t"
  shows "length (entries t) = MAX_NEIGHBOR_ENTRY_SIZE" "num_entries t \<le> MAX_NEIGHBOR_ENTRY_SIZE"
    "length (neigh_used t) = num_entries t" "sorted_wrt (<) (map (neigh_key type) (neigh_used t))"
    "i < num_entries t \<Longrightarrow> entries t ! i = neigh_used t ! i \<and> length (ne_ip_addr (entries t ! i)) = 16"
  using assms by (auto simp: neigh_ok_def neigh_used_def) (metis in_set_conv_nth length_take min.absorb2 nth_take)

lemma neigh_key_mono:
  "neigh_ok type t \<Longrightarrow> i < j \<Longrightarrow> j < num_entries t \<Longrightarrow>
     neigh_key type (neigh_used t ! i) < neigh_key type (neigh_used t ! j)"
  using sorted_wrt_nth_less [OF neigh_okD(4), of type t i j] neigh_okD(3) [of type t] by simp

lemma memcmp_neigh_key:
  assumes "neigh_ok type t" "i < num_entries t" "length key = 16"
  shows "memcmp (ne_ip_addr (entries t ! i)) key (neigh_key_lengths type) =
    (if neigh_key type (neigh_used t ! i) = take (neigh_key_lengths type) key then 0
     else if neigh_key type (neigh_used t ! i) < take (neigh_key_lengths type) key then -1 else 1)"
proof -
  have "neigh_key_lengths type \<le> 16" by (cases type) simp_all
  moreover have e: "entries t ! i = neigh_used t ! i" "length (ne_ip_addr (neigh_used t ! i)) = 16"
    using neigh_okD(5) [OF assms(1,2)] by auto
  ultimately show ?thesis
    unfolding neigh_key_def e(1) using assms(3) by (intro memcmp_take) simp_all
qed

lemma neigh_lookup_found:
  assumes "neigh_ok type t" "length key = 16" "neigh_manager_lookup t type key = (pos, True)"
  shows "0 \<le> pos \<and> pos < int (num_entries t)
    \<and> neigh_key type (neigh_used t ! nat pos) = take (neigh_key_lengths type) key"
proof -
  from neigh_search_found [OF assms(3) [unfolded neigh_manager_lookup_def]]
  have p: "0 \<le> pos" "pos < int (num_entries t)"
    "memcmp (ne_ip_addr (entries t ! nat pos)) key (neigh_key_lengths type) = 0" by auto
  then have "nat pos < num_entries t" by simp
  from memcmp_neigh_key [OF assms(1) this assms(2)] p show ?thesis by (auto split: if_splits)
qed

lemma neigh_lookup_not_found:
  assumes ok: "neigh_ok type t" and k: "length key = 16" and lk: "neigh_manager_lookup t type key = (pos, False)"
  shows "0 \<le> pos \<and> pos \<le> int (num_entries t)
    \<and> (\<forall>i<nat pos. neigh_key type (neigh_used t ! i) < take (neigh_key_lengths type) key)
    \<and> (\<forall>i. nat pos \<le> i \<and> i < num_entries t \<longrightarrow> take (neigh_key_lengths type) key < neigh_key type (neigh_used t ! i))"
proof -
  define C where "C = (\<lambda>i. memcmp (ne_ip_addr (entries t ! i)) key (neigh_key_lengths type))"
  let ?n = "int (num_entries t)"
  let ?k = "take (neigh_key_lengths type) key"
  have lt: "C i < 0 \<longleftrightarrow> neigh_key type (neigh_used t ! i) < ?k" and gt: "C i > 0 \<longleftrightarrow> ?k < neigh_key type (neigh_used t ! i)"
    if "i < num_entries t" for i
    using memcmp_neigh_key [OF ok that k] by (auto simp: C_def split: if_splits)
  have mono: "neigh_key type (neigh_used t ! nat i) \<le> neigh_key type (neigh_used t ! nat j)"
    if "0 \<le> i" "i \<le> j" "j < ?n" for i j
    using neigh_key_mono [OF ok, of "nat i" "nat j"] that by (cases "i = j") (auto intro: less_imp_le)
  have "0 \<le> pos \<and> pos \<le> ?n - 1 + 1 \<and> (\<forall>i. 0 \<le> i \<and> i < pos \<longrightarrow> C (nat i) < 0)
      \<and> (\<forall>i. pos \<le> i \<and> i < ?n \<longrightarrow> C (nat i) > 0)"
  proof (rule neigh_search_not_found [OF lk [unfolded neigh_manager_lookup_def]])
    show "C i = memcmp (ne_ip_addr (entries t ! i)) key (neigh_key_lengths type)" for i by (simp add: C_def)
    show "C (nat i) < 0" if "0 \<le> i" "i \<le> j" "j < ?n" "C (nat j) < 0" for i j
      using that lt [of "nat i"] lt [of "nat j"] mono [of i j] by auto
    show "C (nat j) > 0" if "0 \<le> i" "i \<le> j" "j < ?n" "C (nat i) > 0" for i j
      using that gt [of "nat i"] gt [of "nat j"] mono [of i j] by auto
  qed auto
  then have p: "0 \<le> pos" "pos \<le> ?n" "\<forall>i. 0 \<le> i \<and> i < pos \<longrightarrow> C (nat i) < 0" "\<forall>i. pos \<le> i \<and> i < ?n \<longrightarrow> C (nat i) > 0"
    by auto
  have "neigh_key type (neigh_used t ! i) < ?k" if "i < nat pos" for i
    using p(2) p(3) [rule_format, of "int i"] lt [of i] that by simp
  moreover have "?k < neigh_key type (neigh_used t ! i)" if "nat pos \<le> i" "i < num_entries t" for i
    using p(1) p(4) [rule_format, of "int i"] gt [of i] that by simp
  ultimately show ?thesis using p(1,2) by blast
qed

lemma neigh_map_None_iff:
  "neigh_map type t k = None \<longleftrightarrow> (\<forall>e \<in> set (neigh_used t). neigh_key type e \<noteq> k)"
  by (auto simp: neigh_map_def map_of_eq_None_iff image_iff)

lemma distinct_neigh_keys: "neigh_ok type t \<Longrightarrow> distinct (map (neigh_key type) (neigh_used t))"
  using neigh_okD(4) strict_sorted_imp_sorted strict_sorted_iff by blast

lemma neigh_map_nth:
  assumes "neigh_ok type t" "i < num_entries t"
  shows "neigh_map type t (neigh_key type (neigh_used t ! i)) = Some (neigh_used t ! i)"
proof -
  have "(neigh_key type (neigh_used t ! i), neigh_used t ! i) \<in> set (map (\<lambda>e. (neigh_key type e, e)) (neigh_used t))"
    using assms neigh_okD(3) [OF assms(1)] by auto
  moreover have "distinct (map fst (map (\<lambda>e. (neigh_key type e, e)) (neigh_used t)))"
    using distinct_neigh_keys [OF assms(1)] by (simp add: comp_def)
  ultimately show ?thesis unfolding neigh_map_def by (rule map_of_is_SomeI [rotated])
qed

lemma neigh_lookup_spec:
  assumes "neigh_ok type t" "length key = 16" "neigh_manager_lookup t type key = (pos, found)"
  shows "if found then 0 \<le> pos \<and> neigh_map type t (take (neigh_key_lengths type) key) = Some (entries t ! nat pos)
    else neigh_map type t (take (neigh_key_lengths type) key) = None"
proof (cases found)
  case True
  with neigh_lookup_found [of type t key pos] assms have p: "0 \<le> pos" "nat pos < num_entries t"
    "neigh_key type (neigh_used t ! nat pos) = take (neigh_key_lengths type) key" by auto
  with True neigh_map_nth [OF assms(1) p(2)] neigh_okD(5) [OF assms(1) p(2)] show ?thesis by simp
next
  case False
  with assms(3) have "neigh_manager_lookup t type key = (pos, False)" by simp
  note nf = neigh_lookup_not_found [OF assms(1,2) this]
  have "neigh_key type (neigh_used t ! i) \<noteq> take (neigh_key_lengths type) key" if "i < num_entries t" for i
    using nf that less_irrefl [of "take (neigh_key_lengths type) key"] by (cases "i < nat pos") (metis not_less)+
  with False neigh_okD(3) [OF assms(1)] show ?thesis by (auto simp: neigh_map_None_iff in_set_conv_nth)
qed

section \<open>Insertion and deletion\<close>

text \<open>Lists of entries, strictly sorted by a key, as maps.\<close>

definition keyed :: "('e \<Rightarrow> 'k) \<Rightarrow> 'e list \<Rightarrow> 'k \<Rightarrow> 'e option" where
  "keyed f xs = map_of (map (\<lambda>e. (f e, e)) xs)"

lemma neigh_map_keyed: "neigh_map type t = keyed (neigh_key type) (neigh_used t)"
  by (simp add: neigh_map_def keyed_def)

lemma keyed_mid: "f x \<notin> f ` set as \<Longrightarrow> keyed f (as @ x # bs) = (keyed f (as @ bs))(f x \<mapsto> x)"
  unfolding keyed_def by (induction as) (auto simp: fun_upd_twist)

lemma keyed_None: "f x \<notin> f ` set xs \<Longrightarrow> keyed f xs (f x) = None"
  unfolding keyed_def by (auto simp: map_of_eq_None_iff image_iff)

lemma sorted_keys_insert:
  fixes f :: "'e \<Rightarrow> 'k::linorder"
  assumes "sorted_wrt (<) (map f xs)" "p \<le> length xs"
    and "\<forall>i<p. f (xs ! i) < f x" "\<forall>i. p \<le> i \<and> i < length xs \<longrightarrow> f x < f (xs ! i)"
  shows "sorted_wrt (<) (map f (take p xs @ x # drop p xs))"
    and "keyed f (take p xs @ x # drop p xs) = (keyed f xs)(f x \<mapsto> x)"
proof -
  have lo: "\<forall>e \<in> set (take p xs). f e < f x" using assms(2,3) by (auto simp: in_set_conv_nth)
  have hi: "\<forall>e \<in> set (drop p xs). f x < f e" using assms(2,4) by (auto simp: in_set_conv_nth)
  have "sorted_wrt (<) (map f (take p xs) @ map f (drop p xs))"
    using assms(1) unfolding map_append [symmetric] append_take_drop_id .
  then show "sorted_wrt (<) (map f (take p xs @ x # drop p xs))"
    using lo hi by (fastforce simp: sorted_wrt_append)
  have "f x \<notin> f ` set (take p xs)" using lo by auto
  from keyed_mid [OF this, of "drop p xs"] show "keyed f (take p xs @ x # drop p xs) = (keyed f xs)(f x \<mapsto> x)"
    by simp
qed

lemma sorted_keys_delete:
  fixes f :: "'e \<Rightarrow> 'k::linorder"
  assumes "sorted_wrt (<) (map f xs)" "p < length xs"
  shows "sorted_wrt (<) (map f (take p xs @ drop (Suc p) xs))"
    and "keyed f (take p xs @ drop (Suc p) xs) = (keyed f xs)(f (xs ! p) := None)"
    and "keyed f (take p xs @ y # drop (Suc p) xs) = (keyed f xs)(f y \<mapsto> y) \<or> f y \<noteq> f (xs ! p)"
proof -
  let ?x = "xs ! p" and ?as = "take p xs" and ?bs = "drop (Suc p) xs"
  have xs: "xs = ?as @ ?x # ?bs" using assms(2) by (rule id_take_nth_drop)
  have s: "sorted_wrt (<) (map f ?as @ f ?x # map f ?bs)"
    using assms(1) arg_cong [OF xs, of "map f"] by simp
  then show "sorted_wrt (<) (map f (?as @ ?bs))" by (auto simp: sorted_wrt_append)
  from s have lo: "\<forall>e \<in> set ?as. f e < f ?x" and hi: "\<forall>e \<in> set ?bs. f ?x < f e"
    by (auto simp: sorted_wrt_append)
  then have na: "f ?x \<notin> f ` set ?as" and nab: "f ?x \<notin> f ` set (?as @ ?bs)" by auto
  have kx: "keyed f xs = (keyed f (?as @ ?bs))(f ?x \<mapsto> ?x)" using keyed_mid [OF na, of ?bs] xs by simp
  show "keyed f (?as @ ?bs) = (keyed f xs)(f ?x := None)"
    unfolding kx using keyed_None [OF nab] by (simp add: fun_upd_idem)
  show "keyed f (?as @ y # ?bs) = (keyed f xs)(f y \<mapsto> y) \<or> f y \<noteq> f ?x"
    using keyed_mid [of f y ?as ?bs] na kx by auto
qed

lemma neigh_add_law:
  assumes ok: "neigh_ok type t" and k: "length (ne_ip_addr data) = 16"
    and add: "neigh_manager_add_entry t type (ne_ip_addr data) data = (t', r)"
  shows "neigh_ok type t' \<and>
    (if num_entries t = MAX_NEIGHBOR_ENTRY_SIZE then r = -1 \<and> t' = t
     else 0 \<le> r \<and> neigh_map type t' = (neigh_map type t)(neigh_key type data \<mapsto> data))"
proof (cases "num_entries t = MAX_NEIGHBOR_ENTRY_SIZE")
  case True
  with add ok show ?thesis by (simp add: neigh_manager_add_entry_def)
next
  case False
  with neigh_okD(2) [OF ok] have room: "num_entries t < MAX_NEIGHBOR_ENTRY_SIZE" by simp
  obtain pos found where lk: "neigh_manager_lookup t type (ne_ip_addr data) = (pos, found)" by fastforce
  have dk: "take (neigh_key_lengths type) (ne_ip_addr data) = neigh_key type data" by (simp add: neigh_key_def)
  note D = neigh_okD [OF ok]
  show ?thesis
  proof (cases found)
    case True
    from neigh_lookup_found [OF ok k] lk True dk have p: "0 \<le> pos" "nat pos < num_entries t"
      "neigh_key type (neigh_used t ! nat pos) = neigh_key type data" by auto
    from add room lk True have t': "t' = t\<lparr>entries := (entries t)[nat pos := data]\<rparr>" "r = pos"
      by (auto simp: neigh_manager_add_entry_def Let_def)
    have u: "neigh_used t' = (neigh_used t)[nat pos := data]" by (simp add: t' neigh_used_def take_update_swap)
    have keys: "map (neigh_key type) (neigh_used t') = map (neigh_key type) (neigh_used t)"
      unfolding u map_update using p(2,3) D(3) by (metis list_update_id map_update nth_map)
    have "neigh_ok type t'"
      using ok k keys u by (auto simp: neigh_ok_def t' dest!: set_update_subset_insert [THEN subsetD])
    moreover have "neigh_map type t' = (neigh_map type t)(neigh_key type data \<mapsto> data)"
      using sorted_keys_delete(3) [OF D(4), of "nat pos" data] p D(3)
      by (simp add: neigh_map_keyed u upd_conv_take_nth_drop)
    ultimately show ?thesis using room t'(2) p(1) by simp
  next
    case False
    from neigh_lookup_not_found [OF ok k] lk False dk have p: "0 \<le> pos" "pos \<le> int (num_entries t)"
      "\<forall>i<nat pos. neigh_key type (neigh_used t ! i) < neigh_key type data"
      "\<forall>i. nat pos \<le> i \<and> i < num_entries t \<longrightarrow> neigh_key type data < neigh_key type (neigh_used t ! i)"
      by auto
    from add room lk False p have t': "t' = t\<lparr>entries := (memmove (Suc (nat pos)) (nat pos) (num_entries t - nat pos) (entries t))[nat pos := data],
        num_entries := num_entries t + 1\<rparr>" "r = pos"
      by (auto simp: neigh_manager_add_entry_def Let_def)
    have u: "neigh_used t' = take (nat pos) (neigh_used t) @ data # drop (nat pos) (neigh_used t)"
      unfolding neigh_used_def t' using take_memmove_insert [of "nat pos" "num_entries t" "entries t" data] p room D(1) by simp
    from sorted_keys_insert [OF D(4), of "nat pos" data] p D(3)
    have "sorted_wrt (<) (map (neigh_key type) (neigh_used t'))" "neigh_map type t' = (neigh_map type t)(neigh_key type data \<mapsto> data)"
      unfolding neigh_map_keyed u by simp_all
    moreover have "\<forall>e \<in> set (neigh_used t'). length (ne_ip_addr e) = 16"
      using u ok k by (auto simp: neigh_ok_def dest: in_set_takeD in_set_dropD)
    moreover have "length (entries t') = MAX_NEIGHBOR_ENTRY_SIZE"
      using p room D(1) by (simp add: t' array_simps)
    ultimately show ?thesis using room t' p(1) by (simp add: neigh_ok_def)
  qed
qed

lemma neigh_delete_law:
  assumes ok: "neigh_ok type t" and k: "length key = 16" and del: "neigh_manager_delete_entry t type key = (t', r)"
  shows "neigh_ok type t' \<and> neigh_map type t' = (neigh_map type t)(take (neigh_key_lengths type) key := None)
    \<and> (r < 0 \<longleftrightarrow> neigh_map type t (take (neigh_key_lengths type) key) = None) \<and> (r < 0 \<longrightarrow> t' = t)"
proof -
  obtain pos found where lk: "neigh_manager_lookup t type key = (pos, found)" by fastforce
  note D = neigh_okD [OF ok] and spec = neigh_lookup_spec [OF ok k lk]
  show ?thesis
  proof (cases found)
    case False
    with del lk spec ok show ?thesis by (simp add: neigh_manager_delete_entry_def fun_upd_idem)
  next
    case True
    from neigh_lookup_found [OF ok k] lk True have p: "0 \<le> pos" "nat pos < num_entries t"
      "neigh_key type (neigh_used t ! nat pos) = take (neigh_key_lengths type) key" by auto
    let ?n = "num_entries t - 1"
    from del lk True have t': "t' = t\<lparr>num_entries := ?n, entries := memmove (nat pos) (Suc (nat pos)) (?n - nat pos) (entries t)\<rparr>" "r = pos"
      by (auto simp: neigh_manager_delete_entry_def Let_def)
    have u: "neigh_used t' = take (nat pos) (neigh_used t) @ drop (Suc (nat pos)) (neigh_used t)"
      unfolding neigh_used_def t' using take_memmove_remove [of "nat pos" ?n "entries t"] p D(1,2) by simp
    from sorted_keys_delete(1,2) [OF D(4), of "nat pos"] p(2,3) D(3)
    have "sorted_wrt (<) (map (neigh_key type) (neigh_used t'))"
        "neigh_map type t' = (neigh_map type t)(take (neigh_key_lengths type) key := None)"
      unfolding neigh_map_keyed u by simp_all
    moreover have "\<forall>e \<in> set (neigh_used t'). length (ne_ip_addr e) = 16"
      using u ok by (auto simp: neigh_ok_def dest: in_set_takeD in_set_dropD)
    moreover have "length (entries t') = MAX_NEIGHBOR_ENTRY_SIZE" using p D(1,2) by (simp add: t' array_simps)
    ultimately show ?thesis using t' p(1) D(2) spec True by (simp add: neigh_ok_def)
  qed
qed

section \<open>The RIB copy follows the master copy\<close>

lemma rib_neigh_add_replays:
  assumes "neigh_manager_add_entry t type key data = (t', r)" "0 \<le> r"
    and "mne_pos m = r" "mne_num_entries m = num_entries t'" "mne_data m = data"
  shows "rib_neigh_entry_add m t = t'"
  using assms by (auto simp: neigh_manager_add_entry_def rib_neigh_entry_add_def Let_def split: if_splits prod.splits)

lemma rib_neigh_del_replays:
  assumes "neigh_manager_delete_entry t type key = (t', r)" "0 \<le> r"
    and "mne_pos m = r" "mne_num_entries m = num_entries t'"
  shows "rib_neigh_entry_del m t = t'"
  using assms by (auto simp: neigh_manager_delete_entry_def rib_neigh_entry_del_def Let_def split: if_splits prod.splits)

lemma neigh_refused_unchanged:
  "neigh_manager_add_entry t type key data = (t', r) \<Longrightarrow> r < 0 \<Longrightarrow> neigh_ok type t \<Longrightarrow> length key = 16 \<Longrightarrow> t' = t"
  using neigh_lookup_found [of type t key] by (fastforce simp: neigh_manager_add_entry_def Let_def split: if_splits prod.splits)

text \<open>The tables are in order and requests carry full addresses.\<close>

definition neigh_msg_data :: "neigh_msg \<Rightarrow> internal_msg_neigh_entry" where
  "neigh_msg_data msg = (case msg of NEIGH_ENTRY_ADD m \<Rightarrow> m | NEIGH_ENTRY_DEL m \<Rightarrow> m)"

definition neigh_request_ok :: "neigh_msg \<Rightarrow> bool" where
  "neigh_request_ok msg \<longleftrightarrow> length (ne_ip_addr (mne_data (neigh_msg_data msg))) = 16"

definition neigh_master :: "neigh_tables \<Rightarrow> neigh_msg \<Rightarrow> neigh_tables \<times> neigh_msg option" where
  "neigh_master ts msg = (if neigh_request_ok msg then neigh_manager_process_message ts msg else (ts, None))"

definition neigh_agree :: "neigh_tables \<Rightarrow> neigh_tables \<Rightarrow> bool" where
  "neigh_agree ts rs \<longleftrightarrow> ts = rs \<and> (\<forall>type. neigh_ok type (ts type))"

lemma neigh_process_step:
  assumes ok: "\<forall>type. neigh_ok type (ts type)" and req: "neigh_request_ok msg"
    and p: "neigh_manager_process_message ts msg = (ts', mo)"
  shows "(\<forall>type. neigh_ok type (ts' type)) \<and> (case mo of None \<Rightarrow> ts' = ts | Some m \<Rightarrow> ts' = rib_neigh_apply m ts)"
proof (cases msg)
  case (NEIGH_ENTRY_ADD m)
  obtain t' r where a: "neigh_manager_add_entry (ts (mne_type m)) (mne_type m) (ne_ip_addr (mne_data m)) (mne_data m) = (t', r)"
    by fastforce
  have l: "length (ne_ip_addr (mne_data m)) = 16" using req NEIGH_ENTRY_ADD by (simp add: neigh_request_ok_def neigh_msg_data_def)
  have ok': "neigh_ok (mne_type m) t'" using neigh_add_law [OF _ l a] ok by simp
  have ts': "ts' = ts(mne_type m := t')" using p NEIGH_ENTRY_ADD a by (auto simp: neigh_manager_process_message_def split: if_splits)
  show ?thesis
  proof (cases "r < 0")
    case True
    with neigh_refused_unchanged [OF a] ok l have "t' = ts (mne_type m)" by simp
    with True p NEIGH_ENTRY_ADD a ok show ?thesis by (auto simp: neigh_manager_process_message_def)
  next
    case False
    then have "mo = Some (NEIGH_ENTRY_ADD (m\<lparr>mne_pos := r, mne_num_entries := num_entries t'\<rparr>))"
      using p NEIGH_ENTRY_ADD a by (auto simp: neigh_manager_process_message_def)
    with rib_neigh_add_replays [OF a, of "m\<lparr>mne_pos := r, mne_num_entries := num_entries t'\<rparr>"] False ts' ok ok'
    show ?thesis by (simp add: rib_neigh_apply_def)
  qed
next
  case (NEIGH_ENTRY_DEL m)
  obtain t' r where a: "neigh_manager_delete_entry (ts (mne_type m)) (mne_type m) (ne_ip_addr (mne_data m)) = (t', r)"
    by fastforce
  have l: "length (ne_ip_addr (mne_data m)) = 16" using req NEIGH_ENTRY_DEL by (simp add: neigh_request_ok_def neigh_msg_data_def)
  have ok': "neigh_ok (mne_type m) t'" "r < 0 \<longrightarrow> t' = ts (mne_type m)" using neigh_delete_law [OF _ l a] ok by simp_all
  have ts': "ts' = ts(mne_type m := t')" using p NEIGH_ENTRY_DEL a by (auto simp: neigh_manager_process_message_def split: if_splits)
  show ?thesis
  proof (cases "r < 0")
    case True
    with ok' p NEIGH_ENTRY_DEL a ok show ?thesis by (auto simp: neigh_manager_process_message_def)
  next
    case False
    then have "mo = Some (NEIGH_ENTRY_DEL (m\<lparr>mne_pos := r, mne_num_entries := num_entries t'\<rparr>))"
      using p NEIGH_ENTRY_DEL a by (auto simp: neigh_manager_process_message_def)
    with rib_neigh_del_replays [OF a, of "m\<lparr>mne_pos := r, mne_num_entries := num_entries t'\<rparr>"] False ts' ok ok'
    show ?thesis by (simp add: rib_neigh_apply_def)
  qed
qed

interpretation neigh_sync: replicated_table neigh_master rib_neigh_apply neigh_agree
proof
  show "neigh_agree s' r" if "neigh_agree s r" "neigh_master s e = (s', None)" for s r e s'
    using neigh_process_step [of s e s' None] that by (auto simp: neigh_agree_def neigh_master_def split: if_splits)
  show "neigh_agree s' (rib_neigh_apply m r)" if "neigh_agree s r" "neigh_master s e = (s', Some m)" for s r e s' m
    using neigh_process_step [of s e s' "Some m"] that by (auto simp: neigh_agree_def neigh_master_def split: if_splits)
qed

section \<open>Properties\<close>

text \<open>A session of the neighbor manager: the final master tables and the announcements.\<close>

fun neigh_session :: "neigh_tables \<Rightarrow> neigh_msg list \<Rightarrow> neigh_tables \<times> neigh_msg list" where
  "neigh_session ts [] = (ts, [])"
| "neigh_session ts (e # es) =
     (case neigh_manager_process_message ts e of (ts', mo) \<Rightarrow>
        case neigh_session ts' es of (ts'', ms) \<Rightarrow> (ts'', (case mo of None \<Rightarrow> ms | Some m \<Rightarrow> m # ms)))"

lemma neigh_session_master: "list_all neigh_request_ok es \<Longrightarrow> neigh_session ts es = neigh_sync.master_run ts es"
  by (induction es arbitrary: ts) (simp_all add: neigh_master_def split: prod.splits)

lemma neigh_ok_zero: "neigh_ok type zero_neigh_table"
  by (simp add: neigh_ok_def zero_neigh_table_def neigh_used_def)

text \<open>
  Bisection is correct: in a table that is sorted by address, \<^verbatim>\<open>neigh_manager_lookup\<close>
  finds the entry of an address exactly when there is one; if there is none it returns the
  position at which the address belongs.
\<close>

theorem neigh_manager_lookup_correct:
  assumes "neigh_ok type t" "length key = 16" "neigh_manager_lookup t type key = (pos, found)"
  shows "if found then 0 \<le> pos \<and> neigh_map type t (take (neigh_key_lengths type) key) = Some (entries t ! nat pos)
    else neigh_map type t (take (neigh_key_lengths type) key) = None
      \<and> (\<forall>i<num_entries t. neigh_key type (entries t ! i) < take (neigh_key_lengths type) key \<longleftrightarrow> int i < pos)"
proof (cases found)
  case False
  with assms(3) have nf: "neigh_manager_lookup t type key = (pos, False)" by simp
  note p = neigh_lookup_not_found [OF assms(1,2) nf]
  have "neigh_key type (entries t ! i) < take (neigh_key_lengths type) key \<longleftrightarrow> int i < pos" if "i < num_entries t" for i
    using p that neigh_okD(5) [OF assms(1) that] by (cases "i < nat pos") (auto simp: not_less dest: less_asym)
  with False neigh_lookup_spec [OF assms] show ?thesis by simp
qed (use neigh_lookup_spec [OF assms] in simp)

lemma neigh_manager_lookup_correct_witness:
  "neigh_map NEIGH_ARP_TABLE zero_neigh_table (take 4 (replicate 16 1)) = None"
proof -
  have "neigh_manager_lookup zero_neigh_table NEIGH_ARP_TABLE (replicate 16 1) = (0, False)"
    by (simp add: neigh_manager_lookup_def neigh_search.simps zero_neigh_table_def)
  from neigh_manager_lookup_correct [OF neigh_ok_zero _ this] show ?thesis by simp
qed

text \<open>
  Adding an entry to a neighbor table that is not full binds its address to it and
  changes no other binding; deleting removes the binding of the address and no other; both
  keep the table sorted and within its array.  A full table refuses every addition, also one
  that would only update an entry that is present.
\<close>

theorem neigh_table_updates:
  assumes "neigh_ok type t" "length (ne_ip_addr data) = 16"
  shows "(let (t', r) = neigh_manager_add_entry t type (ne_ip_addr data) data
          in neigh_ok type t' \<and>
             (if num_entries t = MAX_NEIGHBOR_ENTRY_SIZE then r = -1 \<and> t' = t
              else 0 \<le> r \<and> neigh_map type t' = (neigh_map type t)(neigh_key type data \<mapsto> data)))
    \<and> (let (t', r) = neigh_manager_delete_entry t type (ne_ip_addr data)
          in neigh_ok type t' \<and> neigh_map type t' = (neigh_map type t)(neigh_key type data := None)
             \<and> (r < 0 \<longleftrightarrow> neigh_map type t (neigh_key type data) = None))"
  using neigh_add_law [OF assms] neigh_delete_law [OF assms]
  by (auto simp: Let_def neigh_key_def split: prod.splits)

lemma neigh_table_updates_witness:
  "neigh_map NEIGH_ND_TABLE (fst (neigh_manager_add_entry zero_neigh_table NEIGH_ND_TABLE (replicate 16 0) zero_neigh_entry))
     (replicate 16 0) = Some zero_neigh_entry"
  using neigh_table_updates [of NEIGH_ND_TABLE zero_neigh_table zero_neigh_entry] neigh_ok_zero
  by (simp add: zero_neigh_entry_def zero_neigh_table_def MAX_NEIGHBOR_ENTRY_SIZE_def neigh_key_def Let_def split: prod.splits)

text \<open>
  C10: The neighbor tables of the RIB are a faithful replica: for every sequence of requests
  to the neighbor manager, replaying its announcements in order on a copy that started equal
  gives exactly the master tables, which are in order.
\<close>

theorem neigh_replica_agrees:
  assumes "neigh_agree ts rs" "list_all neigh_request_ok es" "neigh_session ts es = (ts', ms)"
  shows "fold rib_neigh_apply ms rs = ts' \<and> (\<forall>type. neigh_ok type (ts' type))"
  using neigh_sync.replica_agrees [OF assms(1)] assms(2,3) by (auto simp: neigh_session_master neigh_agree_def)

lemma neigh_replica_agrees_witness:
  "\<exists>ts' ms. neigh_session (\<lambda>_. zero_neigh_table) [NEIGH_ENTRY_ADD \<lparr>mne_type = NEIGH_ARP_TABLE, mne_pos = 0,
       mne_num_entries = 0, mne_data = zero_neigh_entry\<rparr>] = (ts', ms)
     \<and> fold rib_neigh_apply ms (\<lambda>_. zero_neigh_table) = ts'"
proof -
  let ?es = "[NEIGH_ENTRY_ADD \<lparr>mne_type = NEIGH_ARP_TABLE, mne_pos = 0, mne_num_entries = 0, mne_data = zero_neigh_entry\<rparr>]"
  obtain ts' ms where s: "neigh_session (\<lambda>_. zero_neigh_table) ?es = (ts', ms)" by fastforce
  have "neigh_agree (\<lambda>_. zero_neigh_table) (\<lambda>_. zero_neigh_table)" by (simp add: neigh_agree_def neigh_ok_zero)
  moreover have "list_all neigh_request_ok ?es" by (simp add: neigh_request_ok_def neigh_msg_data_def zero_neigh_entry_def)
  ultimately show ?thesis using neigh_replica_agrees [OF _ _ s] s by blast
qed

end
