(* ===== verification/Fdb.thy ===== *)
theory Fdb
  imports Prelude
begin

text \<open>
  The forwarding database of \<^verbatim>\<open>rib_manager.c\<close> (\<^verbatim>\<open>jenkins_hash\<close>, \<^verbatim>\<open>fdb_*\<close>): an
  open-addressing hash table of 1024 slots from (MAC address, VLAN) to a port.  A slot that
  ages out is marked free without being moved or marked as deleted, so insertion stops at
  the first free slot while a look-up scans all slots.  \<^verbatim>\<open>time (NULL)\<close> is a parameter.
\<close>

section \<open>Data\<close>

definition FDB_SIZE :: nat where "FDB_SIZE = 1024"
definition FDB_HASH_MASK :: u32 where "FDB_HASH_MASK = 0x3FF"
definition FDB_STATE_NONE :: u8 where "FDB_STATE_NONE = 0"
definition FDB_STATE_ACTIVE :: u8 where "FDB_STATE_ACTIVE = 1"
definition FDB_AGING_TIME_DEFAULT :: int where "FDB_AGING_TIME_DEFAULT = 7200"

record fdb_entry =
  l2addr :: "u8 list"
  fdb_port :: int
  fdb_vlan_id :: u16
  fdb_state :: u8
  last_seen :: int

type_synonym fdb = "fdb_entry list"

definition zero_fdb_entry :: fdb_entry where
  "zero_fdb_entry = \<lparr>l2addr = replicate 6 0, fdb_port = 0, fdb_vlan_id = 0, fdb_state = 0, last_seen = 0\<rparr>"

section \<open>Operations\<close>

definition jenkins_step :: "u8 \<Rightarrow> u32 \<Rightarrow> u32" where
  "jenkins_step k hash =
     (let hash = hash + ucast k;
          hash = hash + push_bit 10 hash
      in hash XOR drop_bit 6 hash)"

definition jenkins_hash :: "u8 list \<Rightarrow> u32" where
  "jenkins_hash key =
     (let hash = fold jenkins_step key 0;
          hash = hash + push_bit 3 hash;
          hash = hash XOR drop_bit 11 hash
      in hash + push_bit 15 hash)"

definition fdb_jenkins_hash :: "u8 list \<Rightarrow> u16 \<Rightarrow> u32" where
  "fdb_jenkins_hash mac_addr vlan_id =
     jenkins_hash (mac_addr @ [ucast (drop_bit 8 vlan_id), ucast vlan_id]) AND FDB_HASH_MASK"

text \<open>
  The probe loops: the slot at the hash first, then the following ones with wrap-around
  until the scan is back at the hash.
\<close>

definition fdb_probe :: "(nat \<Rightarrow> bool) \<Rightarrow> nat \<Rightarrow> nat option" where
  "fdb_probe P hash =
     (if P hash then Some hash else cyclic_find P FDB_SIZE hash ((hash + 1) mod FDB_SIZE))"

definition fdb_match :: "fdb_entry \<Rightarrow> u8 list \<Rightarrow> u16 \<Rightarrow> bool" where
  "fdb_match e mac_addr vlan_id \<longleftrightarrow> l2addr e = mac_addr \<and> fdb_vlan_id e = vlan_id"

definition fdb_add_entry :: "int \<Rightarrow> fdb \<Rightarrow> u8 list \<Rightarrow> u16 \<Rightarrow> int \<Rightarrow> fdb \<times> int" where
  "fdb_add_entry current_time fdb mac_addr vlan_id port =
     (case fdb_probe (\<lambda>i. fdb_state (fdb ! i) = FDB_STATE_NONE \<or> fdb_match (fdb ! i) mac_addr vlan_id)
             (unat (fdb_jenkins_hash mac_addr vlan_id)) of
        None \<Rightarrow> (fdb, -1)
      | Some offset \<Rightarrow>
          if fdb_state (fdb ! offset) \<noteq> FDB_STATE_NONE then
            (fdb[offset := (fdb ! offset)\<lparr>fdb_port := port, last_seen := current_time,
                 fdb_state := FDB_STATE_ACTIVE\<rparr>], int offset)
          else
            (fdb[offset := (fdb ! offset)\<lparr>l2addr := mac_addr, fdb_port := port, fdb_vlan_id := vlan_id,
                 last_seen := current_time, fdb_state := FDB_STATE_ACTIVE\<rparr>], int offset))"

definition fdb_lookup_entry :: "fdb \<Rightarrow> u8 list \<Rightarrow> u16 \<Rightarrow> int" where
  "fdb_lookup_entry fdb mac_addr vlan_id =
     (case fdb_probe (\<lambda>i. fdb_match (fdb ! i) mac_addr vlan_id \<and> fdb_state (fdb ! i) = FDB_STATE_ACTIVE)
             (unat (fdb_jenkins_hash mac_addr vlan_id)) of
        None \<Rightarrow> -1
      | Some offset \<Rightarrow> fdb_port (fdb ! offset))"

definition fdb_aging_process :: "int \<Rightarrow> fdb \<Rightarrow> int \<Rightarrow> fdb" where
  "fdb_aging_process current_time fdb max_age =
     map (\<lambda>e. if fdb_state e = FDB_STATE_ACTIVE \<and> max_age < current_time - last_seen e
              then e\<lparr>fdb_state := FDB_STATE_NONE\<rparr> else e) fdb"

section \<open>Lemmas\<close>

lemma fdb_hash_less: "unat (fdb_jenkins_hash mac vlan) < FDB_SIZE"
proof -
  have "FDB_HASH_MASK = mask 10" by (simp add: FDB_HASH_MASK_def mask_eq_exp_minus_1)
  then have "fdb_jenkins_hash mac vlan = take_bit 10 (jenkins_hash (mac @ [ucast (drop_bit 8 vlan), ucast vlan]))"
    by (simp add: fdb_jenkins_hash_def take_bit_eq_mask)
  then have "unat (fdb_jenkins_hash mac vlan)
      = take_bit 10 (unat (jenkins_hash (mac @ [ucast (drop_bit 8 vlan), ucast vlan])))"
    by (simp add: unsigned_take_bit_eq)
  also have "\<dots> < 2 ^ 10" by (rule take_bit_nat_less_exp)
  finally show ?thesis by (simp add: FDB_SIZE_def)
qed

definition probe_order :: "nat \<Rightarrow> nat list" where
  "probe_order h = [h..<FDB_SIZE] @ [0..<h]"

lemma set_probe_order: "h < FDB_SIZE \<Longrightarrow> set (probe_order h) = {..<FDB_SIZE}"
  by (auto simp: probe_order_def)

lemma fdb_probe_order: "h < FDB_SIZE \<Longrightarrow> fdb_probe P h = List.find P (probe_order h)"
  unfolding fdb_probe_def probe_order_def
  by (simp add: cyclic_find_scan [simplified] upt_conv_Cons)

abbreviation fdb_hit :: "fdb \<Rightarrow> u8 list \<Rightarrow> u16 \<Rightarrow> nat \<Rightarrow> bool" where
  "fdb_hit fdb mac vlan i \<equiv> fdb_match (fdb ! i) mac vlan \<and> fdb_state (fdb ! i) = FDB_STATE_ACTIVE"

lemma fdb_lookup_order:
  "fdb_lookup_entry fdb mac vlan =
     (case List.find (fdb_hit fdb mac vlan) (probe_order (unat (fdb_jenkins_hash mac vlan))) of
        None \<Rightarrow> -1 | Some offset \<Rightarrow> fdb_port (fdb ! offset))"
  by (simp add: fdb_lookup_entry_def fdb_probe_order fdb_hash_less)

text \<open>What an insertion writes, whichever branch it takes.\<close>

lemma fdb_entry_written:
  "(e::fdb_entry)\<lparr>fdb_port := port, last_seen := now, fdb_state := s\<rparr>
    = \<lparr>l2addr = l2addr e, fdb_port = port, fdb_vlan_id = fdb_vlan_id e, fdb_state = s, last_seen = now\<rparr>"
  "(e::fdb_entry)\<lparr>l2addr := mac, fdb_port := port, fdb_vlan_id := vlan, last_seen := now, fdb_state := s\<rparr>
    = \<lparr>l2addr = mac, fdb_port = port, fdb_vlan_id = vlan, fdb_state = s, last_seen = now\<rparr>"
  by (cases e; simp)+

lemma fdb_add_cases:
  assumes "length fdb = FDB_SIZE" "fdb_add_entry now fdb mac vlan port = (fdb', r)"
  obtains "r = -1" "fdb' = fdb" "\<forall>i<FDB_SIZE. fdb_state (fdb ! i) \<noteq> FDB_STATE_NONE \<and> \<not> fdb_match (fdb ! i) mac vlan"
  | offset where "r = int offset" "offset < FDB_SIZE"
    "List.find (\<lambda>i. fdb_state (fdb ! i) = FDB_STATE_NONE \<or> fdb_match (fdb ! i) mac vlan)
       (probe_order (unat (fdb_jenkins_hash mac vlan))) = Some offset"
    "fdb' = fdb[offset := \<lparr>l2addr = mac, fdb_port = port, fdb_vlan_id = vlan, fdb_state = FDB_STATE_ACTIVE, last_seen = now\<rparr>]"
proof (cases "List.find (\<lambda>i. fdb_state (fdb ! i) = FDB_STATE_NONE \<or> fdb_match (fdb ! i) mac vlan)
       (probe_order (unat (fdb_jenkins_hash mac vlan)))")
  case None
  then have "\<forall>i<FDB_SIZE. fdb_state (fdb ! i) \<noteq> FDB_STATE_NONE \<and> \<not> fdb_match (fdb ! i) mac vlan"
    using set_probe_order [OF fdb_hash_less [of mac vlan]] by (auto simp: find_None_iff)
  moreover have "r = -1" "fdb' = fdb"
    using assms(2) None by (auto simp: fdb_add_entry_def fdb_probe_order fdb_hash_less)
  ultimately show thesis using that(1) by blast
next
  case (Some offset)
  from find_SomeD [OF Some] have o: "offset < FDB_SIZE"
      "fdb_state (fdb ! offset) = FDB_STATE_NONE \<or> fdb_match (fdb ! offset) mac vlan"
    using set_probe_order [OF fdb_hash_less [of mac vlan]] by auto
  have "r = int offset"
      "fdb' = fdb[offset := \<lparr>l2addr = mac, fdb_port = port, fdb_vlan_id = vlan, fdb_state = FDB_STATE_ACTIVE, last_seen = now\<rparr>]"
    using assms(2) Some o(2)
    by (auto simp: fdb_add_entry_def fdb_probe_order fdb_hash_less fdb_match_def fdb_entry_written split: if_splits)
  with that(2) Some o(1) show thesis by blast
qed

lemma fdb_lookup_after_write:
  assumes len: "length fdb = FDB_SIZE" and o: "offset < FDB_SIZE"
    and find: "List.find (\<lambda>i. fdb_state (fdb ! i) = FDB_STATE_NONE \<or> fdb_match (fdb ! i) mac vlan)
       (probe_order (unat (fdb_jenkins_hash mac vlan))) = Some offset"
    and new: "e = \<lparr>l2addr = mac, fdb_port = port, fdb_vlan_id = vlan, fdb_state = FDB_STATE_ACTIVE, last_seen = now\<rparr>"
  shows "fdb_lookup_entry (fdb[offset := e]) mac' vlan' =
    (if mac' = mac \<and> vlan' = vlan then port else fdb_lookup_entry fdb mac' vlan')"
proof (cases "mac' = mac \<and> vlan' = vlan")
  case True
  have "List.find (fdb_hit (fdb[offset := e]) mac vlan) (probe_order (unat (fdb_jenkins_hash mac vlan))) = Some offset"
  proof (rule find_same_hit [OF find])
    fix k
    assume "k \<in> set (probe_order (unat (fdb_jenkins_hash mac vlan)))"
      "\<not> (fdb_state (fdb ! k) = FDB_STATE_NONE \<or> fdb_match (fdb ! k) mac vlan)"
    moreover from this find_SomeD [OF find] have "k \<noteq> offset" by auto
    ultimately show "\<not> fdb_hit (fdb[offset := e]) mac vlan k" by simp
  qed (use o len new in \<open>simp add: fdb_match_def\<close>)
  with True o len new show ?thesis by (simp add: fdb_lookup_order)
next
  case False
  have st: "fdb_state (fdb ! offset) = FDB_STATE_NONE \<or> fdb_match (fdb ! offset) mac vlan"
    using find_SomeD [OF find] by simp
  have "\<not> fdb_hit fdb mac' vlan' offset"
    using st False by (auto simp: fdb_match_def FDB_STATE_NONE_def FDB_STATE_ACTIVE_def)
  moreover have "\<not> fdb_hit (fdb[offset := e]) mac' vlan' offset" using False o len new by (auto simp: fdb_match_def)
  ultimately have hit: "fdb_hit (fdb[offset := e]) mac' vlan' k \<longleftrightarrow> fdb_hit fdb mac' vlan' k" for k
    by (cases "k = offset") auto
  have port: "fdb_port (fdb[offset := e] ! k) = fdb_port (fdb ! k)" if "fdb_hit fdb mac' vlan' k" for k
    using that \<open>\<not> fdb_hit fdb mac' vlan' offset\<close> by (cases "k = offset") auto
  have "(case List.find (fdb_hit fdb mac' vlan') xs of None \<Rightarrow> -1 | Some k \<Rightarrow> fdb_port (fdb[offset := e] ! k))
      = (case List.find (fdb_hit fdb mac' vlan') xs of None \<Rightarrow> -1 | Some k \<Rightarrow> fdb_port (fdb ! k))" for xs
    using port by (auto split: option.splits dest!: find_SomeD)
  with False show ?thesis by (auto simp: fdb_lookup_order hit)
qed

section \<open>Properties\<close>

text \<open>
  Learning an address: unless every slot is taken by other addresses, adding an entry
  makes look-ups of that address on that VLAN return the new port, whatever aged-out or
  duplicate slots the table has, and changes the look-up of no other address; if all slots
  are taken it returns -1 and changes nothing.
\<close>

theorem fdb_add_then_lookup:
  assumes "length fdb = FDB_SIZE" "fdb_add_entry now fdb mac vlan port = (fdb', r)"
  shows "length fdb' = FDB_SIZE
    \<and> (if \<forall>i<FDB_SIZE. fdb_state (fdb ! i) \<noteq> FDB_STATE_NONE \<and> \<not> fdb_match (fdb ! i) mac vlan
       then r = -1 \<and> fdb' = fdb
       else 0 \<le> r \<and> r < int FDB_SIZE
         \<and> fdb_lookup_entry fdb' mac' vlan' = (if mac' = mac \<and> vlan' = vlan then port else fdb_lookup_entry fdb mac' vlan'))"
  using assms
proof (cases rule: fdb_add_cases)
  case (2 offset)
  from find_SomeD [OF 2(3)] 2(2) have
    "\<not> (\<forall>i<FDB_SIZE. fdb_state (fdb ! i) \<noteq> FDB_STATE_NONE \<and> \<not> fdb_match (fdb ! i) mac vlan)" by blast
  with 2 fdb_lookup_after_write [OF assms(1) 2(2,3) refl] assms(1) show ?thesis by simp
qed (use assms(1) in simp)

lemma fdb_add_then_lookup_witness:
  "\<exists>fdb' r. fdb_add_entry 100 (replicate FDB_SIZE zero_fdb_entry) [2, 0, 0, 0, 0, 1] 10 3 = (fdb', r)
     \<and> fdb_lookup_entry fdb' [2, 0, 0, 0, 0, 1] 10 = 3"
proof -
  obtain fdb' r where a: "fdb_add_entry 100 (replicate FDB_SIZE zero_fdb_entry) [2, 0, 0, 0, 0, 1] 10 3 = (fdb', r)"
    by fastforce
  have "\<not> (\<forall>i<FDB_SIZE. fdb_state (replicate FDB_SIZE zero_fdb_entry ! i) \<noteq> FDB_STATE_NONE
      \<and> \<not> fdb_match (replicate FDB_SIZE zero_fdb_entry ! i) [2, 0, 0, 0, 0, 1] 10)"
    by (intro notI) (erule allE [of _ 0], simp add: FDB_SIZE_def zero_fdb_entry_def FDB_STATE_NONE_def)
  with fdb_add_then_lookup [OF _ a, of "[2, 0, 0, 0, 0, 1]" 10] a show ?thesis by simp
qed

text \<open>
  Aging removes exactly the entries not seen for longer than the limit: afterwards an
  active slot is one that was active and fresh, with the same contents; so a look-up that
  still succeeds returns the port of a fresh entry of that address.
\<close>

theorem fdb_aging_exact:
  assumes "length fdb = FDB_SIZE" "i < FDB_SIZE" "fdb' = fdb_aging_process now fdb max_age"
  shows "(fdb_state (fdb' ! i) = FDB_STATE_ACTIVE \<longleftrightarrow>
            fdb_state (fdb ! i) = FDB_STATE_ACTIVE \<and> now - last_seen (fdb ! i) \<le> max_age)
    \<and> (fdb_state (fdb' ! i) = FDB_STATE_ACTIVE \<longrightarrow> fdb' ! i = fdb ! i)
    \<and> (fdb_lookup_entry fdb' mac vlan \<noteq> -1 \<longrightarrow>
         (\<exists>j<FDB_SIZE. fdb_match (fdb ! j) mac vlan \<and> fdb_state (fdb ! j) = FDB_STATE_ACTIVE
            \<and> now - last_seen (fdb ! j) \<le> max_age \<and> fdb_port (fdb ! j) = fdb_lookup_entry fdb' mac vlan))"
proof -
  have slot: "(fdb_state (fdb' ! j) = FDB_STATE_ACTIVE \<longleftrightarrow>
          fdb_state (fdb ! j) = FDB_STATE_ACTIVE \<and> now - last_seen (fdb ! j) \<le> max_age)
      \<and> (fdb_state (fdb' ! j) = FDB_STATE_ACTIVE \<longrightarrow> fdb' ! j = fdb ! j)" if "j < FDB_SIZE" for j
    using assms(1,3) that by (auto simp: fdb_aging_process_def FDB_STATE_NONE_def FDB_STATE_ACTIVE_def)
  have "\<exists>j<FDB_SIZE. fdb_hit fdb' mac vlan j \<and> fdb_port (fdb' ! j) = fdb_lookup_entry fdb' mac vlan"
    if "fdb_lookup_entry fdb' mac vlan \<noteq> -1"
    using that set_probe_order [OF fdb_hash_less [of mac vlan]]
    by (auto simp: fdb_lookup_order split: option.splits dest!: find_SomeD)
  with slot assms(2) show ?thesis by metis
qed

lemma fdb_aging_exact_witness:
  "fdb_state (fdb_aging_process 8000 (replicate FDB_SIZE (zero_fdb_entry\<lparr>fdb_state := FDB_STATE_ACTIVE\<rparr>)) 7200 ! 5) \<noteq> FDB_STATE_ACTIVE"
  using fdb_aging_exact [of "replicate FDB_SIZE (zero_fdb_entry\<lparr>fdb_state := FDB_STATE_ACTIVE\<rparr>)" 5 _ 8000 7200, OF _ _ refl]
  by (simp add: FDB_SIZE_def zero_fdb_entry_def)

end
