(* ===== verification/Rib_Manager.thy ===== *)
theory Rib_Manager
  imports Rib_Check Fib Nexthop Neigh Fdb
begin

text \<open>
  The RIB manager, \<^verbatim>\<open>rib_manager.c\<close>: the central state of the program and the handler of
  every message type of \<^verbatim>\<open>internal_message.h\<close> that it accepts.  Each message is processed on
  a copy of the published \<^verbatim>\<open>struct rib_info\<close>; the FIB trees of the copy are rebuilt from the
  RIB trees and the copy is published through the RCU pointer.

  Calls out of the program (DPDK, TAP devices, the clock) are the fields of \<open>rib_env\<close>.  The
  results of \<^verbatim>\<open>malloc\<close> are a part of the state.  A handler that dereferences \<^verbatim>\<open>NULL\<close> yields
  \<open>Crash\<close>.
\<close>

section \<open>Data\<close>

definition APPLI_SLOT_SIZE :: nat where "APPLI_SLOT_SIZE = 32"
definition ROUTE_TREE_SIZE :: nat where "ROUTE_TREE_SIZE = 2"
definition MAX_SRV6_LOCAL_SID_ADDR_NUM :: nat where "MAX_SRV6_LOCAL_SID_ADDR_NUM = 16"
definition NO_VLAN_SPECIFIED :: u16 where "NO_VLAN_SPECIFIED = 65535"
definition AF_INET :: int where "AF_INET = 2"

record application_slot_entry =
  as_name :: string
  as_ring :: ring
  is_packet_match :: "u8 list \<Rightarrow> bool"

record rib_info = q_info +
  ver :: u32
  port_size :: u8
  application_slot :: "application_slot_entry list"
  application_slot_size :: nat
  neigh_tables_of :: neigh_tables
  fdb_of :: fdb
  nexthop_of :: nexthop
  fib_tree_of :: "fib_tree option list"
  srv6_local_sid_addr :: "u8 list list"
  srv6_local_sid_addr_num :: nat

text \<open>
  The global variables: the RCU pointer (\<open>None\<close> is \<^verbatim>\<open>NULL\<close>, \<open>Some None\<close> a \<^verbatim>\<open>struct rib\<close> whose
  \<^verbatim>\<open>rib_info\<close> is \<^verbatim>\<open>NULL\<close>), the count of replacements, the RIB trees, the hash table of kernel
  next-hop ids, the rings, and the outcomes of the coming allocations.
\<close>

record rib_state =
  rcu_rib :: "rib_info option option"
  rib_rcu_replace :: nat
  rib_tree_master :: "rib_tree option list"
  kernel_nh_ht :: "(64 word, int) hash_table"
  all_rings :: rings
  heap :: mallocs

record rib_env =
  dev_count_avail :: u16
  lcore_count :: nat
  max_lcores :: nat
  link_status :: "nat \<Rightarrow> bool"
  ring_create :: "ring_name \<Rightarrow> ring"
  tap_open :: "string \<Rightarrow> int"
  tap_get_ifindex :: "string \<Rightarrow> int"
  startup_config_completed :: bool
  time_now :: int
  stack_byte :: u8

record internal_msg_txrx_desc =
  td_portid :: u16
  td_mtu :: u16
  td_nrxq :: u16
  td_ntxq :: u16
  td_nb_rxd :: u16
  td_nb_txd :: u16

record internal_msg_tap_dev =
  tap_vswitch_id :: u16
  tap_name :: string
  tap_vlan_id :: u16

record internal_msg_route_entry =
  mre_family :: int
  mre_table_id :: int
  mre_dst :: route_dst_info
  mre_is_nhid :: bool
  mre_nh :: internal_msg_nh_entry

record internal_msg_ip_addr =
  mip_ifname :: string
  mip_family :: int
  mip_is_ll_addr :: bool
  mip_addr :: "u8 list"

datatype rib_msg =
    MSG_PORT_GET_REQUEST u16
  | MSG_PORT_STATUS
  | MSG_QCONF "lcore_qconf list"
  | MSG_TXRX_DESC internal_msg_txrx_desc
  | MSG_NEIGH_ENTRY neigh_msg
  | MSG_VSWITCH_SET u16 u16
  | MSG_VSWITCH_NO_SET u16
  | MSG_VSWITCH_PORT_SET internal_msg_vswitch_port
  | MSG_VSWITCH_PORT_NO_SET internal_msg_vswitch_port
  | MSG_ROUTER_IF_SET internal_msg_tap_dev
  | MSG_ROUTER_IF_NO_SET internal_msg_tap_dev
  | MSG_CAPTURE_IF_SET internal_msg_tap_dev
  | MSG_CAPTURE_IF_NO_SET internal_msg_tap_dev
  | MSG_FDB_ENTRY_ADD "u8 list" u16 u16
  | MSG_APPLICATION_SLOT application_slot_entry
  | MSG_ROUTE_ENTRY_ADD internal_msg_route_entry
  | MSG_ROUTE_ENTRY_DEL internal_msg_route_entry
  | MSG_NEXTHOP_ENTRY_ADD internal_msg_nh_entry
  | MSG_NEXTHOP_ENTRY_DEL internal_msg_nh_entry
  | MSG_MAC_ADDR_ADD string "u8 list"
  | MSG_MAC_ADDR_DEL string "u8 list"
  | MSG_IP_ADDR_ADD internal_msg_ip_addr
  | MSG_IP_ADDR_DEL internal_msg_ip_addr
  | MSG_SRV6_LOCAL_SID "u8 list" u8
  | MSG_UNKNOWN

text \<open>How the case of a message ends: \<^verbatim>\<open>break\<close>, an early \<^verbatim>\<open>return\<close>, or a null pointer followed.\<close>

datatype rib_outcome = Break rib_state rib_info | Return rib_state | Crash

section \<open>Creation, publication\<close>

definition zero_rib_info :: "rib_env \<Rightarrow> rib_info" where
  "zero_rib_info env =
     \<lparr>vswitch_size = 0, vswitch_link_size = 0, vswitch = replicate MAX_VSWITCH zero_vswitch,
      vswitch_link = replicate MAX_VSWITCH_LINK zero_vswitch_link, port = replicate MAX_ETH_PORTS zero_port,
      lcore_size = 0,
      lcore_qconf_of = replicate (max_lcores env) \<lparr>lq_nrxq = 0, rx_queue_list = replicate 16 \<lparr>pq_port_id = 0, pq_queue_id = 0\<rparr>\<rparr>,
      ver = 0, port_size = 0,
      application_slot = replicate APPLI_SLOT_SIZE \<lparr>as_name = [], as_ring = None, is_packet_match = (\<lambda>_. False)\<rparr>,
      application_slot_size = 0,
      neigh_tables_of = (\<lambda>_. zero_neigh_table), fdb_of = replicate FDB_SIZE zero_fdb_entry,
      nexthop_of = nexthop.truncate nh_zero, fib_tree_of = replicate ROUTE_TREE_SIZE None,
      srv6_local_sid_addr = replicate MAX_SRV6_LOCAL_SID_ADDR_NUM (replicate 16 0), srv6_local_sid_addr_num = 0\<rparr>"

text \<open>\<^verbatim>\<open>rib_info_create\<close>; the allocations are the structure and then the FIB trees.\<close>

definition rib_info_create :: "rib_env \<Rightarrow> rib_info option \<Rightarrow> mallocs \<Rightarrow> rib_info option \<times> mallocs" where
  "rib_info_create env old ms =
     (case malloc_ok ms of
        (False, ms) \<Rightarrow> (None, ms)
      | (True, ms) \<Rightarrow>
          (let new = (case old of None \<Rightarrow> zero_rib_info env | Some r \<Rightarrow> r);
               (t0, ms) = fib_new None ms;
               (t1, ms) = fib_new None ms
           in (Some (new\<lparr>fib_tree_of := [t0, t1], ver := ver new + 1\<rparr>), ms)))"

text \<open>\<^verbatim>\<open>rib_create\<close>; \<open>None\<close> if the \<^verbatim>\<open>struct rib\<close> cannot be allocated.\<close>

definition rib_create :: "rib_env \<Rightarrow> rib_info option option \<Rightarrow> mallocs \<Rightarrow> rib_info option option \<times> mallocs" where
  "rib_create env old ms =
     (case malloc_ok ms of
        (False, ms) \<Rightarrow> (None, ms)
      | (True, ms) \<Rightarrow>
          (case rib_info_create env (case old of None \<Rightarrow> None | Some ri \<Rightarrow> ri) ms of (ri, ms) \<Rightarrow> (Some ri, ms)))"

definition rib_replace :: "rib_info option option \<Rightarrow> rib_state \<Rightarrow> rib_state" where
  "rib_replace new g = g\<lparr>rcu_rib := new, rib_rcu_replace := rib_rcu_replace g + 1\<rparr>"

section \<open>Ports and queues\<close>

definition upd_ports :: "nat \<Rightarrow> (nat \<Rightarrow> port_conf \<Rightarrow> port_conf) \<Rightarrow> 'a vs_info_scheme \<Rightarrow> 'a vs_info_scheme" where
  "upd_ports n f s = fold (\<lambda>i. upd_port i (f i)) [0..<n] s"

definition update_port_status :: "rib_env \<Rightarrow> rib_info \<Rightarrow> rib_info" where
  "update_port_status env new =
     (upd_ports (unat (dev_count_avail env))
        (\<lambda>i p. p\<lparr>pc_link_status := link_status env i, dpdk_port_id := of_nat i\<rparr>) new)
     \<lparr>port_size := ucast (dev_count_avail env), lcore_size := of_nat (lcore_count env)\<rparr>"

definition set_stop_flag :: "rib_env \<Rightarrow> rib_info \<Rightarrow> rib_info" where
  "set_stop_flag env = upd_ports (unat (dev_count_avail env)) (\<lambda>i p. p\<lparr>pc_is_stopped := True\<rparr>)"

definition delete_stop_flag :: "rib_env \<Rightarrow> rib_info \<Rightarrow> rib_info" where
  "delete_stop_flag env = upd_ports (unat (dev_count_avail env)) (\<lambda>i p. p\<lparr>pc_is_stopped := False\<rparr>)"

definition application_slot_add :: "application_slot_entry \<Rightarrow> rib_info \<Rightarrow> rib_info" where
  "application_slot_add e new =
     (if application_slot_size new = APPLI_SLOT_SIZE then new
      else new\<lparr>application_slot := (application_slot new)[application_slot_size new := e],
               application_slot_size := application_slot_size new + 1\<rparr>)"

text \<open>
  \<^verbatim>\<open>set_stop_flag (old); ret = rib_check (new); delete_stop_flag (old);\<close> on the published
  \<^verbatim>\<open>old\<close>; \<open>None\<close> if \<^verbatim>\<open>old\<close> or its \<^verbatim>\<open>rib_info\<close> is \<^verbatim>\<open>NULL\<close>.  The result is the state, the new
  \<^verbatim>\<open>rib_info\<close> and whether the check passed.
\<close>

definition stopped_check :: "rib_env \<Rightarrow> rib_state \<Rightarrow> rib_info \<Rightarrow> (rib_state \<times> rib_info \<times> bool) option" where
  "stopped_check env g new =
     (case rcu_rib g of
        Some (Some old) \<Rightarrow>
          (let g = g\<lparr>rcu_rib := Some (Some (delete_stop_flag env (set_stop_flag env old)))\<rparr>
           in case rib_check (ring_create env) (unat (dev_count_avail env)) (all_rings g) new of
                None \<Rightarrow> Some (g, new, False)
              | Some (rs, new, setups) \<Rightarrow> Some (g\<lparr>all_rings := rs\<rparr>, new, True))
      | _ \<Rightarrow> None)"

definition msg_qconf_copy :: "lcore_qconf list \<Rightarrow> nat \<Rightarrow> lcore_qconf list \<Rightarrow> lcore_qconf list" where
  "msg_qconf_copy msg n qs =
     fold (\<lambda>i qs. if lq_nrxq (msg ! i) \<noteq> 0
                   then qs[i := \<lparr>lq_nrxq = lq_nrxq (msg ! i),
                                rx_queue_list = take (lq_nrxq (msg ! i)) (rx_queue_list (msg ! i))
                                                @ drop (lq_nrxq (msg ! i)) (rx_queue_list (qs ! i))\<rparr>]
                   else qs) [0..<n] qs"

definition msg_qconf :: "rib_env \<Rightarrow> lcore_qconf list \<Rightarrow> rib_state \<Rightarrow> rib_info \<Rightarrow> rib_outcome" where
  "msg_qconf env msg g new =
     (let new = new\<lparr>lcore_size := of_nat (lcore_count env),
                    lcore_qconf_of := msg_qconf_copy msg (lcore_count env) (lcore_qconf_of new)\<rparr>
      in case stopped_check env g new of
           None \<Rightarrow> Crash
         | Some (g, new, False) \<Rightarrow> Return g
         | Some (g, new, True) \<Rightarrow>
             (case malloc_ok (heap g) of (ok, ms) \<Rightarrow>
                Break (if ok then rib_replace (Some None) (g\<lparr>heap := ms\<rparr>) else g\<lparr>heap := ms\<rparr>) new))"

definition msg_txrx_desc :: "rib_env \<Rightarrow> internal_msg_txrx_desc \<Rightarrow> rib_state \<Rightarrow> rib_info \<Rightarrow> rib_outcome" where
  "msg_txrx_desc env m g new =
     (let new = upd_port (unat (td_portid m)) (\<lambda>p.
            p\<lparr>pc_mtu := (if td_mtu m \<noteq> 0 then td_mtu m else pc_mtu p),
              pc_nrxq := (if td_nrxq m \<noteq> 0 then td_nrxq m else pc_nrxq p),
              pc_ntxq := (if td_ntxq m \<noteq> 0 then td_ntxq m else pc_ntxq p),
              pc_nb_rxd := (if td_nb_rxd m \<noteq> 0 then td_nb_rxd m else pc_nb_rxd p),
              pc_nb_txd := (if td_nb_txd m \<noteq> 0 then td_nb_txd m else pc_nb_txd p)\<rparr>) new
      in if \<not> startup_config_completed env then Break g new
         else
           (case rcu_rib g of
              None \<Rightarrow>
                (case rib_check (ring_create env) (unat (dev_count_avail env)) (all_rings g) new of
                   None \<Rightarrow> Break g new
                 | Some (rs, new, setups) \<Rightarrow> Break (g\<lparr>all_rings := rs\<rparr>) new)
            | Some _ \<Rightarrow>
                (case stopped_check env g new of
                   None \<Rightarrow> Crash
                 | Some (g, new, ok) \<Rightarrow> Break g new)))"

section \<open>TAP interfaces\<close>

definition msg_router_if_set :: "rib_env \<Rightarrow> internal_msg_tap_dev \<Rightarrow> rib_state \<Rightarrow> rib_info \<Rightarrow> rib_outcome" where
  "msg_router_if_set env m g new =
     (case vswitch_lookup new (tap_vswitch_id m) of
        None \<Rightarrow> Break g new
      | Some vi \<Rightarrow>
          (let new = upd_vswitch vi (\<lambda>v. v\<lparr>vs_router_if := (vs_router_if v)
                 \<lparr>rif_sockfd := tap_open env (tap_name m), rif_tap_ring_id := tap_vswitch_id m,
                  rif_tap_name := snprintf_s (rif_tap_name (vs_router_if v)) (tap_name m),
                  rif_vlan_id := (if tap_vlan_id m \<noteq> NO_VLAN_SPECIFIED then tap_vlan_id m else vs_vlan_id v),
                  rif_ifindex := tap_get_ifindex env (tap_name m)\<rparr>\<rparr>) new
           in case stopped_check env g new of
                None \<Rightarrow> Crash
              | Some (g, new, ok) \<Rightarrow> if ok then Break g new else Return g))"

definition msg_capture_if_set :: "rib_env \<Rightarrow> internal_msg_tap_dev \<Rightarrow> rib_state \<Rightarrow> rib_info \<Rightarrow> rib_outcome" where
  "msg_capture_if_set env m g new =
     (case vswitch_lookup new (tap_vswitch_id m) of
        None \<Rightarrow> Break g new
      | Some vi \<Rightarrow>
          (let new = upd_vswitch vi (\<lambda>v. v\<lparr>vs_capture_if := (vs_capture_if v)
                 \<lparr>cif_sockfd := tap_open env (tap_name m), cif_tap_ring_id := tap_vswitch_id m,
                  cif_tap_name := snprintf_s (cif_tap_name (vs_capture_if v)) (tap_name m)\<rparr>\<rparr>) new
           in case stopped_check env g new of
                None \<Rightarrow> Crash
              | Some (g, new, ok) \<Rightarrow> if ok then Break g new else Return g))"

text \<open>The loops over the switches that delete every interface of the given name.\<close>

definition no_set_loop ::
  "(if_rings \<Rightarrow> rib_info \<Rightarrow> u16 \<Rightarrow> (if_rings \<times> rib_info) option) \<Rightarrow> (vswitch_conf \<Rightarrow> string) \<Rightarrow> string
     \<Rightarrow> nat list \<Rightarrow> if_rings \<times> rib_info \<Rightarrow> (if_rings \<times> rib_info) option"
where
  "no_set_loop del name_of name is rs =
     fold (\<lambda>i acc. Option.bind acc (\<lambda>(rings, new).
         if c_string name = c_string (name_of (vswitch new ! i))
         then del rings new (vs_vswitch_id (vswitch new ! i)) else Some (rings, new))) is (Some rs)"

definition run_no_set :: "rib_state \<Rightarrow> (if_rings \<times> rib_info) option \<Rightarrow> rib_outcome" where
  "run_no_set g r =
     (case r of
        None \<Rightarrow> Crash
      | Some (rings, new) \<Rightarrow>
          Break (g\<lparr>all_rings := if_rings.extend rings (if_rings.more (all_rings g))\<rparr>) new)"

definition msg_router_if_no_set :: "internal_msg_tap_dev \<Rightarrow> rib_state \<Rightarrow> rib_info \<Rightarrow> rib_outcome" where
  "msg_router_if_no_set m g new =
     run_no_set g (no_set_loop router_if_delete (\<lambda>v. rif_tap_name (vs_router_if v)) (tap_name m)
       [0..<vswitch_size new] (if_rings.truncate (all_rings g), new))"

definition msg_capture_if_no_set :: "internal_msg_tap_dev \<Rightarrow> rib_state \<Rightarrow> rib_info \<Rightarrow> rib_outcome" where
  "msg_capture_if_no_set m g new =
     run_no_set g (no_set_loop capture_if_delete (\<lambda>v. cif_tap_name (vs_capture_if v)) (tap_name m)
       [0..<vswitch_size new] (if_rings.truncate (all_rings g), new))"

definition find_router_if :: "rib_info \<Rightarrow> (vswitch_conf \<Rightarrow> bool) \<Rightarrow> nat option" where
  "find_router_if new P = List.find (\<lambda>i. P (vswitch new ! i)) [0..<vswitch_size new]"

definition upd_router_if :: "rib_info \<Rightarrow> nat option \<Rightarrow> (router_if \<Rightarrow> router_if) \<Rightarrow> rib_info" where
  "upd_router_if new io f =
     (case io of None \<Rightarrow> new | Some i \<Rightarrow> upd_vswitch i (\<lambda>v. v\<lparr>vs_router_if := f (vs_router_if v)\<rparr>) new)"

definition msg_mac_addr_add :: "string \<Rightarrow> u8 list \<Rightarrow> rib_info \<Rightarrow> rib_info" where
  "msg_mac_addr_add ifname mac new =
     upd_router_if new (find_router_if new (\<lambda>v. rif_tap_name (vs_router_if v) = ifname)) (\<lambda>r. r\<lparr>rif_mac_addr := mac\<rparr>)"

definition msg_mac_addr_del :: "string \<Rightarrow> u8 list \<Rightarrow> rib_info \<Rightarrow> rib_info" where
  "msg_mac_addr_del ifname mac new =
     upd_router_if new
       (find_router_if new (\<lambda>v. rif_tap_name (vs_router_if v) = ifname \<and> rif_mac_addr (vs_router_if v) \<noteq> mac))
       (\<lambda>r. r\<lparr>rif_mac_addr := replicate 6 0\<rparr>)"

definition msg_ip_addr_add :: "internal_msg_ip_addr \<Rightarrow> rib_info \<Rightarrow> rib_info" where
  "msg_ip_addr_add m new =
     upd_router_if new (find_router_if new (\<lambda>v. rif_tap_name (vs_router_if v) = mip_ifname m))
       (\<lambda>r. if mip_family m = AF_INET then r\<lparr>rif_ipv4_addr := take 4 (mip_addr m)\<rparr>
            else if mip_is_ll_addr m then r\<lparr>rif_ll_addr := mip_addr m\<rparr>
            else r\<lparr>rif_ipv6_addr := mip_addr m\<rparr>)"

definition msg_ip_addr_del :: "internal_msg_ip_addr \<Rightarrow> rib_info \<Rightarrow> rib_info" where
  "msg_ip_addr_del m new =
     upd_router_if new (find_router_if new (\<lambda>v. rif_tap_name (vs_router_if v) = mip_ifname m))
       (\<lambda>r. if mip_family m = AF_INET then
              (if rif_ipv4_addr r = take 4 (mip_addr m) then r\<lparr>rif_ipv4_addr := replicate 4 0\<rparr> else r)
            else if mip_is_ll_addr m then
              (if rif_ll_addr r = mip_addr m then r\<lparr>rif_ll_addr := replicate 16 0\<rparr> else r)
            else (if rif_ipv6_addr r = mip_addr m then r\<lparr>rif_ipv6_addr := replicate 16 0\<rparr> else r))"

section \<open>Routes and next hops\<close>

definition route_table_lookup_id :: "rib_tree option list \<Rightarrow> int \<Rightarrow> int \<Rightarrow> int" where
  "route_table_lookup_id trees table_id family =
     int_of_slot (List.find (\<lambda>i. case trees ! i of None \<Rightarrow> False
                                | Some t \<Rightarrow> rt_family t = family \<and> rt_table_id t = table_id) [0..<ROUTE_TREE_SIZE])"

definition route_table_alloc_slot :: "int \<Rightarrow> int \<Rightarrow> rib_state \<Rightarrow> rib_state \<times> int" where
  "route_table_alloc_slot table_id family g =
     (case List.find (\<lambda>i. rib_tree_master g ! i = None) [0..<ROUTE_TREE_SIZE] of
        None \<Rightarrow> (g, -1)
      | Some i \<Rightarrow>
          (case rib_new None (heap g) of
             (None, ms) \<Rightarrow> (g\<lparr>heap := ms\<rparr>, -1)
           | (Some t, ms) \<Rightarrow>
               (g\<lparr>heap := ms, rib_tree_master := (rib_tree_master g)
                    [i := Some (t\<lparr>rt_family := family, rt_table_id := table_id\<rparr>)]\<rparr>, int i)))"

definition load_nh :: "rib_state \<Rightarrow> rib_info \<Rightarrow> nh_state" where
  "load_nh g new = nexthop.extend (nexthop_of new) (nh_state.fields (kernel_nh_ht g))"

definition store_nh :: "nh_state \<Rightarrow> rib_state \<Rightarrow> rib_info \<Rightarrow> rib_state \<times> rib_info" where
  "store_nh st g new = (g\<lparr>kernel_nh_ht := nh_ht st\<rparr>, new\<lparr>nexthop_of := nexthop.truncate st\<rparr>)"

text \<open>The part of the ROUTE_ENTRY_ADD case after the next hop is registered as \<open>nh_id\<close>.\<close>

definition route_install :: "internal_msg_route_entry \<Rightarrow> int \<Rightarrow> rib_state \<Rightarrow> rib_state" where
  "route_install m nh_id g =
     (let i = route_table_lookup_id (rib_tree_master g) (mre_table_id m) (mre_family m);
          (g, i) = (if i < 0 then route_table_alloc_slot (mre_table_id m) (mre_family m) g else (g, i))
      in if i < 0 then g
         else
           (case rib_tree_master g ! nat i of
              None \<Rightarrow> g
            | Some t \<Rightarrow>
                (case rib_route_add t (bytes_at (dst_ip_addr (mre_dst m))) (plen (mre_dst m))
                        \<lparr>re_dst = mre_dst m, re_sdplane_nh_id = nh_id\<rparr> (heap g) of
                   (t, ret, ms) \<Rightarrow>
                     g\<lparr>heap := ms, rib_tree_master := (rib_tree_master g)[nat i := Some t]\<rparr>)))"

definition msg_route_entry_add :: "internal_msg_route_entry \<Rightarrow> rib_state \<Rightarrow> rib_info \<Rightarrow> rib_state \<times> rib_info" where
  "msg_route_entry_add m g new =
     (case nexthop_add_entry (mre_nh m) (load_nh g new, heap g) of
        (nh_id, st, ms) \<Rightarrow>
          if nh_id < 0 then store_nh st (g\<lparr>heap := ms\<rparr>) new
          else
            (case store_nh (nexthop_increment_refcnt st nh_id) (g\<lparr>heap := ms\<rparr>) new of
               (g, new) \<Rightarrow> (route_install m nh_id g, new)))"

definition route_withdraw :: "internal_msg_route_entry \<Rightarrow> rib_state \<Rightarrow> rib_state" where
  "route_withdraw m g =
     (let i = route_table_lookup_id (rib_tree_master g) (mre_table_id m) (mre_family m)
      in if i < 0 then g
         else
           (case rib_tree_master g ! nat i of
              None \<Rightarrow> g
            | Some t \<Rightarrow>
                g\<lparr>rib_tree_master := (rib_tree_master g)
                   [nat i := Some (fst (rib_route_delete t (bytes_at (dst_ip_addr (mre_dst m))) (plen (mre_dst m))))]\<rparr>))"

definition msg_route_entry_del :: "internal_msg_route_entry \<Rightarrow> rib_state \<Rightarrow> rib_info \<Rightarrow> rib_state \<times> rib_info" where
  "msg_route_entry_del m g new =
     (let st = load_nh g new;
          (st, nh_id) = (if mre_is_nhid m
                         then (st, nexthop_get_index_by_nhid st (msg_kernel_nh_id (mre_nh m)))
                         else nexthop_del_entry st (mre_nh m))
      in case store_nh (nexthop_decrement_refcnt st nh_id) g new of
           (g, new) \<Rightarrow> (if nh_id < 0 then g else route_withdraw m g, new))"

definition msg_nexthop_entry_add :: "internal_msg_nh_entry \<Rightarrow> rib_state \<Rightarrow> rib_info \<Rightarrow> rib_state \<times> rib_info" where
  "msg_nexthop_entry_add nh g new =
     (case nexthop_add_entry nh (load_nh g new, heap g) of (nh_id, st, ms) \<Rightarrow> store_nh st (g\<lparr>heap := ms\<rparr>) new)"

definition msg_nexthop_entry_del :: "internal_msg_nh_entry \<Rightarrow> rib_state \<Rightarrow> rib_info \<Rightarrow> rib_state \<times> rib_info" where
  "msg_nexthop_entry_del nh g new =
     (case nexthop_del_entry (load_nh g new) nh of (st, nh_id) \<Rightarrow> store_nh st g new)"

definition msg_srv6_local_sid :: "u8 list \<Rightarrow> u8 \<Rightarrow> rib_info \<Rightarrow> rib_info" where
  "msg_srv6_local_sid addr index new =
     (if srv6_local_sid_addr_num new < MAX_SRV6_LOCAL_SID_ADDR_NUM \<and> unat index \<le> srv6_local_sid_addr_num new
      then new\<lparr>srv6_local_sid_addr := (srv6_local_sid_addr new)[unat index := addr],
               srv6_local_sid_addr_num :=
                 (if unat index = srv6_local_sid_addr_num new then srv6_local_sid_addr_num new + 1
                  else srv6_local_sid_addr_num new)\<rparr>
      else new)"

section \<open>Message processing\<close>

text \<open>
  \<^verbatim>\<open>rib_manager_process_port_get\<close> makes and publishes a copy of its own (without rebuilding
  the FIB trees) and the caller returns at once.
\<close>

definition rib_manager_process_port_get :: "rib_env \<Rightarrow> u16 \<Rightarrow> rib_state \<Rightarrow> rib_outcome" where
  "rib_manager_process_port_get env port_id g =
     (case rib_create env (rcu_rib g) (heap g) of
        (Some (Some new), ms) \<Rightarrow>
          Return (rib_replace (Some (Some (upd_port (unat port_id)
              (\<lambda>p. p\<lparr>dpdk_port_id := port_id, pc_link_status := link_status env (unat port_id)\<rparr>) new)))
            (g\<lparr>heap := ms\<rparr>))
      | _ \<Rightarrow> Crash)"

definition rib_manager_handle :: "rib_env \<Rightarrow> rib_msg \<Rightarrow> rib_state \<Rightarrow> rib_info \<Rightarrow> rib_outcome" where
  "rib_manager_handle env msg g new =
     (case msg of
        MSG_PORT_GET_REQUEST port_id \<Rightarrow> rib_manager_process_port_get env port_id g
      | MSG_PORT_STATUS \<Rightarrow> Break g (update_port_status env new)
      | MSG_QCONF m \<Rightarrow> msg_qconf env m g new
      | MSG_TXRX_DESC m \<Rightarrow> msg_txrx_desc env m g new
      | MSG_NEIGH_ENTRY m \<Rightarrow> Break g (new\<lparr>neigh_tables_of := rib_neigh_apply m (neigh_tables_of new)\<rparr>)
      | MSG_VSWITCH_SET vswitch_id vlan_id \<Rightarrow> Break g (msg_vswitch_set vswitch_id vlan_id new)
      | MSG_VSWITCH_NO_SET vswitch_id \<Rightarrow> run_no_set g (msg_vswitch_no_set vswitch_id (if_rings.truncate (all_rings g), new))
      | MSG_VSWITCH_PORT_SET m \<Rightarrow> Break g (msg_vswitch_port_set m new)
      | MSG_VSWITCH_PORT_NO_SET m \<Rightarrow>
          (case msg_vswitch_port_no_set m new of None \<Rightarrow> Crash | Some new \<Rightarrow> Break g new)
      | MSG_ROUTER_IF_SET m \<Rightarrow> msg_router_if_set env m g new
      | MSG_ROUTER_IF_NO_SET m \<Rightarrow> msg_router_if_no_set m g new
      | MSG_CAPTURE_IF_SET m \<Rightarrow> msg_capture_if_set env m g new
      | MSG_CAPTURE_IF_NO_SET m \<Rightarrow> msg_capture_if_no_set m g new
      | MSG_FDB_ENTRY_ADD mac vlan_id prt \<Rightarrow>
          Break g (new\<lparr>fdb_of := fst (fdb_add_entry (time_now env) (fdb_of new) mac vlan_id (int (unat prt)))\<rparr>)
      | MSG_APPLICATION_SLOT e \<Rightarrow> Break g (application_slot_add e new)
      | MSG_ROUTE_ENTRY_ADD m \<Rightarrow> (case msg_route_entry_add m g new of (g, new) \<Rightarrow> Break g new)
      | MSG_ROUTE_ENTRY_DEL m \<Rightarrow> (case msg_route_entry_del m g new of (g, new) \<Rightarrow> Break g new)
      | MSG_NEXTHOP_ENTRY_ADD m \<Rightarrow> (case msg_nexthop_entry_add m g new of (g, new) \<Rightarrow> Break g new)
      | MSG_NEXTHOP_ENTRY_DEL m \<Rightarrow> (case msg_nexthop_entry_del m g new of (g, new) \<Rightarrow> Break g new)
      | MSG_MAC_ADDR_ADD ifname mac \<Rightarrow> Break g (msg_mac_addr_add ifname mac new)
      | MSG_MAC_ADDR_DEL ifname mac \<Rightarrow> Break g (msg_mac_addr_del ifname mac new)
      | MSG_IP_ADDR_ADD m \<Rightarrow> Break g (msg_ip_addr_add m new)
      | MSG_IP_ADDR_DEL m \<Rightarrow> Break g (msg_ip_addr_del m new)
      | MSG_SRV6_LOCAL_SID addr index \<Rightarrow> Break g (msg_srv6_local_sid addr index new)
      | MSG_UNKNOWN \<Rightarrow> Break g new)"

text \<open>
  One pass of the final loop; a rebuild that reports an error still leaves the tree it made.
  The rebuild itself always ends; the model's fuel is enough for every prefix length the
  code can store, and \<open>None\<close> stands for running out of it.
\<close>

definition rebuild_slot :: "rib_env \<Rightarrow> nat \<Rightarrow> (rib_state \<times> rib_info) option \<Rightarrow> (rib_state \<times> rib_info) option" where
  "rebuild_slot env i gn = Option.bind gn (\<lambda>(g, new).
     case (rib_tree_master g ! i, fib_tree_of new ! i) of
       (Some rib_t, Some fib_t) \<Rightarrow>
         if rt_family rib_t = 0 then Some (g, new)
         else
           (case rebuild_fib_from_rib (stack_byte env) rib_t fib_t (heap g) of
              (ret, cnt, None) \<Rightarrow> None
            | (ret, cnt, Some (fib_t, ms)) \<Rightarrow>
                Some (g\<lparr>heap := ms\<rparr>, new\<lparr>fib_tree_of := (fib_tree_of new)[i := Some fib_t]\<rparr>))
     | _ \<Rightarrow> Some (g, new))"

text \<open>
  The whole handler.  \<open>None\<close>: the program followed a null pointer (also when the copy could
  not be allocated).
\<close>

definition rib_manager_process_message :: "rib_env \<Rightarrow> rib_msg \<Rightarrow> rib_state \<Rightarrow> rib_state option" where
  "rib_manager_process_message env msg g =
     (case rib_create env (rcu_rib g) (heap g) of
        (Some (Some new), ms) \<Rightarrow>
          (case rib_manager_handle env msg (g\<lparr>heap := ms\<rparr>) new of
             Crash \<Rightarrow> None
           | Return g \<Rightarrow> Some g
           | Break g new \<Rightarrow>
               (case fold (rebuild_slot env) [0..<ROUTE_TREE_SIZE] (Some (g, new)) of
                  None \<Rightarrow> None
                | Some (g, new) \<Rightarrow> Some (rib_replace (Some (Some new)) g)))
      | _ \<Rightarrow> None)"

text \<open>One pass of the main loop: a burst of messages, then the ageing of the FDB every minute.\<close>

definition rib_manager_iteration ::
  "rib_env \<Rightarrow> rib_msg list \<Rightarrow> rib_state \<times> int \<Rightarrow> (rib_state \<times> int) option"
where
  "rib_manager_iteration env msgs gl =
     (case gl of (g, last_fdb_aging_time) \<Rightarrow>
        case fold (\<lambda>m acc. Option.bind acc (rib_manager_process_message env m)) msgs (Some g) of
          None \<Rightarrow> None
        | Some g \<Rightarrow>
            (case rcu_rib g of
               Some (Some r) \<Rightarrow>
                 if 60 \<le> time_now env - last_fdb_aging_time
                 then Some (g\<lparr>rcu_rib := Some (Some (r\<lparr>fdb_of := fdb_aging_process (time_now env) (fdb_of r) FDB_AGING_TIME_DEFAULT\<rparr>))\<rparr>,
                            time_now env)
                 else Some (g, last_fdb_aging_time)
             | _ \<Rightarrow> Some (g, last_fdb_aging_time)))"

definition rib_manager_start :: rib_state where
  "rib_manager_start =
     \<lparr>rcu_rib = None, rib_rcu_replace = 0, rib_tree_master = replicate ROUTE_TREE_SIZE None,
      kernel_nh_ht = nh_ht nh_start,
      all_rings = \<lparr>router_if_ring_up = (\<lambda>_. None), router_if_ring_dn = (\<lambda>_. None), capture_if_ring_up = (\<lambda>_. None),
        capture_if_ring_dn = (\<lambda>_. None), ring_up = (\<lambda>_. None), ring_dn = (\<lambda>_. None)\<rparr>,
      heap = []\<rparr>"

section \<open>What the switch operations leave alone\<close>

named_theorems more_simps \<open>the part of the record after the switch tables\<close>

lemma upd_more [more_simps]:
  "vs_info.more (upd_vswitch i f s) = vs_info.more s" "vs_info.more (upd_link i g s) = vs_info.more s"
  "vs_info.more (upd_port i h s) = vs_info.more s"
  by (simp_all add: upd_vswitch_def upd_link_def upd_port_def)

lemma upd_ports_more [more_simps]: "vs_info.more (upd_ports n f s) = vs_info.more s"
proof -
  have "vs_info.more (fold (\<lambda>i. upd_port i (f i)) is s) = vs_info.more s" for "is"
    by (induction "is" arbitrary: s) (simp_all add: upd_more)
  then show ?thesis by (simp add: upd_ports_def)
qed

lemma vswitch_new_more [more_simps]: "vs_info.more (fst (vswitch_new s vid vlan)) = vs_info.more s"
  by (simp add: vswitch_new_def upd_more split: option.splits)

lemma vswitch_link_new_more [more_simps]: "vs_info.more (fst (vswitch_link_new s vi pi)) = vs_info.more s"
proof -
  obtain s1 lo where l: "link_slot s = (s1, lo)" by fastforce
  then have "vs_info.more s1 = vs_info.more s" by (auto simp: link_slot_def upd_more split: option.splits if_splits)
  with l show ?thesis by (cases lo) (simp_all add: vswitch_link_new_def Let_def upd_more)
qed

lemma vswitch_link_delete_more:
  "vswitch_link_delete s l = Some s' \<Longrightarrow> vs_info.more s' = vs_info.more s"
proof -
  have fold: "vs_info.more (fold (\<lambda>i s. if P i s then upd_link i f s else s) is s) = vs_info.more s" for P f "is" and s :: "'a vs_info_scheme"
    by (induction "is" arbitrary: s) (simp_all add: upd_more)
  assume "vswitch_link_delete s l = Some s'"
  then show ?thesis by (auto simp: vswitch_link_delete_def Let_def upd_more fold split: option.splits)
qed

lemma vswitch_delete_links_more:
  assumes "vswitch_delete_links s vi = Some s'"
  shows "vs_info.more s' = vs_info.more s"
proof (rule vswitch_delete_links.raw_induct [OF _ assms, where P = "\<lambda>s vi s'. vs_info.more s' = vs_info.more s"])
  fix rec :: "'a vs_info_scheme \<Rightarrow> nat \<Rightarrow> 'a vs_info_scheme option" and s vi s'
  assume "\<And>s vi s'. rec s vi = Some s' \<Longrightarrow> vs_info.more s' = vs_info.more s"
    and "(if 0 < vs_port_size (vswitch s ! vi)
          then Option.bind (vswitch_link_delete s (vs_link_id (vswitch s ! vi) ! 0)) (\<lambda>s. rec s vi) else Some s) = Some s'"
  then show "vs_info.more s' = vs_info.more s"
    by (auto simp: bind_eq_Some_conv split: if_splits dest: vswitch_link_delete_more)
qed

lemma router_if_delete_more:
  "router_if_delete r s vid = Some (r', s') \<Longrightarrow> vs_info.more s' = vs_info.more s"
  "capture_if_delete r s vid = Some (r', s') \<Longrightarrow> vs_info.more s' = vs_info.more s"
  by (auto simp: router_if_delete_def capture_if_delete_def upd_more split: option.splits)

lemma vswitch_delete_more: "vswitch_delete r s vid = Some (r', s') \<Longrightarrow> vs_info.more s' = vs_info.more s"
  by (auto simp: vswitch_delete_def bind_eq_Some_conv upd_more split: option.splits if_splits prod.splits
      dest!: vswitch_delete_links_more router_if_delete_more)

lemma msg_vswitch_more [more_simps]:
  "vs_info.more (msg_vswitch_set vid vlan s) = vs_info.more s"
  "vs_info.more (msg_vswitch_port_set m s) = vs_info.more s"
proof -
  show "vs_info.more (msg_vswitch_set vid vlan s) = vs_info.more s" by (simp add: msg_vswitch_set_def vswitch_new_more)
  show "vs_info.more (msg_vswitch_port_set m s) = vs_info.more s"
  proof (cases "vswitch_lookup s (mvp_vswitch_id m)")
    case (Some vi)
    obtain s1 lo where n: "vswitch_link_new s vi (unat (mvp_port_id m)) = (s1, lo)" by fastforce
    with vswitch_link_new_more [of s vi "unat (mvp_port_id m)"] have "vs_info.more s1 = vs_info.more s" by simp
    with Some n show ?thesis
      by (cases lo) (simp_all add: msg_vswitch_port_set_def Let_def port_set_native_vlan_def port_add_tagged_vlan_def upd_more)
  qed (simp add: msg_vswitch_port_set_def)
qed

lemma make_vswitch_rings_more:
  "make_vswitch_rings mk (rs, s) = (rs', s') \<Longrightarrow> vs_info.more s' = vs_info.more s"
proof -
  define f where "f = (\<lambda>i (rs_s :: rings \<times> 'a q_info_scheme). if vs_vlan_id (vswitch (snd rs_s) ! i) = 0 then rs_s
                    else make_capture_rings mk i (make_router_rings mk i rs_s))"
  have "vs_info.more (snd (f i x)) = vs_info.more (snd x)" for i x
    by (cases x) (auto simp: f_def make_capture_rings_def make_router_rings_def Let_def upd_more split: prod.splits)
  then have fold: "vs_info.more (snd (fold f is x)) = vs_info.more (snd x)" for "is" x by (induction "is" arbitrary: x) auto
  assume "make_vswitch_rings mk (rs, s) = (rs', s')"
  then have "fold f [0..<vswitch_size s] (rs, s) = (rs', s')" by (simp add: make_vswitch_rings_def f_def)
  with fold [of "[0..<vswitch_size s]" "(rs, s)"] show ?thesis by simp
qed

lemma rib_check_more: "rib_check mk n rs s = Some (rs', s', ps) \<Longrightarrow> vs_info.more s' = vs_info.more s"
  using make_vswitch_rings_more [OF rib_check_Some] by blast

lemma no_set_loop_more:
  assumes "\<And>r s vid r' s'. del r s vid = Some (r', s') \<Longrightarrow> vs_info.more s' = vs_info.more s"
  shows "no_set_loop del nm name is (r, s) = Some (r', s') \<Longrightarrow> vs_info.more s' = vs_info.more s"
proof (induction "is" arbitrary: r s)
  case (Cons i "is")
  obtain b where b: "(if c_string name = c_string (nm (vswitch s ! i)) then del r s (vs_vswitch_id (vswitch s ! i)) else Some (r, s)) = b"
    by blast
  have none: "fold (\<lambda>i acc. Option.bind acc (\<lambda>(rings, new).
         if c_string name = c_string (nm (vswitch new ! i))
         then del rings new (vs_vswitch_id (vswitch new ! i)) else Some (rings, new))) is None = None" for "is"
    by (induction "is") auto
  show ?case
  proof (cases b)
    case None
    with Cons.prems b none show ?thesis by (simp add: no_set_loop_def split: if_splits)
  next
    case (Some x)
    then obtain r1 s1 where x: "b = Some (r1, s1)" by (cases x) auto
    with b have "vs_info.more s1 = vs_info.more s" using assms by (auto split: if_splits)
    with Cons.IH [of r1 s1] Cons.prems b x show ?thesis by (simp add: no_set_loop_def split: if_splits)
  qed
qed (simp add: no_set_loop_def)

lemma rib_info_more_eq:
  fixes s t :: rib_info
  assumes "vs_info.more s = vs_info.more t"
  shows "fib_tree_of s = fib_tree_of t" "nexthop_of s = nexthop_of t" "neigh_tables_of s = neigh_tables_of t"
    "fdb_of s = fdb_of t" "srv6_local_sid_addr s = srv6_local_sid_addr t" "srv6_local_sid_addr_num s = srv6_local_sid_addr_num t"
    "application_slot s = application_slot t" "application_slot_size s = application_slot_size t" "lcore_qconf_of s = lcore_qconf_of t"
  using assms by (cases s; cases t; simp)+

section \<open>Invariant of the routes\<close>

lemma malloc_ok_never_fails: "malloc_ok ms = (ok, ms') \<Longrightarrow> never_fails ms \<Longrightarrow> ok \<and> never_fails ms'"
  using malloc_never_fails by fastforce

definition nh_heap_ok :: "nh_add \<Rightarrow> bool" where
  "nh_heap_ok rec \<longleftrightarrow> (\<forall>nh st ms r st' ms'. rec nh (st, ms) = (r, st', ms') \<longrightarrow> never_fails ms \<longrightarrow> never_fails ms')"

lemma add_member_heap:
  assumes "nh_heap_ok rec" "add_member rec nh slot i (st, ms) = (ok, st', ms')" "never_fails ms"
  shows "never_fails ms'"
  using assms unfolding nh_heap_ok_def add_member_def
  by (auto simp: Let_def split: if_splits prod.splits)

lemma add_members_heap:
  assumes "nh_heap_ok rec" "add_members rec nh slot i k (st, ms) = (ok, st', ms')" "never_fails ms"
  shows "never_fails ms'"
  using assms(2,3)
proof (induction k arbitrary: i st ms)
  case (Suc k)
  obtain ok1 st1 ms1 where 1: "add_member rec nh slot i (st, ms) = (ok1, st1, ms1)" by (metis prod_cases3)
  from add_member_heap [OF assms(1) 1 Suc.prems(2)] Suc.IH [of "Suc i" st1 ms1] Suc.prems(1) 1 show ?case
    by (auto split: if_splits)
qed simp

lemma hash_table_insert_heap:
  "hash_table_insert t k v ms = (t', r, ms') \<Longrightarrow> never_fails ms \<Longrightarrow> never_fails ms'"
  by (auto simp: hash_table_insert_def Let_def split: if_splits prod.splits option.splits list.splits dest: malloc_ok_never_fails)

lemma create_group_heap:
  assumes "nh_heap_ok rec" "create_group rec nh (st, ms) = (r, st', ms')" "never_fails ms"
  shows "never_fails ms'"
  using assms(2,3) unfolding create_group_def
  by (auto simp: Let_def split: if_splits prod.splits dest: add_members_heap [OF assms(1)] hash_table_insert_heap)

lemma nexthop_add_entry_heap:
  assumes "nexthop_add_entry nh (st, ms) = (r, st', ms')" "never_fails ms"
  shows "never_fails ms'"
proof -
  have body: "nh_heap_ok rec \<Longrightarrow> nh_heap_ok (nexthop_add_body rec)" for rec
    unfolding nh_heap_ok_def [of "nexthop_add_body rec"] nexthop_add_body_def
    by (auto simp: Let_def split: if_splits dest: create_group_heap)
  have "nh_heap_ok (nexthop_add_body (nexthop_add_body (\<lambda>nh sm. (-1, sm))))"
    by (intro body) (simp add: nh_heap_ok_def)
  then show ?thesis using assms unfolding nexthop_add_entry_def nh_heap_ok_def by blast
qed

lemma radix_delete_subset:
  "rib_map (fst (radix_delete n key keylen depth success)) p = Some e \<Longrightarrow> rib_map n p = Some e"
proof (induction n arbitrary: depth p)
  case (RNode v x l r)
  from RNode.IH(1) [of "Suc depth"] RNode.IH(2) [of "Suc depth"] RNode.prems show ?case
    by (cases "BIT_CHECK key depth \<noteq> 0"; cases "depth = keylen")
      (auto simp: rib_map_RNode simp del: radix_shrink.simps split: if_splits prod.splits list.splits)
qed simp

lemma rib_route_delete_subset:
  "rib_routes (fst (rib_route_delete t key keylen)) p = Some e \<Longrightarrow> rib_routes t p = Some e"
  using radix_delete_subset [of "rt_root t" key keylen 0 0 p e]
  by (auto simp: rib_route_delete_def rib_routes_def split: prod.splits)

lemma rib_route_add_cases:
  assumes "rib_route_add t key keylen data ms = (t', ret, ms')"
  shows "rt_family t' = rt_family t \<and> rt_table_id t' = rt_table_id t \<and> (never_fails ms \<longrightarrow> never_fails ms')
    \<and> (\<forall>p e. rib_routes t' p = Some e \<longrightarrow> rib_routes t p = Some e \<or> p = key_bits key 0 keylen \<and> e = data)"
proof -
  obtain n' where n': "radix_add (rt_root t) key keylen data 0 0 ms = (n', ret, ms')"
      "t' = t\<lparr>rt_root := n'\<rparr>"
    using assms by (auto simp: rib_route_add_def split: prod.splits)
  from radix_add_spec [OF n'(1)] n'(2) show ?thesis by (auto simp: rib_routes_def split: if_splits)
qed

text \<open>
  A RIB tree is in order if it has a family, its routes are filed under their own prefixes
  of at most 128 bits and their next hops are group slots.
\<close>

definition tree_ok :: "rib_tree \<Rightarrow> bool" where
  "tree_ok t \<longleftrightarrow> rt_family t \<noteq> 0 \<and> rib_consistent (rib_routes t)
     \<and> (\<forall>p e. rib_routes t p = Some e \<longrightarrow> 0 \<le> re_sdplane_nh_id e \<and> re_sdplane_nh_id e < int MAX_NEXTHOP_GRP_SIZE)"

definition routes_ok :: "rib_state \<Rightarrow> bool" where
  "routes_ok g \<longleftrightarrow> length (rib_tree_master g) = ROUTE_TREE_SIZE
     \<and> (\<forall>t. Some t \<in> set (rib_tree_master g) \<longrightarrow> tree_ok t) \<and> never_fails (heap g)"

lemma set_update_Some: "Some t \<in> set (xs[i := Some t']) \<Longrightarrow> t = t' \<or> Some t \<in> set xs"
  using set_update_subset_insert by fastforce

lemma tree_ok_add:
  assumes "tree_ok t" "rib_route_add t (bytes_at (dst_ip_addr d)) (plen d) \<lparr>re_dst = d, re_sdplane_nh_id = nh\<rparr> ms = (t', ret, ms')"
    and "plen d \<le> 128 \<and> length (dst_ip_addr d) = 16" "0 \<le> nh" "nh < int MAX_NEXTHOP_GRP_SIZE"
  shows "tree_ok t'"
proof -
  note c = rib_route_add_cases [OF assms(2)]
  have "p = key_bits (bytes_at (dst_ip_addr (re_dst e))) 0 (plen (re_dst e)) \<and> plen (re_dst e) \<le> 128 \<and> length (dst_ip_addr (re_dst e)) = 16
      \<and> 0 \<le> re_sdplane_nh_id e \<and> re_sdplane_nh_id e < int MAX_NEXTHOP_GRP_SIZE" if "rib_routes t' p = Some e" for p e
  proof -
    from c that consider "rib_routes t p = Some e" | "p = key_bits (bytes_at (dst_ip_addr d)) 0 (plen d)" "e = \<lparr>re_dst = d, re_sdplane_nh_id = nh\<rparr>"
      by blast
    then show ?thesis
    proof cases
      case 1
      then show ?thesis using assms(1) unfolding tree_ok_def rib_consistent_def by blast
    next
      case 2
      then show ?thesis using assms(3-5) by simp
    qed
  qed
  then show ?thesis using c assms(1) unfolding tree_ok_def rib_consistent_def by simp
qed

lemma tree_ok_delete: "tree_ok t \<Longrightarrow> tree_ok (fst (rib_route_delete t key keylen))"
proof -
  assume t: "tree_ok t"
  have "rt_family (fst (rib_route_delete t key keylen)) = rt_family t"
    by (simp add: rib_route_delete_def split: prod.splits)
  with t show ?thesis
    unfolding tree_ok_def rib_consistent_def using rib_route_delete_subset by (metis (no_types, lifting))
qed

lemma route_table_lookup_id_less: "route_table_lookup_id ts tid fam < int ROUTE_TREE_SIZE"
  by (auto simp: route_table_lookup_id_def int_of_slot_def ROUTE_TREE_SIZE_def split: option.splits dest!: find_upt_Some)

lemma route_table_alloc_slot_ok:
  assumes "routes_ok g" "fam \<noteq> 0" "route_table_alloc_slot tid fam g = (g', i)"
  shows "routes_ok g' \<and> rcu_rib g' = rcu_rib g \<and> kernel_nh_ht g' = kernel_nh_ht g \<and> rib_rcu_replace g' = rib_rcu_replace g"
proof -
  have empty: "tree_ok \<lparr>rt_family = fam, rt_table_id = tid, rt_root = RNull\<rparr>"
    using assms(2) by (simp add: tree_ok_def rib_consistent_def rib_routes_def)
  show ?thesis using assms(1,3) empty
    by (auto simp: route_table_alloc_slot_def routes_ok_def rib_new_def split: option.splits prod.splits if_splits
        dest: malloc_ok_never_fails dest!: set_update_Some)
qed

lemma route_install_ok:
  assumes ok: "routes_ok g" and m: "mre_family m \<noteq> 0" "plen (mre_dst m) \<le> 128 \<and> length (dst_ip_addr (mre_dst m)) = 16"
    and nh: "0 \<le> nh" "nh < int MAX_NEXTHOP_GRP_SIZE"
  shows "routes_ok (route_install m nh g) \<and> rcu_rib (route_install m nh g) = rcu_rib g
    \<and> kernel_nh_ht (route_install m nh g) = kernel_nh_ht g \<and> rib_rcu_replace (route_install m nh g) = rib_rcu_replace g"
proof -
  let ?i = "route_table_lookup_id (rib_tree_master g) (mre_table_id m) (mre_family m)"
  obtain g1 i where gi: "(if ?i < 0 then route_table_alloc_slot (mre_table_id m) (mre_family m) g else (g, ?i)) = (g1, i)"
    by fastforce
  have ok1: "routes_ok g1 \<and> rcu_rib g1 = rcu_rib g \<and> kernel_nh_ht g1 = kernel_nh_ht g \<and> rib_rcu_replace g1 = rib_rcu_replace g"
    using gi ok route_table_alloc_slot_ok [OF ok m(1)] by (auto split: if_splits)
  show ?thesis
  proof (cases "i < 0 \<or> rib_tree_master g1 ! nat i = None")
    case True
    then show ?thesis using ok1 by (auto simp: route_install_def gi Let_def split: option.splits)
  next
    case False
    then obtain t where t: "rib_tree_master g1 ! nat i = Some t" by auto
    obtain t' ret ms where a: "rib_route_add t (bytes_at (dst_ip_addr (mre_dst m))) (plen (mre_dst m))
        \<lparr>re_dst = mre_dst m, re_sdplane_nh_id = nh\<rparr> (heap g1) = (t', ret, ms)" by (metis prod_cases3)
    have i: "nat i < length (rib_tree_master g1)"
    proof -
      have "i < int ROUTE_TREE_SIZE"
        using gi route_table_lookup_id_less [of "rib_tree_master g" "mre_table_id m" "mre_family m"]
        by (auto simp: route_table_alloc_slot_def ROUTE_TREE_SIZE_def split: if_splits option.splits prod.splits dest!: find_upt_Some)
      then have "nat i < ROUTE_TREE_SIZE" using False by linarith
      then show ?thesis using ok1 by (simp add: routes_ok_def)
    qed
    with t have "Some t \<in> set (rib_tree_master g1)" by (metis nth_mem)
    with ok1 have "tree_ok t" by (simp add: routes_ok_def)
    from tree_ok_add [OF this a m(2) nh] have t': "tree_ok t'" .
    have "never_fails ms" using rib_route_add_cases [OF a] ok1 by (simp add: routes_ok_def)
    then show ?thesis using ok1 False t a t'
      by (auto simp: route_install_def gi Let_def routes_ok_def dest!: set_update_Some)
  qed
qed

lemma route_withdraw_ok:
  assumes "routes_ok g"
  shows "routes_ok (route_withdraw m g) \<and> rcu_rib (route_withdraw m g) = rcu_rib g
    \<and> kernel_nh_ht (route_withdraw m g) = kernel_nh_ht g \<and> rib_rcu_replace (route_withdraw m g) = rib_rcu_replace g"
proof -
  let ?i = "route_table_lookup_id (rib_tree_master g) (mre_table_id m) (mre_family m)"
  have "tree_ok t" if "\<not> ?i < 0" "rib_tree_master g ! nat ?i = Some t" for t
  proof -
    have "nat ?i < length (rib_tree_master g)"
      using that(1) assms route_table_lookup_id_less [of "rib_tree_master g" "mre_table_id m" "mre_family m"] by (simp add: routes_ok_def)
    with that(2) have "Some t \<in> set (rib_tree_master g)" by (metis nth_mem)
    with assms show ?thesis by (simp add: routes_ok_def)
  qed
  then show ?thesis using assms
    by (auto simp: route_withdraw_def Let_def routes_ok_def split: option.splits dest!: set_update_Some intro!: tree_ok_delete)
qed

section \<open>Every handler keeps the invariant\<close>

lemma vs_ok_cong:
  "vswitch_size s = vswitch_size t \<Longrightarrow> vswitch_link_size s = vswitch_link_size t \<Longrightarrow> vswitch s = vswitch t \<Longrightarrow>
   vswitch_link s = vswitch_link t \<Longrightarrow> port s = port t \<Longrightarrow> vs_ok s = vs_ok t"
  by (simp add: vs_ok_def vs_sizes_ok_def vs_links_ok_def active_vswitch_def active_link_def)

definition work_ok :: "rib_state \<Rightarrow> rib_info \<Rightarrow> bool" where
  "work_ok g new \<longleftrightarrow> routes_ok g \<and> vs_ok new \<and> nh_ok (load_nh g new)"

definition old_ok :: "rib_state \<Rightarrow> bool" where
  "old_ok g \<longleftrightarrow> (case rcu_rib g of Some (Some old) \<Rightarrow> work_ok g old | _ \<Rightarrow> True)"

definition outcome_ok :: "rib_state \<Rightarrow> rib_info \<Rightarrow> rib_outcome \<Rightarrow> bool" where
  "outcome_ok g new res =
     (case res of
        Break g' new' \<Rightarrow> work_ok g' new' \<and> fib_tree_of new' = fib_tree_of new
      | Return g' \<Rightarrow> rib_tree_master g' = rib_tree_master g \<and>
          (\<exists>old r. rcu_rib g = Some (Some old) \<and> rcu_rib g' = Some (Some r) \<and> work_ok g' r \<and> fib_tree_of r = fib_tree_of old)
      | Crash \<Rightarrow> True)"

lemma load_nh_cong: "nexthop_of a = nexthop_of b \<Longrightarrow> kernel_nh_ht g = kernel_nh_ht h \<Longrightarrow> load_nh g a = load_nh h b"
  by (simp add: load_nh_def)

lemma routes_ok_cong: "rib_tree_master g = rib_tree_master h \<Longrightarrow> heap g = heap h \<Longrightarrow> routes_ok g = routes_ok h"
  by (simp add: routes_ok_def)

lemma work_ok_cong:
  "rib_tree_master g = rib_tree_master h \<Longrightarrow> heap g = heap h \<Longrightarrow> kernel_nh_ht g = kernel_nh_ht h \<Longrightarrow>
   nexthop_of a = nexthop_of b \<Longrightarrow> vs_ok a = vs_ok b \<Longrightarrow> work_ok g a = work_ok h b"
  using routes_ok_cong [of g h] load_nh_cong [of a b g h] by (simp add: work_ok_def)

text \<open>A change of the switch tables only.\<close>

lemma Break_more:
  assumes "work_ok g new" "vs_info.more new' = vs_info.more new" "vs_ok new'"
    and "rib_tree_master g' = rib_tree_master g" "heap g' = heap g" "kernel_nh_ht g' = kernel_nh_ht g"
  shows "outcome_ok h new (Break g' new')"
proof -
  have "work_ok g' new' = work_ok g new"
    by (rule work_ok_cong) (use assms rib_info_more_eq(2) [OF assms(2)] in \<open>auto simp: work_ok_def\<close>)
  then show ?thesis using assms(1) rib_info_more_eq(1) [OF assms(2)] by (simp add: outcome_ok_def)
qed

lemma upd_ports_ok:
  assumes "vs_ok s" "\<And>i p. i < n \<Longrightarrow> vswitch_link_id_of_vlan (f i p) = vswitch_link_id_of_vlan p \<and> vlan_size (f i p) = vlan_size p
      \<and> (unat (dpdk_port_id p) < MAX_ETH_PORTS \<longrightarrow> unat (dpdk_port_id (f i p)) < MAX_ETH_PORTS)"
  shows "vs_ok (upd_ports n f s)"
proof -
  have "\<forall>i\<in>set is. i < n \<Longrightarrow> vs_ok s \<Longrightarrow> vs_ok (fold (\<lambda>i. upd_port i (f i)) is s)" for "is"
  proof (induction "is" arbitrary: s)
    case (Cons i "is")
    have "vs_ok (upd_port i (f i) s)" by (rule upd_port_other [OF Cons.prems(2)]) (use assms(2) [of i] Cons.prems(1) in \<open>auto simp: port_conf_ok_def\<close>)
    with Cons show ?case by simp
  qed simp
  then show ?thesis using assms(1) by (simp add: upd_ports_def)
qed

lemma make_vswitch_rings_ok:
  assumes "vs_ok s" "make_vswitch_rings mk (rs, s) = (rs', s')"
  shows "vs_ok s'"
proof -
  define f where "f = (\<lambda>i (rs_s :: rings \<times> 'a q_info_scheme). if vs_vlan_id (vswitch (snd rs_s) ! i) = 0 then rs_s
                    else make_capture_rings mk i (make_router_rings mk i rs_s))"
  have r: "vs_ok (snd x) \<Longrightarrow> vs_ok (snd (make_router_rings mk i x))" for i and x :: "rings \<times> 'a q_info_scheme"
    by (cases x) (auto simp: make_router_rings_def Let_def intro!: upd_vswitch_other)
  have c: "vs_ok (snd x) \<Longrightarrow> vs_ok (snd (make_capture_rings mk i x))" for i and x :: "rings \<times> 'a q_info_scheme"
    by (cases x) (auto simp: make_capture_rings_def Let_def intro!: upd_vswitch_other)
  have "vs_ok (snd x) \<Longrightarrow> vs_ok (snd (f i x))" for i x unfolding f_def by (simp add: c r)
  then have "vs_ok (snd x) \<Longrightarrow> vs_ok (snd (fold f is x))" for "is" x by (induction "is" arbitrary: x) auto
  with assms show ?thesis unfolding make_vswitch_rings_def snd_conv f_def [symmetric] by (metis snd_conv)
qed

lemma rib_check_ok: "vs_ok s \<Longrightarrow> rib_check mk n rs s = Some (rs', s', ps) \<Longrightarrow> vs_ok s'"
  using make_vswitch_rings_ok [OF _ rib_check_Some] by blast

lemma stopped_check_cases:
  assumes "stopped_check env g new = Some (g', new', ok)" "old_ok g" "vs_ok new"
  shows "\<exists>old r. rcu_rib g = Some (Some old) \<and> rcu_rib g' = Some (Some r) \<and> work_ok g' r \<and> fib_tree_of r = fib_tree_of old
    \<and> vs_info.more new' = vs_info.more new \<and> vs_ok new' \<and> rib_tree_master g' = rib_tree_master g \<and> heap g' = heap g
    \<and> kernel_nh_ht g' = kernel_nh_ht g"
proof -
  from assms(1) obtain old where old: "rcu_rib g = Some (Some old)"
    by (auto simp: stopped_check_def split: option.splits)
  define r where "r = delete_stop_flag env (set_stop_flag env old)"
  have rm: "vs_info.more r = vs_info.more old" by (simp add: r_def delete_stop_flag_def set_stop_flag_def upd_ports_more)
  have "work_ok g old" using assms(2) old by (simp add: old_ok_def)
  moreover from this have "vs_ok r" unfolding r_def delete_stop_flag_def set_stop_flag_def
    by (intro upd_ports_ok) (auto simp: work_ok_def)
  ultimately have w: "work_ok g r" using work_ok_cong [of g g r old] rib_info_more_eq(2) [OF rm] by (simp add: work_ok_def)
  have g': "rcu_rib g' = Some (Some r)" "rib_tree_master g' = rib_tree_master g" "heap g' = heap g" "kernel_nh_ht g' = kernel_nh_ht g"
    using assms(1) old by (auto simp: stopped_check_def r_def Let_def split: option.splits)
  have n: "vs_info.more new' = vs_info.more new \<and> vs_ok new'"
    using assms(1,3) old by (auto simp: stopped_check_def Let_def split: option.splits dest: rib_check_more rib_check_ok)
  have "work_ok g' r" using w work_ok_cong [of g' g r r] g' by simp
  then show ?thesis using old g' n rib_info_more_eq(1) [OF rm] by blast
qed

lemma load_store_nh: "store_nh st g new = (g', new') \<Longrightarrow> load_nh g' new' = st"
  by (cases st) (auto simp: store_nh_def load_nh_def nexthop.defs nh_state.defs)

lemma store_nh_keeps:
  assumes "store_nh st g new = (g', new')"
  shows "rib_tree_master g' = rib_tree_master g" "heap g' = heap g" "rcu_rib g' = rcu_rib g" "rib_rcu_replace g' = rib_rcu_replace g"
    "fib_tree_of new' = fib_tree_of new" "vs_ok new' = vs_ok new"
  using assms vs_ok_cong [of new' new] by (auto simp: store_nh_def)

lemma store_nh_work:
  assumes "routes_ok g" "vs_ok new" "nh_ok st" "store_nh st g new = (g', new')"
  shows "work_ok g' new' \<and> fib_tree_of new' = fib_tree_of new"
  using assms load_store_nh [OF assms(4)] store_nh_keeps [OF assms(4)] routes_ok_cong [of g' g] by (simp add: work_ok_def)

lemma nh_ok_refcnt:
  "nh_ok st \<Longrightarrow> nh_ok (nexthop_increment_refcnt st i)" "nh_ok st \<Longrightarrow> nh_ok (nexthop_decrement_refcnt st i)"
  by (simp_all add: nexthop_increment_refcnt_def nexthop_decrement_refcnt_def nh_ok_group_refcnt_add)

definition route_msg_ok :: "internal_msg_route_entry \<Rightarrow> bool" where
  "route_msg_ok m \<longleftrightarrow> mre_family m \<noteq> 0 \<and> plen (mre_dst m) \<le> 128 \<and> length (dst_ip_addr (mre_dst m)) = 16 \<and> msg_ok (mre_nh m)"

definition msg_valid :: "rib_msg \<Rightarrow> bool" where
  "msg_valid msg =
     (case msg of
        MSG_PORT_GET_REQUEST port_id \<Rightarrow> unat port_id < MAX_ETH_PORTS
      | MSG_VSWITCH_PORT_SET m \<Rightarrow> unat (mvp_port_id m) < MAX_ETH_PORTS
      | MSG_ROUTE_ENTRY_ADD m \<Rightarrow> route_msg_ok m
      | MSG_NEXTHOP_ENTRY_ADD m \<Rightarrow> msg_ok m
      | _ \<Rightarrow> True)"

definition env_ok :: "rib_env \<Rightarrow> bool" where
  "env_ok env \<longleftrightarrow> unat (dev_count_avail env) \<le> MAX_ETH_PORTS"

lemma msg_route_entry_add_ok:
  assumes w: "work_ok g new" and m: "route_msg_ok m" and r: "msg_route_entry_add m g new = (g', new')"
  shows "work_ok g' new' \<and> fib_tree_of new' = fib_tree_of new"
proof -
  obtain nh_id st ms where a: "nexthop_add_entry (mre_nh m) (load_nh g new, heap g) = (nh_id, st, ms)" by (metis prod_cases3)
  have nh: "nh_ok st" "nh_id < int MAX_NEXTHOP_GRP_SIZE" using nh_ok_add [OF _ _ a] w m by (auto simp: work_ok_def route_msg_ok_def)
  have ms: "never_fails ms" using nexthop_add_entry_heap [OF a] w by (simp add: work_ok_def routes_ok_def)
  then have g: "routes_ok (g\<lparr>heap := ms\<rparr>)" using w by (simp add: work_ok_def routes_ok_def)
  show ?thesis
  proof (cases "nh_id < 0")
    case True
    then have "store_nh st (g\<lparr>heap := ms\<rparr>) new = (g', new')" using r a by (simp add: msg_route_entry_add_def)
    from store_nh_work [OF g _ nh(1) this] w show ?thesis by (simp add: work_ok_def)
  next
    case False
    obtain g1 new1 where s: "store_nh (nexthop_increment_refcnt st nh_id) (g\<lparr>heap := ms\<rparr>) new = (g1, new1)" by fastforce
    from store_nh_work [OF g _ nh_ok_refcnt(1) [OF nh(1)] s] w have w1: "work_ok g1 new1" "fib_tree_of new1 = fib_tree_of new"
      by (auto simp: work_ok_def)
    have e: "g' = route_install m nh_id g1" "new' = new1" using r a s False by (auto simp: msg_route_entry_add_def)
    have "routes_ok g1" using w1 by (simp add: work_ok_def)
    from route_install_ok [OF this, of m nh_id] m False nh(2) have i: "routes_ok g'" "kernel_nh_ht g' = kernel_nh_ht g1"
      by (auto simp: e route_msg_ok_def)
    then show ?thesis using w1 e load_nh_cong [of new1 new1 g' g1] by (simp add: work_ok_def)
  qed
qed

lemma msg_route_entry_del_ok:
  assumes w: "work_ok g new" and r: "msg_route_entry_del m g new = (g', new')"
  shows "work_ok g' new' \<and> fib_tree_of new' = fib_tree_of new"
proof -
  let ?x = "if mre_is_nhid m then (load_nh g new, nexthop_get_index_by_nhid (load_nh g new) (msg_kernel_nh_id (mre_nh m)))
            else nexthop_del_entry (load_nh g new) (mre_nh m)"
  obtain st nh_id where x: "?x = (st, nh_id)" by fastforce
  have nh: "nh_ok st" using x w nh_ok_del by (auto simp: work_ok_def split: if_splits)
  obtain g1 new1 where s: "store_nh (nexthop_decrement_refcnt st nh_id) g new = (g1, new1)" by fastforce
  from store_nh_work [OF _ _ nh_ok_refcnt(2) [OF nh] s] w have w1: "work_ok g1 new1" "fib_tree_of new1 = fib_tree_of new"
    by (auto simp: work_ok_def)
  have e: "g' = (if nh_id < 0 then g1 else route_withdraw m g1)" "new' = new1"
    using r x s by (auto simp: msg_route_entry_del_def Let_def)
  have "routes_ok g1" using w1 by (simp add: work_ok_def)
  from route_withdraw_ok [OF this, of m] this have "routes_ok g'" "kernel_nh_ht g' = kernel_nh_ht g1" by (auto simp: e)
  then show ?thesis using w1 e load_nh_cong [of new1 new1 g' g1] by (simp add: work_ok_def)
qed

lemma msg_nexthop_entry_add_ok:
  assumes w: "work_ok g new" and m: "msg_ok m" and r: "msg_nexthop_entry_add m g new = (g', new')"
  shows "work_ok g' new' \<and> fib_tree_of new' = fib_tree_of new"
proof -
  obtain nh_id st ms where a: "nexthop_add_entry m (load_nh g new, heap g) = (nh_id, st, ms)" by (metis prod_cases3)
  have nh: "nh_ok st" using nh_ok_add [OF _ _ a] w m by (auto simp: work_ok_def)
  have "never_fails ms" using nexthop_add_entry_heap [OF a] w by (simp add: work_ok_def routes_ok_def)
  then have g: "routes_ok (g\<lparr>heap := ms\<rparr>)" using w by (simp add: work_ok_def routes_ok_def)
  have "store_nh st (g\<lparr>heap := ms\<rparr>) new = (g', new')" using r a by (simp add: msg_nexthop_entry_add_def)
  from store_nh_work [OF g _ nh this] w show ?thesis by (simp add: work_ok_def)
qed

lemma msg_nexthop_entry_del_ok:
  assumes w: "work_ok g new" and r: "msg_nexthop_entry_del m g new = (g', new')"
  shows "work_ok g' new' \<and> fib_tree_of new' = fib_tree_of new"
proof -
  obtain st nh_id where x: "nexthop_del_entry (load_nh g new) m = (st, nh_id)" by fastforce
  have "nh_ok st" using nh_ok_del [OF _ x] w by (simp add: work_ok_def)
  with store_nh_work [of g new st g' new'] w r x show ?thesis by (simp add: msg_nexthop_entry_del_def work_ok_def)
qed

lemma run_no_set_ok:
  assumes "work_ok g new" "\<And>r s. res = Some (r, s) \<Longrightarrow> vs_info.more s = vs_info.more new \<and> vs_ok s"
  shows "outcome_ok h new (run_no_set g res)"
proof (cases res)
  case (Some x)
  then obtain r s where x: "res = Some (r, s)" by (cases x) auto
  with assms show ?thesis by (auto simp: run_no_set_def intro!: Break_more [of g])
qed (simp add: run_no_set_def outcome_ok_def)

lemma if_delete_ok:
  assumes "vs_ok s"
  shows "router_if_delete r s vid = Some (r', s') \<Longrightarrow> vs_ok s'" "capture_if_delete r s vid = Some (r', s') \<Longrightarrow> vs_ok s'"
  using assms by (auto simp: router_if_delete_def capture_if_delete_def split: option.splits intro!: upd_vswitch_other)

lemma no_set_loop_ok:
  assumes del: "\<And>r s vid r' s'. del r s vid = Some (r', s') \<Longrightarrow> vs_ok s \<Longrightarrow> vs_ok s'"
  shows "no_set_loop del nm name is (r, s) = Some (r', s') \<Longrightarrow> vs_ok s \<Longrightarrow> vs_ok s'"
proof (induction "is" arbitrary: r s)
  case (Cons i "is")
  define f where "f = (\<lambda>i acc. Option.bind acc (\<lambda>(rings, new).
         if c_string name = c_string (nm (vswitch new ! i))
         then del rings new (vs_vswitch_id (vswitch new ! i)) else Some (rings, new)))"
  have none: "fold f is None = None" for "is" by (induction "is") (auto simp: f_def)
  from Cons.prems(1) have e: "fold f is (f i (Some (r, s))) = Some (r', s')" by (simp add: no_set_loop_def f_def)
  then obtain r1 s1 where 1: "f i (Some (r, s)) = Some (r1, s1)" using none by (cases "f i (Some (r, s))") auto
  then have "vs_ok s1" using del Cons.prems(2) by (auto simp: f_def split: if_splits)
  with Cons.IH [of r1 s1] e 1 show ?case by (simp add: no_set_loop_def f_def)
qed (simp add: no_set_loop_def)

lemma tap_set_ok:
  assumes w: "work_ok g new" and old: "old_ok g" and n: "vs_ok new1" "vs_info.more new1 = vs_info.more new"
  shows "outcome_ok g new (case stopped_check env g new1 of None \<Rightarrow> Crash | Some (g, new, ok) \<Rightarrow> if ok then Break g new else Return g)"
proof (cases "stopped_check env g new1")
  case (Some x)
  then obtain g' new' ok where x: "stopped_check env g new1 = Some (g', new', ok)" by (cases x) auto
  from stopped_check_cases [OF x old n(1)] n(2) have c: "vs_info.more new' = vs_info.more new" "vs_ok new'"
    "rib_tree_master g' = rib_tree_master g" "heap g' = heap g" "kernel_nh_ht g' = kernel_nh_ht g" by auto
  show ?thesis
  proof (cases ok)
    case True
    with Break_more [OF w c, of g] x show ?thesis by simp
  next
    case False
    with stopped_check_cases [OF x old n(1)] x show ?thesis by (auto simp: outcome_ok_def)
  qed
qed (simp add: outcome_ok_def)

lemma Break_rest:
  assumes "work_ok g new" "vswitch_size new' = vswitch_size new" "vswitch_link_size new' = vswitch_link_size new"
    "vswitch new' = vswitch new" "vswitch_link new' = vswitch_link new" "port new' = port new"
    "nexthop_of new' = nexthop_of new" "fib_tree_of new' = fib_tree_of new"
  shows "outcome_ok h new (Break g new')"
  using assms vs_ok_cong [OF assms(2-6)] load_nh_cong [OF assms(7), of g g] by (simp add: outcome_ok_def work_ok_def)

lemma upd_router_if_ok:
  assumes "work_ok g new"
  shows "outcome_ok h new (Break g (upd_router_if new io f))"
proof (rule Break_more [OF assms])
  show "vs_info.more (upd_router_if new io f) = vs_info.more new" by (simp add: upd_router_if_def upd_more split: option.splits)
  show "vs_ok (upd_router_if new io f)" using assms
    by (auto simp: upd_router_if_def work_ok_def split: option.splits intro!: upd_vswitch_other)
qed auto

lemma msg_qconf_ok:
  assumes w: "work_ok g new" and old: "old_ok g"
  shows "outcome_ok g new (msg_qconf env m g new)"
proof -
  define new1 where "new1 = new\<lparr>lcore_size := of_nat (lcore_count env),
                    lcore_qconf_of := msg_qconf_copy m (lcore_count env) (lcore_qconf_of new)\<rparr>"
  have ok1: "vs_ok new1" "nexthop_of new1 = nexthop_of new" "fib_tree_of new1 = fib_tree_of new"
    using w vs_ok_cong [of new1 new] by (simp_all add: new1_def work_ok_def)
  then have w1: "work_ok g new1" using w work_ok_cong [of g g new1 new] by (simp add: work_ok_def)
  show ?thesis
  proof (cases "stopped_check env g new1")
    case None
    then show ?thesis unfolding msg_qconf_def new1_def [symmetric] by (simp add: outcome_ok_def)
  next
    case (Some x)
    then obtain g' new' ok where x: "stopped_check env g new1 = Some (g', new', ok)" by (cases x) auto
    note c = stopped_check_cases [OF x old ok1(1)]
    show ?thesis
    proof (cases ok)
      case False
      with c x show ?thesis unfolding msg_qconf_def new1_def [symmetric] by (auto simp: outcome_ok_def)
    next
      case True
      obtain b ms where b: "malloc_ok (heap g') = (b, ms)" by fastforce
      have heap: "never_fails ms" using malloc_ok_never_fails [OF b] c w by (auto simp: work_ok_def routes_ok_def)
      have more: "vs_info.more new' = vs_info.more new1" and "vs_ok new'" using c by auto
      then have "routes_ok (g'\<lparr>heap := ms\<rparr>)" "nh_ok (load_nh (g'\<lparr>heap := ms\<rparr>) new')" "fib_tree_of new' = fib_tree_of new"
        using c w1 heap ok1 rib_info_more_eq(1,2) [OF more] by (auto simp: work_ok_def routes_ok_def load_nh_def)
      moreover have "routes_ok (rib_replace z h) = routes_ok h" "load_nh (rib_replace z h) n = load_nh h n" for z h n
        by (simp_all add: routes_ok_def load_nh_def rib_replace_def)
      ultimately have "outcome_ok g new (Break (if b then rib_replace (Some None) (g'\<lparr>heap := ms\<rparr>) else g'\<lparr>heap := ms\<rparr>) new')"
        using \<open>vs_ok new'\<close> by (simp add: outcome_ok_def work_ok_def)
      with True x b show ?thesis unfolding msg_qconf_def new1_def [symmetric] by simp
    qed
  qed
qed

lemma msg_txrx_desc_ok:
  assumes w: "work_ok g new" and old: "old_ok g"
  shows "outcome_ok g new (msg_txrx_desc env m g new)"
proof -
  define new1 where "new1 = upd_port (unat (td_portid m)) (\<lambda>p.
            p\<lparr>pc_mtu := (if td_mtu m \<noteq> 0 then td_mtu m else pc_mtu p),
              pc_nrxq := (if td_nrxq m \<noteq> 0 then td_nrxq m else pc_nrxq p),
              pc_ntxq := (if td_ntxq m \<noteq> 0 then td_ntxq m else pc_ntxq p),
              pc_nb_rxd := (if td_nb_rxd m \<noteq> 0 then td_nb_rxd m else pc_nb_rxd p),
              pc_nb_txd := (if td_nb_txd m \<noteq> 0 then td_nb_txd m else pc_nb_txd p)\<rparr>) new"
  have m1: "vs_info.more new1 = vs_info.more new" by (simp add: new1_def upd_more)
  have v1: "vs_ok new1" unfolding new1_def by (rule upd_port_other) (use w in \<open>auto simp: work_ok_def port_conf_ok_def\<close>)
  have unf: "msg_txrx_desc env m g new = (if \<not> startup_config_completed env then Break g new1
         else
           (case rcu_rib g of
              None \<Rightarrow>
                (case rib_check (ring_create env) (unat (dev_count_avail env)) (all_rings g) new1 of
                   None \<Rightarrow> Break g new1
                 | Some (rs, new, setups) \<Rightarrow> Break (g\<lparr>all_rings := rs\<rparr>) new)
            | Some _ \<Rightarrow>
                (case stopped_check env g new1 of
                   None \<Rightarrow> Crash
                 | Some (g, new, ok) \<Rightarrow> Break g new)))"
    unfolding msg_txrx_desc_def new1_def Let_def by simp
  note plain = Break_more [OF w m1 v1 refl refl refl, of g]
  consider "\<not> startup_config_completed env" | "startup_config_completed env" "rcu_rib g = None"
    | r where "startup_config_completed env" "rcu_rib g = Some r" by fastforce
  then show ?thesis
  proof cases
    case 1
    with plain show ?thesis by (simp add: unf)
  next
    case 2
    show ?thesis
    proof (cases "rib_check (ring_create env) (unat (dev_count_avail env)) (all_rings g) new1")
      case (Some x)
      then obtain rs n ps where x: "rib_check (ring_create env) (unat (dev_count_avail env)) (all_rings g) new1 = Some (rs, n, ps)"
        by (cases x) auto
      from Break_more [OF w _ rib_check_ok [OF v1 x], of "g\<lparr>all_rings := rs\<rparr>" g] rib_check_more [OF x] m1 2 x
      show ?thesis by (simp add: unf)
    qed (use plain 2 in \<open>simp add: unf\<close>)
  next
    case 3
    show ?thesis
    proof (cases "stopped_check env g new1")
      case None
      with 3 show ?thesis by (simp add: unf outcome_ok_def)
    next
      case (Some x)
      then obtain g' n ok where x: "stopped_check env g new1 = Some (g', n, ok)" by (cases x) auto
      from stopped_check_cases [OF x old v1] m1 Break_more [OF w, of n g' g] 3 x show ?thesis by (auto simp: unf)
    qed
  qed
qed

lemma upd_ports_status_ok:
  assumes "vs_ok s" "env_ok env"
  shows "vs_ok (upd_ports (unat (dev_count_avail env)) (\<lambda>i p. p\<lparr>pc_link_status := f i, dpdk_port_id := of_nat i\<rparr>) s)"
proof (rule upd_ports_ok [OF assms(1)])
  fix i p
  assume "i < unat (dev_count_avail env)"
  then have "i < MAX_ETH_PORTS" using assms(2) by (simp add: env_ok_def)
  then have "unat (of_nat i :: u16) < MAX_ETH_PORTS" by (simp add: unat_of_nat take_bit_nat_eq_self MAX_ETH_PORTS_def)
  then show "vswitch_link_id_of_vlan (p\<lparr>pc_link_status := f i, dpdk_port_id := of_nat i\<rparr>) = vswitch_link_id_of_vlan p
      \<and> vlan_size (p\<lparr>pc_link_status := f i, dpdk_port_id := of_nat i\<rparr>) = vlan_size p
      \<and> (unat (dpdk_port_id p) < MAX_ETH_PORTS \<longrightarrow> unat (dpdk_port_id (p\<lparr>pc_link_status := f i, dpdk_port_id := of_nat i\<rparr>)) < MAX_ETH_PORTS)"
    by simp
qed

lemma update_port_status_ok:
  assumes "work_ok g new" "env_ok env"
  shows "outcome_ok h new (Break g (update_port_status env new))"
proof -
  let ?u = "upd_ports (unat (dev_count_avail env)) (\<lambda>i p. p\<lparr>pc_link_status := link_status env i, dpdk_port_id := of_nat i\<rparr>) new"
  have m: "vs_info.more ?u = vs_info.more new" by (rule upd_ports_more)
  have v: "vs_ok ?u" by (rule upd_ports_status_ok) (use assms in \<open>auto simp: work_ok_def\<close>)
  have "vs_ok (update_port_status env new)" using v vs_ok_cong [of "update_port_status env new" ?u] by (simp add: update_port_status_def)
  moreover have "nexthop_of (update_port_status env new) = nexthop_of new" "fib_tree_of (update_port_status env new) = fib_tree_of new"
    using rib_info_more_eq(1,2) [OF m] by (simp_all add: update_port_status_def)
  ultimately show ?thesis using assms(1) load_nh_cong [of "update_port_status env new" new g g]
    by (simp add: outcome_ok_def work_ok_def)
qed

lemma rib_manager_handle_ok:
  assumes w: "work_ok g new" and old: "old_ok g" and v: "msg_valid msg" and e: "env_ok env"
    and np: "\<forall>p. msg \<noteq> MSG_PORT_GET_REQUEST p"
  shows "outcome_ok g new (rib_manager_handle env msg g new)"
proof (cases msg)
  case (MSG_VSWITCH_NO_SET vid)
  have "vs_info.more s = vs_info.more new \<and> vs_ok s" if "msg_vswitch_no_set vid (if_rings.truncate (all_rings g), new) = Some (r, s)" for r s
    using that w msg_vswitch_no_set_ok [of new vid "if_rings.truncate (all_rings g)"] vswitch_delete_more
    by (auto simp: msg_vswitch_no_set_def work_ok_def split: if_splits)
  with MSG_VSWITCH_NO_SET run_no_set_ok [OF w] show ?thesis by (simp add: rib_manager_handle_def)
next
  case (MSG_VSWITCH_PORT_NO_SET m)
  from w have "vs_ok new" by (simp add: work_ok_def)
  then have "\<exists>s'. msg_vswitch_port_no_set m new = Some s' \<and> vs_ok s'"
    by (cases rule: msg_vswitch_port_no_set_cases [where m = m]) (use w in \<open>auto simp: work_ok_def\<close>)
  then obtain s' where s': "msg_vswitch_port_no_set m new = Some s'" "vs_ok s'" by blast
  then have "vs_info.more s' = vs_info.more new"
    by (auto simp: msg_vswitch_port_no_set_def split: option.splits dest: vswitch_link_delete_more)
  with MSG_VSWITCH_PORT_NO_SET s' Break_more [OF w] show ?thesis by (simp add: rib_manager_handle_def)
next
  case (MSG_ROUTER_IF_SET m)
  show ?thesis
  proof (cases "vswitch_lookup new (tap_vswitch_id m)")
    case None
    with MSG_ROUTER_IF_SET Break_rest [OF w] show ?thesis by (simp add: rib_manager_handle_def msg_router_if_set_def)
  next
    case (Some vi)
    have "outcome_ok g new (msg_router_if_set env m g new)"
      unfolding msg_router_if_set_def Some option.case Let_def
      by (rule tap_set_ok [OF w old]) (use w in \<open>auto simp: work_ok_def upd_more intro!: upd_vswitch_other\<close>)
    with MSG_ROUTER_IF_SET show ?thesis by (simp add: rib_manager_handle_def)
  qed
next
  case (MSG_CAPTURE_IF_SET m)
  show ?thesis
  proof (cases "vswitch_lookup new (tap_vswitch_id m)")
    case None
    with MSG_CAPTURE_IF_SET Break_rest [OF w] show ?thesis by (simp add: rib_manager_handle_def msg_capture_if_set_def)
  next
    case (Some vi)
    have "outcome_ok g new (msg_capture_if_set env m g new)"
      unfolding msg_capture_if_set_def Some option.case Let_def
      by (rule tap_set_ok [OF w old]) (use w in \<open>auto simp: work_ok_def upd_more intro!: upd_vswitch_other\<close>)
    with MSG_CAPTURE_IF_SET show ?thesis by (simp add: rib_manager_handle_def)
  qed
next
  case (MSG_ROUTER_IF_NO_SET m)
  have "vs_info.more s = vs_info.more new \<and> vs_ok s"
    if "no_set_loop router_if_delete f x is (rr, new) = Some (r, s)" for f x "is" rr r s
    using no_set_loop_more [OF _ that] no_set_loop_ok [OF _ that] router_if_delete_more(1) if_delete_ok(1) w by (metis work_ok_def)
  with MSG_ROUTER_IF_NO_SET run_no_set_ok [OF w] show ?thesis by (simp add: rib_manager_handle_def msg_router_if_no_set_def)
next
  case (MSG_CAPTURE_IF_NO_SET m)
  have "vs_info.more s = vs_info.more new \<and> vs_ok s"
    if "no_set_loop capture_if_delete f x is (rr, new) = Some (r, s)" for f x "is" rr r s
    using no_set_loop_more [OF _ that] no_set_loop_ok [OF _ that] router_if_delete_more(2) if_delete_ok(2) w by (metis work_ok_def)
  with MSG_CAPTURE_IF_NO_SET run_no_set_ok [OF w] show ?thesis by (simp add: rib_manager_handle_def msg_capture_if_no_set_def)
next
  case (MSG_ROUTE_ENTRY_ADD m)
  with v msg_route_entry_add_ok [OF w] show ?thesis
    by (cases "msg_route_entry_add m g new") (auto simp: rib_manager_handle_def outcome_ok_def msg_valid_def)
next
  case (MSG_ROUTE_ENTRY_DEL m)
  with msg_route_entry_del_ok [OF w] show ?thesis
    by (cases "msg_route_entry_del m g new") (auto simp: rib_manager_handle_def outcome_ok_def)
next
  case (MSG_NEXTHOP_ENTRY_ADD m)
  with v msg_nexthop_entry_add_ok [OF w] show ?thesis
    by (cases "msg_nexthop_entry_add m g new") (auto simp: rib_manager_handle_def outcome_ok_def msg_valid_def)
next
  case (MSG_NEXTHOP_ENTRY_DEL m)
  with msg_nexthop_entry_del_ok [OF w] show ?thesis
    by (cases "msg_nexthop_entry_del m g new") (auto simp: rib_manager_handle_def outcome_ok_def)
next
  case (MSG_APPLICATION_SLOT a)
  have "outcome_ok g new (Break g (application_slot_add a new))"
    by (rule Break_rest [OF w]) (simp_all add: application_slot_add_def)
  with MSG_APPLICATION_SLOT show ?thesis by (simp add: rib_manager_handle_def)
next
  case (MSG_SRV6_LOCAL_SID a i)
  have "outcome_ok g new (Break g (msg_srv6_local_sid a i new))"
    by (rule Break_rest [OF w]) (simp_all add: msg_srv6_local_sid_def)
  with MSG_SRV6_LOCAL_SID show ?thesis by (simp add: rib_manager_handle_def)
qed (use w v np update_port_status_ok [OF w e, of g] msg_qconf_ok [OF w old] msg_txrx_desc_ok [OF w old]
    Break_more [OF w msg_vswitch_more(1) msg_vswitch_set_ok] Break_more [OF w msg_vswitch_more(2) msg_vswitch_port_set_ok]
    upd_router_if_ok [OF w, of g] Break_rest [OF w]
    in \<open>simp_all add: rib_manager_handle_def msg_mac_addr_add_def msg_mac_addr_del_def msg_ip_addr_add_def msg_ip_addr_del_def
      msg_valid_def work_ok_def\<close>)


section \<open>Publication\<close>

definition empty_fib :: fib_tree where
  "empty_fib = \<lparr>ft_family = 0, ft_table_id = 0, ft_root = FNull\<rparr>"

definition rib_base :: "rib_env \<Rightarrow> rib_state \<Rightarrow> rib_info" where
  "rib_base env g = (case rcu_rib g of Some (Some r) \<Rightarrow> r | _ \<Rightarrow> zero_rib_info env)"

definition rib_inv :: "rib_env \<Rightarrow> rib_state \<Rightarrow> bool" where
  "rib_inv env g \<longleftrightarrow> work_ok g (rib_base env g)"

lemma rib_create_Some:
  assumes "never_fails (heap g)"
  shows "\<exists>new ms. rib_create env (rcu_rib g) (heap g) = (Some (Some new), ms) \<and> never_fails ms
    \<and> new = (rib_base env g)\<lparr>fib_tree_of := [Some empty_fib, Some empty_fib], ver := ver (rib_base env g) + 1\<rparr>"
proof -
  from malloc_never_fails [OF assms] obtain m1 where 1: "malloc_ok (heap g) = (True, m1)" "never_fails m1" by blast
  from malloc_never_fails [OF 1(2)] obtain m2 where 2: "malloc_ok m1 = (True, m2)" "never_fails m2" by blast
  from malloc_never_fails [OF 2(2)] obtain m3 where 3: "malloc_ok m2 = (True, m3)" "never_fails m3" by blast
  from malloc_never_fails [OF 3(2)] obtain m4 where 4: "malloc_ok m3 = (True, m4)" "never_fails m4" by blast
  have i: "rib_info_create env ro m1 = (Some ((case ro of None \<Rightarrow> zero_rib_info env | Some r \<Rightarrow> r)
      \<lparr>fib_tree_of := [Some empty_fib, Some empty_fib],
       ver := ver (case ro of None \<Rightarrow> zero_rib_info env | Some r \<Rightarrow> r) + 1\<rparr>), m4)" for ro
    using 2(1) 3(1) 4(1) by (simp add: rib_info_create_def fib_new_def empty_fib_def Let_def)
  have b: "(case (case rcu_rib g of None \<Rightarrow> None | Some ri \<Rightarrow> ri) of None \<Rightarrow> zero_rib_info env | Some r \<Rightarrow> r) = rib_base env g"
    by (simp add: rib_base_def split: option.splits)
  show ?thesis using 4(2) by (simp add: rib_create_def 1(1) i b)
qed

text \<open>The published FIB tree of a slot answers like the RIB tree of the slot.\<close>

definition slot_agrees :: "rib_tree option \<Rightarrow> fib_tree option \<Rightarrow> bool" where
  "slot_agrees rib_t fib_t =
     (case rib_t of
        None \<Rightarrow> \<exists>f. fib_t = Some f \<and> ft_root f = FNull
      | Some t \<Rightarrow> \<exists>f. fib_t = Some f \<and> ft_family f = rt_family t \<and> ft_table_id f = rt_table_id t \<and>
          (\<forall>oob a. fib_answer (fib_route_lookup oob f a)
             = map_option (\<lambda>e. (plen (re_dst e), re_sdplane_nh_id e)) (rib_node_entry (rib_route_lookup t a))))"

definition fib_agrees :: "rib_state \<Rightarrow> bool" where
  "fib_agrees g =
     (case rcu_rib g of
        Some (Some r) \<Rightarrow> \<forall>i<ROUTE_TREE_SIZE. slot_agrees (rib_tree_master g ! i) (fib_tree_of r ! i)
      | _ \<Rightarrow> True)"

lemma rebuild_slot_spec:
  assumes "routes_ok g" "i < ROUTE_TREE_SIZE" "length (fib_tree_of new) = ROUTE_TREE_SIZE" "fib_tree_of new ! i = Some empty_fib"
  shows "\<exists>ms ft. rebuild_slot env i (Some (g, new)) = Some (g\<lparr>heap := ms\<rparr>, new\<lparr>fib_tree_of := (fib_tree_of new)[i := ft]\<rparr>)
    \<and> never_fails ms \<and> slot_agrees (rib_tree_master g ! i) ft"
proof (cases "rib_tree_master g ! i")
  case None
  have "rebuild_slot env i (Some (g, new)) = Some (g, new)" by (simp add: rebuild_slot_def None)
  moreover have "g = g\<lparr>heap := heap g\<rparr>" "new = new\<lparr>fib_tree_of := (fib_tree_of new)[i := fib_tree_of new ! i]\<rparr>" by simp_all
  moreover have "slot_agrees (rib_tree_master g ! i) (fib_tree_of new ! i)" by (simp add: None slot_agrees_def assms(4) empty_fib_def)
  moreover have "never_fails (heap g)" using assms(1) by (simp add: routes_ok_def)
  ultimately show ?thesis by metis
next
  case (Some t)
  then have "Some t \<in> set (rib_tree_master g)" using assms(1,2) by (metis nth_mem routes_ok_def)
  with assms(1) have t: "tree_ok t" by (simp add: routes_ok_def)
  have hp: "never_fails (heap g)" using assms(1) by (simp add: routes_ok_def)
  from rebuild_fib_spec [of t empty_fib "heap g" "stack_byte env"] t hp obtain root ms where
    r: "rebuild_fib_from_rib (stack_byte env) t empty_fib (heap g) =
      (0, 0, Some (\<lparr>ft_family = rt_family t, ft_table_id = rt_table_id t, ft_root = root\<rparr>, ms))"
    "never_fails ms" "fib_wf 0 root" "\<forall>a. fib_find 0 root a = map_option entry_answer (rib_node_entry (rib_route_lookup t a))"
    by (auto simp: tree_ok_def empty_fib_def)
  have "slot_agrees (Some t) (Some \<lparr>ft_family = rt_family t, ft_table_id = rt_table_id t, ft_root = root\<rparr>)"
    using r(3,4) by (simp add: slot_agrees_def fib_route_lookup_def fib_lookup_find entry_answer_def [abs_def])
  moreover have "rt_family t \<noteq> 0" using t by (simp add: tree_ok_def)
  then have "rebuild_slot env i (Some (g, new)) = Some (g\<lparr>heap := ms\<rparr>, new\<lparr>fib_tree_of := (fib_tree_of new)
      [i := Some \<lparr>ft_family = rt_family t, ft_table_id = rt_table_id t, ft_root = root\<rparr>]\<rparr>)"
    by (simp add: rebuild_slot_def Some assms(4) r(1))
  ultimately show ?thesis using Some r(2) by metis
qed

lemma rebuild_all_spec:
  assumes "routes_ok g" "fib_tree_of new = [Some empty_fib, Some empty_fib]"
  shows "\<exists>ms f0 f1. fold (rebuild_slot env) [0..<ROUTE_TREE_SIZE] (Some (g, new)) = Some (g\<lparr>heap := ms\<rparr>, new\<lparr>fib_tree_of := [f0, f1]\<rparr>)
    \<and> never_fails ms \<and> slot_agrees (rib_tree_master g ! 0) f0 \<and> slot_agrees (rib_tree_master g ! 1) f1"
proof -
  have z: "(0 :: nat) < ROUTE_TREE_SIZE" "1 < ROUTE_TREE_SIZE" "length [x, y] = ROUTE_TREE_SIZE" for x y :: "fib_tree option"
    by (simp_all add: ROUTE_TREE_SIZE_def)
  have "length (fib_tree_of new) = ROUTE_TREE_SIZE" "fib_tree_of new ! 0 = Some empty_fib" using assms(2) z(3) by simp_all
  note s0 = rebuild_slot_spec [OF assms(1) z(1) this, of env, unfolded assms(2)]
  then obtain m0 f0 where
    0: "rebuild_slot env 0 (Some (g, new)) = Some (g\<lparr>heap := m0\<rparr>, new\<lparr>fib_tree_of := [Some empty_fib, Some empty_fib][0 := f0]\<rparr>)"
      "never_fails m0" "slot_agrees (rib_tree_master g ! 0) f0" by blast
  define g1 where "g1 = g\<lparr>heap := m0\<rparr>"
  define n1 where "n1 = new\<lparr>fib_tree_of := [f0, Some empty_fib]\<rparr>"
  have g1: "routes_ok g1" "rib_tree_master g1 = rib_tree_master g" using assms(1) 0(2) by (simp_all add: routes_ok_def g1_def)
  have n1: "fib_tree_of n1 = [f0, Some empty_fib]" by (simp add: n1_def)
  then have "length (fib_tree_of n1) = ROUTE_TREE_SIZE" "fib_tree_of n1 ! 1 = Some empty_fib" using z(3) by simp_all
  from rebuild_slot_spec [OF g1(1) z(2) this, of env, unfolded n1] obtain m1 f1 where
    1: "rebuild_slot env 1 (Some (g1, n1)) = Some (g1\<lparr>heap := m1\<rparr>, n1\<lparr>fib_tree_of := [f0, Some empty_fib][1 := f1]\<rparr>)"
      "never_fails m1" "slot_agrees (rib_tree_master g1 ! 1) f1" by blast
  have "[0..<ROUTE_TREE_SIZE] = [0, 1]" by (simp add: ROUTE_TREE_SIZE_def upt_conv_Cons numeral_2_eq_2)
  then have "fold (rebuild_slot env) [0..<ROUTE_TREE_SIZE] (Some (g, new)) = Some (g1\<lparr>heap := m1\<rparr>, n1\<lparr>fib_tree_of := [f0, f1]\<rparr>)"
    using 0(1) 1(1) by (simp add: g1_def n1_def)
  moreover have "g1\<lparr>heap := m1\<rparr> = g\<lparr>heap := m1\<rparr>" "n1\<lparr>fib_tree_of := [f0, f1]\<rparr> = new\<lparr>fib_tree_of := [f0, f1]\<rparr>"
    by (simp_all add: g1_def n1_def)
  ultimately show ?thesis using 0(3) 1(2,3) g1(2) by metis
qed

lemma all_slots: "(\<forall>i<ROUTE_TREE_SIZE. P i) \<longleftrightarrow> P 0 \<and> P 1"
  by (auto simp: ROUTE_TREE_SIZE_def less_2_cases_iff)

lemma rib_inv_routes: "rib_inv env g \<Longrightarrow> routes_ok g"
  by (simp add: rib_inv_def work_ok_def)

lemma rib_inv_copy:
  assumes "rib_inv env g" "never_fails ms"
    and "new = (rib_base env g)\<lparr>fib_tree_of := [Some empty_fib, Some empty_fib], ver := ver (rib_base env g) + 1\<rparr>"
  shows "work_ok (g\<lparr>heap := ms\<rparr>) new" "old_ok (g\<lparr>heap := ms\<rparr>)"
proof -
  have r: "routes_ok (g\<lparr>heap := ms\<rparr>)" using rib_inv_routes [OF assms(1)] assms(2) by (simp add: routes_ok_def)
  have l: "load_nh (g\<lparr>heap := ms\<rparr>) n = load_nh g n" for n by (simp add: load_nh_def)
  have "nexthop_of new = nexthop_of (rib_base env g)" "vs_ok new = vs_ok (rib_base env g)"
    using vs_ok_cong [of new "rib_base env g"] by (simp_all add: assms(3))
  then show "work_ok (g\<lparr>heap := ms\<rparr>) new"
    using assms(1) r load_nh_cong [of new "rib_base env g" g g] by (simp add: rib_inv_def work_ok_def l)
  show "old_ok (g\<lparr>heap := ms\<rparr>)"
    using assms(1) r by (auto simp: old_ok_def rib_inv_def work_ok_def l rib_base_def split: option.splits)
qed

lemma process_Break:
  assumes "routes_ok g" "vs_ok new" "nh_ok (load_nh g new)" "fib_tree_of new = [Some empty_fib, Some empty_fib]"
  shows "\<exists>g' r. (case fold (rebuild_slot env) [0..<ROUTE_TREE_SIZE] (Some (g, new)) of
                  None \<Rightarrow> None
                | Some (g, new) \<Rightarrow> Some (rib_replace (Some (Some new)) g)) = Some g'
    \<and> rcu_rib g' = Some (Some r) \<and> rib_inv env g' \<and> fib_agrees g' \<and> rib_tree_master g' = rib_tree_master g \<and> nexthop_of r = nexthop_of new"
proof -
  from rebuild_all_spec [OF assms(1,4), of env] obtain ms f0 f1 where
    r: "fold (rebuild_slot env) [0..<ROUTE_TREE_SIZE] (Some (g, new)) = Some (g\<lparr>heap := ms\<rparr>, new\<lparr>fib_tree_of := [f0, f1]\<rparr>)"
    "never_fails ms" "slot_agrees (rib_tree_master g ! 0) f0" "slot_agrees (rib_tree_master g ! 1) f1" by blast
  define n where "n = new\<lparr>fib_tree_of := [f0, f1]\<rparr>"
  define g' where "g' = rib_replace (Some (Some n)) (g\<lparr>heap := ms\<rparr>)"
  have n: "nexthop_of n = nexthop_of new" "vs_ok n = vs_ok new" "fib_tree_of n = [f0, f1]"
    using vs_ok_cong [of n new] by (simp_all add: n_def)
  have g': "rcu_rib g' = Some (Some n)" "rib_tree_master g' = rib_tree_master g" "heap g' = ms" "kernel_nh_ht g' = kernel_nh_ht g"
    by (simp_all add: g'_def rib_replace_def)
  have "routes_ok g'" using assms(1) r(2) by (simp add: routes_ok_def g')
  moreover have "load_nh g' n = load_nh g new" using load_nh_cong n(1) g'(4) by blast
  ultimately have "rib_inv env g'" using assms(2,3) n(2) by (simp add: rib_inv_def work_ok_def rib_base_def g'(1))
  moreover have "fib_agrees g'" unfolding fib_agrees_def all_slots using r(3,4) by (simp add: g' n(3))
  ultimately show ?thesis using r(1) g'(1,2) n(1) by (auto simp flip: n_def g'_def)
qed

text \<open>One message, by the way its case ends.\<close>

lemma process_message_cases:
  assumes inv: "rib_inv env g" and e: "env_ok env" and v: "msg_valid msg" and np: "\<forall>p. msg \<noteq> MSG_PORT_GET_REQUEST p"
  obtains (crash) new ms where "rib_manager_process_message env msg g = None" "rib_manager_handle env msg (g\<lparr>heap := ms\<rparr>) new = Crash"
  | (return) g' old r where "rib_manager_process_message env msg g = Some g'" "rib_inv env g'" "rib_tree_master g' = rib_tree_master g"
      "rcu_rib g = Some (Some old)" "rcu_rib g' = Some (Some r)" "fib_tree_of r = fib_tree_of old"
  | (break) g' where "rib_manager_process_message env msg g = Some g'" "rib_inv env g'" "fib_agrees g'" "\<exists>r. rcu_rib g' = Some (Some r)"
proof -
  have "never_fails (heap g)" using rib_inv_routes [OF inv] by (simp add: routes_ok_def)
  from rib_create_Some [OF this, of env] obtain new ms where c: "rib_create env (rcu_rib g) (heap g) = (Some (Some new), ms)" "never_fails ms"
    "new = (rib_base env g)\<lparr>fib_tree_of := [Some empty_fib, Some empty_fib], ver := ver (rib_base env g) + 1\<rparr>" by blast
  note w = rib_inv_copy [OF inv c(2,3)]
  have fe: "fib_tree_of new = [Some empty_fib, Some empty_fib]" by (simp add: c(3))
  note o = rib_manager_handle_ok [OF w v e np]
  have p: "rib_manager_process_message env msg g =
      (case rib_manager_handle env msg (g\<lparr>heap := ms\<rparr>) new of
             Crash \<Rightarrow> None
           | Return g \<Rightarrow> Some g
           | Break g new \<Rightarrow>
               (case fold (rebuild_slot env) [0..<ROUTE_TREE_SIZE] (Some (g, new)) of
                  None \<Rightarrow> None
                | Some (g, new) \<Rightarrow> Some (rib_replace (Some (Some new)) g)))"
    by (simp add: rib_manager_process_message_def c(1))
  show thesis
  proof (cases "rib_manager_handle env msg (g\<lparr>heap := ms\<rparr>) new")
    case Crash
    with p crash show thesis by simp
  next
    case (Return g')
    with o obtain old r where r: "rib_tree_master g' = rib_tree_master g" "rcu_rib g = Some (Some old)" "rcu_rib g' = Some (Some r)"
      "work_ok g' r" "fib_tree_of r = fib_tree_of old" by (auto simp: outcome_ok_def)
    then have "rib_inv env g'" by (simp add: rib_inv_def rib_base_def)
    with r Return p return show thesis by simp
  next
    case (Break g1 new1)
    with o fe have "routes_ok g1" "vs_ok new1" "nh_ok (load_nh g1 new1)" "fib_tree_of new1 = [Some empty_fib, Some empty_fib]"
      by (auto simp: outcome_ok_def work_ok_def)
    from process_Break [OF this, of env] Break p break show thesis by auto
  qed
qed

definition no_port_get :: "rib_msg \<Rightarrow> bool" where
  "no_port_get msg = (case msg of MSG_PORT_GET_REQUEST p \<Rightarrow> False | _ \<Rightarrow> True)"

definition rib_step :: "rib_env \<Rightarrow> rib_state option \<Rightarrow> rib_msg \<Rightarrow> rib_state option" where
  "rib_step env go msg = Option.bind go (rib_manager_process_message env msg)"

lemma process_message_step:
  assumes "rib_inv env g" "fib_agrees g" "env_ok env" "msg_valid msg" "no_port_get msg"
    and "rib_manager_process_message env msg g = Some g'"
  shows "rib_inv env g' \<and> fib_agrees g'"
proof -
  have np: "\<forall>p. msg \<noteq> MSG_PORT_GET_REQUEST p" using assms(5) by (auto simp: no_port_get_def)
  show ?thesis
    using assms(1,3,4) np
  proof (cases rule: process_message_cases)
    case (return g1 old r)
    then have "fib_agrees g1" using assms(2) unfolding fib_agrees_def by simp
    with return assms(6) show ?thesis by simp
  qed (use assms(6) in auto)
qed

interpretation rib: stepping "rib_step env" "\<lambda>go. \<forall>g. go = Some g \<longrightarrow> rib_inv env g \<and> fib_agrees g"
  "\<lambda>msg. env_ok env \<and> msg_valid msg \<and> no_port_get msg" for env
  by unfold_locales (auto simp: rib_step_def bind_eq_Some_conv dest: process_message_step)

lemma rib_manager_start_ok: "rib_inv env rib_manager_start" "fib_agrees rib_manager_start"
proof -
  have "load_nh rib_manager_start (zero_rib_info env) = nh_start"
    by (simp add: load_nh_def rib_manager_start_def zero_rib_info_def nh_start_def nh_zero_def nexthop_init_def nexthop.defs nh_state.defs
        split: prod.splits)
  moreover have "vs_ok (zero_rib_info env)"
    by (auto simp: vs_ok_def vs_sizes_ok_def vs_links_ok_def zero_rib_info_def active_vswitch_def active_link_def zero_vswitch_def
        zero_port_def zero_vswitch_link_def vswitch_conf_ok_def port_conf_ok_def link_ids_ok_def MAX_ETH_PORTS_def MAX_VSWITCH_LINK_def)
  moreover have "routes_ok rib_manager_start" by (simp add: routes_ok_def rib_manager_start_def)
  ultimately show "rib_inv env rib_manager_start"
    using nh_ok_start by (simp add: rib_inv_def work_ok_def rib_base_def rib_manager_start_def)
  show "fib_agrees rib_manager_start" by (simp add: fib_agrees_def rib_manager_start_def)
qed

lemma rib_reachable:
  assumes "env_ok env" "\<forall>msg \<in> set msgs. msg_valid msg \<and> no_port_get msg"
    and "foldl (rib_step env) (Some rib_manager_start) msgs = Some g"
  shows "rib_inv env g" "fib_agrees g"
proof -
  have "\<forall>g. foldl (rib_step env) (Some rib_manager_start) msgs = Some g \<longrightarrow> rib_inv env g \<and> fib_agrees g"
    by (rule rib.run_invar) (use assms(1,2) rib_manager_start_ok in auto)
  with assms(3) show "rib_inv env g" "fib_agrees g" by auto
qed


definition table_available :: "rib_state \<Rightarrow> internal_msg_route_entry \<Rightarrow> bool" where
  "table_available g m \<longleftrightarrow> 0 \<le> route_table_lookup_id (rib_tree_master g) (mre_table_id m) (mre_family m)
     \<or> (\<exists>i<ROUTE_TREE_SIZE. rib_tree_master g ! i = None)"

definition routes_of :: "rib_tree option \<Rightarrow> bool list \<Rightarrow> route_entry option" where
  "routes_of to = (case to of None \<Rightarrow> Map.empty | Some t \<Rightarrow> rib_routes t)"

text \<open>The slot of the table, found or new, with the tree before the insertion.\<close>

lemma route_table_slot:
  assumes "routes_ok g" "table_available g m"
    and "(g1, i) = (if route_table_lookup_id (rib_tree_master g) (mre_table_id m) (mre_family m) < 0
                    then route_table_alloc_slot (mre_table_id m) (mre_family m) g
                    else (g, route_table_lookup_id (rib_tree_master g) (mre_table_id m) (mre_family m)))"
  shows "\<exists>t j. i = int j \<and> j < ROUTE_TREE_SIZE \<and> rib_tree_master g1 = (rib_tree_master g)[j := Some t] \<and> rt_family t = mre_family m
    \<and> rt_table_id t = mre_table_id m \<and> rib_routes t = routes_of (rib_tree_master g ! j) \<and> never_fails (heap g1)"
proof (cases "List.find (\<lambda>i. case rib_tree_master g ! i of None \<Rightarrow> False
      | Some t \<Rightarrow> rt_family t = mre_family m \<and> rt_table_id t = mre_table_id m) [0..<ROUTE_TREE_SIZE]")
  case (Some j)
  from find_upt_Some [OF this] obtain t where t: "rib_tree_master g ! j = Some t" "rt_family t = mre_family m" "rt_table_id t = mre_table_id m"
    "j < ROUTE_TREE_SIZE" by (auto split: option.splits)
  have "i = int j" "g1 = g" using assms(3) Some by (auto simp: route_table_lookup_id_def int_of_slot_def)
  moreover have "rib_tree_master g = (rib_tree_master g)[j := Some t]" using t(1) by (metis list_update_id)
  ultimately show ?thesis using t assms(1) by (auto simp: routes_of_def routes_ok_def)
next
  case None
  then have l: "route_table_lookup_id (rib_tree_master g) (mre_table_id m) (mre_family m) = -1"
    by (simp add: route_table_lookup_id_def int_of_slot_def)
  with assms(2) have "List.find (\<lambda>i. rib_tree_master g ! i = None) [0..<ROUTE_TREE_SIZE] \<noteq> None"
    by (auto simp: table_available_def find_upt_None)
  then obtain j where j: "List.find (\<lambda>i. rib_tree_master g ! i = None) [0..<ROUTE_TREE_SIZE] = Some j" by auto
  from find_upt_Some [OF j] have jj: "j < ROUTE_TREE_SIZE" "rib_tree_master g ! j = None" by auto
  obtain ms where ms: "malloc_ok (heap g) = (True, ms)" "never_fails ms"
    using malloc_never_fails [of "heap g"] assms(1) by (auto simp: routes_ok_def)
  let ?t = "\<lparr>rt_family = mre_family m, rt_table_id = mre_table_id m, rt_root = RNull\<rparr>"
  have "i = int j" "g1 = g\<lparr>heap := ms, rib_tree_master := (rib_tree_master g)[j := Some ?t]\<rparr>"
    using assms(3) l j ms(1) by (auto simp: route_table_alloc_slot_def rib_new_def)
  moreover have "rib_routes ?t = routes_of (rib_tree_master g ! j)" using jj(2) by (simp add: routes_of_def rib_routes_def fun_eq_iff)
  ultimately show ?thesis using jj(1) ms(2) by (intro exI [of _ ?t] exI [of _ j]) simp
qed

lemma route_install_spec:
  assumes "routes_ok g" "table_available g m"
  shows "\<exists>j t. j < ROUTE_TREE_SIZE \<and> rib_tree_master (route_install m nh g) = (rib_tree_master g)[j := Some t]
    \<and> rt_family t = mre_family m \<and> rt_table_id t = mre_table_id m
    \<and> rib_routes t = (routes_of (rib_tree_master g ! j))
        (key_bits (bytes_at (dst_ip_addr (mre_dst m))) 0 (plen (mre_dst m)) \<mapsto> \<lparr>re_dst = mre_dst m, re_sdplane_nh_id = nh\<rparr>)"
proof -
  obtain g1 i where gi: "(g1, i) = (if route_table_lookup_id (rib_tree_master g) (mre_table_id m) (mre_family m) < 0
                    then route_table_alloc_slot (mre_table_id m) (mre_family m) g
                    else (g, route_table_lookup_id (rib_tree_master g) (mre_table_id m) (mre_family m)))" by (metis surj_pair)
  from route_table_slot [OF assms gi] obtain t j where t: "i = int j" "j < ROUTE_TREE_SIZE" "rib_tree_master g1 = (rib_tree_master g)[j := Some t]"
    "rt_family t = mre_family m" "rt_table_id t = mre_table_id m" "rib_routes t = routes_of (rib_tree_master g ! j)" "never_fails (heap g1)"
    by blast
  have tj: "rib_tree_master g1 ! j = Some t" using t(2,3) assms(1) by (simp add: routes_ok_def)
  obtain n s ms where a: "radix_add (rt_root t) (bytes_at (dst_ip_addr (mre_dst m))) (plen (mre_dst m))
      \<lparr>re_dst = mre_dst m, re_sdplane_nh_id = nh\<rparr> 0 0 (heap g1) = (n, s, ms)" by (metis prod_cases3)
  from radix_add_spec [OF a] t(7) have r: "rib_map n = (rib_map (rt_root t))(key_bits (bytes_at (dst_ip_addr (mre_dst m))) 0 (plen (mre_dst m))
      \<mapsto> \<lparr>re_dst = mre_dst m, re_sdplane_nh_id = nh\<rparr>)" by auto
  have "rib_tree_master (route_install m nh g) = (rib_tree_master g)[j := Some (t\<lparr>rt_root := n\<rparr>)]"
    using t(1,3) tj a by (simp add: route_install_def gi [symmetric] rib_route_add_def)
  then show ?thesis using t r by (intro exI [of _ j] exI [of _ "t\<lparr>rt_root := n\<rparr>"]) (simp add: rib_routes_def)
qed

text \<open>
  ROUTE_ENTRY_ADD.  If the next hop of the message can be registered and its table
  exists or a table slot is free, then the route is installed in the table of its family and
  table id under exactly its prefix with the registered next hop; every other route of that
  table and the other table are as before, and the next-hop group gains one reference.
\<close>

theorem route_entry_add_installs:
  assumes "work_ok g new" "table_available g m"
    and "nexthop_add_entry (mre_nh m) (load_nh g new, heap g) = (nh, st, ms)" "0 \<le> nh"
    and "msg_route_entry_add m g new = (g', new')"
  shows "load_nh g' new' = nexthop_increment_refcnt st nh
    \<and> (\<exists>j t. j < ROUTE_TREE_SIZE \<and> rib_tree_master g' = (rib_tree_master g)[j := Some t]
        \<and> rt_family t = mre_family m \<and> rt_table_id t = mre_table_id m
        \<and> rib_routes t = (routes_of (rib_tree_master g ! j))
            (key_bits (bytes_at (dst_ip_addr (mre_dst m))) 0 (plen (mre_dst m)) \<mapsto> \<lparr>re_dst = mre_dst m, re_sdplane_nh_id = nh\<rparr>))"
proof -
  have ms: "never_fails ms" using nexthop_add_entry_heap [OF assms(3)] assms(1) by (simp add: work_ok_def routes_ok_def)
  obtain g1 new1 where s: "store_nh (nexthop_increment_refcnt st nh) (g\<lparr>heap := ms\<rparr>) new = (g1, new1)" by fastforce
  have e: "g' = route_install m nh g1" "new' = new1" using assms(3-5) s by (auto simp: msg_route_entry_add_def)
  note k = store_nh_keeps [OF s]
  have r1: "routes_ok g1" using assms(1) ms routes_ok_cong [of g1 "g\<lparr>heap := ms\<rparr>"] k by (simp add: work_ok_def routes_ok_def)
  have av: "table_available g1 m" using assms(2) k(1) by (simp add: table_available_def)
  have "kernel_nh_ht g' = kernel_nh_ht g1"
    by (auto simp: e route_install_def Let_def route_table_alloc_slot_def rib_new_def split: prod.splits option.splits if_splits)
  then have "load_nh g' new' = nexthop_increment_refcnt st nh" using load_store_nh [OF s] load_nh_cong [of new' new1 g' g1] e by simp
  with route_install_spec [OF r1 av, of nh] k(1) show ?thesis by (simp add: e)
qed

definition sample_route :: internal_msg_route_entry where
  "sample_route = \<lparr>mre_family = 2, mre_table_id = 254,
     mre_dst = \<lparr>rdi_family = 2, dst_ip_addr = 192 # 168 # replicate 14 0, plen = 16\<rparr>, mre_is_nhid = False, mre_nh = sample_nh 7\<rparr>"

definition sample_env :: rib_env where
  "sample_env = \<lparr>dev_count_avail = 2, lcore_count = 2, max_lcores = 128, link_status = (\<lambda>_. True), ring_create = Some, tap_open = (\<lambda>_. 5),
     tap_get_ifindex = (\<lambda>_. 3), startup_config_completed = True, time_now = 0, stack_byte = 0\<rparr>"

lemma sample_start:
  "load_nh rib_manager_start (zero_rib_info env) = nh_start" "heap rib_manager_start = []" "rib_tree_master rib_manager_start = [None, None]"
  "work_ok rib_manager_start (zero_rib_info env)" "table_available rib_manager_start sample_route"
proof -
  show "load_nh rib_manager_start (zero_rib_info env) = nh_start"
    by (simp add: load_nh_def rib_manager_start_def zero_rib_info_def nh_start_def nh_zero_def nexthop_init_def nexthop.defs nh_state.defs
        split: prod.splits)
  show "heap rib_manager_start = []" and t: "rib_tree_master rib_manager_start = [None, None]"
    by (simp_all add: rib_manager_start_def ROUTE_TREE_SIZE_def numeral_2_eq_2)
  show "work_ok rib_manager_start (zero_rib_info env)"
    using rib_manager_start_ok(1) [of env] by (simp add: rib_inv_def rib_base_def rib_manager_start_def)
  show "table_available rib_manager_start sample_route" unfolding table_available_def t by (intro disjI2 exI [of _ 0]) (simp add: ROUTE_TREE_SIZE_def)
qed

lemma route_entry_add_installs_witness:
  "\<exists>g' new' t. msg_route_entry_add sample_route rib_manager_start (zero_rib_info sample_env) = (g', new')
     \<and> rt_family t = 2 \<and> rib_routes t (key_bits (bytes_at (192 # 168 # replicate 14 0)) 0 16) \<noteq> None \<and> Some t \<in> set (rib_tree_master g')"
proof -
  obtain st ms where a: "nexthop_add_entry (mre_nh sample_route) (load_nh rib_manager_start (zero_rib_info sample_env), heap rib_manager_start) = (0, st, ms)"
    using sample_nh_add [of 7] by (auto simp: sample_start sample_route_def)
  obtain g' new' where r: "msg_route_entry_add sample_route rib_manager_start (zero_rib_info sample_env) = (g', new')" by fastforce
  from route_entry_add_installs [OF sample_start(4,5) a _ r] obtain j t where
    t: "j < 2" "rib_tree_master g' = [None, None][j := Some t]" "rt_family t = 2"
      "rib_routes t = (routes_of ([None, None] ! j)) (key_bits (bytes_at (192 # 168 # replicate 14 0)) 0 16
         \<mapsto> \<lparr>re_dst = mre_dst sample_route, re_sdplane_nh_id = 0\<rparr>)"
    by (auto simp: sample_start ROUTE_TREE_SIZE_def sample_route_def)
  then have "Some t \<in> set (rib_tree_master g')" by (auto simp: less_2_cases_iff)
  with t(3,4) r show ?thesis by (intro exI [of _ g'] exI [of _ new'] exI [of _ t]) simp
qed

lemma process_route_add:
  assumes inv: "rib_inv env g" and m: "route_msg_ok m"
  shows "\<exists>g' r new ms. rib_manager_process_message env (MSG_ROUTE_ENTRY_ADD m) g = Some g' \<and> rcu_rib g' = Some (Some r)
    \<and> rib_create env (rcu_rib g) (heap g) = (Some (Some new), ms) \<and> nexthop_of new = nexthop_of (rib_base env g)
    \<and> rib_tree_master g' = rib_tree_master (fst (msg_route_entry_add m (g\<lparr>heap := ms\<rparr>) new))
    \<and> nexthop_of r = nexthop_of (snd (msg_route_entry_add m (g\<lparr>heap := ms\<rparr>) new))"
proof -
  have "never_fails (heap g)" using rib_inv_routes [OF inv] by (simp add: routes_ok_def)
  from rib_create_Some [OF this, of env] obtain new ms where c: "rib_create env (rcu_rib g) (heap g) = (Some (Some new), ms)" "never_fails ms"
    "new = (rib_base env g)\<lparr>fib_tree_of := [Some empty_fib, Some empty_fib], ver := ver (rib_base env g) + 1\<rparr>" by blast
  note w = rib_inv_copy [OF inv c(2,3)]
  obtain g1 new1 where a: "msg_route_entry_add m (g\<lparr>heap := ms\<rparr>) new = (g1, new1)" by fastforce
  from msg_route_entry_add_ok [OF w(1) m a] have "routes_ok g1" "vs_ok new1" "nh_ok (load_nh g1 new1)"
    "fib_tree_of new1 = [Some empty_fib, Some empty_fib]" by (auto simp: work_ok_def c(3))
  from process_Break [OF this, of env] a c(1) have
    "\<exists>g' r. rib_manager_process_message env (MSG_ROUTE_ENTRY_ADD m) g = Some g' \<and> rcu_rib g' = Some (Some r) \<and> rib_tree_master g' = rib_tree_master g1
      \<and> nexthop_of r = nexthop_of new1"
    by (auto simp: rib_manager_process_message_def rib_manager_handle_def)
  with a c(1,3) show ?thesis by fastforce
qed

lemma first_slot:
  assumes "rib_tree_master g = [None, None]" "never_fails (heap g)"
  shows "rib_tree_master (route_install m nh g) ! 0 \<noteq> None"
proof -
  have two: "[0..<ROUTE_TREE_SIZE] = [0, 1]" by (simp add: ROUTE_TREE_SIZE_def upt_rec)
  have l: "route_table_lookup_id (rib_tree_master g) i f = -1" for i f
    by (simp add: route_table_lookup_id_def two assms(1) int_of_slot_def)
  obtain ms where ms: "malloc_ok (heap g) = (True, ms)" using malloc_never_fails [OF assms(2)] by blast
  let ?t = "\<lparr>rt_family = mre_family m, rt_table_id = mre_table_id m, rt_root = RNull\<rparr>"
  have "route_table_alloc_slot (mre_table_id m) (mre_family m) g = (g\<lparr>heap := ms, rib_tree_master := [Some ?t, None]\<rparr>, 0)"
    by (simp add: route_table_alloc_slot_def two assms(1) rib_new_def ms)
  then show ?thesis by (simp add: route_install_def l split: prod.splits)
qed

text \<open>The first route message after the start: its table goes to slot 0, whatever its family.\<close>

lemma first_route_run:
  assumes m: "route_msg_ok m" and nh: "nexthop_add_entry (mre_nh m) (nh_start, []) = (0, st, ms')"
  shows "\<exists>g r t. rib_manager_process_message env (MSG_ROUTE_ENTRY_ADD m) rib_manager_start = Some g \<and> rcu_rib g = Some (Some r)
     \<and> rib_tree_master g = [Some t, None] \<and> rt_family t = mre_family m \<and> rt_table_id t = mre_table_id m
     \<and> rib_routes t = [key_bits (bytes_at (dst_ip_addr (mre_dst m))) 0 (plen (mre_dst m)) \<mapsto> \<lparr>re_dst = mre_dst m, re_sdplane_nh_id = 0\<rparr>]
     \<and> nexthop_of r = nexthop.truncate (nexthop_increment_refcnt st 0)"
proof -
  from process_route_add [OF rib_manager_start_ok(1) m, of env] obtain g' r new ms where
    p: "rib_manager_process_message env (MSG_ROUTE_ENTRY_ADD m) rib_manager_start = Some g'" "rcu_rib g' = Some (Some r)"
      "rib_create env (rcu_rib rib_manager_start) (heap rib_manager_start) = (Some (Some new), ms)"
      "nexthop_of new = nexthop_of (rib_base env rib_manager_start)"
      "rib_tree_master g' = rib_tree_master (fst (msg_route_entry_add m (rib_manager_start\<lparr>heap := ms\<rparr>) new))"
      "nexthop_of r = nexthop_of (snd (msg_route_entry_add m (rib_manager_start\<lparr>heap := ms\<rparr>) new))" by blast
  have ms: "ms = []" using p(3) by (auto simp: rib_create_def rib_info_create_def rib_manager_start_def fib_new_def Let_def)
  then have h: "rib_manager_start\<lparr>heap := ms\<rparr> = rib_manager_start" by (simp add: rib_manager_start_def)
  have "load_nh rib_manager_start new = nh_start"
    using load_nh_cong [OF p(4) refl] sample_start(1) [of env] by (simp add: rib_base_def rib_manager_start_def)
  with nh have a: "nexthop_add_entry (mre_nh m) (load_nh rib_manager_start new, []) = (0, st, ms')" by simp
  obtain g1 new1 where s: "store_nh (nexthop_increment_refcnt st 0) (rib_manager_start\<lparr>heap := ms'\<rparr>) new = (g1, new1)" by fastforce
  have nf: "never_fails (heap g1)" using nexthop_add_entry_heap [OF a] store_nh_keeps [OF s] by simp
  have g1: "rib_tree_master g1 = [None, None]" using store_nh_keeps(1) [OF s] by (simp add: sample_start)
  have e: "msg_route_entry_add m (rib_manager_start\<lparr>heap := ms\<rparr>) new = (route_install m 0 g1, new1)"
    using a s sample_start(2) by (simp add: h msg_route_entry_add_def)
  have r1: "routes_ok g1" using g1 nf by (simp add: routes_ok_def ROUTE_TREE_SIZE_def)
  have "table_available g1 m" by (simp add: table_available_def g1 ROUTE_TREE_SIZE_def) (metis nth_Cons_0 zero_less_numeral)
  from route_install_spec [OF r1 this, of 0] g1 obtain j t where
    t: "j < ROUTE_TREE_SIZE" "rib_tree_master (route_install m 0 g1) = [None, None][j := Some t]" "rt_family t = mre_family m" "rt_table_id t = mre_table_id m"
      "rib_routes t = (routes_of ([None, None] ! j)) (key_bits (bytes_at (dst_ip_addr (mre_dst m))) 0 (plen (mre_dst m)) \<mapsto> \<lparr>re_dst = mre_dst m, re_sdplane_nh_id = 0\<rparr>)"
    by auto
  have j: "j = 0" using first_slot [OF g1 nf, of m 0] t(1,2) by (auto simp: ROUTE_TREE_SIZE_def less_2_cases_iff)
  have "nexthop_of new1 = nexthop.truncate (nexthop_increment_refcnt st 0)" using s by (auto simp: store_nh_def)
  with p(1,2,5,6) e t j show ?thesis by (intro exI [of _ g'] exI [of _ r] exI [of _ t]) (simp add: routes_of_def)
qed

lemma sample_route_run:
  "\<exists>g r t st ms. foldl (rib_step sample_env) (Some rib_manager_start) [MSG_ROUTE_ENTRY_ADD sample_route] = Some g \<and> rcu_rib g = Some (Some r)
     \<and> rib_tree_master g = [Some t, None]
     \<and> rib_routes t = [key_bits (bytes_at (dst_ip_addr (mre_dst sample_route))) 0 16 \<mapsto> \<lparr>re_dst = mre_dst sample_route, re_sdplane_nh_id = 0\<rparr>]
     \<and> nexthop_add_entry (sample_nh 7) (nh_start, []) = (0, st, ms) \<and> nexthop_of r = nexthop.truncate (nexthop_increment_refcnt st 0)"
proof -
  have m: "route_msg_ok sample_route" "mre_nh sample_route = sample_nh 7" "plen (mre_dst sample_route) = 16"
    by (simp_all add: route_msg_ok_def sample_route_def sample_nh_def msg_ok_def MAX_ECMP_ENTRY_def)
  obtain st ms where a: "nexthop_add_entry (sample_nh 7) (nh_start, []) = (0, st, ms)" using sample_nh_add [of 7] by auto
  from first_route_run [OF m(1), unfolded m(2), OF a, of sample_env] a show ?thesis by (auto simp: rib_step_def m(3))
qed

lemma sample_run_valid: "env_ok sample_env" "\<forall>msg \<in> set [MSG_ROUTE_ENTRY_ADD sample_route]. msg_valid msg \<and> no_port_get msg"
    by (simp_all add: env_ok_def sample_env_def MAX_ETH_PORTS_def msg_valid_def no_port_get_def route_msg_ok_def sample_route_def
        sample_nh_def msg_ok_def MAX_ECMP_ENTRY_def)


end
