(* ===== verification/Packet.thy ===== *)
theory Packet
  imports Rib_Manager "HOL-Library.Monad_Syntax"
begin

text \<open>
  Packets in memory and the primitives of the forwarding threads: \<^verbatim>\<open>packet_hdr.h\<close>,
  \<^verbatim>\<open>packet_gen.h\<close>, \<^verbatim>\<open>control_packet.c\<close>.

  An mbuf is the bytes of its data room from the data pointer on, the length of the data in
  it and the receiving port.  A header field is read at its byte offset, whether or not it lies
  within the data; a read or write outside the data room does not happen for the offsets used
  here (a data room has 2048 bytes).

  DPDK is a parameter (\<open>dpdk\<close>).  The outcomes of the coming calls that can fail (allocating or
  copying an mbuf, adding to a ring, handing packets to a transmit buffer) are lists in the
  state, like those of \<^verbatim>\<open>malloc\<close>; what a thread sends is the list of its events.  A computation
  that follows a null pointer, violates an assertion or indexes an array out of bounds is \<open>None\<close>.
\<close>

section \<open>Memory buffers\<close>

record mbuf =
  m_data :: "u8 list"
  data_len :: nat
  m_port :: u16

definition arr :: "'a list \<Rightarrow> nat \<Rightarrow> 'a option" where
  "arr xs i = (if i < length xs then Some (xs ! i) else None)"

definition get8 :: "nat \<Rightarrow> mbuf \<Rightarrow> u8" where
  "get8 i m = bytes_at (m_data m) i"

definition get16 :: "nat \<Rightarrow> mbuf \<Rightarrow> u16" where
  "get16 i m = push_bit 8 (ucast (get8 i m)) OR ucast (get8 (i + 1) m)"

definition gets :: "nat \<Rightarrow> nat \<Rightarrow> mbuf \<Rightarrow> u8 list" where
  "gets i n m = map (\<lambda>k. get8 (i + k) m) [0..<n]"

definition put8 :: "nat \<Rightarrow> u8 \<Rightarrow> mbuf \<Rightarrow> mbuf" where
  "put8 i b m = m\<lparr>m_data := (m_data m)[i := b]\<rparr>"

definition put16 :: "nat \<Rightarrow> u16 \<Rightarrow> mbuf \<Rightarrow> mbuf" where
  "put16 i w m = put8 (i + 1) (ucast w) (put8 i (ucast (drop_bit 8 w)) m)"

definition puts :: "nat \<Rightarrow> u8 list \<Rightarrow> mbuf \<Rightarrow> mbuf" where
  "puts i bs m = fold (\<lambda>k. put8 (i + k) (bs ! k)) [0..<length bs] m"

text \<open>The headers: Ethernet 14 bytes, a VLAN tag 4, IPv4 20, IPv6 40, ARP 28.\<close>

definition RTE_ETHER_TYPE_VLAN :: u16 where "RTE_ETHER_TYPE_VLAN = 0x8100"
definition RTE_ETHER_TYPE_IPV4 :: u16 where "RTE_ETHER_TYPE_IPV4 = 0x0800"
definition RTE_ETHER_TYPE_IPV6 :: u16 where "RTE_ETHER_TYPE_IPV6 = 0x86DD"
definition RTE_ETHER_TYPE_ARP :: u16 where "RTE_ETHER_TYPE_ARP = 0x0806"

definition dst_addr :: "mbuf \<Rightarrow> u8 list" where "dst_addr m = gets 0 6 m"
definition src_addr :: "mbuf \<Rightarrow> u8 list" where "src_addr m = gets 6 6 m"
definition ether_type :: "mbuf \<Rightarrow> u16" where "ether_type m = get16 12 m"
definition vlan_tci :: "mbuf \<Rightarrow> u16" where "vlan_tci m = get16 14 m"
definition eth_proto :: "mbuf \<Rightarrow> u16" where "eth_proto m = get16 16 m"

definition RTE_VLAN_TCI_ID :: "u16 \<Rightarrow> u16" where "RTE_VLAN_TCI_ID tci = tci AND 0x0fff"

text \<open>A loop whose body may fail, and the first index whose body says so.\<close>

primrec each :: "('a \<Rightarrow> 's \<Rightarrow> 's option) \<Rightarrow> 'a list \<Rightarrow> 's \<Rightarrow> 's option" where
  "each f [] s = Some s"
| "each f (x # xs) s = Option.bind (f x s) (each f xs)"

primrec scan :: "('a \<Rightarrow> 'b option option) \<Rightarrow> 'a list \<Rightarrow> 'b option option" where
  "scan f [] = Some None"
| "scan f (x # xs) = Option.bind (f x) (\<lambda>y. case y of None \<Rightarrow> scan f xs | Some z \<Rightarrow> Some (Some z))"

section \<open>DPDK\<close>

record dpdk =
  rte_eth_dev_count_avail :: nat
  tx_buffer_per_q :: "nat \<Rightarrow> nat \<Rightarrow> bool"
  rte_pktmbuf_copy :: "mbuf \<Rightarrow> mbuf"
  rte_pktmbuf_alloc :: mbuf
  rte_vlan_insert :: "mbuf \<Rightarrow> mbuf"
  rte_vlan_strip :: "mbuf \<Rightarrow> mbuf"
  rte_ipv4_cksum :: "mbuf \<Rightarrow> nat \<Rightarrow> u16"
  rte_ipv4_hdr_len :: "mbuf \<Rightarrow> nat \<Rightarrow> nat"
  rte_ipv6_udptcp_cksum :: "mbuf \<Rightarrow> nat \<Rightarrow> nat \<Rightarrow> u16"
  rte_is_multicast_ether_addr :: "u8 list \<Rightarrow> bool"
  rte_is_broadcast_ether_addr :: "u8 list \<Rightarrow> bool"
  rte_is_zero_ether_addr :: "u8 list \<Rightarrow> bool"
  msg_queue_neigh :: bool
  msg_queue_rib :: bool
  stack_u8 :: u8
  stack_int :: int
  stack_nat :: nat

datatype dp_event =
    Tx nat nat mbuf
  | Ring ring_name mbuf
  | Neigh_Msg neigh_msg
  | Rib_Msg rib_msg

record dp_state =
  dp_events :: "dp_event list"
  dp_allocs :: mallocs
  dp_enqueues :: mallocs
  dp_sent :: "nat list"
  tx_statistics :: "nat \<Rightarrow> nat"
  rx_statistics :: "nat \<Rightarrow> nat"

definition emit :: "dp_event \<Rightarrow> dp_state \<Rightarrow> dp_state" where
  "emit e s = s\<lparr>dp_events := dp_events s @ [e]\<rparr>"

text \<open>\<^verbatim>\<open>rte_pktmbuf_copy (m, m->pool, 0, UINT32_MAX)\<close> and \<^verbatim>\<open>rte_ring_enqueue\<close> (0 is success).\<close>

definition pktmbuf_copy :: "dpdk \<Rightarrow> mbuf \<Rightarrow> dp_state \<Rightarrow> mbuf option \<times> dp_state" where
  "pktmbuf_copy d m s =
     (case malloc_ok (dp_allocs s) of (ok, ms) \<Rightarrow>
        (if ok then Some (rte_pktmbuf_copy d m) else None, s\<lparr>dp_allocs := ms\<rparr>))"

definition ring_enqueue :: "ring_name \<Rightarrow> mbuf \<Rightarrow> dp_state \<Rightarrow> bool \<times> dp_state" where
  "ring_enqueue ring c s =
     (case malloc_ok (dp_enqueues s) of (ok, ms) \<Rightarrow>
        (ok, (if ok then emit (Ring ring c) else id) (s\<lparr>dp_enqueues := ms\<rparr>)))"

text \<open>
  \<^verbatim>\<open>rte_eth_tx_buffer\<close> and \<^verbatim>\<open>rte_eth_tx_buffer_flush\<close> return how many packets went out, which
  the code adds to the counter of the port.
\<close>

definition count_sent :: "nat \<Rightarrow> dp_state \<Rightarrow> dp_state" where
  "count_sent tx_portid s =
     (case dp_sent s of
        [] \<Rightarrow> s
      | sent # rest \<Rightarrow>
          s\<lparr>dp_sent := rest, tx_statistics := (tx_statistics s)(tx_portid := tx_statistics s tx_portid + sent)\<rparr>)"

definition eth_tx_buffer :: "nat \<Rightarrow> nat \<Rightarrow> mbuf \<Rightarrow> dp_state \<Rightarrow> dp_state" where
  "eth_tx_buffer tx_portid tx_queueid c s = count_sent tx_portid (emit (Tx tx_portid tx_queueid c) s)"

text \<open>
  \<^verbatim>\<open>internal_msg_create\<close> (\<open>None\<close> if memory runs out) and \<^verbatim>\<open>internal_msg_send_to\<close>, which reads
  the type of the message for its warning when the ring is full.
\<close>

definition internal_msg_create :: "dp_event \<Rightarrow> dp_state \<Rightarrow> dp_event option \<times> dp_state" where
  "internal_msg_create msg s =
     (case malloc_ok (dp_allocs s) of (ok, ms) \<Rightarrow> (if ok then Some msg else None, s\<lparr>dp_allocs := ms\<rparr>))"

definition internal_msg_send_to :: "bool \<Rightarrow> dp_event option \<Rightarrow> dp_state \<Rightarrow> (int \<times> dp_state) option" where
  "internal_msg_send_to ring msgp s =
     (if ring then
        (case malloc_ok (dp_enqueues s) of (ok, ms) \<Rightarrow>
           if ok then Some (0, (case msgp of None \<Rightarrow> id | Some e \<Rightarrow> emit e) (s\<lparr>dp_enqueues := ms\<rparr>))
           else if msgp = None then None else Some (-1, s\<lparr>dp_enqueues := ms\<rparr>))
      else Some (-1, s))"

section \<open>VLAN headers (\<^verbatim>\<open>packet_hdr.h\<close>)\<close>

definition is_rte_vlan_hdr :: "mbuf \<Rightarrow> bool" where
  "is_rte_vlan_hdr m \<longleftrightarrow> ether_type m = RTE_ETHER_TYPE_VLAN"

definition rte_vlan_hdr :: "mbuf \<Rightarrow> nat option" where
  "rte_vlan_hdr m = (if is_rte_vlan_hdr m then Some 14 else None)"

definition rte_vlan_hdr_set :: "mbuf \<Rightarrow> u16 \<Rightarrow> mbuf option" where
  "rte_vlan_hdr_set m vlan_id =
     (if \<not> is_rte_vlan_hdr m then None
      else do {
        vlan \<leftarrow> rte_vlan_hdr m;
        (let old_vlan_tci = get16 vlan m;
             new_vlan_tci = (old_vlan_tci AND 0xf000) OR (vlan_id AND 0x0fff)
         in Some (put16 vlan new_vlan_tci m))
      })"

section \<open>Control packets (\<^verbatim>\<open>control_packet.c\<close>)\<close>

text \<open>\<open>p\<close> is the offset of the payload, where an IP header starts; ports follow the IP header.\<close>

definition IPPROTO_ICMP :: u8 where "IPPROTO_ICMP = 1"
definition IPPROTO_TCP :: u8 where "IPPROTO_TCP = 6"
definition IPPROTO_UDP :: u8 where "IPPROTO_UDP = 17"
definition IPPROTO_ROUTING :: u8 where "IPPROTO_ROUTING = 43"
definition IPPROTO_ICMPV6 :: u8 where "IPPROTO_ICMPV6 = 58"
definition IPPROTO_OSPF :: u8 where "IPPROTO_OSPF = 89"
definition IPPROTO_PIM :: u8 where "IPPROTO_PIM = 103"
definition BGP_PORT :: u16 where "BGP_PORT = 179"
definition RIP_PORT :: u16 where "RIP_PORT = 520"
definition RIPNG_PORT :: u16 where "RIPNG_PORT = 521"
definition BABEL_PORT :: u16 where "BABEL_PORT = 6696"

definition next_proto_id :: "mbuf \<Rightarrow> nat \<Rightarrow> u8" where "next_proto_id m p = get8 (p + 9) m"
definition ipv6_proto :: "mbuf \<Rightarrow> nat \<Rightarrow> u8" where "ipv6_proto m p = get8 (p + 6) m"

definition has_port :: "mbuf \<Rightarrow> nat \<Rightarrow> u16 \<Rightarrow> bool" where
  "has_port m l4 n \<longleftrightarrow> get16 l4 m = n \<or> get16 (l4 + 2) m = n"

definition is_isis :: "mbuf \<Rightarrow> nat \<Rightarrow> u16 \<Rightarrow> bool" where
  "is_isis m p eth_type \<longleftrightarrow> eth_type = 0xFEFE"

definition is_arp :: "mbuf \<Rightarrow> nat \<Rightarrow> u16 \<Rightarrow> bool" where
  "is_arp m p eth_type \<longleftrightarrow> eth_type = RTE_ETHER_TYPE_ARP"

definition is_icmp :: "mbuf \<Rightarrow> nat \<Rightarrow> u16 \<Rightarrow> bool" where
  "is_icmp m p eth_type =
     (if eth_type = RTE_ETHER_TYPE_IPV4 then next_proto_id m p = IPPROTO_ICMP
      else if eth_type = RTE_ETHER_TYPE_IPV6 then ipv6_proto m p = IPPROTO_ICMPV6
      else False)"

definition is_pim :: "mbuf \<Rightarrow> nat \<Rightarrow> u16 \<Rightarrow> bool" where
  "is_pim m p eth_type =
     (if eth_type = RTE_ETHER_TYPE_IPV4 then next_proto_id m p = IPPROTO_PIM
      else if eth_type = RTE_ETHER_TYPE_IPV6 then ipv6_proto m p = IPPROTO_PIM
      else False)"

definition is_ospf :: "mbuf \<Rightarrow> nat \<Rightarrow> u16 \<Rightarrow> bool" where
  "is_ospf m p eth_type =
     (if eth_type = RTE_ETHER_TYPE_IPV4 then next_proto_id m p = IPPROTO_OSPF
      else if eth_type = RTE_ETHER_TYPE_IPV6 then ipv6_proto m p = IPPROTO_OSPF
      else False)"

text \<open>For IPv4 the code adds 1 to the \<^verbatim>\<open>void *\<close> payload, so it reads one byte too far.\<close>

definition is_bgp :: "mbuf \<Rightarrow> nat \<Rightarrow> u16 \<Rightarrow> bool" where
  "is_bgp m p eth_type =
     (if eth_type = RTE_ETHER_TYPE_IPV4 \<and> next_proto_id m (p + 1) = IPPROTO_TCP then has_port m (p + 1 + 20) BGP_PORT
      else if eth_type = RTE_ETHER_TYPE_IPV6 \<and> ipv6_proto m p = IPPROTO_TCP then has_port m (p + 40) BGP_PORT
      else False)"

definition is_ldp :: "mbuf \<Rightarrow> nat \<Rightarrow> u16 \<Rightarrow> bool" where
  "is_ldp m p eth_type =
     (if eth_type = RTE_ETHER_TYPE_IPV4
      then (next_proto_id m p = IPPROTO_TCP \<or> next_proto_id m p = IPPROTO_UDP) \<and> has_port m (p + 20) 646
      else if eth_type = RTE_ETHER_TYPE_IPV6
      then (ipv6_proto m p = IPPROTO_TCP \<or> ipv6_proto m p = IPPROTO_UDP) \<and> has_port m (p + 40) 646
      else False)"

definition is_rip :: "mbuf \<Rightarrow> nat \<Rightarrow> u16 \<Rightarrow> bool" where
  "is_rip m p eth_type =
     (if eth_type = RTE_ETHER_TYPE_IPV4 \<and> next_proto_id m p = IPPROTO_UDP then has_port m (p + 20) RIP_PORT
      else if eth_type = RTE_ETHER_TYPE_IPV6 \<and> ipv6_proto m p = IPPROTO_UDP
      then has_port m (p + 40) RIPNG_PORT \<or> has_port m (p + 40) RIP_PORT
      else False)"

definition is_babel :: "mbuf \<Rightarrow> nat \<Rightarrow> u16 \<Rightarrow> bool" where
  "is_babel m p eth_type =
     (if eth_type = RTE_ETHER_TYPE_IPV4 \<and> next_proto_id m p = IPPROTO_UDP then has_port m (p + 20) 6696
      else if eth_type = RTE_ETHER_TYPE_IPV4 \<and> next_proto_id m p = IPPROTO_UDP then has_port m (p + 20) BABEL_PORT
      else if eth_type = RTE_ETHER_TYPE_IPV6 \<and> ipv6_proto m p = IPPROTO_UDP then has_port m (p + 40) BABEL_PORT
      else False)"

definition is_nd :: "mbuf \<Rightarrow> nat \<Rightarrow> u16 \<Rightarrow> bool" where
  "is_nd m p eth_type =
     (if eth_type = RTE_ETHER_TYPE_IPV6 \<and> ipv6_proto m p = 58
      then 133 \<le> get8 (p + 40) m \<and> get8 (p + 40) m \<le> 137
      else False)"

definition filter_funcs :: "(mbuf \<Rightarrow> nat \<Rightarrow> u16 \<Rightarrow> bool) list" where
  "filter_funcs = [is_isis, is_arp, is_icmp, is_ospf, is_pim, is_bgp, is_ldp, is_rip, is_babel, is_nd]"

definition is_control_packet :: "mbuf \<Rightarrow> int" where
  "is_control_packet m =
     (let eth_type = ether_type m;
          (eth_type, payload) = (if eth_type = RTE_ETHER_TYPE_VLAN then (eth_proto m, 14 + 4) else (eth_type, 14))
      in if list_ex (\<lambda>f. f m payload eth_type) filter_funcs then 1 else 0)"

section \<open>Generated packets (\<^verbatim>\<open>packet_gen.h\<close>)\<close>

text \<open>The two calls \<^verbatim>\<open>rte_pktmbuf_alloc\<close> and \<^verbatim>\<open>rte_pktmbuf_append\<close> can fail.\<close>

definition pkt_alloc :: "dpdk \<Rightarrow> nat \<Rightarrow> dp_state \<Rightarrow> mbuf option \<times> dp_state" where
  "pkt_alloc d pkt_size s =
     (case malloc_ok (dp_allocs s) of (ok, ms) \<Rightarrow>
        if \<not> ok then (None, s\<lparr>dp_allocs := ms\<rparr>)
        else (case malloc_ok ms of (ok, ms) \<Rightarrow>
                (if ok then Some ((rte_pktmbuf_alloc d)\<lparr>data_len := data_len (rte_pktmbuf_alloc d) + pkt_size\<rparr>) else None,
                 s\<lparr>dp_allocs := ms\<rparr>)))"

definition arp_req_pkt_gen :: "dpdk \<Rightarrow> u8 list \<Rightarrow> u8 list \<Rightarrow> u8 list \<Rightarrow> dp_state \<Rightarrow> mbuf option \<times> dp_state" where
  "arp_req_pkt_gen d src_mac src_ip target_ip s =
     (case pkt_alloc d (14 + 28) s of
        (None, s) \<Rightarrow> (None, s)
      | (Some m, s) \<Rightarrow>
          (let m = puts 0 (replicate 6 0xff) m;
               m = puts 6 src_mac m;
               m = put16 12 RTE_ETHER_TYPE_ARP m;
               m = put16 14 1 m;
               m = put16 16 RTE_ETHER_TYPE_IPV4 m;
               m = put8 18 6 m;
               m = put8 19 4 m;
               m = put16 20 1 m;
               m = puts 22 src_mac m;
               m = puts 28 (take 4 src_ip) m;
               m = puts 32 (replicate 6 0) m;
               m = puts 38 (take 4 target_ip) m
           in (Some m, s)))"

definition ICMPV6_NS :: u8 where "ICMPV6_NS = 135"
definition ICMPV6_NA :: u8 where "ICMPV6_NA = 136"

definition solicited_node_addr :: "u8 list \<Rightarrow> u8 list" where
  "solicited_node_addr target_ip =
     (replicate 16 0)[0 := 0xff, 1 := 0x02, 11 := 0x01, 12 := 0xff,
        13 := target_ip ! 13, 14 := target_ip ! 14, 15 := target_ip ! 15]"

definition ns_pkt_gen :: "dpdk \<Rightarrow> u8 list \<Rightarrow> u8 list \<Rightarrow> u8 list \<Rightarrow> dp_state \<Rightarrow> mbuf option \<times> dp_state" where
  "ns_pkt_gen d src_mac src_ip target_ip s =
     (case pkt_alloc d (14 + 40 + 32) s of
        (None, s) \<Rightarrow> (None, s)
      | (Some m, s) \<Rightarrow>
          (let sn = solicited_node_addr target_ip;
               m = puts 0 [0x33, 0x33, sn ! 12, sn ! 13, sn ! 14, sn ! 15] m;
               m = puts 6 src_mac m;
               m = put16 12 RTE_ETHER_TYPE_IPV6 m;
               m = puts 14 [0x60, 0, 0, 0] m;
               m = put16 18 32 m;
               m = put8 20 IPPROTO_ICMPV6 m;
               m = put8 21 255 m;
               m = puts 22 (take 16 src_ip) m;
               m = puts 38 sn m;
               m = puts 54 [ICMPV6_NS, 0, 0, 0] m;
               m = puts 58 (replicate 4 0) m;
               m = puts 62 (take 16 target_ip) m;
               m = puts 78 [1, 1] m;
               m = puts 80 src_mac m;
               m = put16 56 0 m;
               cksum = rte_ipv6_udptcp_cksum d m 14 54;
               m = put16 56 cksum m
           in (Some m, s)))"

section \<open>Reading what was written\<close>

lemma length_put [simp]:
  "length (m_data (put8 i b m)) = length (m_data m)" "length (m_data (put16 i w m)) = length (m_data m)"
  "data_len (put8 i b m) = data_len m" "data_len (put16 i w m) = data_len m"
  by (simp_all add: put8_def put16_def)

lemma get8_put8: "get8 j (put8 i b m) = (if j = i \<and> i < length (m_data m) then b else get8 j m)"
  by (auto simp: get8_def put8_def bytes_at_def)

lemma get8_put16:
  "get8 j (put16 i w m) =
     (if j = i + 1 \<and> i + 1 < length (m_data m) then ucast w
      else if j = i \<and> i < length (m_data m) then ucast (drop_bit 8 w) else get8 j m)"
  by (auto simp: put16_def get8_put8)

lemma join_bytes: "push_bit 8 (ucast (ucast (drop_bit 8 (w :: u16)) :: u8)) OR ucast (ucast w :: u8) = w"
  by (rule bit_word_eqI) (auto simp: bit_simps)

lemma get16_put16: "i + 1 < length (m_data m) \<Longrightarrow> get16 i (put16 i w m) = w"
  by (simp add: get16_def get8_put16 join_bytes)

lemma get16_put16_other: "j \<noteq> i \<Longrightarrow> j + 1 \<noteq> i \<Longrightarrow> j \<noteq> i + 1 \<Longrightarrow> get16 j (put16 i w m) = get16 j m"
  by (simp add: get16_def get8_put16)

lemma get16_put8_other: "j \<noteq> i \<Longrightarrow> j + 1 \<noteq> i \<Longrightarrow> get16 j (put8 i b m) = get16 j m"
  by (simp add: get16_def get8_put8)

lemma puts_Nil [simp]: "puts i [] m = m"
  by (simp add: puts_def)

lemma puts_snoc: "puts i (bs @ [b]) m = put8 (i + length bs) b (puts i bs m)"
proof -
  have "fold (\<lambda>k. put8 (i + k) ((bs @ [b]) ! k)) [0..<length bs] m = fold (\<lambda>k. put8 (i + k) (bs ! k)) [0..<length bs] m"
    by (rule fold_cong) (auto simp: nth_append)
  then show ?thesis by (simp add: puts_def nth_append)
qed

lemma length_puts [simp]: "length (m_data (puts i bs m)) = length (m_data m)" "data_len (puts i bs m) = data_len m"
  by (induction bs rule: rev_induct) (simp_all add: puts_snoc)

lemma get8_puts:
  "i + length bs \<le> length (m_data m) \<Longrightarrow>
     get8 j (puts i bs m) = (if i \<le> j \<and> j < i + length bs then bs ! (j - i) else get8 j m)"
  by (induction bs rule: rev_induct) (auto simp: puts_snoc get8_put8 nth_append)

lemma get16_puts_other:
  "i + length bs \<le> length (m_data m) \<Longrightarrow> j + 1 < i \<or> i + length bs \<le> j \<Longrightarrow> get16 j (puts i bs m) = get16 j m"
  by (auto simp: get16_def get8_puts)

lemma length_gets [simp]: "length (gets i n m) = n"
  by (simp add: gets_def)

lemma gets_nth: "k < n \<Longrightarrow> gets i n m ! k = get8 (i + k) m"
  by (simp add: gets_def)

lemma gets_eqI: "(\<And>k. i \<le> k \<Longrightarrow> k < i + n \<Longrightarrow> get8 k m = get8 k m') \<Longrightarrow> gets i n m = gets i n m'"
  by (simp add: gets_def)

lemma gets_puts: "i + length bs \<le> length (m_data m) \<Longrightarrow> gets i (length bs) (puts i bs m) = bs"
  by (rule nth_equalityI) (simp_all add: gets_nth get8_puts)

lemma put16_same: "i + 1 < length (m_data m) \<Longrightarrow> put16 i (get16 i m) m = m"
proof -
  assume a: "i + 1 < length (m_data m)"
  have "ucast (get16 i m) = get8 (i + 1) m" "ucast (drop_bit 8 (get16 i m)) = get8 i m"
    unfolding get16_def by (rule bit_word_eqI; auto simp: bit_simps dest: bit_imp_le_length)+
  then show ?thesis using a by (simp add: put16_def put8_def get8_def bytes_at_def list_update_swap)
qed

section \<open>Loops\<close>

lemma each_ok:
  assumes "\<And>x s. x \<in> set xs \<Longrightarrow> P s \<Longrightarrow> \<exists>s'. f x s = Some s' \<and> P s'" "P s"
  shows "\<exists>s'. each f xs s = Some s' \<and> P s'"
  using assms
proof (induction xs arbitrary: s)
  case (Cons x xs)
  from Cons.prems(1) [of x s] Cons.prems(2) obtain s1 where "f x s = Some s1" "P s1" by auto
  with Cons.IH [of s1] Cons.prems(1) show ?case by auto
qed simp

lemma scan_ok:
  assumes "\<And>x. x \<in> set xs \<Longrightarrow> \<exists>y. f x = Some y"
  shows "(scan f xs = Some None \<and> (\<forall>x \<in> set xs. f x = Some None)) \<or> (\<exists>z. scan f xs = Some (Some z) \<and> (\<exists>x \<in> set xs. f x = Some (Some z)))"
  using assms
proof (induction xs)
  case (Cons x xs)
  from Cons.prems [of x] obtain y where "f x = Some y" by auto
  with Cons show ?case by (cases y) auto
qed simp

lemma scan_find:
  assumes "\<And>x. x \<in> set xs \<Longrightarrow> f x = Some (if P x then Some (g x) else None)"
  shows "scan f xs = Some (map_option g (find P xs))"
  using assms by (induction xs) auto

end
