(* ===== verification/Net_Subr.thy ===== *)
theory Net_Subr
  imports Packet
begin

text \<open>
  The forwarding subroutines of \<^verbatim>\<open>net_subr.h\<close>, shared by the threads of \<^verbatim>\<open>router.c\<close> and
  \<^verbatim>\<open>srv6_router.c\<close>.  \<open>r\<close> is the published \<^verbatim>\<open>rib_info\<close>, \<open>lcore_id\<close> the transmit queue of the
  thread.  A pointer to a \<^verbatim>\<open>vswitch_link\<close> is its index, a pointer to a header its offset.
\<close>

section \<open>Sending\<close>

definition thread_tx_flush :: "dpdk \<Rightarrow> nat \<Rightarrow> rib_info option option \<Rightarrow> dp_state \<Rightarrow> dp_state option" where
  "thread_tx_flush d lcore_id rib s =
     (case rib of
        Some (Some r) \<Rightarrow>
          each (\<lambda>tx_portid s. do {
              pc \<leftarrow> arr (port r) tx_portid;
              Some (if pc_is_stopped pc then s
                    else if tx_buffer_per_q d tx_portid lcore_id then count_sent tx_portid s else s)
            }) [0..<rte_eth_dev_count_avail d] s
      | _ \<Rightarrow> Some s)"

definition send_ring :: "dpdk \<Rightarrow> mbuf \<Rightarrow> ring_name \<Rightarrow> dp_state \<Rightarrow> int \<times> dp_state" where
  "send_ring d m ring s =
     (case pktmbuf_copy d m s of
        (None, s) \<Rightarrow> (-1, s)
      | (Some c, s) \<Rightarrow> (case ring_enqueue ring c s of (ok, s) \<Rightarrow> (if ok then 0 else -1, s)))"

text \<open>The tag a router interface wants on its copy.\<close>

definition router_if_tag :: "dpdk \<Rightarrow> u16 \<Rightarrow> mbuf \<Rightarrow> mbuf option" where
  "router_if_tag d vlan_id c =
     (if vlan_id \<noteq> 0 then
        (if is_rte_vlan_hdr c then rte_vlan_hdr_set c vlan_id
         else rte_vlan_hdr_set (rte_vlan_insert d c) vlan_id)
      else Some (if is_rte_vlan_hdr c then rte_vlan_strip d c else c))"

definition send_router_if_ring :: "dpdk \<Rightarrow> mbuf \<Rightarrow> router_if \<Rightarrow> dp_state \<Rightarrow> dp_state option" where
  "send_router_if_ring d m rif s =
     (case pktmbuf_copy d m s of
        (None, s) \<Rightarrow> Some s
      | (Some c, s) \<Rightarrow> do {
          c \<leftarrow> router_if_tag d (rif_vlan_id rif) c;
          Some (case rif_ring_up rif of None \<Rightarrow> s | Some ring \<Rightarrow> snd (send_ring d c ring s))
        })"

text \<open>The tag a link wants on its copy; 0 stands for an untagged link.\<close>

definition link_tag :: "dpdk \<Rightarrow> u16 \<Rightarrow> mbuf \<Rightarrow> mbuf option" where
  "link_tag d tag_id c =
     (if ether_type c = RTE_ETHER_TYPE_VLAN then
        (if tag_id \<noteq> 0 \<and> tag_id \<noteq> RTE_VLAN_TCI_ID (vlan_tci c)
         then Some (put16 14 ((vlan_tci c AND 0xf000) OR (tag_id AND 0x0fff)) c)
         else if tag_id = 0 then Some (rte_vlan_strip d c)
         else Some c)
      else if tag_id \<noteq> 0 then
        (let c = rte_vlan_insert d c
         in if ether_type c = RTE_ETHER_TYPE_VLAN
            then Some (put16 14 ((vlan_tci c AND 0xf000) OR (tag_id AND 0x0fff)) c)
            else None)
      else Some c)"

definition send_link :: "dpdk \<Rightarrow> rib_info \<Rightarrow> mbuf \<Rightarrow> nat option \<Rightarrow> nat \<Rightarrow> nat \<Rightarrow> nat \<Rightarrow> dp_state \<Rightarrow> dp_state option" where
  "send_link d r m rx_link tx_portid tx_queueid tx_link s =
     (if rte_eth_dev_count_avail d \<le> tx_portid then Some s
      else if rx_link = Some tx_link then Some s
      else do {
        pc \<leftarrow> arr (port r) tx_portid;
        (if \<not> pc_link_status pc then Some s
         else if \<not> tx_buffer_per_q d tx_portid tx_queueid then Some s
         else
           (case pktmbuf_copy d m s of
              (None, s) \<Rightarrow> Some s
            | (Some c, s) \<Rightarrow> do {
                link \<leftarrow> arr (vswitch_link r) tx_link;
                c \<leftarrow> link_tag d (vl_tag_id link) c;
                Some (eth_tx_buffer tx_portid tx_queueid c s)
              }))
      })"

section \<open>Verification of a received packet\<close>

definition verify_packet :: "dpdk \<Rightarrow> mbuf \<Rightarrow> nat option \<Rightarrow> nat option \<Rightarrow> int" where
  "verify_packet d m ipv4 ipv6 =
     (case (ipv4, ipv6) of
        (Some p, _) \<Rightarrow>
          if data_len m < 20 then -1
          else if rte_ipv4_cksum d m p \<noteq> 0 then -1
          else if drop_bit 4 (get8 p m) \<noteq> 4 then -1
          else if rte_ipv4_hdr_len d m p < 20 then -1
          else if get16 (p + 2) m < 20 then -1
          else if get8 (p + 8) m \<le> 1 then -1
          else 0
      | (None, Some p) \<Rightarrow>
          if data_len m < 40 then -1
          else if get8 p m AND 0xf0 \<noteq> 0x60 then -1
          else if get8 (p + 7) m \<le> 1 then -1
          else 0
      | (None, None) \<Rightarrow> 0)"

section \<open>Layer 2\<close>

definition ROUTER_IF_RX_SELF_PORT_ID :: nat where "ROUTER_IF_RX_SELF_PORT_ID = 65535"

text \<open>The link in slot \<open>i\<close> of a switch: its index and its record.\<close>

definition vs_link_at :: "rib_info \<Rightarrow> vswitch_conf \<Rightarrow> nat \<Rightarrow> (nat \<times> vswitch_link) option" where
  "vs_link_at r vs i = do {
     link_id \<leftarrow> arr (vs_link_id vs) i;
     link \<leftarrow> arr (vswitch_link r) (unat link_id);
     Some (unat link_id, link)
   }"

definition flooding :: "dpdk \<Rightarrow> nat \<Rightarrow> rib_info \<Rightarrow> mbuf \<Rightarrow> nat \<Rightarrow> nat option \<Rightarrow> vswitch_conf \<Rightarrow> dp_state \<Rightarrow> dp_state option" where
  "flooding d lcore_id r m rx_portid rx_link vs s = do {
     s \<leftarrow> each (\<lambda>i s. do {
         (link_id, link) \<leftarrow> vs_link_at r vs i;
         pc \<leftarrow> arr (port r) (unat (vl_port_id link));
         (if pc_is_stopped pc then Some s
          else send_link d r m rx_link (unat (vl_port_id link)) lcore_id link_id s)
       }) [0..<vs_port_size vs] s;
     (if rx_portid \<noteq> ROUTER_IF_RX_SELF_PORT_ID \<and> 0 \<le> rif_sockfd (vs_router_if vs) \<and> rif_ring_up (vs_router_if vs) \<noteq> None
      then send_router_if_ring d m (vs_router_if vs) s else Some s)
   }"

text \<open>The first link of the switch on a given port.\<close>

definition link_on_port :: "rib_info \<Rightarrow> vswitch_conf \<Rightarrow> int \<Rightarrow> nat option option" where
  "link_on_port r vs dst_port =
     scan (\<lambda>i. do {
         (link_id, link) \<leftarrow> vs_link_at r vs i;
         Some (if int (unat (vl_port_id link)) = dst_port then Some link_id else None)
       }) [0..<vs_port_size vs]"

definition switching :: "dpdk \<Rightarrow> nat \<Rightarrow> rib_info \<Rightarrow> mbuf \<Rightarrow> nat \<Rightarrow> nat option \<Rightarrow> vswitch_conf \<Rightarrow> dp_state \<Rightarrow> dp_state option" where
  "switching d lcore_id r m rx_portid rx_link vs s =
     (if vs_is_deleted vs then Some s
      else if rte_is_multicast_ether_addr d (dst_addr m) \<or> rte_is_broadcast_ether_addr d (dst_addr m)
      then flooding d lcore_id r m rx_portid rx_link vs s
      else
        (let dst_port = fdb_lookup_entry (fdb_of r) (dst_addr m) (vs_vlan_id vs)
         in do {
           found \<leftarrow> (if 0 \<le> dst_port then link_on_port r vs dst_port else Some None);
           (case found of
              Some link_id \<Rightarrow> send_link d r m rx_link (nat dst_port) lcore_id link_id s
            | None \<Rightarrow> flooding d lcore_id r m rx_portid rx_link vs s)
         }))"

section \<open>Layer 3\<close>

definition vswitch_at :: "rib_info \<Rightarrow> nat \<Rightarrow> vswitch_conf option" where
  "vswitch_at r i = arr (vswitch r) i"

definition af_to_neigh_table :: "int \<Rightarrow> neigh_type" where
  "af_to_neigh_table af = (if af = AF_INET then NEIGH_ARP_TABLE else NEIGH_ND_TABLE)"

definition neigh_entry_of :: "rib_info \<Rightarrow> neigh_type \<Rightarrow> u8 list \<Rightarrow> neigh_entry option" where
  "neigh_entry_of r type ip =
     (case neigh_manager_lookup (neigh_tables_of r type) type ip of
        (pos, found) \<Rightarrow> if found then Some (entries (neigh_tables_of r type) ! nat pos) else None)"

text \<open>The address to resolve: the gateway, or the destination on a directly connected route.\<close>

definition lookup_ip :: "nh_info \<Rightarrow> u8 list \<Rightarrow> u8 list" where
  "lookup_ip info dst_ip = (if nhi_type info = NEXTHOP_TYPE_CONNECTED then dst_ip else gw info)"

text \<open>ARP or neighbor solicitation on the first switch whose router interface is the outgoing one.\<close>

definition resolve :: "dpdk \<Rightarrow> nat \<Rightarrow> rib_info \<Rightarrow> nh_info \<Rightarrow> u8 list \<Rightarrow> dp_state \<Rightarrow> dp_state option" where
  "resolve d lcore_id r info ip s = do {
     found \<leftarrow> scan (\<lambda>i. do {
         vs \<leftarrow> vswitch_at r i;
         Some (if rif_ifindex (vs_router_if vs) = sint (oif info) then Some vs else None)
       }) [0..<vswitch_size r];
     (case found of
        None \<Rightarrow> Some s
      | Some vs \<Rightarrow>
          (let rif = vs_router_if vs
           in case (if nhi_family info = AF_INET then arp_req_pkt_gen d (rif_mac_addr rif) (rif_ipv4_addr rif) ip s
                    else ns_pkt_gen d (rif_mac_addr rif) (rif_ll_addr rif) ip s) of
                (None, s) \<Rightarrow> Some s
              | (Some pkt, s) \<Rightarrow> flooding d lcore_id r pkt ROUTER_IF_RX_SELF_PORT_ID None vs s))
   }"

definition target_vswitch :: "rib_info \<Rightarrow> int \<Rightarrow> vswitch_conf option option" where
  "target_vswitch r out_if =
     scan (\<lambda>i. do {
         vs \<leftarrow> vswitch_at r i;
         Some (if \<not> vs_is_deleted vs \<and> rif_ifindex (vs_router_if vs) = out_if then Some vs else None)
       }) [0..<vswitch_size r]"

definition rewrite_headers :: "dpdk \<Rightarrow> u8 list \<Rightarrow> u8 list \<Rightarrow> nat option \<Rightarrow> nat option \<Rightarrow> mbuf \<Rightarrow> mbuf" where
  "rewrite_headers d src_mac dst_mac ipv4 ipv6 m =
     (let m = (case (ipv4, ipv6) of
          (Some p, _) \<Rightarrow>
            (let m = put8 (p + 8) (get8 (p + 8) m - 1) m;
                 m = put16 (p + 10) 0 m
             in put16 (p + 10) (rte_ipv4_cksum d m p) m)
        | (None, Some p) \<Rightarrow> put8 (p + 7) (get8 (p + 7) m - 1) m
        | (None, None) \<Rightarrow> m)
      in puts 0 dst_mac (puts 6 src_mac m))"

definition dst_ip :: "mbuf \<Rightarrow> nat option \<Rightarrow> nat option \<Rightarrow> u8 list" where
  "dst_ip m ipv4 ipv6 =
     (case (ipv4, ipv6) of
        (Some p, _) \<Rightarrow> gets (p + 16) 4 m @ replicate 12 0
      | (None, Some p) \<Rightarrow> gets (p + 24) 16 m
      | (None, None) \<Rightarrow> replicate 16 0)"

text \<open>From the neighbor's MAC address on: find the port, rewrite the packet and send it.\<close>

definition forward_to :: "dpdk \<Rightarrow> nat \<Rightarrow> rib_info \<Rightarrow> mbuf \<Rightarrow> nat \<Rightarrow> nat option \<Rightarrow> nat option \<Rightarrow> nat option \<Rightarrow> int \<Rightarrow> u8 list \<Rightarrow> dp_state \<Rightarrow> dp_state option" where
  "forward_to d lcore_id r m rx_portid ipv4 ipv6 rx_link out_if dst_mac s = do {
     target \<leftarrow> target_vswitch r out_if;
     (case target of
        None \<Rightarrow> Some s
      | Some vs \<Rightarrow>
          (let dst_port = fdb_lookup_entry (fdb_of r) dst_mac (vs_vlan_id vs)
           in if dst_port < 0 then Some s
              else do {
                tx_link \<leftarrow> link_on_port r vs dst_port;
                (case tx_link of
                   None \<Rightarrow> Some s
                 | Some tx_link \<Rightarrow> do {
                     pc \<leftarrow> arr (port r) (nat dst_port);
                     (if pc_is_stopped pc then Some s
                      else
                        (let m = (if rx_portid \<noteq> ROUTER_IF_RX_SELF_PORT_ID
                                  then rewrite_headers d (rif_mac_addr (vs_router_if vs)) dst_mac ipv4 ipv6 m else m)
                         in send_link d r m rx_link (nat dst_port) lcore_id tx_link s))
                   })
              }))
   }"

text \<open>The packet with its next hop: resolve the neighbor or forward to it.\<close>

definition forward_via ::
  "dpdk \<Rightarrow> nat \<Rightarrow> rib_info \<Rightarrow> mbuf \<Rightarrow> nat \<Rightarrow> nat option \<Rightarrow> nat option \<Rightarrow> nat option \<Rightarrow> nh_info \<Rightarrow> dp_state \<Rightarrow> dp_state option"
where
  "forward_via d lcore_id r m rx_portid ipv4 ipv6 rx_link info s =
     (let ip = lookup_ip info (dst_ip m ipv4 ipv6)
      in case neigh_entry_of r (af_to_neigh_table (nhi_family info)) ip of
           None \<Rightarrow> resolve d lcore_id r info ip s
         | Some neigh \<Rightarrow>
             if rte_is_zero_ether_addr d (ne_mac_addr neigh) then resolve d lcore_id r info ip s
             else forward_to d lcore_id r m rx_portid ipv4 ipv6 rx_link (sint (oif info)) (ne_mac_addr neigh) s)"

definition forwarding ::
  "dpdk \<Rightarrow> nat \<Rightarrow> rib_info \<Rightarrow> mbuf \<Rightarrow> nat \<Rightarrow> nat option \<Rightarrow> nat option \<Rightarrow> nat option \<Rightarrow> dp_state \<Rightarrow> dp_state option"
where
  "forwarding d lcore_id r m rx_portid ipv4 ipv6 rx_link s =
     (let tree_idx = (if ipv4 \<noteq> None then 0 else 1)
      in do {
        fib \<leftarrow> fib_tree_of r ! tree_idx;
        (case fib_route_lookup (stack_u8 d) fib (bytes_at (dst_ip m ipv4 ipv6)) of
           FNull \<Rightarrow> Some s
         | FNode leaf nkey nkeylen nh_id cs \<Rightarrow> do {
             info \<leftarrow> nexthop_get_info_by_index (nexthop_of r) nh_id;
             forward_via d lcore_id r m rx_portid ipv4 ipv6 rx_link info s
           })
      })"

section \<open>Control packets\<close>

definition neigh_learnt :: "dpdk \<Rightarrow> int \<Rightarrow> neigh_type \<Rightarrow> router_if \<Rightarrow> u8 list \<Rightarrow> u8 list \<Rightarrow> internal_msg_neigh_entry" where
  "neigh_learnt d family type rif ip mac =
     \<lparr>mne_type = type, mne_pos = stack_int d, mne_num_entries = stack_nat d,
      mne_data = \<lparr>ne_family = family, ne_ip_addr = ip @ replicate (16 - length ip) (stack_u8 d), ne_mac_addr = mac,
        ne_state = 2, ne_ifindex = rif_ifindex rif\<rparr>\<rparr>"

definition send_neigh :: "dpdk \<Rightarrow> internal_msg_neigh_entry \<Rightarrow> dp_state \<Rightarrow> dp_state option" where
  "send_neigh d msg s =
     (case internal_msg_create (Neigh_Msg (NEIGH_ENTRY_ADD msg)) s of
        (msgp, s) \<Rightarrow> map_option snd (internal_msg_send_to (msg_queue_neigh d) msgp s))"

text \<open>\<open>vlan\<close> tells whether the packet has a VLAN header; \<open>icmp\<close> is the offset of an ICMP header.\<close>

definition check_control_packet ::
  "dpdk \<Rightarrow> mbuf \<Rightarrow> vswitch_conf \<Rightarrow> u16 \<Rightarrow> bool \<Rightarrow> nat option \<Rightarrow> nat option \<Rightarrow> nat option \<Rightarrow> dp_state \<Rightarrow> (bool \<times> dp_state) option"
where
  "check_control_packet d m vs eth_type vlan ipv4 ipv6 icmp s =
     (let rif = vs_router_if vs;
          inner_eth_type = (if eth_type = RTE_ETHER_TYPE_VLAN \<and> vlan then eth_proto m else eth_type)
      in if inner_eth_type = RTE_ETHER_TYPE_ARP then
           (let arp = (if vlan then 18 else 14)
            in if gets (arp + 24) 4 m \<noteq> rif_ipv4_addr rif then Some (False, s)
               else if get16 (arp + 6) m = 2
               then map_option (Pair True)
                      (send_neigh d (neigh_learnt d AF_INET NEIGH_ARP_TABLE rif (gets (arp + 14) 4 m) (gets (arp + 8) 6 m)) s)
               else Some (True, s))
         else
           (case (ipv4, ipv6) of
              (Some p, _) \<Rightarrow> Some (gets (p + 16) 4 m = rif_ipv4_addr rif \<or> next_proto_id m p = IPPROTO_OSPF, s)
            | (None, Some p) \<Rightarrow>
                if ipv6_proto m p = IPPROTO_OSPF then Some (True, s)
                else
                  (case icmp of
                     None \<Rightarrow> Some (False, s)
                   | Some q \<Rightarrow>
                       if get8 q m = ICMPV6_NS then Some (gets (q + 8) 16 m = rif_ipv6_addr rif, s)
                       else if get8 q m = ICMPV6_NA \<and> gets (p + 24) 16 m = rif_ll_addr rif
                       then map_option (Pair True)
                              (send_neigh d (neigh_learnt d 10 NEIGH_ND_TABLE rif (gets (q + 8) 16 m) (src_addr m)) s)
                       else Some (False, s))
            | (None, None) \<Rightarrow> Some (False, s)))"

section \<open>Tags\<close>

text \<open>
  What DPDK documents of \<^verbatim>\<open>rte_vlan_insert\<close> and \<^verbatim>\<open>rte_vlan_strip\<close>: a tag with some control
  information is put between the addresses and the type of a frame, or taken out.
\<close>

definition vlan_ops_ok :: "dpdk \<Rightarrow> bool" where
  "vlan_ops_ok d \<longleftrightarrow>
     (\<forall>m. 14 \<le> length (m_data m) \<longrightarrow> ether_type m \<noteq> RTE_ETHER_TYPE_VLAN \<longrightarrow>
        (\<exists>t1 t2. m_data (rte_vlan_insert d m) = take 12 (m_data m) @ [0x81, 0x00, t1, t2] @ drop 12 (m_data m)))
     \<and> (\<forall>m. 18 \<le> length (m_data m) \<longrightarrow> ether_type m = RTE_ETHER_TYPE_VLAN \<longrightarrow>
        m_data (rte_vlan_strip d m) = take 12 (m_data m) @ drop 16 (m_data m))"

definition frame_tag :: "mbuf \<Rightarrow> u16 option" where
  "frame_tag m = (if ether_type m = RTE_ETHER_TYPE_VLAN then Some (RTE_VLAN_TCI_ID (vlan_tci m)) else None)"

definition untagged_frame :: "mbuf \<Rightarrow> u8 list" where
  "untagged_frame m =
     (if ether_type m = RTE_ETHER_TYPE_VLAN then take 12 (m_data m) @ drop 16 (m_data m) else m_data m)"

definition set_tag :: "u16 \<Rightarrow> mbuf \<Rightarrow> mbuf" where
  "set_tag tag_id c = put16 14 ((vlan_tci c AND 0xf000) OR (tag_id AND 0x0fff)) c"

lemma mask_tag: "((x AND 0xf000) OR (y AND 0x0fff)) AND 0x0fff = (y :: u16) AND 0x0fff"
  "((x AND 0xf000) OR (x AND 0x0fff)) = (x :: u16)"
  "((x AND 0xf000) OR (y AND 0x0fff)) AND 0xf000 = (x :: u16) AND 0xf000"
proof -
  have m: "(0x0fff :: u16) = mask 12" "(0xf000 :: u16) = NOT (mask 12)" by (simp_all add: mask_eq_exp_minus_1)
  show "((x AND 0xf000) OR (y AND 0x0fff)) AND 0x0fff = (y :: u16) AND 0x0fff" "((x AND 0xf000) OR (x AND 0x0fff)) = (x :: u16)"
    "((x AND 0xf000) OR (y AND 0x0fff)) AND 0xf000 = (x :: u16) AND 0xf000"
    unfolding m by (rule bit_word_eqI; auto simp: bit_simps)+
qed

lemma set_tag_spec:
  assumes "ether_type c = RTE_ETHER_TYPE_VLAN" "18 \<le> length (m_data c)"
  shows "ether_type (set_tag t c) = RTE_ETHER_TYPE_VLAN" "frame_tag (set_tag t c) = Some (t AND 0x0fff)"
    "untagged_frame (set_tag t c) = untagged_frame c" "vlan_tci (set_tag t c) AND 0xf000 = vlan_tci c AND 0xf000"
proof -
  show e: "ether_type (set_tag t c) = RTE_ETHER_TYPE_VLAN"
    using assms(1) by (simp add: set_tag_def ether_type_def get16_put16_other)
  have v: "vlan_tci (set_tag t c) = (vlan_tci c AND 0xf000) OR (t AND 0x0fff)"
    unfolding vlan_tci_def set_tag_def using assms(2) by (subst get16_put16) auto
  show "frame_tag (set_tag t c) = Some (t AND 0x0fff)" by (simp add: frame_tag_def e v RTE_VLAN_TCI_ID_def mask_tag)
  show "vlan_tci (set_tag t c) AND 0xf000 = vlan_tci c AND 0xf000" by (simp add: v mask_tag)
  have "take 12 (m_data (set_tag t c)) = take 12 (m_data c)" "drop 16 (m_data (set_tag t c)) = drop 16 (m_data c)"
    by (simp_all add: set_tag_def put16_def put8_def drop_update_cancel)
  then show "untagged_frame (set_tag t c) = untagged_frame c" by (simp add: untagged_frame_def e assms(1))
qed

lemma set_tag_same:
  assumes "16 \<le> length (m_data c)" "t = RTE_VLAN_TCI_ID (vlan_tci c)"
  shows "set_tag t c = c"
proof -
  have "(vlan_tci c AND 0xf000) OR (t AND 0x0fff) = vlan_tci c" by (simp add: assms(2) RTE_VLAN_TCI_ID_def mask_tag)
  then show ?thesis using put16_same [of 14 c] assms(1) by (simp add: set_tag_def vlan_tci_def)
qed

lemma vlan_insert_spec:
  assumes "vlan_ops_ok d" "14 \<le> length (m_data c)" "ether_type c \<noteq> RTE_ETHER_TYPE_VLAN"
  shows "ether_type (rte_vlan_insert d c) = RTE_ETHER_TYPE_VLAN" "untagged_frame (rte_vlan_insert d c) = m_data c"
    "length (m_data (rte_vlan_insert d c)) = length (m_data c) + 4"
proof -
  obtain t1 t2 where i: "m_data (rte_vlan_insert d c) = take 12 (m_data c) @ [0x81, 0x00, t1, t2] @ drop 12 (m_data c)"
    using assms unfolding vlan_ops_ok_def by blast
  show e: "ether_type (rte_vlan_insert d c) = RTE_ETHER_TYPE_VLAN"
    using assms(2) by (simp add: ether_type_def get16_def get8_def bytes_at_def i nth_append RTE_ETHER_TYPE_VLAN_def)
  show "untagged_frame (rte_vlan_insert d c) = m_data c" "length (m_data (rte_vlan_insert d c)) = length (m_data c) + 4"
    using assms(2) by (simp_all add: untagged_frame_def e i)
qed

lemma link_tag_eq:
  assumes "vlan_ops_ok d" "18 \<le> length (m_data c)"
  shows "link_tag d tag_id c = Some
     (if ether_type c = RTE_ETHER_TYPE_VLAN then (if tag_id = 0 then rte_vlan_strip d c else set_tag tag_id c)
      else if tag_id = 0 then c else set_tag tag_id (rte_vlan_insert d c))"
  using set_tag_same [of c tag_id] vlan_insert_spec(1) [OF assms(1), of c] assms(2)
  by (auto simp: link_tag_def set_tag_def Let_def)

lemma router_if_tag_eq:
  assumes "vlan_ops_ok d" "18 \<le> length (m_data c)"
  shows "router_if_tag d tag_id c = Some
     (if ether_type c = RTE_ETHER_TYPE_VLAN then (if tag_id = 0 then rte_vlan_strip d c else set_tag tag_id c)
      else if tag_id = 0 then c else set_tag tag_id (rte_vlan_insert d c))"
  using vlan_insert_spec(1) [OF assms(1), of c] assms(2)
  by (auto simp: router_if_tag_def set_tag_def Let_def is_rte_vlan_hdr_def rte_vlan_hdr_set_def rte_vlan_hdr_def vlan_tci_def)

text \<open>
  Every copy leaves with the tag of the link it leaves by, and is otherwise the same frame.
  With DPDK's documented insertion and removal of tags, \<^verbatim>\<open>_send_link\<close> never violates its
  assertion; on a tagged link the copy has exactly one more or the same outer tag, with the VLAN
  of the link and the priority bits the frame came with, on an untagged link the outer tag is
  gone; the addresses, the inner type and the payload are unchanged.
\<close>

theorem link_tag_correct:
  assumes "vlan_ops_ok d" "18 \<le> length (m_data c)"
  shows "\<exists>c'. link_tag d tag_id c = Some c'
    \<and> (tag_id \<noteq> 0 \<longrightarrow> frame_tag c' = Some (tag_id AND 0x0fff) \<and> untagged_frame c' = untagged_frame c
         \<and> (frame_tag c \<noteq> None \<longrightarrow> vlan_tci c' AND 0xf000 = vlan_tci c AND 0xf000))
    \<and> (tag_id = 0 \<longrightarrow> m_data c' = untagged_frame c)"
proof (cases "ether_type c = RTE_ETHER_TYPE_VLAN")
  case True
  then have "m_data (rte_vlan_strip d c) = untagged_frame c"
    using assms unfolding vlan_ops_ok_def untagged_frame_def by simp
  with True set_tag_spec [OF True assms(2)] show ?thesis by (simp add: link_tag_eq [OF assms])
next
  case False
  have l: "14 \<le> length (m_data c)" using assms(2) by simp
  note i = vlan_insert_spec [OF assms(1) l False]
  have "18 \<le> length (m_data (rte_vlan_insert d c))" using i(3) l by simp
  note s = set_tag_spec [OF i(1) this]
  show ?thesis using False i s by (simp add: link_tag_eq [OF assms] frame_tag_def untagged_frame_def [of c])
qed

text \<open>
  The tag rewriting for router interfaces (\<^verbatim>\<open>_send_router_if_ring\<close>, over the helpers of
  \<^verbatim>\<open>packet_hdr.h\<close>) and for links (\<^verbatim>\<open>_send_link\<close>, written out) are two implementations of the
  same function, although the second leaves a frame alone that already has the right tag.
\<close>

theorem router_if_tag_is_link_tag:
  assumes "vlan_ops_ok d" "18 \<le> length (m_data c)"
  shows "router_if_tag d tag_id c = link_tag d tag_id c"
  using link_tag_eq [OF assms] router_if_tag_eq [OF assms] by simp

section \<open>A concrete DPDK\<close>

text \<open>An instance of the parameters, for examples.\<close>

definition sample_dpdk :: dpdk where
  "sample_dpdk =
     \<lparr>rte_eth_dev_count_avail = 2, tx_buffer_per_q = (\<lambda>p q. True), rte_pktmbuf_copy = id,
      rte_pktmbuf_alloc = \<lparr>m_data = replicate 128 0, data_len = 0, m_port = 0\<rparr>,
      rte_vlan_insert = (\<lambda>m. m\<lparr>m_data := take 12 (m_data m) @ [0x81, 0x00, 0, 0] @ drop 12 (m_data m), data_len := data_len m + 4\<rparr>),
      rte_vlan_strip = (\<lambda>m. m\<lparr>m_data := take 12 (m_data m) @ drop 16 (m_data m), data_len := data_len m - 4\<rparr>),
      rte_ipv4_cksum = (\<lambda>m p. 0), rte_ipv4_hdr_len = (\<lambda>m p. 4 * unat (get8 p m AND 0xf)), rte_ipv6_udptcp_cksum = (\<lambda>m p q. 0),
      rte_is_multicast_ether_addr = (\<lambda>a. odd (a ! 0)), rte_is_broadcast_ether_addr = (\<lambda>a. a = replicate 6 0xff),
      rte_is_zero_ether_addr = (\<lambda>a. a = replicate 6 0), msg_queue_neigh = True, msg_queue_rib = True,
      stack_u8 = 0, stack_int = 0, stack_nat = 0\<rparr>"

lemma sample_dpdk_vlan: "vlan_ops_ok sample_dpdk"
  by (simp add: vlan_ops_ok_def sample_dpdk_def)

theorem link_tag_correct_witness:
  "\<exists>c'. link_tag sample_dpdk 7 \<lparr>m_data = replicate 64 0, data_len = 64, m_port = 0\<rparr> = Some c' \<and> frame_tag c' = Some 7"
proof -
  have "(7 :: u16) AND 0x0fff = 7" by simp
  then show ?thesis
    using link_tag_correct [OF sample_dpdk_vlan, of "\<lparr>m_data = replicate 64 0, data_len = 64, m_port = 0\<rparr>" 7] by auto
qed

theorem router_if_tag_is_link_tag_witness:
  "router_if_tag sample_dpdk 7 \<lparr>m_data = replicate 64 0, data_len = 64, m_port = 0\<rparr>
     = link_tag sample_dpdk 7 \<lparr>m_data = replicate 64 0, data_len = 64, m_port = 0\<rparr>"
  by (rule router_if_tag_is_link_tag) (simp_all add: sample_dpdk_vlan)

section \<open>What is sent\<close>

definition dp_fine :: "dp_state \<Rightarrow> bool" where
  "dp_fine s \<longleftrightarrow> never_fails (dp_allocs s) \<and> never_fails (dp_enqueues s)"

text \<open>The parameters keep buffers large enough for the headers.\<close>

definition dpdk_ok :: "dpdk \<Rightarrow> bool" where
  "dpdk_ok d \<longleftrightarrow> vlan_ops_ok d \<and> (\<forall>m. 64 \<le> length (m_data m) \<longrightarrow> 64 \<le> length (m_data (rte_pktmbuf_copy d m)))"

lemma dpdk_okD: "dpdk_ok d \<Longrightarrow> vlan_ops_ok d"
  "dpdk_ok d \<Longrightarrow> 64 \<le> length (m_data m) \<Longrightarrow> 64 \<le> length (m_data (rte_pktmbuf_copy d m))"
  by (auto simp: dpdk_ok_def)

lemma dp_events_emit [simp]: "dp_events (emit e s) = dp_events s @ [e]" "dp_fine (emit e s) = dp_fine s"
  by (simp_all add: emit_def dp_fine_def)

lemma dp_events_tx [simp]: "dp_events (eth_tx_buffer p q c s) = dp_events s @ [Tx p q c]" "dp_fine (eth_tx_buffer p q c s) = dp_fine s"
  by (simp_all add: eth_tx_buffer_def count_sent_def emit_def dp_fine_def split: list.splits)

lemma pktmbuf_copy_cases:
  obtains s' where "pktmbuf_copy d m s = (None, s')" "dp_events s' = dp_events s" "\<not> dp_fine s"
  | s' where "pktmbuf_copy d m s = (Some (rte_pktmbuf_copy d m), s')" "dp_events s' = dp_events s" "dp_fine s \<Longrightarrow> dp_fine s'"
proof -
  obtain ok ms where a: "malloc_ok (dp_allocs s) = (ok, ms)" by fastforce
  have f: "never_fails (dp_allocs s) \<Longrightarrow> ok \<and> never_fails ms" using malloc_never_fails [of "dp_allocs s"] a by auto
  show thesis
  proof (cases ok)
    case True
    show thesis by (rule that(2) [of "s\<lparr>dp_allocs := ms\<rparr>"]) (use a True f in \<open>auto simp: pktmbuf_copy_def dp_fine_def\<close>)
  next
    case False
    show thesis by (rule that(1) [of "s\<lparr>dp_allocs := ms\<rparr>"]) (use a False f in \<open>auto simp: pktmbuf_copy_def dp_fine_def\<close>)
  qed
qed

lemma ring_enqueue_fine:
  "dp_fine s \<Longrightarrow> \<exists>s'. ring_enqueue ring c s = (True, s') \<and> dp_fine s' \<and> dp_events s' = dp_events s @ [Ring ring c]"
  using malloc_never_fails [of "dp_enqueues s"] by (auto simp: ring_enqueue_def dp_fine_def emit_def)

lemma send_ring_fine:
  assumes "dp_fine s"
  shows "\<exists>s'. send_ring d m ring s = (0, s') \<and> dp_fine s' \<and> dp_events s' = dp_events s @ [Ring ring (rte_pktmbuf_copy d m)]"
proof (cases rule: pktmbuf_copy_cases [of d m s])
  case (2 s1)
  then show ?thesis using ring_enqueue_fine [of s1 ring "rte_pktmbuf_copy d m"] assms by (auto simp: send_ring_def)
qed (use assms in simp)

lemma send_ring_snd:
  "dp_fine s \<Longrightarrow> dp_fine (snd (send_ring d m ring s))"
  "dp_fine s \<Longrightarrow> dp_events (snd (send_ring d m ring s)) = dp_events s @ [Ring ring (rte_pktmbuf_copy d m)]"
  using send_ring_fine [of s d m ring] by auto

text \<open>What a router interface gets: its copy, tagged, copied once more on its way into the ring.\<close>

definition router_if_copies :: "dpdk \<Rightarrow> mbuf \<Rightarrow> router_if \<Rightarrow> dp_event list" where
  "router_if_copies d m rif =
     (case rif_ring_up rif of
        None \<Rightarrow> []
      | Some ring \<Rightarrow> [Ring ring (rte_pktmbuf_copy d (the (router_if_tag d (rif_vlan_id rif) (rte_pktmbuf_copy d m))))])"

lemma send_router_if_ring_ok:
  assumes d: "dpdk_ok d" and m: "64 \<le> length (m_data m)"
  shows "\<exists>s'. send_router_if_ring d m rif s = Some s'
           \<and> (dp_fine s \<longrightarrow> dp_fine s' \<and> dp_events s' = dp_events s @ router_if_copies d m rif)"
proof (cases rule: pktmbuf_copy_cases [of d m s])
  case (2 s1)
  have "18 \<le> length (m_data (rte_pktmbuf_copy d m))" using dpdk_okD(2) [OF d m] by simp
  then obtain c where c: "router_if_tag d (rif_vlan_id rif) (rte_pktmbuf_copy d m) = Some c"
    using router_if_tag_eq [OF dpdk_okD(1) [OF d]] by blast
  show ?thesis
    using 2 c by (auto simp: send_router_if_ring_def router_if_copies_def send_ring_snd split: option.splits)
qed (simp add: send_router_if_ring_def)

text \<open>Links that lead somewhere: another link than the incoming one, on a port that is up.\<close>

definition link_port :: "rib_info \<Rightarrow> nat \<Rightarrow> nat" where
  "link_port r l = unat (vl_port_id (vswitch_link r ! l))"

definition link_open :: "dpdk \<Rightarrow> nat \<Rightarrow> rib_info \<Rightarrow> nat option \<Rightarrow> nat \<Rightarrow> nat \<Rightarrow> bool" where
  "link_open d lcore_id r rx_link p l \<longleftrightarrow>
     p < rte_eth_dev_count_avail d \<and> rx_link \<noteq> Some l \<and> pc_link_status (port r ! p) \<and> tx_buffer_per_q d p lcore_id"

definition link_copy :: "dpdk \<Rightarrow> nat \<Rightarrow> rib_info \<Rightarrow> mbuf \<Rightarrow> nat \<Rightarrow> nat \<Rightarrow> dp_event" where
  "link_copy d lcore_id r m p l = Tx p lcore_id (the (link_tag d (vl_tag_id (vswitch_link r ! l)) (rte_pktmbuf_copy d m)))"

lemma send_link_ok:
  assumes d: "dpdk_ok d" and m: "64 \<le> length (m_data m)" and l: "l < length (vswitch_link r)" and p: "p < length (port r)"
  shows "\<exists>s'. send_link d r m rx_link p lcore_id l s = Some s'
    \<and> (dp_fine s \<longrightarrow> dp_fine s'
         \<and> dp_events s' = dp_events s @ (if link_open d lcore_id r rx_link p l then [link_copy d lcore_id r m p l] else []))"
proof (cases "link_open d lcore_id r rx_link p l")
  case True
  then have o: "p < rte_eth_dev_count_avail d" "rx_link \<noteq> Some l" "pc_link_status (port r ! p)" "tx_buffer_per_q d p lcore_id"
    by (auto simp: link_open_def)
  show ?thesis
  proof (cases rule: pktmbuf_copy_cases [of d m s])
    case (2 s1)
    have "18 \<le> length (m_data (rte_pktmbuf_copy d m))" using dpdk_okD(2) [OF d m] by simp
    then obtain c where c: "link_tag d (vl_tag_id (vswitch_link r ! l)) (rte_pktmbuf_copy d m) = Some c"
      using link_tag_eq [OF dpdk_okD(1) [OF d]] by blast
    have "send_link d r m rx_link p lcore_id l s = Some (eth_tx_buffer p lcore_id c s1)"
      using o 2 c l p by (simp add: send_link_def arr_def)
    then show ?thesis using True 2 c by (simp add: link_copy_def)
  qed (use o p True in \<open>simp add: send_link_def arr_def\<close>)
next
  case False
  then have "send_link d r m rx_link p lcore_id l s = Some s" using p by (auto simp: send_link_def link_open_def arr_def)
  then show ?thesis using False by simp
qed

section \<open>Flooding and switching\<close>

definition vs_consistent :: "rib_info \<Rightarrow> vswitch_conf \<Rightarrow> bool" where
  "vs_consistent r vs \<longleftrightarrow> vs_port_size vs \<le> length (vs_link_id vs)
     \<and> (\<forall>l \<in> set (vs_members vs). unat l < length (vswitch_link r) \<and> link_port r (unat l) < length (port r))"

lemma vs_link_at_ok:
  assumes "vs_consistent r vs" "i < vs_port_size vs"
  shows "vs_link_at r vs i = Some (unat (vs_members vs ! i), vswitch_link r ! unat (vs_members vs ! i))"
    "unat (vs_members vs ! i) < length (vswitch_link r)" "link_port r (unat (vs_members vs ! i)) < length (port r)"
proof -
  have i: "i < length (vs_link_id vs)" "vs_members vs ! i = vs_link_id vs ! i" "vs_members vs ! i \<in> set (vs_members vs)"
    using assms by (auto simp: vs_consistent_def vs_members_def intro: nth_mem [of i "take (vs_port_size vs) (vs_link_id vs)", simplified])
  then have *: "unat (vs_members vs ! i) < length (vswitch_link r) \<and> link_port r (unat (vs_members vs ! i)) < length (port r)"
    using assms(1) by (simp add: vs_consistent_def)
  then show "unat (vs_members vs ! i) < length (vswitch_link r)" "link_port r (unat (vs_members vs ! i)) < length (port r)" by auto
  show "vs_link_at r vs i = Some (unat (vs_members vs ! i), vswitch_link r ! unat (vs_members vs ! i))"
    using i * by (simp add: vs_link_at_def arr_def)
qed

definition flood_links :: "dpdk \<Rightarrow> nat \<Rightarrow> rib_info \<Rightarrow> nat option \<Rightarrow> vswitch_conf \<Rightarrow> nat list" where
  "flood_links d lcore_id r rx_link vs =
     filter (\<lambda>l. \<not> pc_is_stopped (port r ! link_port r l) \<and> link_open d lcore_id r rx_link (link_port r l) l)
       (map unat (vs_members vs))"

definition flood_copies :: "dpdk \<Rightarrow> nat \<Rightarrow> rib_info \<Rightarrow> mbuf \<Rightarrow> nat option \<Rightarrow> vswitch_conf \<Rightarrow> dp_event list" where
  "flood_copies d lcore_id r m rx_link vs =
     map (\<lambda>l. link_copy d lcore_id r m (link_port r l) l) (flood_links d lcore_id r rx_link vs)"

lemma flood_step:
  assumes d: "dpdk_ok d" and m: "64 \<le> length (m_data m)" and vs: "vs_consistent r vs" and i: "i < vs_port_size vs"
  defines "l \<equiv> unat (vs_members vs ! i)"
  shows "\<exists>s'. (do {
         (link_id, link) \<leftarrow> vs_link_at r vs i;
         pc \<leftarrow> arr (port r) (unat (vl_port_id link));
         (if pc_is_stopped pc then Some s
          else send_link d r m rx_link (unat (vl_port_id link)) lcore_id link_id s)
       }) = Some s'
    \<and> (dp_fine s \<longrightarrow> dp_fine s' \<and> dp_events s' = dp_events s
         @ (if \<not> pc_is_stopped (port r ! link_port r l) \<and> link_open d lcore_id r rx_link (link_port r l) l
            then [link_copy d lcore_id r m (link_port r l) l] else []))"
proof -
  note a = vs_link_at_ok [OF vs i, folded l_def]
  have p: "arr (port r) (unat (vl_port_id (vswitch_link r ! l))) = Some (port r ! link_port r l)"
    using a(3) by (simp add: arr_def link_port_def)
  show ?thesis
    using send_link_ok [OF d m a(2,3), of rx_link lcore_id s] by (auto simp: a(1) p link_port_def)
qed

text \<open>A loop whose passes each send something sends all of it in order.\<close>

lemma each_events:
  assumes "\<And>x s. x \<in> set xs \<Longrightarrow> \<exists>s'. f x s = Some s' \<and> (dp_fine s \<longrightarrow> dp_fine s' \<and> dp_events s' = dp_events s @ e x)"
  shows "\<exists>s'. each f xs s = Some s' \<and> (dp_fine s \<longrightarrow> dp_fine s' \<and> dp_events s' = dp_events s @ concat (map e xs))"
  using assms
proof (induction xs arbitrary: s)
  case (Cons x xs)
  obtain s1 where 1: "f x s = Some s1" "dp_fine s \<longrightarrow> dp_fine s1 \<and> dp_events s1 = dp_events s @ e x"
    using Cons.prems [of x s] by auto
  have "\<exists>s'. f y s = Some s' \<and> (dp_fine s \<longrightarrow> dp_fine s' \<and> dp_events s' = dp_events s @ e y)" if "y \<in> set xs" for y s
    using Cons.prems that by simp
  from Cons.IH [OF this, of s1] obtain s2 where
    2: "each f xs s1 = Some s2" "dp_fine s1 \<longrightarrow> dp_fine s2 \<and> dp_events s2 = dp_events s1 @ concat (map e xs)" by blast
  show ?case using 1 2 by auto
qed simp

lemma concat_if: "concat (map (\<lambda>x. if P x then [g x] else []) xs) = map g (filter P xs)"
  by (induction xs) auto

lemma members_by_index:
  assumes "vs_consistent r vs"
  shows "map unat (vs_members vs) = map (\<lambda>i. unat (vs_members vs ! i)) [0..<vs_port_size vs]"
  by (rule nth_equalityI) (use assms in \<open>simp_all add: vs_members_def vs_consistent_def\<close>)

lemma each_member_events:
  assumes vs: "vs_consistent r vs"
    and f: "\<And>i s. i < vs_port_size vs \<Longrightarrow> \<exists>s'. f i s = Some s'
      \<and> (dp_fine s \<longrightarrow> dp_fine s' \<and> dp_events s' = dp_events s @ (if P (unat (vs_members vs ! i)) then [g (unat (vs_members vs ! i))] else []))"
  shows "\<exists>s'. each f [0..<vs_port_size vs] s = Some s'
      \<and> (dp_fine s \<longrightarrow> dp_fine s' \<and> dp_events s' = dp_events s @ map g (filter P (map unat (vs_members vs))))"
proof -
  have "concat (map (\<lambda>i. if P (unat (vs_members vs ! i)) then [g (unat (vs_members vs ! i))] else []) [0..<vs_port_size vs])
      = map g (filter P (map unat (vs_members vs)))"
    unfolding members_by_index [OF vs] by (simp add: concat_if filter_map comp_def)
  with each_events [of "[0..<vs_port_size vs]" f "\<lambda>i. if P (unat (vs_members vs ! i)) then [g (unat (vs_members vs ! i))] else []" s] f
  show ?thesis by auto
qed

lemma flood_loop:
  assumes d: "dpdk_ok d" and m: "64 \<le> length (m_data m)" and vs: "vs_consistent r vs"
  shows "\<exists>s'. each (\<lambda>i s. do {
         (link_id, link) \<leftarrow> vs_link_at r vs i;
         pc \<leftarrow> arr (port r) (unat (vl_port_id link));
         (if pc_is_stopped pc then Some s
          else send_link d r m rx_link (unat (vl_port_id link)) lcore_id link_id s)
       }) [0..<vs_port_size vs] s = Some s'
    \<and> (dp_fine s \<longrightarrow> dp_fine s' \<and> dp_events s' = dp_events s @ flood_copies d lcore_id r m rx_link vs)"
  unfolding flood_copies_def flood_links_def by (rule each_member_events [OF vs]) (rule flood_step [OF d m vs])

definition flood_router_if :: "dpdk \<Rightarrow> mbuf \<Rightarrow> nat \<Rightarrow> vswitch_conf \<Rightarrow> dp_event list" where
  "flood_router_if d m rx_portid vs =
     (if rx_portid \<noteq> ROUTER_IF_RX_SELF_PORT_ID \<and> 0 \<le> rif_sockfd (vs_router_if vs)
      then router_if_copies d m (vs_router_if vs) else [])"

lemma flooding_ok:
  assumes d: "dpdk_ok d" and m: "64 \<le> length (m_data m)" and vs: "vs_consistent r vs"
  shows "\<exists>s'. flooding d lcore_id r m rx_portid rx_link vs s = Some s'
    \<and> (dp_fine s \<longrightarrow> dp_fine s'
         \<and> dp_events s' = dp_events s @ flood_copies d lcore_id r m rx_link vs @ flood_router_if d m rx_portid vs)"
proof -
  from flood_loop [OF d m vs, where s = s and rx_link = rx_link and lcore_id = lcore_id] obtain s1 where
    1: "each (\<lambda>i s. do {
         (link_id, link) \<leftarrow> vs_link_at r vs i;
         pc \<leftarrow> arr (port r) (unat (vl_port_id link));
         (if pc_is_stopped pc then Some s
          else send_link d r m rx_link (unat (vl_port_id link)) lcore_id link_id s)
       }) [0..<vs_port_size vs] s = Some s1"
    and e1: "dp_fine s \<longrightarrow> dp_fine s1 \<and> dp_events s1 = dp_events s @ flood_copies d lcore_id r m rx_link vs"
    by blast
  from send_router_if_ring_ok [OF d m, where rif = "vs_router_if vs" and s = s1] obtain s2 where
    2: "send_router_if_ring d m (vs_router_if vs) s1 = Some s2"
    and e2: "dp_fine s1 \<longrightarrow> dp_fine s2 \<and> dp_events s2 = dp_events s1 @ router_if_copies d m (vs_router_if vs)" by blast
  show ?thesis
  proof (cases "rx_portid \<noteq> ROUTER_IF_RX_SELF_PORT_ID \<and> 0 \<le> rif_sockfd (vs_router_if vs) \<and> rif_ring_up (vs_router_if vs) \<noteq> None")
    case True
    then have "flooding d lcore_id r m rx_portid rx_link vs s = Some s2" unfolding flooding_def using 1 2 by simp
    with True e1 e2 show ?thesis by (auto simp: flood_router_if_def)
  next
    case False
    then have "flooding d lcore_id r m rx_portid rx_link vs s = Some s1" unfolding flooding_def using 1 by auto
    moreover from False have "flood_router_if d m rx_portid vs = []" by (auto simp: flood_router_if_def router_if_copies_def)
    ultimately show ?thesis using e1 by auto
  qed
qed

lemma find_map: "find P (map f xs) = map_option f (find (P \<circ> f) xs)"
  by (induction xs) auto

lemma link_on_port_ok:
  assumes "vs_consistent r vs"
  shows "link_on_port r vs dst_port = Some (find (\<lambda>l. int (link_port r l) = dst_port) (map unat (vs_members vs)))"
proof -
  let ?P = "\<lambda>i. int (link_port r (unat (vs_members vs ! i))) = dst_port"
  have "link_on_port r vs dst_port = Some (map_option (\<lambda>i. unat (vs_members vs ! i)) (find ?P [0..<vs_port_size vs]))"
    unfolding link_on_port_def by (rule scan_find) (auto simp: vs_link_at_ok(1) [OF assms] link_port_def)
  then show ?thesis by (simp add: members_by_index [OF assms] find_map comp_def)
qed

lemma find_mem: "find P xs = Some x \<Longrightarrow> x \<in> set xs \<and> P x"
  by (induction xs) (auto split: if_splits)

text \<open>
  C14: Layer-2 switching.  With a consistent switch that is not deleted, \<^verbatim>\<open>_switching\<close> always ends
  without a memory error; when no allocation fails it sends exactly the following.  A unicast
  frame whose address the forwarding database knows on a port of the switch leaves by the first
  link on that port and by no other.  Every other frame (broadcast, multicast, unknown address)
  leaves once by every link of the switch except the one it came in by, in the order of the
  switch's ports, as far as the port exists, is up and not stopped, and is also given to the
  router interface unless it came from there.
\<close>

theorem switching_exact:
  assumes d: "dpdk_ok d" and m: "64 \<le> length (m_data m)" and vs: "vs_consistent r vs" "\<not> vs_is_deleted vs"
  defines "dst_port \<equiv> fdb_lookup_entry (fdb_of r) (dst_addr m) (vs_vlan_id vs)"
  defines "known \<equiv> (if rte_is_multicast_ether_addr d (dst_addr m) \<or> rte_is_broadcast_ether_addr d (dst_addr m) \<or> dst_port < 0 then None
                    else find (\<lambda>l. int (link_port r l) = dst_port) (map unat (vs_members vs)))"
  shows "\<exists>s'. switching d lcore_id r m rx_portid rx_link vs s = Some s'
    \<and> (dp_fine s \<longrightarrow> dp_fine s' \<and> dp_events s' = dp_events s @
         (case known of
            Some l \<Rightarrow> if link_open d lcore_id r rx_link (link_port r l) l then [link_copy d lcore_id r m (link_port r l) l] else []
          | None \<Rightarrow> flood_copies d lcore_id r m rx_link vs @ flood_router_if d m rx_portid vs))"
proof (cases known)
  case None
  then have "switching d lcore_id r m rx_portid rx_link vs s = flooding d lcore_id r m rx_portid rx_link vs s"
    using vs(2) by (auto simp: switching_def known_def dst_port_def [symmetric] link_on_port_ok [OF vs(1)] Let_def split: if_splits)
  with flooding_ok [OF d m vs(1), of lcore_id rx_portid rx_link s] None show ?thesis by simp
next
  case (Some l)
  then have k: "\<not> rte_is_multicast_ether_addr d (dst_addr m)" "\<not> rte_is_broadcast_ether_addr d (dst_addr m)" "0 \<le> dst_port"
    "find (\<lambda>l. int (link_port r l) = dst_port) (map unat (vs_members vs)) = Some l" by (auto simp: known_def split: if_splits)
  from find_mem [OF k(4)] obtain l16 where l: "l = unat l16" "l16 \<in> set (vs_members vs)" "dst_port = int (link_port r l)" by auto
  have b: "l < length (vswitch_link r)" "link_port r l < length (port r)" using vs(1) l by (auto simp: vs_consistent_def)
  have "switching d lcore_id r m rx_portid rx_link vs s = send_link d r m rx_link (link_port r l) lcore_id l s"
    using vs(2) k l(3) by (auto simp: switching_def dst_port_def [symmetric] link_on_port_ok [OF vs(1)] Let_def)
  with send_link_ok [OF d m b, of rx_link lcore_id s] Some show ?thesis by simp
qed

text \<open>The links a frame is flooded to: each at most once, never the incoming one.\<close>

lemma flood_links_props:
  "l \<in> set (flood_links d lcore_id r rx_link vs) \<Longrightarrow> rx_link \<noteq> Some l \<and> link_port r l < rte_eth_dev_count_avail d
     \<and> l \<in> unat ` set (vs_members vs)"
  "distinct (vs_members vs) \<Longrightarrow> distinct (flood_links d lcore_id r rx_link vs)"
proof -
  show "l \<in> set (flood_links d lcore_id r rx_link vs) \<Longrightarrow> rx_link \<noteq> Some l \<and> link_port r l < rte_eth_dev_count_avail d
     \<and> l \<in> unat ` set (vs_members vs)" by (auto simp: flood_links_def link_open_def)
  show "distinct (vs_members vs) \<Longrightarrow> distinct (flood_links d lcore_id r rx_link vs)"
    unfolding flood_links_def by (rule distinct_filter) (auto simp: distinct_map inj_on_def word_unat_eq_iff)
qed

section \<open>An example switch\<close>

definition sample_link :: "u16 \<Rightarrow> u16 \<Rightarrow> u16 \<Rightarrow> vswitch_link" where
  "sample_link l p tag = zero_vswitch_link\<lparr>vl_vswitch_link_id := l, vl_port_id := p, vl_tag_id := tag\<rparr>"

definition sample_vs :: vswitch_conf where
  "sample_vs = zero_vswitch\<lparr>vs_port_size := 2, vs_link_id := [0, 1] @ replicate 14 0, vs_router_if := zero_router_if\<lparr>rif_sockfd := -1\<rparr>\<rparr>"

definition sample_dp_rib :: rib_info where
  "sample_dp_rib = (zero_rib_info sample_env)\<lparr>vswitch_size := 1, vswitch_link_size := 2,
     vswitch := sample_vs # replicate 3 zero_vswitch,
     vswitch_link := sample_link 0 0 0 # sample_link 1 1 5 # replicate 30 zero_vswitch_link,
     port := replicate 8 (zero_port\<lparr>pc_link_status := True\<rparr>), fib_tree_of := [Some empty_fib, Some empty_fib]\<rparr>"

definition sample_frame :: mbuf where
  "sample_frame = \<lparr>m_data = replicate 64 0xff, data_len = 64, m_port = 0\<rparr>"

lemma sample_dpdk_ok: "dpdk_ok sample_dpdk"
  using sample_dpdk_vlan by (simp add: dpdk_ok_def) (simp add: sample_dpdk_def)

lemma sample_vs_members: "vs_members sample_vs = [0, 1]"
  by (simp add: vs_members_def sample_vs_def zero_vswitch_def numeral_2_eq_2)

lemma sample_vs_consistent: "vs_consistent sample_dp_rib sample_vs"
  by (simp add: vs_consistent_def sample_vs_members link_port_def)
    (simp add: sample_vs_def sample_dp_rib_def sample_link_def zero_vswitch_def zero_vswitch_link_def)

definition dp_start :: dp_state where
  "dp_start = \<lparr>dp_events = [], dp_allocs = [], dp_enqueues = [], dp_sent = [], tx_statistics = (\<lambda>_. 0), rx_statistics = (\<lambda>_. 0)\<rparr>"

text \<open>A broadcast frame from the untagged link 0 leaves by link 1 only, tagged with VLAN 5.\<close>

theorem switching_exact_witness:
  "\<exists>s'. switching sample_dpdk 0 sample_dp_rib sample_frame 0 (Some 0) sample_vs dp_start = Some s'
     \<and> dp_events s' = [link_copy sample_dpdk 0 sample_dp_rib sample_frame 1 1]"
proof -
  have d: "rte_is_broadcast_ether_addr sample_dpdk (dst_addr sample_frame)"
    by (simp add: sample_dpdk_def sample_frame_def dst_addr_def gets_def get8_def bytes_at_def upt_rec numeral_eq_Suc)
  have p: "link_port sample_dp_rib 0 = 0" "link_port sample_dp_rib 1 = 1" "link_port sample_dp_rib (Suc 0) = 1" "port sample_dp_rib = replicate 8 (zero_port\<lparr>pc_link_status := True\<rparr>)"
    by (simp_all add: link_port_def sample_dp_rib_def sample_link_def zero_vswitch_link_def)
  have f: "flood_links sample_dpdk 0 sample_dp_rib (Some 0) sample_vs = [1]"
    by (simp add: flood_links_def sample_vs_members link_open_def p) (simp add: sample_dpdk_def zero_port_def)
  have r: "flood_router_if sample_dpdk sample_frame 0 sample_vs = []" by (simp add: flood_router_if_def sample_vs_def)
  have "\<not> vs_is_deleted sample_vs" "64 \<le> length (m_data sample_frame)" "dp_fine dp_start"
    by (simp_all add: sample_vs_def zero_vswitch_def sample_frame_def dp_fine_def dp_start_def)
  then show ?thesis
    using switching_exact [OF sample_dpdk_ok _ sample_vs_consistent, of sample_frame 0 0 "Some 0" dp_start] d f r p
    by (auto simp: flood_copies_def dp_start_def)
qed

section \<open>Rewriting a routed packet\<close>

text \<open>
  What DPDK documents of \<^verbatim>\<open>rte_ipv4_cksum\<close> and \<^verbatim>\<open>rte_ipv4_hdr_len\<close>: both depend on the header only,
  and a header whose checksum field was set to the checksum computed over it, with the field zero,
  has checksum 0.
\<close>

definition cksum_ok :: "dpdk \<Rightarrow> bool" where
  "cksum_ok d \<longleftrightarrow>
     (\<forall>m m' p. gets p 60 m = gets p 60 m' \<longrightarrow> rte_ipv4_cksum d m p = rte_ipv4_cksum d m' p)
     \<and> (\<forall>m m' p. get8 p m = get8 p m' \<longrightarrow> rte_ipv4_hdr_len d m p = rte_ipv4_hdr_len d m' p)
     \<and> (\<forall>m p. get16 (p + 10) m = 0 \<longrightarrow> p + 20 \<le> length (m_data m)
          \<longrightarrow> rte_ipv4_cksum d (put16 (p + 10) (rte_ipv4_cksum d m p) m) p = 0)"

lemma rewrite_ipv4:
  fixes d :: dpdk and six :: "nat option"
  assumes p: "14 \<le> p" "p + 20 \<le> length (m_data m)" and macs: "length src_mac = 6" "length dst_mac = 6"
  defines "m' \<equiv> rewrite_headers d src_mac dst_mac (Some p) six m"
  shows "dst_addr m' = dst_mac" "src_addr m' = src_mac" "get8 (p + 8) m' = get8 (p + 8) m - 1"
    "\<And>i. 12 \<le> i \<Longrightarrow> i \<noteq> p + 8 \<Longrightarrow> i \<noteq> p + 10 \<Longrightarrow> i \<noteq> p + 11 \<Longrightarrow> get8 i m' = get8 i m"
    "length (m_data m') = length (m_data m)" "data_len m' = data_len m"
    "cksum_ok d \<Longrightarrow> rte_ipv4_cksum d m' p = 0"
proof -
  define m1 where "m1 = put16 (p + 10) 0 (put8 (p + 8) (get8 (p + 8) m - 1) m)"
  define m2 where "m2 = put16 (p + 10) (rte_ipv4_cksum d m1 p) m1"
  have m': "m' = puts 0 dst_mac (puts 6 src_mac m2)" by (simp add: m'_def rewrite_headers_def m2_def m1_def Let_def)
  have len: "length (m_data m2) = length (m_data m)" by (simp add: m2_def m1_def)
  have g: "get8 i m' = (if i < 6 then dst_mac ! i else if i < 12 then src_mac ! (i - 6) else get8 i m2)" for i
    using p macs len by (auto simp: m' get8_puts)
  show "dst_addr m' = dst_mac" "src_addr m' = src_mac"
    using macs by (auto simp: dst_addr_def src_addr_def g gets_nth intro!: nth_equalityI)
  show "get8 (p + 8) m' = get8 (p + 8) m - 1" using p by (simp add: g m2_def m1_def get8_put16 get8_put8)
  show "get8 i m' = get8 i m" if "12 \<le> i" "i \<noteq> p + 8" "i \<noteq> p + 10" "i \<noteq> p + 11" for i
    using that by (simp add: g m2_def m1_def get8_put16 get8_put8)
  show "length (m_data m') = length (m_data m)" "data_len m' = data_len m" by (simp_all add: m' m2_def m1_def)
  show "rte_ipv4_cksum d m' p = 0" if "cksum_ok d"
  proof -
    have "gets p 60 m' = gets p 60 m2" by (rule gets_eqI) (use p g in auto)
    then have "rte_ipv4_cksum d m' p = rte_ipv4_cksum d m2 p" using that unfolding cksum_ok_def by blast
    moreover have "get16 (p + 10) m1 = 0" "p + 20 \<le> length (m_data m1)" using p by (simp_all add: m1_def get16_put16)
    ultimately show ?thesis using that unfolding cksum_ok_def m2_def by metis
  qed
qed


text \<open>An IPv4 packet to 10.0.0.1 with time to live 64.\<close>

definition sample_ipv4 :: mbuf where
  "sample_ipv4 = \<lparr>m_data = replicate 6 2 @ replicate 6 4 @ [0x08, 0x00, 0x45, 0, 0, 40, 0, 0, 0, 0, 64, 17, 0, 0, 10, 0, 0, 9, 10, 0, 0, 1]
       @ replicate 30 0, data_len = 54, m_port = 0\<rparr>"

lemma sample_cksum_ok: "cksum_ok sample_dpdk"
  by (simp add: cksum_ok_def sample_dpdk_def)

lemma sample_ipv4_verifies: "verify_packet sample_dpdk sample_ipv4 (Some 14) None = 0"
  by (simp add: verify_packet_def sample_dpdk_def sample_ipv4_def get16_def get8_def bytes_at_def nth_append word_le_nat_alt word_less_nat_alt)


section \<open>Forwarding\<close>

text \<open>A published RIB whose indices are all in range and whose FIB trees exist.\<close>

definition dp_ready :: "rib_info \<Rightarrow> bool" where
  "dp_ready r \<longleftrightarrow>
     length (port r) = MAX_ETH_PORTS \<and> length (vswitch r) = MAX_VSWITCH \<and> vswitch_size r \<le> MAX_VSWITCH
     \<and> length (vswitch_link r) = MAX_VSWITCH_LINK \<and> vswitch_link_size r \<le> MAX_VSWITCH_LINK
     \<and> (\<forall>i < vswitch_size r. vs_consistent r (vswitch r ! i))
     \<and> (\<forall>pc \<in> set (port r). vlan_size pc \<le> length (vswitch_link_id_of_vlan pc)
          \<and> (\<forall>l \<in> set (take (vlan_size pc) (vswitch_link_id_of_vlan pc)). unat l < MAX_VSWITCH_LINK))
     \<and> (\<forall>i < ROUTE_TREE_SIZE. fib_tree_of r ! i \<noteq> None)"

text \<open>Every route of a FIB tree leads to a next hop.\<close>

definition next_hops_resolve :: "dpdk \<Rightarrow> rib_info \<Rightarrow> bool" where
  "next_hops_resolve d r \<longleftrightarrow>
     (\<forall>i f a leaf nkey nkeylen nh_id cs. i < ROUTE_TREE_SIZE \<longrightarrow> fib_tree_of r ! i = Some f \<longrightarrow>
        fib_route_lookup (stack_u8 d) f a = FNode leaf nkey nkeylen nh_id cs \<longrightarrow>
        nexthop_get_info_by_index (nexthop_of r) nh_id \<noteq> None)"

lemma vswitch_scan:
  assumes "dp_ready r"
  shows "scan (\<lambda>i. do { vs \<leftarrow> vswitch_at r i; Some (if P vs then Some vs else None) }) [0..<vswitch_size r]
           = Some (find P (take (vswitch_size r) (vswitch r)))"
proof -
  let ?n = "vswitch_size r"
  have n: "?n \<le> length (vswitch r)" using assms by (auto simp: dp_ready_def)
  have "scan (\<lambda>i. do { vs \<leftarrow> vswitch_at r i; Some (if P vs then Some vs else None) }) [0..<?n]
      = Some (map_option ((!) (vswitch r)) (find (\<lambda>i. P (vswitch r ! i)) [0..<?n]))"
    by (rule scan_find) (use n in \<open>auto simp: vswitch_at_def arr_def\<close>)
  moreover have "take ?n (vswitch r) = map ((!) (vswitch r)) [0..<?n]" by (rule nth_equalityI) (use n in auto)
  ultimately show ?thesis by (simp add: find_map comp_def)
qed

lemma find_vswitch_consistent:
  assumes "dp_ready r" "find P (take (vswitch_size r) (vswitch r)) = Some vs"
  shows "vs_consistent r vs"
  using find_mem [OF assms(2)] assms(1) by (auto simp: dp_ready_def in_set_conv_nth)

lemma pkt_alloc_gen:
  assumes "64 \<le> length (m_data (rte_pktmbuf_alloc d))"
  shows "(case arp_req_pkt_gen d a b c s of (None, s') \<Rightarrow> dp_events s' = dp_events s | (Some pkt, s') \<Rightarrow> 64 \<le> length (m_data pkt))"
    "(case ns_pkt_gen d a b c s of (None, s') \<Rightarrow> dp_events s' = dp_events s | (Some pkt, s') \<Rightarrow> 64 \<le> length (m_data pkt))"
  using assms by (auto simp: arp_req_pkt_gen_def ns_pkt_gen_def pkt_alloc_def Let_def split: prod.splits)

lemma resolve_ok:
  assumes d: "dpdk_ok d" "64 \<le> length (m_data (rte_pktmbuf_alloc d))" and r: "dp_ready r"
  shows "\<exists>s'. resolve d lcore_id r info ip s = Some s'"
proof -
  note sc = vswitch_scan [OF r, of "\<lambda>vs. rif_ifindex (vs_router_if vs) = sint (oif info)"]
  show ?thesis
  proof (cases "find (\<lambda>vs. rif_ifindex (vs_router_if vs) = sint (oif info)) (take (vswitch_size r) (vswitch r))")
    case None
    then show ?thesis by (simp add: resolve_def sc)
  next
    case (Some vs)
    let ?g = "if nhi_family info = AF_INET then arp_req_pkt_gen d (rif_mac_addr (vs_router_if vs)) (rif_ipv4_addr (vs_router_if vs)) ip s
                    else ns_pkt_gen d (rif_mac_addr (vs_router_if vs)) (rif_ll_addr (vs_router_if vs)) ip s"
    obtain po s1 where g: "?g = (po, s1)" by fastforce
    have rs: "resolve d lcore_id r info ip s = (case po of None \<Rightarrow> Some s1 | Some pkt \<Rightarrow> flooding d lcore_id r pkt ROUTER_IF_RX_SELF_PORT_ID None vs s1)"
      unfolding resolve_def sc Some using g by (simp add: Let_def)
    show ?thesis
    proof (cases po)
      case None
      then show ?thesis using rs by simp
    next
      case (Some pkt)
      have "64 \<le> length (m_data pkt)"
        using g Some pkt_alloc_gen(1) [OF d(2), where a = "rif_mac_addr (vs_router_if vs)" and b = "rif_ipv4_addr (vs_router_if vs)" and c = ip and s = s]
          pkt_alloc_gen(2) [OF d(2), where a = "rif_mac_addr (vs_router_if vs)" and b = "rif_ll_addr (vs_router_if vs)" and c = ip and s = s]
        by (auto split: if_splits)
      from flooding_ok [OF d(1) this find_vswitch_consistent [OF r \<open>find _ _ = Some vs\<close>], of lcore_id ROUTER_IF_RX_SELF_PORT_ID None s1] rs Some
      show ?thesis by auto
    qed
  qed
qed

lemma target_vswitch_ok:
  assumes "dp_ready r"
  shows "target_vswitch r out_if
    = Some (find (\<lambda>vs. \<not> vs_is_deleted vs \<and> rif_ifindex (vs_router_if vs) = out_if) (take (vswitch_size r) (vswitch r)))"
  unfolding target_vswitch_def by (rule vswitch_scan [OF assms])

lemma length_rewrite [simp]: "length (m_data (rewrite_headers d a b p q m)) = length (m_data m)"
  by (simp add: rewrite_headers_def Let_def split: option.splits)

text \<open>Where a packet for a neighbor leaves: the switch, the link and the port.\<close>

definition forward_path :: "rib_info \<Rightarrow> int \<Rightarrow> u8 list \<Rightarrow> (vswitch_conf \<times> nat) option" where
  "forward_path r out_if dst_mac = do {
     vs \<leftarrow> find (\<lambda>vs. \<not> vs_is_deleted vs \<and> rif_ifindex (vs_router_if vs) = out_if) (take (vswitch_size r) (vswitch r));
     (let dst_port = fdb_lookup_entry (fdb_of r) dst_mac (vs_vlan_id vs)
      in if dst_port < 0 then None
         else map_option (Pair vs) (find (\<lambda>l. int (link_port r l) = dst_port) (map unat (vs_members vs))))
   }"

lemma forward_path_bounds:
  assumes r: "dp_ready r" and p: "forward_path r out_if dst_mac = Some (vs, l)"
  shows "l < length (vswitch_link r)" "link_port r l < length (port r)"
    "fdb_lookup_entry (fdb_of r) dst_mac (vs_vlan_id vs) = int (link_port r l)"
    "find (\<lambda>vs. \<not> vs_is_deleted vs \<and> rif_ifindex (vs_router_if vs) = out_if) (take (vswitch_size r) (vswitch r)) = Some vs"
    "find (\<lambda>l. int (link_port r l) = fdb_lookup_entry (fdb_of r) dst_mac (vs_vlan_id vs)) (map unat (vs_members vs)) = Some l"
proof -
  show f: "find (\<lambda>vs. \<not> vs_is_deleted vs \<and> rif_ifindex (vs_router_if vs) = out_if) (take (vswitch_size r) (vswitch r)) = Some vs"
    "find (\<lambda>l. int (link_port r l) = fdb_lookup_entry (fdb_of r) dst_mac (vs_vlan_id vs)) (map unat (vs_members vs)) = Some l"
    using p by (auto simp: forward_path_def Let_def bind_eq_Some_conv split: if_splits)
  from find_mem [OF f(2)] find_vswitch_consistent [OF r f(1)]
  show "l < length (vswitch_link r)" "link_port r l < length (port r)"
    "fdb_lookup_entry (fdb_of r) dst_mac (vs_vlan_id vs) = int (link_port r l)"
    by (auto simp: vs_consistent_def)
qed

lemma forward_to_ok:
  assumes d: "dpdk_ok d" and m: "64 \<le> length (m_data m)" and r: "dp_ready r"
  shows "\<exists>s'. forward_to d lcore_id r m rx_portid ipv4 ipv6 rx_link out_if dst_mac s = Some s'
    \<and> (dp_fine s \<longrightarrow> dp_fine s' \<and> dp_events s' = dp_events s @
        (case forward_path r out_if dst_mac of
           None \<Rightarrow> []
         | Some (vs, l) \<Rightarrow>
             if \<not> pc_is_stopped (port r ! link_port r l) \<and> link_open d lcore_id r rx_link (link_port r l) l
             then [link_copy d lcore_id r
                     (if rx_portid \<noteq> ROUTER_IF_RX_SELF_PORT_ID
                      then rewrite_headers d (rif_mac_addr (vs_router_if vs)) dst_mac ipv4 ipv6 m else m) (link_port r l) l]
             else []))"
proof (cases "forward_path r out_if dst_mac")
  case None
  then have "forward_to d lcore_id r m rx_portid ipv4 ipv6 rx_link out_if dst_mac s = Some s"
    using find_vswitch_consistent [OF r, of "\<lambda>vs. \<not> vs_is_deleted vs \<and> rif_ifindex (vs_router_if vs) = out_if"]
    by (auto simp: forward_to_def target_vswitch_ok [OF r] forward_path_def Let_def link_on_port_ok split: option.splits if_splits)
  then show ?thesis using None by simp
next
  case (Some vl)
  obtain vs l where vl: "vl = (vs, l)" by fastforce
  note b = forward_path_bounds [OF r Some [unfolded vl]]
  let ?m = "if rx_portid \<noteq> ROUTER_IF_RX_SELF_PORT_ID
            then rewrite_headers d (rif_mac_addr (vs_router_if vs)) dst_mac ipv4 ipv6 m else m"
  have "forward_to d lcore_id r m rx_portid ipv4 ipv6 rx_link out_if dst_mac s
      = (if pc_is_stopped (port r ! link_port r l) then Some s else send_link d r ?m rx_link (link_port r l) lcore_id l s)"
    using b(2-5) by (simp add: forward_to_def target_vswitch_ok [OF r] link_on_port_ok [OF find_vswitch_consistent [OF r b(4)]] Let_def arr_def)
  moreover have "64 \<le> length (m_data ?m)" using m by simp
  ultimately show ?thesis
    using send_link_ok [OF d _ b(1,2), of ?m rx_link lcore_id s] Some vl by auto
qed

lemma forwarding_eq:
  assumes "fib_tree_of r ! (if ipv4 \<noteq> None then 0 else 1) = Some f"
  shows "forwarding d lcore_id r m rx_portid ipv4 ipv6 rx_link s =
    (case fib_answer (fib_route_lookup (stack_u8 d) f (bytes_at (dst_ip m ipv4 ipv6))) of
       None \<Rightarrow> Some s
     | Some (len, nh_id) \<Rightarrow> do {
         info \<leftarrow> nexthop_get_info_by_index (nexthop_of r) nh_id;
         forward_via d lcore_id r m rx_portid ipv4 ipv6 rx_link info s
       })"
  unfolding forwarding_def Let_def assms by (simp add: fib_answer_def split: fib_node.splits)

lemma forward_via_safe:
  assumes d: "dpdk_ok d" "64 \<le> length (m_data (rte_pktmbuf_alloc d))" and m: "64 \<le> length (m_data m)" and r: "dp_ready r"
  shows "\<exists>s'. forward_via d lcore_id r m rx_portid ipv4 ipv6 rx_link info s = Some s'"
  using resolve_ok [OF d r, of lcore_id info "lookup_ip info (dst_ip m ipv4 ipv6)" s]
    forward_to_ok [OF d(1) m r, of lcore_id rx_portid ipv4 ipv6 rx_link "sint (oif info)" _ s]
  by (auto simp: forward_via_def Let_def split: option.splits)

lemma dp_ready_fib:
  assumes "dp_ready r"
  shows "\<exists>i f. i = (if ipv4 \<noteq> None then 0 else 1) \<and> i < ROUTE_TREE_SIZE \<and> fib_tree_of r ! i = Some f"
  using assms by (cases ipv4) (auto simp: dp_ready_def ROUTE_TREE_SIZE_def less_2_cases_iff)

lemma forwarding_safe:
  assumes d: "dpdk_ok d" "64 \<le> length (m_data (rte_pktmbuf_alloc d))" and m: "64 \<le> length (m_data m)"
    and r: "dp_ready r" "next_hops_resolve d r"
  shows "\<exists>s'. forwarding d lcore_id r m rx_portid ipv4 ipv6 rx_link s = Some s'"
proof -
  obtain i f where i: "i = (if ipv4 \<noteq> None then 0 else 1)" "i < ROUTE_TREE_SIZE" and f: "fib_tree_of r ! i = Some f"
    using dp_ready_fib [OF r(1)] by blast
  note eq = forwarding_eq [OF f [unfolded i(1)]]
  show ?thesis
  proof (cases "fib_answer (fib_route_lookup (stack_u8 d) f (bytes_at (dst_ip m ipv4 ipv6)))")
    case None
    then show ?thesis by (simp add: eq)
  next
    case (Some a)
    obtain len nh_id where a: "a = (len, nh_id)" by fastforce
    then obtain leaf nkey cs where "fib_route_lookup (stack_u8 d) f (bytes_at (dst_ip m ipv4 ipv6)) = FNode leaf nkey len nh_id cs"
      using Some by (auto simp: fib_answer_def split: fib_node.splits)
    then have "nexthop_get_info_by_index (nexthop_of r) nh_id \<noteq> None"
      using i(2) f r(2) unfolding next_hops_resolve_def by blast
    then obtain info where "nexthop_get_info_by_index (nexthop_of r) nh_id = Some info" by blast
    with forward_via_safe [OF d m r(1), of lcore_id rx_portid ipv4 ipv6 rx_link info s] Some a
    show ?thesis by (simp add: eq)
  qed
qed

text \<open>A next hop that is reachable: its neighbor is known, and the way out is open.\<close>

definition via_open :: "dpdk \<Rightarrow> nat \<Rightarrow> rib_info \<Rightarrow> u8 list \<Rightarrow> nat option \<Rightarrow> nh_info \<Rightarrow> neigh_entry \<Rightarrow> vswitch_conf \<Rightarrow> nat \<Rightarrow> bool" where
  "via_open d lcore_id r dst rx_link info neigh vs l \<longleftrightarrow>
     neigh_entry_of r (af_to_neigh_table (nhi_family info))
       (if nhi_type info = NEXTHOP_TYPE_CONNECTED then dst else gw info) = Some neigh
     \<and> \<not> rte_is_zero_ether_addr d (ne_mac_addr neigh) \<and> forward_path r (sint (oif info)) (ne_mac_addr neigh) = Some (vs, l)
     \<and> \<not> pc_is_stopped (port r ! link_port r l) \<and> link_open d lcore_id r rx_link (link_port r l) l"

definition routed_copy :: "dpdk \<Rightarrow> nat \<Rightarrow> rib_info \<Rightarrow> mbuf \<Rightarrow> nat option \<Rightarrow> nat option \<Rightarrow> neigh_entry \<Rightarrow> vswitch_conf \<Rightarrow> nat \<Rightarrow> dp_event" where
  "routed_copy d lcore_id r m ipv4 ipv6 neigh vs l =
     link_copy d lcore_id r (rewrite_headers d (rif_mac_addr (vs_router_if vs)) (ne_mac_addr neigh) ipv4 ipv6 m) (link_port r l) l"

lemma forward_via_sends:
  assumes d: "dpdk_ok d" and m: "64 \<le> length (m_data m)" and r: "dp_ready r" and s: "dp_fine s"
    and v: "via_open d lcore_id r (dst_ip m ipv4 ipv6) rx_link info neigh vs l" and rx: "rx_portid \<noteq> ROUTER_IF_RX_SELF_PORT_ID"
  shows "\<exists>s'. forward_via d lcore_id r m rx_portid ipv4 ipv6 rx_link info s = Some s' \<and> dp_fine s'
    \<and> dp_events s' = dp_events s @ [routed_copy d lcore_id r m ipv4 ipv6 neigh vs l]"
proof -
  have n: "neigh_entry_of r (af_to_neigh_table (nhi_family info)) (lookup_ip info (dst_ip m ipv4 ipv6)) = Some neigh"
    using v unfolding via_open_def lookup_ip_def by blast
  have "forward_via d lcore_id r m rx_portid ipv4 ipv6 rx_link info s
      = forward_to d lcore_id r m rx_portid ipv4 ipv6 rx_link (sint (oif info)) (ne_mac_addr neigh) s"
    using n v by (simp add: forward_via_def Let_def via_open_def)
  with forward_to_ok [OF d m r, of lcore_id rx_portid ipv4 ipv6 rx_link "sint (oif info)" "ne_mac_addr neigh" s] s v rx
  show ?thesis by (auto simp: via_open_def routed_copy_def)
qed


text \<open>
  An example: a default route to the directly connected interface 3, a neighbor 10.0.0.1 with
  address 08:08:08:08:08:08 on port 1.
\<close>

definition sample_mac :: "u8 list" where "sample_mac = replicate 6 8"

definition sample_fib :: fib_tree where
  "sample_fib = \<lparr>ft_family = 2, ft_table_id = 254, ft_root = FNode True (replicate 16 0) 0 0 []\<rparr>"

definition sample_l3_vs :: vswitch_conf where
  "sample_l3_vs = sample_vs\<lparr>vs_router_if := (vs_router_if sample_vs)\<lparr>rif_ifindex := 3, rif_mac_addr := replicate 6 2\<rparr>\<rparr>"

definition sample_l3_rib :: rib_info where
  "sample_l3_rib = sample_dp_rib\<lparr>
     vswitch := sample_l3_vs # replicate 3 zero_vswitch,
     neigh_tables_of := (\<lambda>_. \<lparr>entries = zero_neigh_entry\<lparr>ne_ip_addr := [10, 0, 0, 1] @ replicate 12 0, ne_mac_addr := sample_mac\<rparr>
                               # replicate 1023 zero_neigh_entry, num_entries = 1\<rparr>),
     fdb_of := replicate FDB_SIZE (zero_fdb_entry\<lparr>l2addr := sample_mac, fdb_port := 1, fdb_state := FDB_STATE_ACTIVE\<rparr>),
     nexthop_of := \<lparr>groups = [zero_group], info_pool = [zero_info\<lparr>nhi_family := 2, oif := 3\<rparr>], groups_top = 0, info_top = 0\<rparr>,
     fib_tree_of := [Some sample_fib, Some empty_fib]\<rparr>"

lemma sample_l3_same:
  "port sample_l3_rib = port sample_dp_rib" "vswitch_link sample_l3_rib = vswitch_link sample_dp_rib"
  "link_port sample_l3_rib l = link_port sample_dp_rib l"
  by (simp_all add: sample_l3_rib_def link_port_def)

lemma sample_l3_vs_consistent: "vs_consistent sample_l3_rib sample_l3_vs" "vs_members sample_l3_vs = [0, 1]"
  using sample_vs_consistent sample_vs_members
  by (simp_all add: vs_consistent_def vs_members_def sample_l3_same) (simp_all add: sample_l3_vs_def)

lemma sample_l3_ready: "dp_ready sample_l3_rib"
  unfolding dp_ready_def
  by (intro conjI)
    (use sample_l3_vs_consistent in \<open>simp_all add: all_slots sample_l3_rib_def sample_dp_rib_def zero_port_def MAX_ETH_PORTS_def MAX_VSWITCH_def MAX_VSWITCH_LINK_def\<close>)

lemma sample_fdb_lookup: "fdb_lookup_entry (fdb_of sample_l3_rib) sample_mac 0 = 1"
  using fdb_hash_less [of sample_mac 0]
  by (simp add: fdb_lookup_entry_def fdb_probe_def sample_l3_rib_def fdb_match_def zero_fdb_entry_def)

lemma sample_neigh: "neigh_entry_of sample_l3_rib NEIGH_ARP_TABLE ([10, 0, 0, 1] @ replicate 12 0)
   = Some (zero_neigh_entry\<lparr>ne_ip_addr := [10, 0, 0, 1] @ replicate 12 0, ne_mac_addr := sample_mac\<rparr>)"
proof -
  let ?ip = "[10, 0, 0, 1] @ replicate 12 0 :: u8 list"
  let ?e = "zero_neigh_entry\<lparr>ne_ip_addr := ?ip, ne_mac_addr := sample_mac\<rparr>"
  have t: "neigh_tables_of sample_l3_rib NEIGH_ARP_TABLE = \<lparr>entries = ?e # replicate 1023 zero_neigh_entry, num_entries = 1\<rparr>"
    by (simp add: sample_l3_rib_def)
  have "memcmp ?ip ?ip 4 = 0" by (simp add: numeral_eq_Suc)
  then have "neigh_search (?e # replicate 1023 zero_neigh_entry) NEIGH_ARP_TABLE ?ip 0 0 = (0, True)"
    by (subst neigh_search.simps) (simp add: Let_def)
  then show ?thesis unfolding neigh_entry_of_def neigh_manager_lookup_def t by simp
qed

lemma sample_path: "forward_path sample_l3_rib 3 sample_mac = Some (sample_l3_vs, 1)"
proof -
  have "link_port sample_dp_rib 0 = 0" "link_port sample_dp_rib (Suc 0) = 1"
    by (simp_all add: link_port_def sample_dp_rib_def sample_link_def zero_vswitch_link_def)
  moreover have "vs_vlan_id sample_l3_vs = 0" "\<not> vs_is_deleted sample_l3_vs" "rif_ifindex (vs_router_if sample_l3_vs) = 3"
    by (simp_all add: sample_l3_vs_def sample_vs_def zero_vswitch_def)
  moreover have "take (vswitch_size sample_l3_rib) (vswitch sample_l3_rib) = [sample_l3_vs]"
    by (simp add: sample_l3_rib_def sample_dp_rib_def)
  ultimately show ?thesis
    by (simp add: forward_path_def sample_fdb_lookup sample_l3_vs_consistent(2) sample_l3_same)
qed


lemma vs_ok_consistent:
  assumes "vs_ok r" "i < vswitch_size r"
  shows "vs_consistent r (vswitch r ! i)"
proof -
  have i: "i < MAX_VSWITCH" using assms vs_okD(2) [OF assms(1)] by simp
  have "unat l < length (vswitch_link r) \<and> link_port r (unat l) < length (port r)" if "l \<in> set (vs_members (vswitch r ! i))" for l
  proof -
    have "unat l < MAX_VSWITCH_LINK" using that vs_entryD(3) [OF assms(1) i] by (auto simp: vs_members_def link_ids_ok_def dest: in_set_takeD)
    moreover from this have "vswitch_link r ! unat l \<in> set (vswitch_link r)" using vs_okD(3) [OF assms(1)] by simp
    ultimately show ?thesis using assms(1) vs_okD(3,5) [OF assms(1)] by (auto simp: link_port_def vs_ok_def vs_sizes_ok_def)
  qed
  then show ?thesis using vs_entryD(1,2) [OF assms(1) i] by (simp add: vs_consistent_def)
qed

lemma vs_ok_ready:
  assumes "vs_ok r" "\<forall>i<ROUTE_TREE_SIZE. fib_tree_of r ! i \<noteq> None"
  shows "dp_ready r"
  unfolding dp_ready_def
proof (intro conjI)
  show "\<forall>i<vswitch_size r. vs_consistent r (vswitch r ! i)" using vs_ok_consistent [OF assms(1)] by blast
  show "\<forall>pc\<in>set (port r). vlan_size pc \<le> length (vswitch_link_id_of_vlan pc)
      \<and> (\<forall>l\<in>set (take (vlan_size pc) (vswitch_link_id_of_vlan pc)). unat l < MAX_VSWITCH_LINK)"
    using assms(1) by (auto simp: vs_ok_def vs_sizes_ok_def port_conf_ok_def link_ids_ok_def dest: in_set_takeD)
qed (use assms(2) vs_okD [OF assms(1)] in auto)

lemma published_rib_ready:
  assumes "rib_inv env g" "fib_agrees g" "rcu_rib g = Some (Some r)"
  shows "dp_ready r"
proof (rule vs_ok_ready)
  show "vs_ok r" using assms(1,3) by (simp add: rib_inv_def work_ok_def rib_base_def)
  show "\<forall>i<ROUTE_TREE_SIZE. fib_tree_of r ! i \<noteq> None"
    using assms(2,3) by (fastforce simp: fib_agrees_def slot_agrees_def split: option.splits)
qed

end
