(* ===== verification/Router.thy ===== *)
theory Router
  imports Net_Subr
begin

text \<open>
  The layer-3 forwarding threads \<^verbatim>\<open>router.c\<close> and \<^verbatim>\<open>srv6_router.c\<close> with the segment routing
  step of \<^verbatim>\<open>srv6.h\<close>: what a thread does with one received packet, with one packet from a
  router interface, with one burst, and one pass of the main loop.
\<close>

section \<open>Headers and the receiving switch\<close>

record headers =
  h_eth_type :: u16
  h_vlan :: bool
  h_ipv4 :: "nat option"
  h_ipv6 :: "nat option"
  h_icmp :: "nat option"

definition parse_headers :: "mbuf \<Rightarrow> headers" where
  "parse_headers m =
     (let eth_type = ether_type m;
          vlan = (eth_type = RTE_ETHER_TYPE_VLAN);
          proto = (if vlan then eth_proto m else eth_type);
          payload = (if vlan then 18 else 14);
          ipv4 = (if proto = RTE_ETHER_TYPE_IPV4 then Some payload else None);
          ipv6 = (if proto = RTE_ETHER_TYPE_IPV6 then Some payload else None);
          icmp = (case (ipv4, ipv6) of
              (Some p, _) \<Rightarrow> if next_proto_id m p = IPPROTO_ICMP then Some (p + 20) else None
            | (None, Some p) \<Rightarrow> if ipv6_proto m p = IPPROTO_ICMPV6 then Some (p + 40) else None
            | (None, None) \<Rightarrow> None)
      in \<lparr>h_eth_type = eth_type, h_vlan = vlan, h_ipv4 = ipv4, h_ipv6 = ipv6, h_icmp = icmp\<rparr>)"

text \<open>The link a packet came in by: by its tag, or the native VLAN of the port.\<close>

definition rx_vswitch_link :: "rib_info \<Rightarrow> nat \<Rightarrow> mbuf \<Rightarrow> nat option option" where
  "rx_vswitch_link r rx_portid m = do {
     pc \<leftarrow> arr (port r) rx_portid;
     (if ether_type m = RTE_ETHER_TYPE_VLAN then
        scan (\<lambda>i. do {
            link_id \<leftarrow> arr (vswitch_link_id_of_vlan pc) i;
            link \<leftarrow> arr (vswitch_link r) (unat link_id);
            Some (if vl_tag_id link = RTE_VLAN_TCI_ID (vlan_tci m) then Some (unat link_id) else None)
          }) [0..<vlan_size pc]
      else
        (let link_id = unat (vswitch_link_id_of_native_vlan pc)
         in Some (if link_id < vswitch_link_size r then Some link_id else None)))
   }"

definition vswitch_by_id :: "rib_info \<Rightarrow> u16 \<Rightarrow> vswitch_conf option option" where
  "vswitch_by_id r vswitch_id =
     scan (\<lambda>i. do {
         vs \<leftarrow> vswitch_at r i;
         Some (if vs_vswitch_id vs = vswitch_id then Some vs else None)
       }) [0..<vswitch_size r]"

text \<open>Both searches; the packet is dropped if one of them fails.\<close>

definition rx_vswitch :: "rib_info \<Rightarrow> nat \<Rightarrow> mbuf \<Rightarrow> (nat \<times> vswitch_conf) option option" where
  "rx_vswitch r rx_portid m = do {
     found \<leftarrow> rx_vswitch_link r rx_portid m;
     (case found of
        None \<Rightarrow> Some None
      | Some link_id \<Rightarrow> do {
          link \<leftarrow> arr (vswitch_link r) link_id;
          (if MAX_VSWITCH < vswitch_size r then Some None
           else map_option (map_option (Pair link_id)) (vswitch_by_id r (vl_vswitch_id link)))
        })
   }"

section \<open>The router\<close>

definition send_capture_if :: "dpdk \<Rightarrow> mbuf \<Rightarrow> capture_if \<Rightarrow> dp_state \<Rightarrow> dp_state" where
  "send_capture_if d m cif s =
     (case cif_ring_up cif of
        Some ring \<Rightarrow> if 0 \<le> cif_sockfd cif then snd (send_ring d m ring s) else s
      | None \<Rightarrow> s)"

definition router_if_match :: "router_if \<Rightarrow> headers \<Rightarrow> mbuf \<Rightarrow> bool" where
  "router_if_match rif h m \<longleftrightarrow>
     dst_addr m = rif_mac_addr rif
     \<and> (case (h_ipv4 h, h_ipv6 h) of
          (Some p, _) \<Rightarrow> gets (p + 16) 4 m = rif_ipv4_addr rif
        | (None, Some p) \<Rightarrow> gets (p + 24) 16 m = rif_ipv6_addr rif
        | (None, None) \<Rightarrow> False)"

definition is_mcast_bcast :: "dpdk \<Rightarrow> mbuf \<Rightarrow> bool" where
  "is_mcast_bcast d m \<longleftrightarrow> rte_is_multicast_ether_addr d (dst_addr m) \<or> rte_is_broadcast_ether_addr d (dst_addr m)"

definition control_check :: "dpdk \<Rightarrow> mbuf \<Rightarrow> vswitch_conf \<Rightarrow> headers \<Rightarrow> dp_state \<Rightarrow> (bool \<times> dp_state) option" where
  "control_check d m vs h s =
     (if 0 \<le> rif_sockfd (vs_router_if vs) \<and> rif_ring_up (vs_router_if vs) \<noteq> None
      then check_control_packet d m vs (h_eth_type h) (h_vlan h) (h_ipv4 h) (h_ipv6 h) (h_icmp h) s
      else Some (False, s))"

definition router_process :: "dpdk \<Rightarrow> nat \<Rightarrow> rib_info \<Rightarrow> mbuf \<Rightarrow> nat \<Rightarrow> nat \<Rightarrow> vswitch_conf \<Rightarrow> dp_state \<Rightarrow> dp_state option" where
  "router_process d lcore_id r m rx_portid rx_link vs s =
     (let h = parse_headers m;
          rif = vs_router_if vs;
          s = send_capture_if d m (vs_capture_if vs) s
      in if router_if_match rif h m then send_router_if_ring d m rif s
         else do {
           s \<leftarrow> (if is_mcast_bcast d m then send_router_if_ring d m rif s else Some s);
           (is_control, s) \<leftarrow> control_check d m vs h s;
           (if is_control then (if is_mcast_bcast d m then Some s else send_router_if_ring d m rif s)
            else if dst_addr m \<noteq> rif_mac_addr rif then switching d lcore_id r m rx_portid (Some rx_link) vs s
            else if verify_packet d m (h_ipv4 h) (h_ipv6 h) \<noteq> 0 then Some s
            else forwarding d lcore_id r m rx_portid (h_ipv4 h) (h_ipv6 h) (Some rx_link) s)
         })"

definition router_process_rx_packet :: "dpdk \<Rightarrow> nat \<Rightarrow> rib_info \<Rightarrow> nat \<Rightarrow> mbuf \<Rightarrow> dp_state \<Rightarrow> dp_state option" where
  "router_process_rx_packet d lcore_id r rx_portid m s = do {
     found \<leftarrow> rx_vswitch r rx_portid m;
     (case found of
        None \<Rightarrow> Some s
      | Some (link_id, vs) \<Rightarrow> router_process d lcore_id r m rx_portid link_id vs s)
   }"

definition router_process_tx_packet :: "dpdk \<Rightarrow> nat \<Rightarrow> rib_info \<Rightarrow> vswitch_conf \<Rightarrow> mbuf \<Rightarrow> dp_state \<Rightarrow> dp_state option" where
  "router_process_tx_packet d lcore_id r vs m s =
     switching d lcore_id r m ROUTER_IF_RX_SELF_PORT_ID None vs s"

text \<open>
  One burst from every polled queue: \<open>rx_burst port queue\<close> is what \<^verbatim>\<open>rte_eth_rx_burst\<close> returns.
\<close>

definition thread_rx_burst ::
  "(rib_info \<Rightarrow> nat \<Rightarrow> mbuf \<Rightarrow> dp_state \<Rightarrow> dp_state option) \<Rightarrow> nat \<Rightarrow> rib_info option option \<Rightarrow> (nat \<Rightarrow> nat \<Rightarrow> mbuf list)
     \<Rightarrow> dp_state \<Rightarrow> dp_state option"
where
  "thread_rx_burst process lcore_id rib rx_burst s =
     (case rib of
        Some (Some r) \<Rightarrow> do {
          qc \<leftarrow> arr (lcore_qconf_of r) lcore_id;
          each (\<lambda>i s. do {
              rxq \<leftarrow> arr (rx_queue_list qc) i;
              (let portid = unat (pq_port_id rxq); pkts = rx_burst portid (unat (pq_queue_id rxq))
               in do {
                 pc \<leftarrow> arr (port r) portid;
                 (if pc_is_stopped pc then Some s
                  else each (process r portid) pkts
                         (s\<lparr>rx_statistics := (rx_statistics s)(portid := rx_statistics s portid + length pkts)\<rparr>))
               })
            }) [0..<lq_nrxq qc] s
        }
      | _ \<Rightarrow> Some s)"

text \<open>
  The packets the kernel sent on the router interfaces: \<open>dequeue ring\<close> is what
  \<^verbatim>\<open>rte_ring_dequeue_burst\<close> returns, null pointers included.
\<close>

definition thread_tx_burst ::
  "(rib_info \<Rightarrow> vswitch_conf \<Rightarrow> mbuf \<Rightarrow> dp_state \<Rightarrow> dp_state option) \<Rightarrow> rib_info option option \<Rightarrow> (ring_name \<Rightarrow> mbuf option list)
     \<Rightarrow> dp_state \<Rightarrow> dp_state option"
where
  "thread_tx_burst process rib dequeue s =
     (case rib of
        Some (Some r) \<Rightarrow>
          each (\<lambda>i s. do {
              vs \<leftarrow> vswitch_at r i;
              (case rif_ring_dn (vs_router_if vs) of
                 None \<Rightarrow> Some s
               | Some ring \<Rightarrow>
                   if rif_sockfd (vs_router_if vs) < 0 then Some s
                   else each (\<lambda>mo s. case mo of None \<Rightarrow> Some s | Some m \<Rightarrow> process r vs m s) (dequeue ring) s)
            }) [0..<vswitch_size r] s
      | _ \<Rightarrow> Some s)"

text \<open>One pass of the main loop; \<open>flush\<close> tells whether the drain interval has passed.\<close>

definition router_iteration ::
  "dpdk \<Rightarrow> nat \<Rightarrow> bool \<Rightarrow> rib_info option option \<Rightarrow> (nat \<Rightarrow> nat \<Rightarrow> mbuf list) \<Rightarrow> (ring_name \<Rightarrow> mbuf option list) \<Rightarrow> dp_state \<Rightarrow> dp_state option"
where
  "router_iteration d lcore_id flush rib rx_burst dequeue s = do {
     s \<leftarrow> (if flush then thread_tx_flush d lcore_id rib s else Some s);
     s \<leftarrow> thread_rx_burst (router_process_rx_packet d lcore_id) lcore_id rib rx_burst s;
     thread_tx_burst (router_process_tx_packet d lcore_id) rib dequeue s
   }"

section \<open>Segment routing\<close>

definition RTE_IPV6_SRCRT_TYPE_4 :: u8 where "RTE_IPV6_SRCRT_TYPE_4 = 4"

text \<open>The segment routing header follows the IPv6 header at \<open>p\<close>; its segment list starts at \<open>p + 48\<close>.\<close>

definition srh_hdr_len :: "mbuf \<Rightarrow> nat \<Rightarrow> nat" where "srh_hdr_len m p = unat (get8 (p + 41) m)"
definition srh_type :: "mbuf \<Rightarrow> nat \<Rightarrow> u8" where "srh_type m p = get8 (p + 42) m"
definition segments_left :: "mbuf \<Rightarrow> nat \<Rightarrow> nat" where "segments_left m p = unat (get8 (p + 43) m)"
definition last_entry :: "mbuf \<Rightarrow> nat \<Rightarrow> nat" where "last_entry m p = unat (get8 (p + 44) m)"

text \<open>
  The tests of the header in \<^verbatim>\<open>_process_srv6_packet\<close> and \<^verbatim>\<open>_process_srv6_packet_multi_sids\<close>.
  Without an IPv6 header both follow a null pointer.
\<close>

definition srh_valid :: "mbuf \<Rightarrow> nat \<Rightarrow> bool" where
  "srh_valid m p \<longleftrightarrow> ipv6_proto m p = IPPROTO_ROUTING \<and> 40 + 8 \<le> data_len m \<and> srh_type m p = RTE_IPV6_SRCRT_TYPE_4
     \<and> int (last_entry m p) \<le> int (srh_hdr_len m p div 2) - 1 \<and> segments_left m p \<le> last_entry m p + 1
     \<and> segments_left m p \<noteq> 0"

text \<open>The next segment becomes the destination.\<close>

definition srh_advance :: "mbuf \<Rightarrow> nat \<Rightarrow> mbuf" where
  "srh_advance m p =
     (let left = segments_left m p - 1;
          m = put8 (p + 43) (get8 (p + 43) m - 1) m
      in puts (p + 24) (gets (p + 48 + 16 * left) 16 m) m)"

definition process_srv6_packet :: "mbuf \<Rightarrow> nat option \<Rightarrow> u8 list \<Rightarrow> (bool \<times> mbuf) option" where
  "process_srv6_packet m ipv6 local_end_sid = do {
     p \<leftarrow> ipv6;
     Some (if srh_valid m p \<and> gets (p + 24) 16 m = local_end_sid then (True, srh_advance m p) else (False, m))
   }"

definition process_srv6_packet_multi_sids :: "mbuf \<Rightarrow> nat option \<Rightarrow> u8 list list \<Rightarrow> nat \<Rightarrow> (bool \<times> mbuf) option" where
  "process_srv6_packet_multi_sids m ipv6 local_end_sid num_sids = do {
     p \<leftarrow> ipv6;
     (if \<not> srh_valid m p then Some (False, m)
      else if length local_end_sid < num_sids then None
      else if length (filter (\<lambda>i. gets (p + 24) 16 m = local_end_sid ! i) [0..<num_sids]) = 0 then Some (False, m)
      else Some (True, srh_advance m p))
   }"

definition srv6_process :: "dpdk \<Rightarrow> nat \<Rightarrow> rib_info \<Rightarrow> mbuf \<Rightarrow> nat \<Rightarrow> nat \<Rightarrow> vswitch_conf \<Rightarrow> dp_state \<Rightarrow> dp_state option" where
  "srv6_process d lcore_id r m rx_portid rx_link vs s =
     (let h = parse_headers m;
          rif = vs_router_if vs;
          s = send_capture_if d m (vs_capture_if vs) s
      in if router_if_match rif h m then send_router_if_ring d m rif s
         else do {
           s \<leftarrow> (if is_mcast_bcast d m then send_router_if_ring d m rif s else Some s);
           (is_control, s) \<leftarrow> control_check d m vs h s;
           (if is_control then send_router_if_ring d m rif s
            else if dst_addr m \<noteq> rif_mac_addr rif then switching d lcore_id r m rx_portid (Some rx_link) vs s
            else if verify_packet d m (h_ipv4 h) (h_ipv6 h) \<noteq> 0 then Some s
            else do {
              (modified, m) \<leftarrow> process_srv6_packet_multi_sids m (h_ipv6 h) (srv6_local_sid_addr r) (srv6_local_sid_addr_num r);
              forwarding d lcore_id r m rx_portid (h_ipv4 h) (h_ipv6 h) (if modified then None else Some rx_link) s
            })
         })"

definition srv6_process_rx_packet :: "dpdk \<Rightarrow> nat \<Rightarrow> rib_info \<Rightarrow> nat \<Rightarrow> mbuf \<Rightarrow> dp_state \<Rightarrow> dp_state option" where
  "srv6_process_rx_packet d lcore_id r rx_portid m s = do {
     found \<leftarrow> rx_vswitch r rx_portid m;
     (case found of
        None \<Rightarrow> Some s
      | Some (link_id, vs) \<Rightarrow> srv6_process d lcore_id r m rx_portid link_id vs s)
   }"

definition srv6_router_iteration ::
  "dpdk \<Rightarrow> nat \<Rightarrow> bool \<Rightarrow> rib_info option option \<Rightarrow> (nat \<Rightarrow> nat \<Rightarrow> mbuf list) \<Rightarrow> (ring_name \<Rightarrow> mbuf option list) \<Rightarrow> dp_state \<Rightarrow> dp_state option"
where
  "srv6_router_iteration d lcore_id flush rib rx_burst dequeue s = do {
     s \<leftarrow> (if flush then thread_tx_flush d lcore_id rib s else Some s);
     s \<leftarrow> thread_rx_burst (srv6_process_rx_packet d lcore_id) lcore_id rib rx_burst s;
     thread_tx_burst (router_process_tx_packet d lcore_id) rib dequeue s
   }"

section \<open>Safety of the router thread\<close>

definition allocs_fine :: "dp_state \<Rightarrow> bool" where
  "allocs_fine s \<longleftrightarrow> never_fails (dp_allocs s)"

lemma pktmbuf_copy_fine:
  "allocs_fine s \<Longrightarrow> \<exists>s'. pktmbuf_copy d m s = (Some (rte_pktmbuf_copy d m), s') \<and> allocs_fine s'"
  using malloc_never_fails [of "dp_allocs s"] by (auto simp: pktmbuf_copy_def allocs_fine_def)

lemma ring_enqueue_allocs: "allocs_fine (snd (ring_enqueue ring c s)) = allocs_fine s"
  by (auto simp: ring_enqueue_def allocs_fine_def emit_def split: prod.splits)

lemma send_ring_allocs: "allocs_fine s \<Longrightarrow> allocs_fine (snd (send_ring d m ring s))"
proof -
  assume "allocs_fine s"
  then obtain s1 where "pktmbuf_copy d m s = (Some (rte_pktmbuf_copy d m), s1)" "allocs_fine s1" using pktmbuf_copy_fine by blast
  then show ?thesis using ring_enqueue_allocs [of ring "rte_pktmbuf_copy d m" s1] by (auto simp: send_ring_def split: prod.splits)
qed

lemma send_capture_allocs: "allocs_fine s \<Longrightarrow> allocs_fine (send_capture_if d m cif s)"
  by (simp add: send_capture_if_def send_ring_allocs split: option.splits)

lemma send_router_if_ring_allocs:
  "allocs_fine s \<Longrightarrow> send_router_if_ring d m rif s = Some s' \<Longrightarrow> allocs_fine s'"
  using pktmbuf_copy_fine [of s d m]
  by (auto simp: send_router_if_ring_def send_ring_allocs bind_eq_Some_conv split: option.splits prod.splits)

lemma send_neigh_ok: "allocs_fine s \<Longrightarrow> \<exists>s'. send_neigh d msg s = Some s'"
  using malloc_never_fails [of "dp_allocs s"]
  by (auto simp: send_neigh_def internal_msg_create_def internal_msg_send_to_def allocs_fine_def split: prod.splits)

lemma send_neigh_pair: "allocs_fine s \<Longrightarrow> \<exists>bs. map_option (Pair b) (send_neigh d msg s) = Some bs"
  using send_neigh_ok [of s d msg] by auto

lemma check_control_ok:
  assumes "allocs_fine s"
  shows "\<exists>bs. check_control_packet d m vs eth_type vlan ipv4 ipv6 icmp s = Some bs"
proof -
  have n: "map_option (Pair b) (send_neigh d msg s) \<noteq> None" for b msg using send_neigh_pair [OF assms, of b d msg] by (metis option.distinct(1))
  have "check_control_packet d m vs eth_type vlan ipv4 ipv6 icmp s \<noteq> None"
    by (cases ipv4; cases ipv6; cases icmp) (simp_all only: check_control_packet_def Let_def option.case prod.case n if_True if_False option.distinct not_False_eq_True split: if_split, simp_all)
  then show ?thesis by blast
qed

lemma control_check_ok: "allocs_fine s \<Longrightarrow> \<exists>b s'. control_check d m vs h s = Some (b, s')"
  unfolding control_check_def using check_control_ok by (cases "0 \<le> rif_sockfd (vs_router_if vs) \<and> rif_ring_up (vs_router_if vs) \<noteq> None") auto

lemma rx_vswitch_link_ok:
  assumes r: "dp_ready r" and p: "rx_portid < MAX_ETH_PORTS"
  shows "\<exists>lo. rx_vswitch_link r rx_portid m = Some lo \<and> (\<forall>l. lo = Some l \<longrightarrow> l < length (vswitch_link r))"
proof -
  let ?pc = "port r ! rx_portid"
  have pc: "arr (port r) rx_portid = Some ?pc" "?pc \<in> set (port r)" using r p by (auto simp: arr_def dp_ready_def)
  show ?thesis
  proof (cases "ether_type m = RTE_ETHER_TYPE_VLAN")
    case True
    let ?f = "\<lambda>i. do {
            link_id \<leftarrow> arr (vswitch_link_id_of_vlan ?pc) i;
            link \<leftarrow> arr (vswitch_link r) (unat link_id);
            Some (if vl_tag_id link = RTE_VLAN_TCI_ID (vlan_tci m) then Some (unat link_id) else None)
          }"
    have a: "\<exists>y. ?f i = Some y \<and> (\<forall>l. y = Some l \<longrightarrow> l < length (vswitch_link r))" if "i \<in> set [0..<vlan_size ?pc]" for i
    proof -
      have i: "i < length (vswitch_link_id_of_vlan ?pc)" using that r pc(2) by (fastforce simp: dp_ready_def)
      moreover have "vswitch_link_id_of_vlan ?pc ! i \<in> set (take (vlan_size ?pc) (vswitch_link_id_of_vlan ?pc))"
        using that i by (auto simp: in_set_conv_nth)
      ultimately have "unat (vswitch_link_id_of_vlan ?pc ! i) < length (vswitch_link r)" using r pc(2) by (fastforce simp: dp_ready_def)
      with i show ?thesis by (simp add: arr_def)
    qed
    have "\<exists>lo. scan ?f [0..<vlan_size ?pc] = Some lo \<and> (\<forall>l. lo = Some l \<longrightarrow> l < length (vswitch_link r))"
      using scan_ok [of "[0..<vlan_size ?pc]" ?f] a by fastforce
    then show ?thesis by (simp add: rx_vswitch_link_def pc(1) True)
  next
    case False
    then show ?thesis using r by (auto simp: rx_vswitch_link_def pc(1) Let_def dp_ready_def)
  qed
qed

lemma rx_vswitch_ok:
  assumes r: "dp_ready r" and p: "rx_portid < MAX_ETH_PORTS"
  shows "\<exists>lo. rx_vswitch r rx_portid m = Some lo \<and> (\<forall>l vs. lo = Some (l, vs) \<longrightarrow> vs_consistent r vs)"
proof -
  obtain lo where lo: "rx_vswitch_link r rx_portid m = Some lo" "\<And>l. lo = Some l \<Longrightarrow> l < length (vswitch_link r)"
    using rx_vswitch_link_ok [OF assms] by blast
  show ?thesis
  proof (cases lo)
    case None
    then show ?thesis using lo by (simp add: rx_vswitch_def)
  next
    case (Some l)
    note v = vswitch_scan [OF r, of "\<lambda>vs. vs_vswitch_id vs = vl_vswitch_id (vswitch_link r ! l)"]
    have "rx_vswitch r rx_portid m = (if MAX_VSWITCH < vswitch_size r then Some None
        else Some (map_option (Pair l) (find (\<lambda>vs. vs_vswitch_id vs = vl_vswitch_id (vswitch_link r ! l)) (take (vswitch_size r) (vswitch r)))))"
      using lo Some by (simp add: rx_vswitch_def arr_def vswitch_by_id_def v)
    then show ?thesis using find_vswitch_consistent [OF r] by auto
  qed
qed

lemma switching_safe:
  assumes "dpdk_ok d" "64 \<le> length (m_data m)" "vs_consistent r vs"
  shows "\<exists>s'. switching d lcore_id r m rx_portid rx_link vs s = Some s'"
proof -
  have "\<exists>s'. flooding d lcore_id r m rx_portid rx_link vs s = Some s'" using flooding_ok [OF assms] by blast
  moreover have "\<exists>s'. send_link d r m rx_link (nat p) lcore_id l s = Some s'"
    if "find (\<lambda>l. int (link_port r l) = p) (map unat (vs_members vs)) = Some l" for p l
  proof -
    from find_mem [OF that] assms(3) have "l < length (vswitch_link r)" "nat p < length (port r)" by (auto simp: vs_consistent_def)
    from send_link_ok [OF assms(1,2) this] show ?thesis by blast
  qed
  ultimately show ?thesis
    by (auto simp: switching_def link_on_port_ok [OF assms(3)] Let_def split: option.splits)
qed

text \<open>
  For every received packet (any bytes), on every port the RIB manager configures, with a
  published RIB whose indices are in range and whose routes have next hops, the router thread does
  not follow a null pointer, violate an assertion or leave an array.
\<close>

lemma router_rx_ok:
  assumes d: "dpdk_ok d" "64 \<le> length (m_data (rte_pktmbuf_alloc d))" and r: "dp_ready r" "next_hops_resolve d r"
    and p: "rx_portid < MAX_ETH_PORTS" and m: "64 \<le> length (m_data m)" and s: "allocs_fine s"
  shows "\<exists>s'. router_process_rx_packet d lcore_id r rx_portid m s = Some s'"
proof -
  obtain lo where lo: "rx_vswitch r rx_portid m = Some lo" "\<And>l vs. lo = Some (l, vs) \<Longrightarrow> vs_consistent r vs"
    using rx_vswitch_ok [OF r(1) p] by blast
  show ?thesis
  proof (cases lo)
    case None
    then show ?thesis using lo(1) by (simp add: router_process_rx_packet_def)
  next
    case (Some lv)
    obtain l vs where lv: "lv = (l, vs)" by fastforce
    have vs: "vs_consistent r vs" using lo(2) Some lv by simp
    let ?h = "parse_headers m" and ?rif = "vs_router_if vs" and ?s = "send_capture_if d m (vs_capture_if vs) s"
    have s0: "allocs_fine ?s" using s by (rule send_capture_allocs)
    have ring: "\<exists>s'. send_router_if_ring d m ?rif s = Some s'" for s using send_router_if_ring_ok [OF d(1) m] by blast
    obtain s1 where s1: "(if is_mcast_bcast d m then send_router_if_ring d m ?rif ?s else Some ?s) = Some s1" "allocs_fine s1"
      using ring [of ?s] s0 send_router_if_ring_allocs by (cases "is_mcast_bcast d m") auto
    obtain b s2 where s2: "control_check d m vs ?h s1 = Some (b, s2)" using control_check_ok [OF s1(2)] by blast
    have "\<exists>s'. router_process d lcore_id r m rx_portid l vs s = Some s'"
    proof (cases "router_if_match ?rif ?h m")
      case True
      then show ?thesis using ring by (simp add: router_process_def Let_def)
    next
      case False
      with s1(1) s2 have "router_process d lcore_id r m rx_portid l vs s =
         (if b then (if is_mcast_bcast d m then Some s2 else send_router_if_ring d m ?rif s2)
          else if dst_addr m \<noteq> rif_mac_addr ?rif then switching d lcore_id r m rx_portid (Some l) vs s2
          else if verify_packet d m (h_ipv4 ?h) (h_ipv6 ?h) \<noteq> 0 then Some s2
          else forwarding d lcore_id r m rx_portid (h_ipv4 ?h) (h_ipv6 ?h) (Some l) s2)"
        by (simp add: router_process_def Let_def split del: if_split)
      then show ?thesis
        using ring switching_safe [OF d(1) m vs] forwarding_safe [OF d m r] by simp
    qed
    then show ?thesis using lo(1) Some lv by (simp add: router_process_rx_packet_def)
  qed
qed

lemma sample_next_hops: "next_hops_resolve sample_dpdk sample_l3_rib"
proof -
  have "nexthop_get_info_by_index (nexthop_of sample_l3_rib) 0 \<noteq> None"
    by (simp add: nexthop_get_info_by_index_def member_at_def sample_l3_rib_def zero_group_def zero_member_def MAX_NEXTHOP_GRP_SIZE_def MAX_ECMP_ENTRY_def)
  moreover have "nh_id = 0" if "i < ROUTE_TREE_SIZE" "fib_tree_of sample_l3_rib ! i = Some f" "fib_route_lookup oob f a = FNode leaf nkey nkeylen nh_id cs"
    for i f oob a leaf nkey nkeylen nh_id cs
    using that by (auto simp: ROUTE_TREE_SIZE_def less_2_cases_iff sample_l3_rib_def fib_route_lookup_def sample_fib_def empty_fib_def)
  ultimately show ?thesis unfolding next_hops_resolve_def by metis
qed

section \<open>Segment routing\<close>

lemma srh_advance_spec:
  assumes "srh_valid m p" "p + 48 \<le> length (m_data m)"
  defines "m' \<equiv> srh_advance m p"
  shows "gets (p + 24) 16 m' = gets (p + 48 + 16 * (segments_left m p - 1)) 16 m" "segments_left m' p = segments_left m p - 1"
    "\<And>i. i \<noteq> p + 43 \<Longrightarrow> i < p + 24 \<or> p + 40 \<le> i \<Longrightarrow> get8 i m' = get8 i m" "data_len m' = data_len m"
proof -
  let ?left = "segments_left m p - 1"
  let ?m1 = "put8 (p + 43) (get8 (p + 43) m - 1) m"
  let ?sid = "gets (p + 48 + 16 * ?left) 16 ?m1"
  have m': "m' = puts (p + 24) ?sid ?m1" by (simp add: m'_def srh_advance_def Let_def)
  have g: "get8 i m' = (if p + 24 \<le> i \<and> i < p + 40 then ?sid ! (i - (p + 24)) else get8 i ?m1)" for i
    using assms(2) by (simp add: m' get8_puts)
  have sid: "?sid = gets (p + 48 + 16 * ?left) 16 m" by (rule gets_eqI) (simp add: get8_put8)
  show "gets (p + 24) 16 m' = gets (p + 48 + 16 * ?left) 16 m"
    by (rule nth_equalityI) (simp_all add: gets_nth g get8_put8)
  show "get8 i m' = get8 i m" if "i \<noteq> p + 43" "i < p + 24 \<or> p + 40 \<le> i" for i
    using that by (simp add: g get8_put8) linarith
  have "get8 (p + 43) m \<noteq> 0" using assms(1) by (auto simp: srh_valid_def segments_left_def)
  then have "unat (get8 (p + 43) m - 1) = unat (get8 (p + 43) m) - 1" by (metis unat_minus_one)
  then show "segments_left m' p = ?left" using assms(2) by (simp add: segments_left_def g get8_put8)
  show "data_len m' = data_len m" by (simp add: m')
qed

text \<open>
  C17: The segment routing step.  A packet is changed only if its routing header is of type 4 with
  segments left and consistent counts and its destination is one of the node's segments; then the
  number of segments left is lower by one, the destination is the segment at that index, which
  lies within the length the routing header declares, and every other byte is unchanged.  In all
  other cases the packet is untouched.  With one segment the function agrees with
  \<^verbatim>\<open>_process_srv6_packet\<close>.
\<close>

theorem srv6_step_correct:
  assumes p: "p + 48 \<le> length (m_data m)" and n: "num_sids \<le> length sids"
  shows "\<exists>modified m'. process_srv6_packet_multi_sids m (Some p) sids num_sids = Some (modified, m')
    \<and> (modified \<longleftrightarrow> srh_valid m p \<and> gets (p + 24) 16 m \<in> set (take num_sids sids)) \<and> (\<not> modified \<longrightarrow> m' = m)
    \<and> (modified \<longrightarrow> segments_left m' p = segments_left m p - 1 \<and> segments_left m p \<noteq> 0
         \<and> gets (p + 24) 16 m' = gets (p + 48 + 16 * segments_left m' p) 16 m
         \<and> 16 * segments_left m' p + 16 \<le> 8 * srh_hdr_len m p
         \<and> (\<forall>i. i \<noteq> p + 43 \<and> (i < p + 24 \<or> p + 40 \<le> i) \<longrightarrow> get8 i m' = get8 i m))
    \<and> (num_sids = 1 \<longrightarrow> process_srv6_packet m (Some p) (sids ! 0) = Some (modified, m'))"
proof -
  let ?dst = "gets (p + 24) 16 m"
  have f: "length (filter (\<lambda>i. ?dst = sids ! i) [0..<num_sids]) = 0 \<longleftrightarrow> ?dst \<notin> set (take num_sids sids)"
    using n by (auto simp: filter_empty_conv in_set_conv_nth) (metis atLeastLessThan_iff le0)
  have one: "num_sids = 1 \<Longrightarrow> set (take num_sids sids) = {sids ! 0}" using n by (cases sids) auto
  show ?thesis
  proof (cases "srh_valid m p \<and> ?dst \<in> set (take num_sids sids)")
    case True
    note a = srh_advance_spec [OF conjunct1 [OF True] p]
    have "segments_left m p \<noteq> 0" "16 * (segments_left m p - 1) + 16 \<le> 8 * srh_hdr_len m p"
      using True by (auto simp: srh_valid_def)
    moreover have "process_srv6_packet_multi_sids m (Some p) sids num_sids = Some (True, srh_advance m p)"
      using True n f by (simp add: process_srv6_packet_multi_sids_def)
    moreover have "num_sids = 1 \<Longrightarrow> process_srv6_packet m (Some p) (sids ! 0) = Some (True, srh_advance m p)"
      using True one by (simp add: process_srv6_packet_def)
    ultimately show ?thesis using True a(1-3) by (intro exI [of _ True] exI [of _ "srh_advance m p"]) simp
  next
    case False
    then show ?thesis using n f by (auto simp: process_srv6_packet_multi_sids_def process_srv6_packet_def dest: one)
  qed
qed

text \<open>A packet for fc00::1 with two segments, one left.\<close>

definition sample_srv6 :: mbuf where
  "sample_srv6 = \<lparr>m_data = replicate 6 2 @ replicate 6 4 @ [0x86, 0xDD]
       @ [0x60, 0, 0, 0, 0, 40, 43, 64] @ replicate 16 1 @ (0xfc # replicate 14 0 @ [1])
       @ [59, 4, 4, 1, 1, 0, 0, 0] @ replicate 16 7 @ replicate 16 9, data_len = 94, m_port = 0\<rparr>"

theorem srv6_step_correct_witness:
  "\<exists>m'. process_srv6_packet_multi_sids sample_srv6 (Some 14) [0xfc # replicate 14 0 @ [1]] 1 = Some (True, m')
     \<and> segments_left m' 14 = 0 \<and> gets 38 16 m' = replicate 16 7"
proof -
  have l: "14 + 48 \<le> length (m_data sample_srv6)" by (simp add: sample_srv6_def)
  have v: "srh_valid sample_srv6 14" "segments_left sample_srv6 14 = 1" "gets 38 16 sample_srv6 = 0xfc # replicate 14 0 @ [1]"
    "gets 62 16 sample_srv6 = replicate 16 7"
  proof -
    show "srh_valid sample_srv6 14" "segments_left sample_srv6 14 = 1"
      by (simp_all add: srh_valid_def segments_left_def last_entry_def srh_hdr_len_def srh_type_def ipv6_proto_def sample_srv6_def
          get8_def bytes_at_def nth_append IPPROTO_ROUTING_def RTE_IPV6_SRCRT_TYPE_4_def)
    show "gets 38 16 sample_srv6 = 0xfc # replicate 14 0 @ [1]" "gets 62 16 sample_srv6 = replicate 16 7"
      by (simp_all add: gets_def get8_def bytes_at_def sample_srv6_def nth_append upt_rec) (simp_all add: numeral_eq_Suc)
  qed
  show ?thesis using srv6_step_correct [OF l, of 1 "[0xfc # replicate 14 0 @ [1]]"] v by auto
qed

text \<open>
  C40: The segment routing router crashes on packets it should route without segment routing.  A
  packet that is addressed to the router's MAC address, is not for the router itself, passes
  verification and has no IPv6 header, such as any IPv4 packet in transit, makes
  \<^verbatim>\<open>_process_srv6_packet_multi_sids\<close> follow a null pointer; the plain router forwards it.
\<close>

theorem srv6_router_crashes_without_ipv6:
  assumes "rx_vswitch r rx_portid m = Some (Some (l, vs))" "h_ipv6 (parse_headers m) = None"
    and "dst_addr m = rif_mac_addr (vs_router_if vs)" "\<not> router_if_match (vs_router_if vs) (parse_headers m) m" "\<not> is_mcast_bcast d m"
    and "control_check d m vs (parse_headers m) (send_capture_if d m (vs_capture_if vs) s) = Some (False, s')"
    and "verify_packet d m (h_ipv4 (parse_headers m)) None = 0"
  shows "srv6_process_rx_packet d lcore_id r rx_portid m s = None
    \<and> router_process_rx_packet d lcore_id r rx_portid m s
        = forwarding d lcore_id r m rx_portid (h_ipv4 (parse_headers m)) None (Some l) s'"
  using assms
  by (simp add: srv6_process_rx_packet_def srv6_process_def router_process_rx_packet_def router_process_def Let_def
      process_srv6_packet_multi_sids_def)

theorem srv6_router_crashes_without_ipv6_witness:
  "srv6_process_rx_packet sample_dpdk 0 sample_l3_rib 0 sample_ipv4 dp_start = None"
proof -
  have t: "ether_type sample_ipv4 = RTE_ETHER_TYPE_IPV4" "ether_type sample_ipv4 \<noteq> RTE_ETHER_TYPE_VLAN" "dst_addr sample_ipv4 = replicate 6 2"
  proof -
    show "ether_type sample_ipv4 = RTE_ETHER_TYPE_IPV4" "ether_type sample_ipv4 \<noteq> RTE_ETHER_TYPE_VLAN"
      by (simp_all add: ether_type_def get16_def get8_def bytes_at_def sample_ipv4_def nth_append RTE_ETHER_TYPE_IPV4_def RTE_ETHER_TYPE_VLAN_def)
    show "dst_addr sample_ipv4 = replicate 6 2"
      by (simp add: dst_addr_def gets_def get8_def bytes_at_def sample_ipv4_def nth_append upt_rec) (simp add: numeral_eq_Suc)
  qed
  have h: "h_ipv4 (parse_headers sample_ipv4) = Some 14" "h_ipv6 (parse_headers sample_ipv4) = None"
    using t by (simp_all add: parse_headers_def Let_def RTE_ETHER_TYPE_IPV4_def RTE_ETHER_TYPE_IPV6_def)
  have v: "rif_mac_addr (vs_router_if sample_l3_vs) = replicate 6 2" "rif_ipv4_addr (vs_router_if sample_l3_vs) = replicate 4 0"
    "rif_sockfd (vs_router_if sample_l3_vs) = -1" "vs_vswitch_id sample_l3_vs = 0" "cif_ring_up (vs_capture_if sample_l3_vs) = None"
    by (simp_all add: sample_l3_vs_def sample_vs_def zero_router_if_def zero_vswitch_def zero_capture_if_def)
  have p: "port sample_l3_rib ! 0 = zero_port\<lparr>pc_link_status := True\<rparr>" "length (port sample_l3_rib) = 8"
    "vswitch_link_size sample_l3_rib = 2" "vswitch_link sample_l3_rib ! 0 = sample_link 0 0 0" "length (vswitch_link sample_l3_rib) = 32"
    "vswitch_size sample_l3_rib = 1" "vswitch sample_l3_rib ! 0 = sample_l3_vs" "length (vswitch sample_l3_rib) = 4"
    by (simp_all add: sample_l3_rib_def sample_dp_rib_def)
  have rx: "rx_vswitch sample_l3_rib 0 sample_ipv4 = Some (Some (0, sample_l3_vs))"
    using t p v(4) by (simp add: rx_vswitch_def rx_vswitch_link_def arr_def Let_def zero_port_def MAX_VSWITCH_def vswitch_by_id_def
        vswitch_at_def sample_link_def zero_vswitch_link_def)
  have "gets 30 4 sample_ipv4 = [10, 0, 0, 1]"
    by (simp add: gets_def get8_def bytes_at_def sample_ipv4_def nth_append upt_rec)
  then have "\<not> router_if_match (vs_router_if sample_l3_vs) (parse_headers sample_ipv4) sample_ipv4"
    using h v by (simp add: router_if_match_def numeral_eq_Suc)
  moreover have "\<not> is_mcast_bcast sample_dpdk sample_ipv4" using t(3) by (simp add: is_mcast_bcast_def sample_dpdk_def)
  moreover have "control_check sample_dpdk sample_ipv4 sample_l3_vs (parse_headers sample_ipv4)
      (send_capture_if sample_dpdk sample_ipv4 (vs_capture_if sample_l3_vs) dp_start) = Some (False, dp_start)"
    using v by (simp add: control_check_def send_capture_if_def)
  ultimately show ?thesis
    using srv6_router_crashes_without_ipv6 [OF rx h(2), of sample_dpdk dp_start dp_start 0] t v h sample_ipv4_verifies by simp
qed

end
