(* ===== verification/L2_Threads.thy ===== *)
theory L2_Threads
  imports Router
begin

text \<open>
  The layer-2 threads: \<^verbatim>\<open>l2_repeater.c\<close>, \<^verbatim>\<open>vlan_switch.c\<close>, \<^verbatim>\<open>l2_switch.c\<close> and
  \<^verbatim>\<open>enhanced_repeater.c\<close>.  They differ in how the receiving switch is found, which links a
  packet is copied to, and what the taps and applications get.  The transmission over a link is
  the same text in three of the files.
\<close>

section \<open>Shared pieces\<close>

definition l2_tx_flush :: "dpdk \<Rightarrow> nat \<Rightarrow> dp_state \<Rightarrow> dp_state" where
  "l2_tx_flush d lcore_id s =
     fold (\<lambda>tx_portid s. if tx_buffer_per_q d tx_portid lcore_id then count_sent tx_portid s else s)
       [0..<rte_eth_dev_count_avail d] s"

text \<open>The copy is not tested for null before it goes into the ring; a null ring is followed.\<close>

definition copy_to_ring :: "dpdk \<Rightarrow> mbuf \<Rightarrow> ring \<Rightarrow> dp_state \<Rightarrow> dp_state option" where
  "copy_to_ring d m ring s =
     (case pktmbuf_copy d m s of (c, s) \<Rightarrow>
        (case ring of
           None \<Rightarrow> None
         | Some name \<Rightarrow>
             (case c of
                None \<Rightarrow> Some (s\<lparr>dp_enqueues := snd (malloc_ok (dp_enqueues s))\<rparr>)
              | Some c \<Rightarrow> Some (snd (ring_enqueue name c s)))))"

text \<open>Transmission over a link, refused on the receiving port.\<close>

definition l2_send_link :: "dpdk \<Rightarrow> rib_info \<Rightarrow> mbuf \<Rightarrow> nat \<Rightarrow> nat \<Rightarrow> nat \<Rightarrow> nat \<Rightarrow> dp_state \<Rightarrow> dp_state option" where
  "l2_send_link d r m rx_portid tx_portid tx_queueid tx_link s =
     (if rte_eth_dev_count_avail d \<le> tx_portid then Some s
      else if rx_portid = tx_portid then Some s
      else do {
        pc \<leftarrow> arr (port r) tx_portid;
        (if \<not> pc_link_status pc then Some s
         else if \<not> tx_buffer_per_q d tx_portid tx_queueid then Some s
         else
           (case pktmbuf_copy d m s of
              (None, s) \<Rightarrow> Some s
            | (Some c, s) \<Rightarrow> do {
                link \<leftarrow> arr (vswitch_link r) tx_link;
                c \<leftarrow> link_tag d (vl_tag_id link) c;
                Some (eth_tx_buffer tx_portid tx_queueid c s)
              }))
      })"

text \<open>A burst from every polled queue, stopped ports included.\<close>

definition polled_rx_burst ::
  "(rib_info \<Rightarrow> nat \<Rightarrow> nat \<Rightarrow> mbuf \<Rightarrow> dp_state \<Rightarrow> dp_state option) \<Rightarrow> nat \<Rightarrow> rib_info option option \<Rightarrow> (nat \<Rightarrow> nat \<Rightarrow> mbuf list)
     \<Rightarrow> dp_state \<Rightarrow> dp_state option"
where
  "polled_rx_burst process lcore_id rib rx_burst s =
     (case rib of
        Some (Some r) \<Rightarrow> do {
          qc \<leftarrow> arr (lcore_qconf_of r) lcore_id;
          each (\<lambda>i s. do {
              rxq \<leftarrow> arr (rx_queue_list qc) i;
              (let portid = unat (pq_port_id rxq); queueid = unat (pq_queue_id rxq); pkts = rx_burst portid queueid
               in each (process r portid queueid) pkts
                    (s\<lparr>rx_statistics := (rx_statistics s)(portid := rx_statistics s portid + length pkts)\<rparr>))
            }) [0..<lq_nrxq qc] s
        }
      | _ \<Rightarrow> Some s)"

text \<open>A packet the kernel sent on a router interface goes to every link of its switch.\<close>

definition l2_tx_packet :: "dpdk \<Rightarrow> nat \<Rightarrow> rib_info \<Rightarrow> vswitch_conf \<Rightarrow> mbuf \<Rightarrow> dp_state \<Rightarrow> dp_state option" where
  "l2_tx_packet d lcore_id r vs m s =
     each (\<lambda>j s. do {
         link_id \<leftarrow> arr (vs_link_id vs) j;
         (if vswitch_link_size r \<le> unat link_id then Some s
          else do {
            link \<leftarrow> arr (vswitch_link r) (unat link_id);
            (if vl_vswitch_id link \<noteq> vs_vswitch_id vs then Some s
             else l2_send_link d r m ROUTER_IF_RX_SELF_PORT_ID (unat (vl_port_id link)) lcore_id (unat link_id) s)
          })
       }) [0..<vs_port_size vs] s"

section \<open>\<^verbatim>\<open>l2_repeater.c\<close>\<close>

definition l2_repeat :: "dpdk \<Rightarrow> nat \<Rightarrow> rib_info \<Rightarrow> nat \<Rightarrow> mbuf \<Rightarrow> dp_state \<Rightarrow> dp_state option" where
  "l2_repeat d lcore_id r rx_portid m s =
     each (\<lambda>tx_portid s.
         if rx_portid = tx_portid then Some s
         else do {
           pc \<leftarrow> arr (port r) tx_portid;
           (if \<not> pc_link_status pc then Some s
            else if \<not> tx_buffer_per_q d tx_portid lcore_id then Some s
            else
              (case pktmbuf_copy d m s of
                 (None, s) \<Rightarrow> Some s
               | (Some c, s) \<Rightarrow> Some (eth_tx_buffer tx_portid lcore_id c s)))
         }) [0..<rte_eth_dev_count_avail d] s"

definition l2_repeater_rx_packet ::
  "dpdk \<Rightarrow> rings \<Rightarrow> nat \<Rightarrow> rib_info \<Rightarrow> nat \<Rightarrow> nat \<Rightarrow> mbuf \<Rightarrow> dp_state \<Rightarrow> dp_state option"
where
  "l2_repeater_rx_packet d rs lcore_id r portid queueid m s = do {
     s \<leftarrow> copy_to_ring d m (ring_up rs (portid, queueid)) s;
     l2_repeat d lcore_id r portid m s
   }"

text \<open>What the tap handler put into the ring of a queue goes straight to the port.\<close>

definition l2_repeater_tx_burst ::
  "rings \<Rightarrow> nat \<Rightarrow> rib_info option option \<Rightarrow> (ring_name \<Rightarrow> mbuf list) \<Rightarrow> dp_state \<Rightarrow> dp_state option"
where
  "l2_repeater_tx_burst rs lcore_id rib dequeue s =
     (case rib of
        Some (Some r) \<Rightarrow> do {
          qc \<leftarrow> arr (lcore_qconf_of r) lcore_id;
          each (\<lambda>i s. do {
              rxq \<leftarrow> arr (rx_queue_list qc) i;
              ring \<leftarrow> ring_dn rs (unat (pq_port_id rxq), unat (pq_queue_id rxq));
              Some (fold (\<lambda>m. emit (Tx (unat (pq_port_id rxq)) lcore_id m)) (dequeue ring) s)
            }) [0..<lq_nrxq qc] s
        }
      | _ \<Rightarrow> Some s)"

definition l2_repeater_iteration ::
  "dpdk \<Rightarrow> rings \<Rightarrow> nat \<Rightarrow> bool \<Rightarrow> rib_info option option \<Rightarrow> (nat \<Rightarrow> nat \<Rightarrow> mbuf list) \<Rightarrow> (ring_name \<Rightarrow> mbuf list)
     \<Rightarrow> dp_state \<Rightarrow> dp_state option"
where
  "l2_repeater_iteration d rs lcore_id flush rib rx_burst dequeue s = do {
     s \<leftarrow> polled_rx_burst (l2_repeater_rx_packet d rs lcore_id) lcore_id rib rx_burst
            (if flush then l2_tx_flush d lcore_id s else s);
     l2_repeater_tx_burst rs lcore_id rib dequeue s
   }"

section \<open>\<^verbatim>\<open>vlan_switch.c\<close>\<close>

text \<open>The switch is taken at the index of its id.\<close>

definition vlan_switch_select :: "dpdk \<Rightarrow> nat \<Rightarrow> rib_info \<Rightarrow> nat \<Rightarrow> mbuf \<Rightarrow> dp_state \<Rightarrow> dp_state option" where
  "vlan_switch_select d lcore_id r rx_portid m s = do {
     found \<leftarrow> rx_vswitch_link r rx_portid m;
     (case found of
        None \<Rightarrow> Some s
      | Some rx_link \<Rightarrow> do {
          rxl \<leftarrow> arr (vswitch_link r) rx_link;
          (if vswitch_size r \<le> unat (vl_vswitch_id rxl) then Some s
           else do {
             vs \<leftarrow> vswitch_at r (unat (vl_vswitch_id rxl));
             each (\<lambda>i s. do {
                 (link_id, link) \<leftarrow> vs_link_at r vs i;
                 (if link_id = rx_link \<or> unat (vl_port_id link) = rx_portid then Some s
                  else l2_send_link d r m rx_portid (unat (vl_port_id link)) lcore_id link_id s)
               }) [0..<vs_port_size vs] s
           })
        })
   }"

definition vlan_switch_rx_packet ::
  "dpdk \<Rightarrow> rings \<Rightarrow> nat \<Rightarrow> rib_info \<Rightarrow> nat \<Rightarrow> nat \<Rightarrow> mbuf \<Rightarrow> dp_state \<Rightarrow> dp_state option"
where
  "vlan_switch_rx_packet d rs lcore_id r portid queueid m s = do {
     s \<leftarrow> vlan_switch_select d lcore_id r portid m s;
     copy_to_ring d m (ring_up rs (portid, queueid)) s
   }"

definition vlan_switch_iteration ::
  "dpdk \<Rightarrow> rings \<Rightarrow> nat \<Rightarrow> bool \<Rightarrow> rib_info option option \<Rightarrow> (nat \<Rightarrow> nat \<Rightarrow> mbuf list) \<Rightarrow> dp_state \<Rightarrow> dp_state option"
where
  "vlan_switch_iteration d rs lcore_id flush rib rx_burst s =
     polled_rx_burst (vlan_switch_rx_packet d rs lcore_id) lcore_id rib rx_burst
       (if flush then l2_tx_flush d lcore_id s else s)"

section \<open>\<^verbatim>\<open>l2_switch.c\<close>\<close>

text \<open>One link of a flood: not the receiving link or port; \<open>check\<close> skips stopped ports.\<close>

definition l2_flood_link :: "dpdk \<Rightarrow> nat \<Rightarrow> rib_info \<Rightarrow> mbuf \<Rightarrow> nat \<Rightarrow> nat \<Rightarrow> vswitch_conf \<Rightarrow> bool \<Rightarrow> nat \<Rightarrow> dp_state \<Rightarrow> dp_state option" where
  "l2_flood_link d lcore_id r m rx_portid rx_link vs check i s = do {
     (link_id, link) \<leftarrow> vs_link_at r vs i;
     (let tx_portid = unat (vl_port_id link)
      in if link_id = rx_link \<or> tx_portid = rx_portid then Some s
         else if check then do {
           pc \<leftarrow> arr (port r) tx_portid;
           (if pc_is_stopped pc then Some s else l2_send_link d r m rx_portid tx_portid lcore_id link_id s)
         }
         else l2_send_link d r m rx_portid tx_portid lcore_id link_id s)
   }"

text \<open>The link of a known address: the first one on its port other than the receiving link.\<close>

definition l2_known_link :: "rib_info \<Rightarrow> vswitch_conf \<Rightarrow> nat \<Rightarrow> nat \<Rightarrow> nat option option" where
  "l2_known_link r vs rx_link dst_port =
     scan (\<lambda>i. do {
         (link_id, link) \<leftarrow> vs_link_at r vs i;
         pc \<leftarrow> arr (port r) dst_port;
         Some (if pc_is_stopped pc then None
               else if unat (vl_port_id link) = dst_port \<and> link_id \<noteq> rx_link then Some link_id else None)
       }) [0..<vs_port_size vs]"

definition l2_forward :: "dpdk \<Rightarrow> nat \<Rightarrow> rib_info \<Rightarrow> mbuf \<Rightarrow> nat \<Rightarrow> nat \<Rightarrow> u16 \<Rightarrow> vswitch_conf \<Rightarrow> dp_state \<Rightarrow> dp_state option" where
  "l2_forward d lcore_id r m rx_portid rx_link tag_id vs s =
     (if is_mcast_bcast d m
      then each (l2_flood_link d lcore_id r m rx_portid rx_link vs True) [0..<vs_port_size vs] s
      else
        (let dst_port = fdb_lookup_entry (fdb_of r) (dst_addr m) tag_id
         in if 0 \<le> dst_port then do {
              found \<leftarrow> l2_known_link r vs rx_link (nat dst_port);
              (case found of
                 None \<Rightarrow> Some s
               | Some link_id \<Rightarrow> l2_send_link d r m rx_portid (nat dst_port) lcore_id link_id s)
            }
            else each (l2_flood_link d lcore_id r m rx_portid rx_link vs False) [0..<vs_port_size vs] s))"

text \<open>A link whose switch cannot be found makes the code follow a null pointer.\<close>

definition l2_switch_select :: "dpdk \<Rightarrow> nat \<Rightarrow> rib_info \<Rightarrow> nat \<Rightarrow> mbuf \<Rightarrow> dp_state \<Rightarrow> dp_state option" where
  "l2_switch_select d lcore_id r rx_portid m s = do {
     found \<leftarrow> rx_vswitch_link r rx_portid m;
     (case found of
        None \<Rightarrow> Some s
      | Some rx_link \<Rightarrow> do {
          rxl \<leftarrow> arr (vswitch_link r) rx_link;
          (if MAX_VSWITCH < vswitch_size r then Some s
           else do {
             vso \<leftarrow> vswitch_by_id r (vl_vswitch_id rxl);
             vs \<leftarrow> vso;
             s \<leftarrow> l2_forward d lcore_id r m rx_portid rx_link (vl_tag_id rxl) vs s;
             s \<leftarrow> (if 0 \<le> rif_sockfd (vs_router_if vs) \<and> rif_ring_up (vs_router_if vs) \<noteq> None
                  then copy_to_ring d m (rif_ring_up (vs_router_if vs)) s else Some s);
             (if 0 \<le> cif_sockfd (vs_capture_if vs) \<and> cif_ring_up (vs_capture_if vs) \<noteq> None
              then copy_to_ring d m (cif_ring_up (vs_capture_if vs)) s else Some s)
           })
        })
   }"

definition l2_switch_iteration ::
  "dpdk \<Rightarrow> nat \<Rightarrow> bool \<Rightarrow> rib_info option option \<Rightarrow> (nat \<Rightarrow> nat \<Rightarrow> mbuf list) \<Rightarrow> (ring_name \<Rightarrow> mbuf option list) \<Rightarrow> dp_state \<Rightarrow> dp_state option"
where
  "l2_switch_iteration d lcore_id flush rib rx_burst dequeue s = do {
     s \<leftarrow> thread_rx_burst (l2_switch_select d lcore_id) lcore_id rib rx_burst (if flush then l2_tx_flush d lcore_id s else s);
     thread_tx_burst (l2_tx_packet d lcore_id) rib dequeue s
   }"

section \<open>\<^verbatim>\<open>enhanced_repeater.c\<close>\<close>

definition er_flood_link :: "dpdk \<Rightarrow> nat \<Rightarrow> rib_info \<Rightarrow> mbuf \<Rightarrow> nat \<Rightarrow> nat \<Rightarrow> vswitch_conf \<Rightarrow> nat \<Rightarrow> dp_state \<Rightarrow> dp_state option" where
  "er_flood_link d lcore_id r m rx_portid rx_link vs i s = do {
     (link_id, link) \<leftarrow> vs_link_at r vs i;
     (if link_id = rx_link then Some s
      else do {
        pc \<leftarrow> arr (port r) (unat (vl_port_id link));
        (if pc_is_stopped pc then Some s
         else l2_send_link d r m rx_portid (unat (vl_port_id link)) lcore_id link_id s)
      })
   }"

definition er_router_if :: "dpdk \<Rightarrow> mbuf \<Rightarrow> router_if \<Rightarrow> dp_state \<Rightarrow> dp_state option" where
  "er_router_if d m rif s =
     (case rif_ring_up rif of
        None \<Rightarrow> Some s
      | Some ring \<Rightarrow>
          if rif_sockfd rif < 0 then Some s
          else
            (case pktmbuf_copy d m s of
               (None, s) \<Rightarrow> Some s
             | (Some c, s) \<Rightarrow> do {
                 c \<leftarrow> router_if_tag d (rif_vlan_id rif) c;
                 Some (snd (send_ring d c ring s))
               }))"

definition er_applications :: "dpdk \<Rightarrow> rib_info \<Rightarrow> mbuf \<Rightarrow> dp_state \<Rightarrow> dp_state option" where
  "er_applications d r m s =
     each (\<lambda>i s. do {
         app \<leftarrow> arr (application_slot r) i;
         Some (case as_ring app of
                 None \<Rightarrow> s
               | Some ring \<Rightarrow> if is_packet_match app (take (data_len m) (m_data m)) then snd (send_ring d m ring s) else s)
       }) [0..<application_slot_size r] s"

definition er_process_rx_packet :: "dpdk \<Rightarrow> nat \<Rightarrow> rib_info \<Rightarrow> nat \<Rightarrow> mbuf \<Rightarrow> dp_state \<Rightarrow> dp_state option" where
  "er_process_rx_packet d lcore_id r rx_portid m s = do {
     found \<leftarrow> rx_vswitch r rx_portid m;
     (case found of
        None \<Rightarrow> Some s
      | Some (rx_link, vs) \<Rightarrow> do {
          s \<leftarrow> each (er_flood_link d lcore_id r m rx_portid rx_link vs) [0..<vs_port_size vs] s;
          s \<leftarrow> er_router_if d m (vs_router_if vs) s;
          er_applications d r m (send_capture_if d m (vs_capture_if vs) s)
        })
   }"

definition enhanced_repeater_iteration ::
  "dpdk \<Rightarrow> nat \<Rightarrow> bool \<Rightarrow> rib_info option option \<Rightarrow> (nat \<Rightarrow> nat \<Rightarrow> mbuf list) \<Rightarrow> (ring_name \<Rightarrow> mbuf option list) \<Rightarrow> dp_state \<Rightarrow> dp_state option"
where
  "enhanced_repeater_iteration d lcore_id flush rib rx_burst dequeue s = do {
     s \<leftarrow> thread_rx_burst (er_process_rx_packet d lcore_id) lcore_id rib rx_burst (if flush then l2_tx_flush d lcore_id s else s);
     thread_tx_burst (l2_tx_packet d lcore_id) rib dequeue s
   }"

section \<open>What the enhanced repeater sends\<close>

lemma l2_send_link_eq:
  "l2_send_link d r m rx_portid p q l s = (if rx_portid = p then Some s else send_link d r m None p q l s)"
  by (simp add: l2_send_link_def send_link_def)

definition er_target :: "dpdk \<Rightarrow> nat \<Rightarrow> rib_info \<Rightarrow> nat \<Rightarrow> nat \<Rightarrow> nat \<Rightarrow> bool" where
  "er_target d lcore_id r rx_portid rx_link l \<longleftrightarrow>
     l \<noteq> rx_link \<and> link_port r l \<noteq> rx_portid \<and> \<not> pc_is_stopped (port r ! link_port r l) \<and> link_open d lcore_id r None (link_port r l) l"

definition capture_copies :: "dpdk \<Rightarrow> mbuf \<Rightarrow> capture_if \<Rightarrow> dp_event list" where
  "capture_copies d m cif =
     (case cif_ring_up cif of
        Some ring \<Rightarrow> if 0 \<le> cif_sockfd cif then [Ring ring (rte_pktmbuf_copy d m)] else []
      | None \<Rightarrow> [])"

definition app_copies :: "dpdk \<Rightarrow> rib_info \<Rightarrow> mbuf \<Rightarrow> dp_event list" where
  "app_copies d r m =
     concat (map (\<lambda>app. case as_ring app of
                     None \<Rightarrow> []
                   | Some ring \<Rightarrow> if is_packet_match app (take (data_len m) (m_data m)) then [Ring ring (rte_pktmbuf_copy d m)] else [])
       (take (application_slot_size r) (application_slot r)))"

lemma er_flood_ok:
  assumes d: "dpdk_ok d" and m: "64 \<le> length (m_data m)" and vs: "vs_consistent r vs"
  shows "\<exists>s'. each (er_flood_link d lcore_id r m rx_portid rx_link vs) [0..<vs_port_size vs] s = Some s'
    \<and> (dp_fine s \<longrightarrow> dp_fine s' \<and> dp_events s' = dp_events s
         @ map (\<lambda>l. link_copy d lcore_id r m (link_port r l) l) (filter (er_target d lcore_id r rx_portid rx_link) (map unat (vs_members vs))))"
proof (rule each_member_events [OF vs])
  fix i s
  assume i: "i < vs_port_size vs"
  let ?l = "unat (vs_members vs ! i)"
  note a = vs_link_at_ok [OF vs i]
  have p: "arr (port r) (link_port r ?l) = Some (port r ! link_port r ?l)" "unat (vl_port_id (vswitch_link r ! ?l)) = link_port r ?l"
    using a(3) by (simp_all add: arr_def link_port_def)
  show "\<exists>s'. er_flood_link d lcore_id r m rx_portid rx_link vs i s = Some s'
    \<and> (dp_fine s \<longrightarrow> dp_fine s' \<and> dp_events s' = dp_events s
         @ (if er_target d lcore_id r rx_portid rx_link ?l then [link_copy d lcore_id r m (link_port r ?l) ?l] else []))"
    using send_link_ok [OF d m a(2,3), of None lcore_id s]
    by (auto simp: er_flood_link_def a(1) p l2_send_link_eq er_target_def)
qed

lemma er_router_if_ok:
  assumes d: "dpdk_ok d" and m: "64 \<le> length (m_data m)"
  shows "\<exists>s'. er_router_if d m rif s = Some s'
    \<and> (dp_fine s \<longrightarrow> dp_fine s' \<and> dp_events s' = dp_events s @ (if 0 \<le> rif_sockfd rif then router_if_copies d m rif else []))"
proof (cases "0 \<le> rif_sockfd rif \<and> rif_ring_up rif \<noteq> None")
  case True
  then obtain ring where y: "rif_ring_up rif = Some ring" "\<not> rif_sockfd rif < 0" by auto
  then have "er_router_if d m rif s = send_router_if_ring d m rif s" by (simp add: er_router_if_def send_router_if_ring_def split: prod.splits option.splits)
  with send_router_if_ring_ok [OF d m, of rif s] True show ?thesis by simp
next
  case False
  then show ?thesis by (auto simp: er_router_if_def router_if_copies_def split: option.splits)
qed

lemma send_capture_ok:
  "dp_fine s \<Longrightarrow> dp_fine (send_capture_if d m cif s) \<and> dp_events (send_capture_if d m cif s) = dp_events s @ capture_copies d m cif"
  by (simp add: send_capture_if_def capture_copies_def send_ring_snd split: option.splits)

lemma er_applications_ok:
  assumes "application_slot_size r \<le> length (application_slot r)"
  shows "\<exists>s'. er_applications d r m s = Some s' \<and> (dp_fine s \<longrightarrow> dp_fine s' \<and> dp_events s' = dp_events s @ app_copies d r m)"
proof -
  let ?e = "\<lambda>app. case as_ring app of
                     None \<Rightarrow> []
                   | Some ring \<Rightarrow> if is_packet_match app (take (data_len m) (m_data m)) then [Ring ring (rte_pktmbuf_copy d m)] else []"
  have "take (application_slot_size r) (application_slot r) = map ((!) (application_slot r)) [0..<application_slot_size r]"
    by (rule nth_equalityI) (use assms in auto)
  then have c: "app_copies d r m = concat (map (\<lambda>i. ?e (application_slot r ! i)) [0..<application_slot_size r])"
    by (simp add: app_copies_def comp_def)
  show ?thesis
    unfolding c er_applications_def
    by (rule each_events) (use assms in \<open>auto simp: arr_def send_ring_snd split: option.splits\<close>)
qed

text \<open>
  C16: The enhanced repeater.  A packet received on a link of a switch is sent once over every
  other link of the switch that is on another port, as far as that port exists, is up and not
  stopped, with the tag of the link; then the router interface gets a copy with its own tag, the
  capture interface an unchanged one, and every application whose filter matches one in its ring.
  Nothing else is sent, and the thread never crashes.
\<close>

theorem enhanced_repeater_exact:
  assumes d: "dpdk_ok d" and m: "64 \<le> length (m_data m)" and r: "dp_ready r" "application_slot_size r \<le> length (application_slot r)"
    and p: "rx_portid < MAX_ETH_PORTS"
  shows "\<exists>s'. er_process_rx_packet d lcore_id r rx_portid m s = Some s'
    \<and> (dp_fine s \<longrightarrow> dp_events s' = dp_events s @
        (case rx_vswitch r rx_portid m of
           Some (Some (rx_link, vs)) \<Rightarrow>
             map (\<lambda>l. link_copy d lcore_id r m (link_port r l) l) (filter (er_target d lcore_id r rx_portid rx_link) (map unat (vs_members vs)))
             @ (if 0 \<le> rif_sockfd (vs_router_if vs) then router_if_copies d m (vs_router_if vs) else [])
             @ capture_copies d m (vs_capture_if vs) @ app_copies d r m
         | _ \<Rightarrow> []))"
proof -
  obtain lo where lo: "rx_vswitch r rx_portid m = Some lo" "\<And>l vs. lo = Some (l, vs) \<Longrightarrow> vs_consistent r vs"
    using rx_vswitch_ok [OF r(1) p] by blast
  show ?thesis
  proof (cases lo)
    case None
    then show ?thesis using lo(1) by (simp add: er_process_rx_packet_def)
  next
    case (Some lv)
    obtain l vs where lv: "lv = (l, vs)" by fastforce
    have vs: "vs_consistent r vs" using lo(2) Some lv by simp
    obtain s1 where 1: "each (er_flood_link d lcore_id r m rx_portid l vs) [0..<vs_port_size vs] s = Some s1"
      "dp_fine s \<longrightarrow> dp_fine s1 \<and> dp_events s1 = dp_events s
         @ map (\<lambda>l. link_copy d lcore_id r m (link_port r l) l) (filter (er_target d lcore_id r rx_portid l) (map unat (vs_members vs)))"
      using er_flood_ok [OF d m vs] by blast
    obtain s2 where 2: "er_router_if d m (vs_router_if vs) s1 = Some s2"
      "dp_fine s1 \<longrightarrow> dp_fine s2 \<and> dp_events s2 = dp_events s1 @ (if 0 \<le> rif_sockfd (vs_router_if vs) then router_if_copies d m (vs_router_if vs) else [])"
      using er_router_if_ok [OF d m] by blast
    obtain s3 where 3: "er_applications d r m (send_capture_if d m (vs_capture_if vs) s2) = Some s3"
      "dp_fine s2 \<longrightarrow> dp_events s3 = dp_events s2 @ capture_copies d m (vs_capture_if vs) @ app_copies d r m"
      using er_applications_ok [OF r(2), of d m "send_capture_if d m (vs_capture_if vs) s2"] send_capture_ok [of s2 d m "vs_capture_if vs"] by auto
    have "er_process_rx_packet d lcore_id r rx_portid m s = Some s3"
      using lo(1) Some lv 1(1) 2(1) 3(1) by (simp add: er_process_rx_packet_def)
    then show ?thesis using lo(1) Some lv 1(2) 2(2) 3(2) by auto
  qed
qed

theorem enhanced_repeater_exact_witness:
  "\<exists>s'. er_process_rx_packet sample_dpdk 0 sample_l3_rib 0 sample_frame dp_start = Some s'
     \<and> dp_events s' = [link_copy sample_dpdk 0 sample_l3_rib sample_frame 1 1]"
proof -
  have t: "ether_type sample_frame \<noteq> RTE_ETHER_TYPE_VLAN" "64 \<le> length (m_data sample_frame)"
    by (simp_all add: ether_type_def get16_def get8_def bytes_at_def sample_frame_def RTE_ETHER_TYPE_VLAN_def)
  have v: "vs_vswitch_id sample_l3_vs = 0" "cif_ring_up (vs_capture_if sample_l3_vs) = None" "rif_sockfd (vs_router_if sample_l3_vs) = -1"
    by (simp_all add: sample_l3_vs_def sample_vs_def zero_vswitch_def zero_capture_if_def)
  have p: "port sample_l3_rib = replicate 8 (zero_port\<lparr>pc_link_status := True\<rparr>)"
    "vswitch_link_size sample_l3_rib = 2" "vswitch_link sample_l3_rib ! 0 = sample_link 0 0 0" "length (vswitch_link sample_l3_rib) = 32"
    "vswitch_size sample_l3_rib = 1" "vswitch sample_l3_rib ! 0 = sample_l3_vs" "length (vswitch sample_l3_rib) = 4"
    "application_slot_size sample_l3_rib = 0"
    by (simp_all add: sample_l3_rib_def sample_dp_rib_def zero_rib_info_def)
  have rx: "rx_vswitch sample_l3_rib 0 sample_frame = Some (Some (0, sample_l3_vs))"
    using t p v(1) by (simp add: rx_vswitch_def rx_vswitch_link_def arr_def Let_def zero_port_def MAX_VSWITCH_def vswitch_by_id_def
        vswitch_at_def sample_link_def zero_vswitch_link_def)
  have lp: "link_port sample_l3_rib (Suc 0) = 1" "link_port sample_l3_rib 0 = 0"
    by (simp_all add: link_port_def sample_l3_same sample_dp_rib_def sample_link_def zero_vswitch_link_def)
  have f: "filter (er_target sample_dpdk 0 sample_l3_rib 0 0) (map unat (vs_members sample_l3_vs)) = [1]"
    using sample_l3_vs_consistent(2) p(1) lp by (simp add: er_target_def link_open_def zero_port_def) (simp add: sample_dpdk_def)
  have a: "app_copies sample_dpdk sample_l3_rib sample_frame = []" by (simp add: app_copies_def p)
  show ?thesis
    using enhanced_repeater_exact [OF sample_dpdk_ok t(2) sample_l3_ready, of 0 0 dp_start] rx f v lp a p(8)
    by (simp add: MAX_ETH_PORTS_def dp_fine_def dp_start_def capture_copies_def)
qed

section \<open>Finding the switch\<close>

text \<open>
  The layer-2 switch crashes on a link whose switch is gone.  If the link a packet came in
  by names a switch id that no slot has (a port that still points to the link of a deleted
  switch whose slot was taken by another id), \<^verbatim>\<open>l2_switch_select\<close> follows a null pointer, while
  the router, the segment routing router and the enhanced repeater drop the packet.
\<close>

theorem l2_switch_crashes_on_unknown_switch:
  assumes r: "dp_ready r" and p: "rx_portid < MAX_ETH_PORTS"
    and l: "rx_vswitch_link r rx_portid m = Some (Some l)"
    and none: "\<forall>i < vswitch_size r. vs_vswitch_id (vswitch r ! i) \<noteq> vl_vswitch_id (vswitch_link r ! l)"
  shows "l2_switch_select d lcore_id r rx_portid m s = None
    \<and> router_process_rx_packet d lcore_id r rx_portid m s = Some s \<and> er_process_rx_packet d lcore_id r rx_portid m s = Some s"
proof -
  have b: "l < length (vswitch_link r)" "\<not> MAX_VSWITCH < vswitch_size r" using rx_vswitch_link_ok [OF r p, of m] l r by (auto simp: dp_ready_def)
  have "find (\<lambda>vs. vs_vswitch_id vs = vl_vswitch_id (vswitch_link r ! l)) (take (vswitch_size r) (vswitch r)) = None"
    using none by (auto simp: find_None_iff in_set_conv_nth)
  then have v: "vswitch_by_id r (vl_vswitch_id (vswitch_link r ! l)) = Some None"
    using vswitch_scan [OF r, of "\<lambda>vs. vs_vswitch_id vs = vl_vswitch_id (vswitch_link r ! l)"] by (simp add: vswitch_by_id_def)
  show ?thesis
    using l b v by (simp add: l2_switch_select_def router_process_rx_packet_def er_process_rx_packet_def rx_vswitch_def arr_def)
qed

text \<open>The example RIB with its switch renumbered to 7 while link 0 still names switch 0.\<close>

definition sample_stale_rib :: rib_info where
  "sample_stale_rib = sample_l3_rib\<lparr>vswitch := sample_l3_vs\<lparr>vs_vswitch_id := 7\<rparr> # replicate 3 zero_vswitch\<rparr>"

theorem l2_switch_crashes_on_unknown_switch_witness:
  "l2_switch_select sample_dpdk 0 sample_stale_rib 0 sample_frame dp_start = None"
proof -
  have same: "port sample_stale_rib = port sample_l3_rib" "vswitch_link sample_stale_rib = vswitch_link sample_l3_rib"
    "vswitch_link_size sample_stale_rib = 2" "vswitch_size sample_stale_rib = 1" "fib_tree_of sample_stale_rib = fib_tree_of sample_l3_rib"
    by (simp_all add: sample_stale_rib_def sample_l3_rib_def sample_dp_rib_def)
  have c: "vs_consistent sample_stale_rib (sample_l3_vs\<lparr>vs_vswitch_id := 7\<rparr>)"
    using sample_l3_vs_consistent(1) by (simp add: vs_consistent_def vs_members_def link_port_def same)
  have s: "vswitch sample_stale_rib ! 0 = sample_l3_vs\<lparr>vs_vswitch_id := 7\<rparr>" "length (vswitch sample_stale_rib) = 4"
    by (simp_all add: sample_stale_rib_def)
  have r: "dp_ready sample_stale_rib"
    using sample_l3_ready c s unfolding dp_ready_def by (simp add: same MAX_VSWITCH_def MAX_VSWITCH_LINK_def)
  have t: "ether_type sample_frame \<noteq> RTE_ETHER_TYPE_VLAN"
    by (simp add: ether_type_def get16_def get8_def bytes_at_def sample_frame_def RTE_ETHER_TYPE_VLAN_def)
  have pt: "port sample_l3_rib = replicate 8 (zero_port\<lparr>pc_link_status := True\<rparr>)" "vswitch_link sample_l3_rib ! 0 = sample_link 0 0 0"
    by (simp_all add: sample_l3_rib_def sample_dp_rib_def)
  have l: "rx_vswitch_link sample_stale_rib 0 sample_frame = Some (Some 0)"
    using t pt by (simp add: rx_vswitch_link_def arr_def same Let_def zero_port_def)
  have n: "\<forall>i < vswitch_size sample_stale_rib. vs_vswitch_id (vswitch sample_stale_rib ! i) \<noteq> vl_vswitch_id (vswitch_link sample_stale_rib ! 0)"
    using s pt by (simp add: same sample_link_def zero_vswitch_link_def)
  show ?thesis using l2_switch_crashes_on_unknown_switch [OF r _ l n] by (simp add: MAX_ETH_PORTS_def)
qed

text \<open>
  \<^verbatim>\<open>vlan_switch.c\<close> takes the switch at the array index that equals its id, so a packet for a switch
  whose id is not below the number of switches is dropped, whatever its ports are.
\<close>

lemma vlan_switch_drops_large_ids:
  assumes "rx_vswitch_link r rx_portid m = Some (Some l)" "l < length (vswitch_link r)"
    and "vswitch_size r \<le> unat (vl_vswitch_id (vswitch_link r ! l))"
  shows "vlan_switch_select d lcore_id r rx_portid m s = Some s"
  using assms by (simp add: vlan_switch_select_def arr_def)

end
