(* ===== verification/Queue.thy ===== *)
theory Queue
  imports Interfaces
begin

text \<open>
  The growing ring buffer of \<^verbatim>\<open>lib/sdplane/queue.c\<close>.  A \<^verbatim>\<open>void *\<close> is an optional value
  (\<open>None\<close> is \<^verbatim>\<open>NULL\<close>).  The code does not test the result of \<^verbatim>\<open>malloc\<close> and
  \<^verbatim>\<open>realloc\<close>: where it would follow a null pointer the result is \<open>None\<close>.  The upper half of
  a reallocated array is not initialised; its contents are the parameter \<open>junk\<close>.
  The indices are natural numbers: \<^verbatim>\<open>int\<close> would overflow only beyond 2 ^ 30 elements.
\<close>

section \<open>Data\<close>

definition QUEUE_INIT_SIZE :: nat where "QUEUE_INIT_SIZE = 2"

record 'a queue =
  q_array :: "'a option list"
  array_size :: nat
  q_start :: nat
  q_end :: nat

section \<open>Operations\<close>

definition queue_create :: "mallocs \<Rightarrow> 'a queue option \<times> mallocs" where
  "queue_create ms =
     (case malloc_ok ms of
        (False, ms) \<Rightarrow> (None, ms)
      | (True, ms) \<Rightarrow>
          (case malloc_ok ms of
             (False, ms) \<Rightarrow> (None, ms)
           | (True, ms) \<Rightarrow> (Some \<lparr>q_array = replicate QUEUE_INIT_SIZE None, array_size = QUEUE_INIT_SIZE,
                              q_start = 0, q_end = 0\<rparr>, ms)))"

definition queue_size :: "'a queue \<Rightarrow> nat" where
  "queue_size q =
     (if q_end q < q_start q then array_size q - q_start q + q_end q else q_end q - q_start q)"

text \<open>\<^verbatim>\<open>memcpy\<close> of the first \<open>n\<close> elements of an array to the position \<open>i\<close> of the same array.\<close>

definition copy_front :: "nat \<Rightarrow> nat \<Rightarrow> 'x list \<Rightarrow> 'x list" where
  "copy_front i n xs = take i xs @ take n xs @ drop (i + n) xs"

definition queue_expand :: "(nat \<Rightarrow> 'a option) \<Rightarrow> 'a queue \<Rightarrow> mallocs \<Rightarrow> 'a queue option \<times> mallocs" where
  "queue_expand junk q ms =
     (case malloc_ok ms of
        (False, ms) \<Rightarrow> (None, ms)
      | (True, ms) \<Rightarrow>
          (let n = array_size q;
               q = q\<lparr>q_array := q_array q @ map junk [n..<n * 2]\<rparr>;
               q = (if q_end q < q_start q
                    then q\<lparr>q_array := copy_front n (q_end q) (q_array q), q_end := n + q_end q\<rparr>
                    else q)
           in (Some (q\<lparr>array_size := n * 2\<rparr>), ms)))"

definition queue_put :: "'a option \<Rightarrow> 'a queue \<Rightarrow> 'a queue" where
  "queue_put data q =
     (let q = q\<lparr>q_array := (q_array q)[q_end q := data], q_end := q_end q + 1\<rparr>
      in if q_end q = array_size q then q\<lparr>q_end := 0\<rparr> else q)"

definition queue_enqueue ::
    "(nat \<Rightarrow> 'a option) \<Rightarrow> 'a queue \<Rightarrow> 'a option \<Rightarrow> mallocs \<Rightarrow> 'a queue option \<times> mallocs" where
  "queue_enqueue junk q data ms =
     (case (if queue_size q = array_size q - 1 then queue_expand junk q ms else (Some q, ms)) of
        (None, ms) \<Rightarrow> (None, ms)
      | (Some q, ms) \<Rightarrow> (Some (queue_put data q), ms))"

definition queue_dequeue :: "'a queue \<Rightarrow> 'a queue \<times> 'a option" where
  "queue_dequeue q =
     (if queue_size q = 0 then (q, None)
      else (let data = q_array q ! q_start q;
                q = q\<lparr>q_start := q_start q + 1\<rparr>
            in (if q_start q = array_size q then q\<lparr>q_start := 0\<rparr> else q, data)))"

section \<open>Contents\<close>

text \<open>The cell at distance \<open>i\<close> from the start, and the cells in use.\<close>

definition cell :: "'a queue \<Rightarrow> nat \<Rightarrow> 'a option" where
  "cell q i = q_array q ! (if q_start q + i < array_size q then q_start q + i else q_start q + i - array_size q)"

definition queue_cells :: "'a queue \<Rightarrow> 'a option list" where
  "queue_cells q = map (cell q) [0..<queue_size q]"

definition queue_contents :: "'a queue \<Rightarrow> 'a list" where
  "queue_contents q = map the (queue_cells q)"

definition queue_ok :: "'a queue \<Rightarrow> bool" where
  "queue_ok q \<longleftrightarrow> length (q_array q) = array_size q \<and> 2 \<le> array_size q
     \<and> q_start q < array_size q \<and> q_end q < array_size q \<and> None \<notin> set (queue_cells q)"

lemma length_queue_cells [simp]: "length (queue_cells q) = queue_size q"
  by (simp add: queue_cells_def)

lemma queue_size_less: "queue_ok q \<Longrightarrow> queue_size q < array_size q"
  by (auto simp: queue_ok_def queue_size_def)

lemma queue_cells_nth: "i < queue_size q \<Longrightarrow> queue_cells q ! i = cell q i"
  by (simp add: queue_cells_def)

lemma queue_create_ok:
  assumes "never_fails ms"
  shows "\<exists>q ms'. queue_create ms = (Some q, ms') \<and> never_fails ms' \<and> queue_ok q \<and> queue_contents q = []"
proof -
  obtain ms1 where 1: "malloc_ok ms = (True, ms1)" "never_fails ms1" using malloc_never_fails [OF assms] by blast
  obtain ms2 where 2: "malloc_ok ms1 = (True, ms2)" "never_fails ms2" using malloc_never_fails [OF 1(2)] by blast
  show ?thesis
    by (simp add: queue_create_def 1 2 queue_ok_def queue_cells_def queue_size_def queue_contents_def QUEUE_INIT_SIZE_def)
qed

lemma queue_expand_ok:
  assumes "queue_ok q" "never_fails ms"
  shows "\<exists>q' ms'. queue_expand junk q ms = (Some q', ms') \<and> never_fails ms' \<and> queue_ok q'
           \<and> queue_cells q' = queue_cells q \<and> array_size q' = 2 * array_size q"
proof -
  obtain ms' where ms: "malloc_ok ms = (True, ms')" "never_fails ms'" using malloc_never_fails [OF assms(2)] by blast
  let ?n = "array_size q"
  let ?a = "q_array q @ map junk [?n..<?n * 2]"
  define q' where "q' = (if q_end q < q_start q
      then q\<lparr>q_array := copy_front ?n (q_end q) ?a, q_end := ?n + q_end q, array_size := ?n * 2\<rparr>
      else q\<lparr>q_array := ?a, array_size := ?n * 2\<rparr>)"
  have e: "queue_expand junk q ms = (Some q', ms')" by (simp add: queue_expand_def ms Let_def q'_def)
  have ok: "length (q_array q) = ?n" "2 \<le> ?n" "q_start q < ?n" "q_end q < ?n" using assms(1) by (auto simp: queue_ok_def)
  have sz: "queue_size q' = queue_size q" using ok by (auto simp: queue_size_def q'_def)
  have "cell q' i = cell q i" if "i < queue_size q" for i
    using that ok by (auto simp: cell_def q'_def queue_size_def copy_front_def nth_append split: if_splits)
  then have c: "queue_cells q' = queue_cells q" by (simp add: queue_cells_def sz)
  have "queue_ok q'" unfolding queue_ok_def c using assms(1) ok by (auto simp: q'_def queue_ok_def copy_front_def)
  then show ?thesis using e ms(2) c by (auto simp: q'_def)
qed

lemma queue_put_ok:
  assumes "queue_ok q" "queue_size q < array_size q - 1"
  shows "queue_ok (queue_put (Some x) q) \<and> queue_cells (queue_put (Some x) q) = queue_cells q @ [Some x]"
proof -
  let ?q = "queue_put (Some x) q"
  have ok: "length (q_array q) = array_size q" "2 \<le> array_size q" "q_start q < array_size q" "q_end q < array_size q"
    using assms(1) by (auto simp: queue_ok_def)
  have sz: "queue_size ?q = Suc (queue_size q)" using assms(2) ok by (auto simp: queue_size_def queue_put_def Let_def)
  have new: "cell ?q (queue_size q) = Some x" using assms(2) ok by (auto simp: cell_def queue_put_def Let_def queue_size_def)
  have old: "cell ?q i = cell q i" if "i < queue_size q" for i
    using that ok by (auto simp: cell_def queue_put_def Let_def queue_size_def nth_list_update split: if_splits)
  have c: "queue_cells ?q = queue_cells q @ [Some x]" by (simp add: queue_cells_def sz old new)
  show ?thesis unfolding queue_ok_def c using assms(1) ok by (auto simp: queue_ok_def queue_put_def Let_def)
qed

lemma queue_enqueue_ok:
  assumes "queue_ok q" "never_fails ms"
  shows "\<exists>q' ms'. queue_enqueue junk q (Some x) ms = (Some q', ms') \<and> never_fails ms' \<and> queue_ok q'
           \<and> queue_contents q' = queue_contents q @ [x]"
proof (cases "queue_size q = array_size q - 1")
  case True
  obtain q1 ms' where 1: "queue_expand junk q ms = (Some q1, ms')" "never_fails ms'" "queue_ok q1" "queue_cells q1 = queue_cells q"
    "array_size q1 = 2 * array_size q" using queue_expand_ok [OF assms] by blast
  have "queue_size q1 = queue_size q" using 1(4) length_queue_cells by metis
  then have "queue_size q1 < array_size q1 - 1" using True 1(5) assms(1) by (auto simp: queue_ok_def)
  from queue_put_ok [OF 1(3) this] 1 True show ?thesis by (auto simp: queue_enqueue_def queue_contents_def)
next
  case False
  then have "queue_size q < array_size q - 1" using queue_size_less [OF assms(1)] by auto
  from queue_put_ok [OF assms(1) this] False assms(2) show ?thesis by (auto simp: queue_enqueue_def queue_contents_def)
qed

lemma queue_dequeue_empty: "queue_ok q \<Longrightarrow> queue_contents q = [] \<Longrightarrow> queue_dequeue q = (q, None)"
  by (simp add: queue_contents_def queue_cells_def queue_dequeue_def)

lemma queue_dequeue_ok:
  assumes "queue_ok q" "queue_contents q = x # xs"
  shows "\<exists>q'. queue_dequeue q = (q', Some x) \<and> queue_ok q' \<and> queue_contents q' = xs"
proof -
  have ok: "length (q_array q) = array_size q" "2 \<le> array_size q" "q_start q < array_size q" "q_end q < array_size q"
    using assms(1) by (auto simp: queue_ok_def)
  have pos: "0 < queue_size q" using assms(2) by (cases "queue_size q") (auto simp: queue_contents_def queue_cells_def)
  define q' where "q' = (if q_start q + 1 = array_size q then q\<lparr>q_start := 0\<rparr> else q\<lparr>q_start := q_start q + 1\<rparr>)"
  have d: "queue_dequeue q = (q', q_array q ! q_start q)" using pos by (simp add: queue_dequeue_def q'_def Let_def)
  have sz: "queue_size q = Suc (queue_size q')" using pos ok by (auto simp: q'_def queue_size_def split: if_splits)
  have "cell q' i = cell q (Suc i)" if "i < queue_size q'" for i
  proof -
    have "Suc (q_start q) = array_size q \<Longrightarrow> Suc (q_start q + i) - array_size q = i" by simp
    with that ok show ?thesis by (auto simp: cell_def q'_def queue_size_def)
  qed
  then have "queue_cells q = q_array q ! q_start q # queue_cells q'"
    using ok by (simp add: queue_cells_def sz upt_conv_Cons map_Suc_upt [symmetric] cell_def del: upt_Suc map_Suc_upt) 
  then show ?thesis using assms d ok by (auto simp: queue_contents_def queue_ok_def q'_def)
qed

section \<open>First in, first out\<close>

text \<open>The queue with the outcomes of the coming allocations.\<close>

definition queue_enq :: "(nat \<Rightarrow> 'a option) \<Rightarrow> 'a queue \<times> mallocs \<Rightarrow> 'a \<Rightarrow> 'a queue \<times> mallocs" where
  "queue_enq junk s x =
     (case queue_enqueue junk (fst s) (Some x) (snd s) of (None, ms) \<Rightarrow> (fst s, ms) | (Some q, ms) \<Rightarrow> (q, ms))"

definition queue_deq :: "'a queue \<times> mallocs \<Rightarrow> ('a queue \<times> mallocs) \<times> 'a option" where
  "queue_deq s = (case queue_dequeue (fst s) of (q, x) \<Rightarrow> ((q, snd s), x))"

interpretation fifo: fifo_queue "queue_enq junk" queue_deq "\<lambda>s. queue_contents (fst s)" "\<lambda>s. queue_ok (fst s) \<and> never_fails (snd s)"
  for junk
proof
  fix q :: "'a queue \<times> mallocs" and x
  assume "queue_ok (fst q) \<and> never_fails (snd q)"
  with queue_enqueue_ok [of "fst q" "snd q" junk x]
  show "(queue_ok (fst (queue_enq junk q x)) \<and> never_fails (snd (queue_enq junk q x)))
        \<and> queue_contents (fst (queue_enq junk q x)) = queue_contents (fst q) @ [x]"
    by (auto simp: queue_enq_def)
next
  fix q q' :: "'a queue \<times> mallocs" and xo
  assume a: "queue_ok (fst q) \<and> never_fails (snd q)" "queue_deq q = (q', xo)"
  show "(queue_ok (fst q') \<and> never_fails (snd q'))
        \<and> queue_contents (fst q) = (case xo of None \<Rightarrow> [] | Some x \<Rightarrow> x # queue_contents (fst q'))
        \<and> (xo = None \<longrightarrow> queue_contents (fst q') = [])"
  proof (cases "queue_contents (fst q)")
    case Nil
    with a queue_dequeue_empty [of "fst q"] show ?thesis by (auto simp: queue_deq_def)
  next
    case (Cons x xs)
    with a queue_dequeue_ok [of "fst q" x xs] show ?thesis by (auto simp: queue_deq_def)
  qed
qed

fun queue_drain :: "nat \<Rightarrow> 'a queue \<Rightarrow> 'a list" where
  "queue_drain 0 q = []"
| "queue_drain (Suc n) q = (case queue_dequeue q of (q', None) \<Rightarrow> [] | (q', Some x) \<Rightarrow> x # queue_drain n q')"

lemma queue_drain_eq: "fifo.drain n s = queue_drain n (fst s)"
  by (induction n arbitrary: s) (auto simp: queue_deq_def split: prod.splits option.splits)



end
