(* ===== verification/Netlink.thy ===== *)
theory Netlink
  imports Net_Subr
begin

text \<open>
  The netlink thread of \<^verbatim>\<open>sdplane/netlink_thread.c\<close>: it turns the messages of the kernel about
  routes, next hops, neighbors, links and addresses into internal messages for the RIB manager and
  the neighbor manager; and the hooks of \<^verbatim>\<open>netlink_hook.c\<close> that new addresses can trigger.

  A received datagram is the memory from the start of the buffer on; a pointer into it is an
  offset.  Integers are little-endian.  The layout of the messages and the macros that walk
  through them (\<^verbatim>\<open>NLMSG_OK\<close>, \<^verbatim>\<open>RTA_NEXT\<close> and others) are those of the Linux headers; the highest
  attribute numbers, which grow from release to release, are parameters.  Logging is left out,
  except that it follows pointers.
\<close>

section \<open>Reading the buffer\<close>

definition rd16 :: "key \<Rightarrow> nat \<Rightarrow> nat" where
  "rd16 b i = unat (b i) + 256 * unat (b (i + 1))"

definition rd32 :: "key \<Rightarrow> nat \<Rightarrow> nat" where
  "rd32 b i = rd16 b i + 65536 * rd16 b (i + 2)"

definition s32 :: "nat \<Rightarrow> int" where
  "s32 n = (if n < 2 ^ 31 then int n else int n - 2 ^ 32)"

definition rdn :: "key \<Rightarrow> nat \<Rightarrow> nat \<Rightarrow> u8 list" where
  "rdn b i n = map (\<lambda>k. b (i + k)) [0..<n]"

definition nl_align :: "nat \<Rightarrow> nat" where
  "nl_align n = (n + 3) div 4 * 4"

record nl_env =
  RTA_MAX :: nat
  NDA_MAX :: nat
  NHA_MAX :: nat
  IFLA_MAX :: nat
  IFA_MAX :: nat
  SEG6_LOCAL_MAX :: nat
  if_indextoname :: "u32 \<Rightarrow> string option"
  inet_ntop :: "int \<Rightarrow> u8 list \<Rightarrow> string"
  stack_str :: string

section \<open>Attributes\<close>

text \<open>
  \<^verbatim>\<open>rta->rta_len\<close>, \<^verbatim>\<open>rta->rta_type\<close>, \<^verbatim>\<open>RTA_DATA\<close> and \<^verbatim>\<open>RTA_PAYLOAD\<close>.  The array \<open>rtas\<close> has a fixed
  number of elements, which may be smaller than \<open>maxi\<close>; \<open>None\<close> is a write behind its end.
\<close>

definition rta_len :: "key \<Rightarrow> nat \<Rightarrow> nat" where "rta_len b rta = rd16 b rta"
definition rta_type :: "key \<Rightarrow> nat \<Rightarrow> nat" where "rta_type b rta = rd16 b (rta + 2)"
definition rta_data :: "nat \<Rightarrow> nat" where "rta_data rta = rta + 4"
definition rta_payload :: "key \<Rightarrow> nat \<Rightarrow> nat" where "rta_payload b rta = rta_len b rta - 4"

definition RTA_OK :: "key \<Rightarrow> nat \<Rightarrow> int \<Rightarrow> bool" where
  "RTA_OK b rta len \<longleftrightarrow> 4 \<le> len \<and> 4 \<le> rta_len b rta \<and> int (rta_len b rta) \<le> len"

function netlink_get_rtattr :: "nat option list \<Rightarrow> nat \<Rightarrow> key \<Rightarrow> nat \<Rightarrow> int \<Rightarrow> nat \<Rightarrow> (nat option list \<times> nat) option" where
  "netlink_get_rtattr rtas maxi b rta len counter =
     (if RTA_OK b rta len then
        (let next_rta = rta + nl_align (rta_len b rta); next_len = len - int (nl_align (rta_len b rta))
         in if rta_type b rta \<le> maxi then
              (if rta_type b rta < length rtas
               then netlink_get_rtattr (rtas[rta_type b rta := Some rta]) maxi b next_rta next_len (counter + 1)
               else None)
            else netlink_get_rtattr rtas maxi b next_rta next_len counter)
      else Some (rtas, counter))"
  by pat_completeness auto
termination by (relation "measure (\<lambda>(rtas, maxi, b, rta, len, counter). nat len)") (auto simp: RTA_OK_def nl_align_def)

declare netlink_get_rtattr.simps [simp del]

definition get_attrs :: "nat \<Rightarrow> nat \<Rightarrow> key \<Rightarrow> nat \<Rightarrow> int \<Rightarrow> nat option list option" where
  "get_attrs sz maxi b head len = map_option fst (netlink_get_rtattr (replicate sz None) maxi b head len 0)"

definition att :: "nat option list \<Rightarrow> nat \<Rightarrow> nat option" where
  "att rtas i = (if i < length rtas then rtas ! i else None)"

text \<open>
  \<^verbatim>\<open>memcpy (&x, RTA_DATA (rta), RTA_PAYLOAD (rta))\<close> into a field of \<open>length old\<close> bytes, which may
  not be exceeded.
\<close>

definition copy_attr :: "key \<Rightarrow> nat \<Rightarrow> u8 list \<Rightarrow> u8 list option" where
  "copy_attr b rta old =
     (if length old < rta_payload b rta then None
      else Some (rdn b (rta_data rta) (rta_payload b rta) @ drop (rta_payload b rta) old))"

section \<open>Sending\<close>

definition send_rib :: "dpdk \<Rightarrow> rib_msg \<Rightarrow> dp_state \<Rightarrow> (int \<times> dp_state) option" where
  "send_rib d msg s =
     (case internal_msg_create (Rib_Msg msg) s of
        (None, s) \<Rightarrow> Some (-1, s)
      | (Some msgp, s) \<Rightarrow>
          if \<not> msg_queue_rib d then Some (-1, s)
          else do { (ret, s) \<leftarrow> internal_msg_send_to True (Some msgp) s; Some (0, s) })"

section \<open>Header, error and neighbor messages\<close>

definition nlmsg_len :: "key \<Rightarrow> nat \<Rightarrow> nat" where "nlmsg_len b h = rd32 b h"
definition nlmsg_type :: "key \<Rightarrow> nat \<Rightarrow> nat" where "nlmsg_type b h = rd16 b (h + 4)"
definition nlmsg_flags :: "key \<Rightarrow> nat \<Rightarrow> nat" where "nlmsg_flags b h = rd16 b (h + 6)"
definition nlmsg_data :: "nat \<Rightarrow> nat" where "nlmsg_data h = h + 16"

definition NLMSG_ERROR :: nat where "NLMSG_ERROR = 2"
definition NLMSG_DONE :: nat where "NLMSG_DONE = 3"
definition RTM_NEWLINK :: nat where "RTM_NEWLINK = 16"
definition RTM_DELLINK :: nat where "RTM_DELLINK = 17"
definition RTM_NEWADDR :: nat where "RTM_NEWADDR = 20"
definition RTM_DELADDR :: nat where "RTM_DELADDR = 21"
definition RTM_NEWROUTE :: nat where "RTM_NEWROUTE = 24"
definition RTM_DELROUTE :: nat where "RTM_DELROUTE = 25"
definition RTM_NEWNEIGH :: nat where "RTM_NEWNEIGH = 28"
definition RTM_DELNEIGH :: nat where "RTM_DELNEIGH = 29"
definition RTM_NEWNEXTHOP :: nat where "RTM_NEWNEXTHOP = 104"
definition RTM_DELNEXTHOP :: nat where "RTM_DELNEXTHOP = 105"

lemmas nl_types = NLMSG_ERROR_def NLMSG_DONE_def RTM_NEWLINK_def RTM_DELLINK_def RTM_NEWADDR_def RTM_DELADDR_def RTM_NEWROUTE_def
  RTM_DELROUTE_def RTM_NEWNEIGH_def RTM_DELNEIGH_def RTM_NEWNEXTHOP_def RTM_DELNEXTHOP_def

definition AF_INET6 :: int where "AF_INET6 = 10"

definition if_name :: "nl_env \<Rightarrow> nat \<Rightarrow> string \<Rightarrow> string" where
  "if_name env i old = (case if_indextoname env (of_nat i) of None \<Rightarrow> old | Some name \<Rightarrow> name)"

text \<open>The error code is at the start of the data; \<^verbatim>\<open>NLM_F_MULTI\<close> is bit 1 of the flags.\<close>

definition netlink_read_nlmsg_error :: "key \<Rightarrow> nat \<Rightarrow> int" where
  "netlink_read_nlmsg_error b h =
     (if nlmsg_len b h < 36 then -1
      else if s32 (rd32 b (nlmsg_data h)) = 0 then (if odd (nlmsg_flags b h div 2) then 0 else -1)
      else -1)"

text \<open>
  The array has \<^verbatim>\<open>NDA_MAX + 1\<close> elements but is filled up to \<^verbatim>\<open>RTA_MAX\<close>; the internal message is not
  cleared first.
\<close>

definition NDA_DST :: nat where "NDA_DST = 1"
definition NDA_LLADDR :: nat where "NDA_LLADDR = 2"

definition neigh_data :: "dpdk \<Rightarrow> key \<Rightarrow> nat \<Rightarrow> nat \<Rightarrow> nat \<Rightarrow> u8 list \<Rightarrow> neigh_entry" where
  "neigh_data d b ndm dst iplen mac =
     \<lparr>ne_family = int (unat (b ndm)), ne_ip_addr = rdn b (rta_data dst) iplen @ replicate (16 - iplen) (stack_u8 d), ne_mac_addr = mac,
      ne_state = b (ndm + 8), ne_ifindex = s32 (rd32 b (ndm + 4))\<rparr>"

definition netlink_read_nlmsg_neigh :: "nl_env \<Rightarrow> dpdk \<Rightarrow> key \<Rightarrow> nat \<Rightarrow> dp_state \<Rightarrow> (int \<times> dp_state) option" where
  "netlink_read_nlmsg_neigh env d b h s =
     (if nlmsg_len b h < 36 then Some (-1, s)
      else
        (let ndm = nlmsg_data h
         in do {
           rtns \<leftarrow> get_attrs (NDA_MAX env + 1) (RTA_MAX env) b (ndm + 12) (int (nlmsg_len b h) - 28);
           (case att rtns NDA_DST of
              None \<Rightarrow> Some (-1, s)
            | Some dst \<Rightarrow>
                (let family = int (unat (b ndm)); type = (if family = AF_INET then NEIGH_ARP_TABLE else NEIGH_ND_TABLE);
                     entry = (\<lambda>mac. \<lparr>mne_type = type, mne_pos = stack_int d, mne_num_entries = stack_nat d,
                                mne_data = neigh_data d b ndm dst (if family = AF_INET then 4 else 16) mac\<rparr>)
                 in if family \<noteq> AF_INET \<and> family \<noteq> AF_INET6 then Some (-1, s)
                    else
                      (case (if nlmsg_type b h = RTM_NEWNEIGH
                             then map_option (\<lambda>ll. NEIGH_ENTRY_ADD (entry (rdn b (rta_data ll) 6))) (att rtns NDA_LLADDR)
                             else Some (NEIGH_ENTRY_DEL (entry (replicate 6 (stack_u8 d))))) of
                         None \<Rightarrow> Some (-1, s)
                       | Some msg \<Rightarrow>
                           (case internal_msg_create (Neigh_Msg msg) s of (msgp, s) \<Rightarrow>
                              do { (ret, s) \<leftarrow> internal_msg_send_to (msg_queue_neigh d) msgp s; Some (0, s) }))))
         }))"


section \<open>SRv6 encapsulation\<close>

text \<open>
  The attributes are parsed for the log only.  A log line is collected in a buffer of 1024 bytes by
  calls of \<^verbatim>\<open>snprintf (str + pos, sizeof (str) - pos, ...)\<close>: once \<open>pos\<close> has passed the end, the size
  is a huge number and the next call writes behind the buffer (\<open>None\<close>).
\<close>

definition sn_append :: "string \<Rightarrow> string \<Rightarrow> string option" where
  "sn_append str s = (if 1024 < length str then None else Some (str @ s))"

fun log_segments :: "nl_env \<Rightarrow> key \<Rightarrow> nat \<Rightarrow> nat \<Rightarrow> string \<Rightarrow> string option" where
  "log_segments env b srh i str =
     do {
       str \<leftarrow> sn_append str (inet_ntop env AF_INET6 (rdn b (srh + 8 + 16 * i) 16));
       (if i = 0 then Some str
        else do {
          str \<leftarrow> sn_append str '','';
          log_segments env b srh (i - 1) str
        })
     }"

declare log_segments.simps [simp del]

definition first_segment :: "key \<Rightarrow> nat \<Rightarrow> nat" where
  "first_segment b srh = unat (b (srh + 4))"

definition seg6_mode_str :: "int \<Rightarrow> string" where
  "seg6_mode_str mode =
     (if mode = 0 then ''H.Insert'' else if mode = 1 then ''H.Encaps'' else if mode = 2 then ''H.Encaps.L2''
      else if mode = 3 then ''H.Encaps.Red'' else if mode = 4 then ''H.Encaps.L2.Red'' else ''Unknown'')"

definition netlink_log_seg6 :: "nl_env \<Rightarrow> key \<Rightarrow> nat \<Rightarrow> string option" where
  "netlink_log_seg6 env b tuninfo =
     (let mode = s32 (rd32 b tuninfo); srh = tuninfo + 4
      in do {
        str \<leftarrow> sn_append [] ''seg6'';
        str \<leftarrow> (if 0 \<le> mode then sn_append str ('' mode '' @ seg6_mode_str mode) else Some str);
        str \<leftarrow> sn_append str '' segs '';
        log_segments env b srh (first_segment b srh) str
      })"

definition SEG6_IPTUNNEL_SRH :: nat where "SEG6_IPTUNNEL_SRH = 1"

text \<open>The result is the pointer \<^verbatim>\<open>seg6_tuninfo\<close>, which stays \<^verbatim>\<open>NULL\<close> without the attribute.\<close>

definition netlink_parse_seg6 :: "key \<Rightarrow> nat \<Rightarrow> nat option option" where
  "netlink_parse_seg6 b rta =
     do {
       rtas \<leftarrow> get_attrs 2 1 b (rta_data rta) (int (rta_payload b rta));
       Some (map_option rta_data (att rtas SEG6_IPTUNNEL_SRH))
     }"

record seg6local_param =
  sl_action :: nat
  sl_table_id :: nat
  sl_vrf_id :: nat
  sl_nh4 :: "u8 list"
  sl_nh6 :: "u8 list"
  sl_iif :: nat
  sl_oif :: nat
  sl_srh :: "nat option"

definition attr_u32 :: "key \<Rightarrow> nat option \<Rightarrow> nat" where
  "attr_u32 b r = (case r of None \<Rightarrow> 0 | Some rta \<Rightarrow> rd32 b (rta_data rta))"

definition attr_bytes :: "key \<Rightarrow> nat option \<Rightarrow> nat \<Rightarrow> u8 list option" where
  "attr_bytes b r n = (case r of None \<Rightarrow> Some (replicate n 0) | Some rta \<Rightarrow> copy_attr b rta (replicate n 0))"

definition netlink_parse_seg6local :: "nl_env \<Rightarrow> key \<Rightarrow> nat \<Rightarrow> seg6local_param option" where
  "netlink_parse_seg6local env b rta =
     do {
       rtas \<leftarrow> get_attrs (SEG6_LOCAL_MAX env + 1) (SEG6_LOCAL_MAX env) b (rta_data rta) (int (rta_payload b rta));
       nh4 \<leftarrow> attr_bytes b (att rtas 4) 4;
       nh6 \<leftarrow> attr_bytes b (att rtas 5) 16;
       Some \<lparr>sl_action = attr_u32 b (att rtas 1), sl_table_id = attr_u32 b (att rtas 3), sl_vrf_id = attr_u32 b (att rtas 9),
             sl_nh4 = nh4, sl_nh6 = nh6, sl_iif = attr_u32 b (att rtas 6), sl_oif = attr_u32 b (att rtas 7),
             sl_srh = map_option rta_data (att rtas 2)\<rparr>
     }"

definition seg6local_action_str :: "nat \<Rightarrow> string" where
  "seg6local_action_str action =
     (let names = [''Unspec'', ''End'', ''End.X'', ''End.T'', ''End.DX2'', ''End.DX6'', ''End.DX4'', ''End.DT6'', ''End.DT4'', ''End.B6'',
                   ''End.B6.Encaps'', ''End.BM'', ''End.S'', ''End.AS'', ''End.AM'', ''End.BPF'', ''End.DT46'']
      in if action < length names then names ! action else ''Unknown'')"

fun decimal :: "nat \<Rightarrow> string" where
  "decimal n = (if n < 10 then [char_of (48 + n)] else decimal (n div 10) @ [char_of (48 + n mod 10)])"

declare decimal.simps [simp del]

definition fmt_d :: "nat \<Rightarrow> string" where
  "fmt_d n = (if s32 n < 0 then CHR ''-'' # decimal (nat (- s32 n)) else decimal n)"

definition sn_if :: "bool \<Rightarrow> string \<Rightarrow> string \<Rightarrow> string option" where
  "sn_if c s str = (if c then sn_append str s else Some str)"

definition netlink_log_seg6local :: "nl_env \<Rightarrow> key \<Rightarrow> seg6local_param \<Rightarrow> string option" where
  "netlink_log_seg6local env b p =
     do {
       str \<leftarrow> sn_append [] ''seg6local'';
       str \<leftarrow> sn_if (sl_action p \<noteq> 0) ('' action '' @ seg6local_action_str (sl_action p)) str;
       str \<leftarrow> sn_if (sl_table_id p \<noteq> 0) ('' table '' @ fmt_d (sl_table_id p)) str;
       str \<leftarrow> sn_if (sl_vrf_id p \<noteq> 0) ('' vrftable '' @ fmt_d (sl_vrf_id p)) str;
       str \<leftarrow> sn_if (sl_nh4 p \<noteq> replicate 4 0) ('' nh4 '' @ inet_ntop env AF_INET (sl_nh4 p)) str;
       str \<leftarrow> sn_if (sl_nh6 p \<noteq> replicate 16 0) ('' nh6 '' @ inet_ntop env AF_INET6 (sl_nh6 p)) str;
       str \<leftarrow> sn_if (sl_iif p \<noteq> 0) ('' iif '' @ if_name env (sl_iif p) (stack_str env)) str;
       str \<leftarrow> sn_if (sl_oif p \<noteq> 0) ('' oif '' @ if_name env (sl_oif p) (stack_str env)) str;
       (case sl_srh p of
          None \<Rightarrow> Some str
        | Some srh \<Rightarrow> do {
            str \<leftarrow> sn_append str '' srh segs '';
            log_segments env b srh (first_segment b srh) str
          })
     }"

section \<open>Route messages\<close>

definition RTA_DST :: nat where "RTA_DST = 1"
definition RTA_OIF :: nat where "RTA_OIF = 4"
definition RTA_GATEWAY :: nat where "RTA_GATEWAY = 5"
definition RTA_MULTIPATH :: nat where "RTA_MULTIPATH = 9"
definition RTA_ENCAP_TYPE :: nat where "RTA_ENCAP_TYPE = 21"
definition RTA_ENCAP :: nat where "RTA_ENCAP = 22"
definition RTA_NH_ID :: nat where "RTA_NH_ID = 30"

lemmas rta_types = RTA_DST_def RTA_OIF_def RTA_GATEWAY_def RTA_MULTIPATH_def RTA_ENCAP_TYPE_def RTA_ENCAP_def RTA_NH_ID_def

definition zero_nh_member :: internal_msg_nh_member where
  "zero_nh_member = \<lparr>mm_kernel_nh_id = 0, mm_info = zero_info, mm_weight = 0\<rparr>"

definition zero_nh_entry :: internal_msg_nh_entry where
  "zero_nh_entry = \<lparr>msg_kernel_nh_id = 0, msg_nhcnt = 0, msg_members = replicate MAX_ECMP_ENTRY zero_nh_member\<rparr>"

text \<open>
  A next hop of \<^verbatim>\<open>RTA_MULTIPATH\<close> is a \<^verbatim>\<open>struct rtnexthop\<close> of 8 bytes and its attributes.  The loop
  compares the length of each with that of the whole attribute: \<^verbatim>\<open>rtnh_len\<close> is never decremented.
\<close>

definition rtnh_len :: "key \<Rightarrow> nat \<Rightarrow> nat" where "rtnh_len b rtnh = rd16 b rtnh"
definition rtnh_ifindex :: "key \<Rightarrow> nat \<Rightarrow> nat" where "rtnh_ifindex b rtnh = rd32 b (rtnh + 4)"

definition RTNH_OK :: "key \<Rightarrow> nat \<Rightarrow> int \<Rightarrow> bool" where
  "RTNH_OK b rtnh len \<longleftrightarrow> 8 \<le> rtnh_len b rtnh \<and> int (rtnh_len b rtnh) \<le> len"

definition set_gateway :: "key \<Rightarrow> nat option \<Rightarrow> nh_info \<Rightarrow> nh_info option" where
  "set_gateway b gateway info =
     (case gateway of
        Some rta \<Rightarrow> map_option (\<lambda>a. info\<lparr>gw := a, nhi_type := NEXTHOP_TYPE_GATEWAY\<rparr>) (copy_attr b rta (gw info))
      | None \<Rightarrow> Some (info\<lparr>gw := replicate 16 0, nhi_type := NEXTHOP_TYPE_CONNECTED\<rparr>))"

definition read_rtnexthop :: "nl_env \<Rightarrow> int \<Rightarrow> key \<Rightarrow> nat \<Rightarrow> internal_msg_nh_member \<Rightarrow> internal_msg_nh_member option" where
  "read_rtnexthop env family b rtnh member =
     (let info = (mm_info member)\<lparr>nhi_family := family, oif := of_nat (rtnh_ifindex b rtnh),
                   oif_name := if_name env (rtnh_ifindex b rtnh) (oif_name (mm_info member))\<rparr>
      in map_option (\<lambda>info. member\<lparr>mm_info := info, mm_kernel_nh_id := 0\<rparr>)
           (if 8 < rtnh_len b rtnh
            then Option.bind (get_attrs (RTA_MAX env + 1) (RTA_MAX env) b (rtnh + 8) (int (rtnh_len b rtnh) - 8))
                   (\<lambda>rtas. set_gateway b (att rtas RTA_GATEWAY) info)
            else Some info))"

function read_rtnexthops :: "nl_env \<Rightarrow> int \<Rightarrow> key \<Rightarrow> nat \<Rightarrow> int \<Rightarrow> internal_msg_nh_entry \<Rightarrow> internal_msg_nh_entry option" where
  "read_rtnexthops env family b rtnh len nh =
     (if RTNH_OK b rtnh len \<and> msg_nhcnt nh < int MAX_ECMP_ENTRY then
        do {
          member \<leftarrow> read_rtnexthop env family b rtnh (msg_members nh ! nat (msg_nhcnt nh));
          read_rtnexthops env family b (rtnh + nl_align (rtnh_len b rtnh)) len
            (nh\<lparr>msg_members := (msg_members nh)[nat (msg_nhcnt nh) := member], msg_nhcnt := msg_nhcnt nh + 1\<rparr>)
        }
      else Some nh)"
  by pat_completeness auto
termination by (relation "measure (\<lambda>(env, family, b, rtnh, len, nh). nat (int MAX_ECMP_ENTRY - msg_nhcnt nh))") auto

declare read_rtnexthops.simps [simp del]

definition route_multipath :: "nl_env \<Rightarrow> int \<Rightarrow> key \<Rightarrow> nat option list \<Rightarrow> internal_msg_nh_entry \<Rightarrow> internal_msg_nh_entry option" where
  "route_multipath env family b rtns nh =
     (case att rtns RTA_MULTIPATH of
        None \<Rightarrow> Some nh
      | Some rta \<Rightarrow> read_rtnexthops env family b (rta_data rta) (int (rta_payload b rta)) nh)"

definition route_single :: "nl_env \<Rightarrow> int \<Rightarrow> key \<Rightarrow> nat option list \<Rightarrow> internal_msg_nh_entry \<Rightarrow> internal_msg_nh_entry option" where
  "route_single env family b rtns nh =
     (if att rtns RTA_GATEWAY = None \<and> att rtns RTA_OIF = None then Some nh
      else
        (let member = hd (msg_members nh); ifindex = attr_u32 b (att rtns RTA_OIF)
         in map_option
              (\<lambda>info. nh\<lparr>msg_nhcnt := 1,
                 msg_members := (msg_members nh)[0 := member\<lparr>mm_kernel_nh_id := 0,
                   mm_info := info\<lparr>oif := of_nat ifindex, oif_name := if_name env ifindex (oif_name info)\<rparr>\<rparr>]\<rparr>)
              (set_gateway b (att rtns RTA_GATEWAY) ((mm_info member)\<lparr>nhi_family := family\<rparr>))))"

text \<open>Without \<^verbatim>\<open>RTA_ENCAP_TYPE\<close>, or without a segment routing header, a null pointer is followed.\<close>

definition route_encap :: "nl_env \<Rightarrow> key \<Rightarrow> nat option list \<Rightarrow> unit option" where
  "route_encap env b rtns =
     (case att rtns RTA_ENCAP of
        None \<Rightarrow> Some ()
      | Some rta \<Rightarrow> do {
          t \<leftarrow> att rtns RTA_ENCAP_TYPE;
          (if rd16 b (rta_data t) = 5 then do {
             tuninfo \<leftarrow> netlink_parse_seg6 b rta;
             p \<leftarrow> tuninfo;
             map_option (\<lambda>_. ()) (netlink_log_seg6 env b p)
           }
           else if rd16 b (rta_data t) = 7 then do {
             param \<leftarrow> netlink_parse_seg6local env b rta;
             map_option (\<lambda>_. ()) (netlink_log_seg6local env b param)
           }
           else Some ())
        })"

definition parse_route :: "nl_env \<Rightarrow> key \<Rightarrow> nat \<Rightarrow> nat option list \<Rightarrow> internal_msg_route_entry option" where
  "parse_route env b rtm rtns =
     (let family = int (unat (b rtm))
      in do {
        dst \<leftarrow> attr_bytes b (att rtns RTA_DST) 16;
        nh \<leftarrow> route_multipath env family b rtns zero_nh_entry;
        nh \<leftarrow> route_single env family b rtns nh;
        (let nh_id = att rtns RTA_NH_ID; nh = (if nh_id = None then nh else nh\<lparr>msg_kernel_nh_id := s32 (attr_u32 b nh_id)\<rparr>)
         in do {
           ok \<leftarrow> route_encap env b rtns;
           Some \<lparr>mre_family = family, mre_table_id = int (unat (b (rtm + 4))),
                 mre_dst = \<lparr>rdi_family = family, dst_ip_addr = dst, plen = unat (b (rtm + 1))\<rparr>, mre_is_nhid = (nh_id \<noteq> None), mre_nh = nh\<rparr>
         })
      })"

definition RT_TABLE_MAIN :: nat where "RT_TABLE_MAIN = 254"

definition netlink_read_nlmsg_route :: "nl_env \<Rightarrow> dpdk \<Rightarrow> key \<Rightarrow> nat \<Rightarrow> dp_state \<Rightarrow> (int \<times> dp_state) option" where
  "netlink_read_nlmsg_route env d b h s =
     (if nlmsg_len b h < 28 then Some (-1, s)
      else
        (let rtm = nlmsg_data h
         in do {
           rtns \<leftarrow> get_attrs (RTA_MAX env + 1) (RTA_MAX env) b (rtm + 12) (int (nlmsg_len b h) - 28);
           (if unat (b (rtm + 4)) \<noteq> RT_TABLE_MAIN then Some (-1, s)
            else if att rtns RTA_DST = None \<and> b (rtm + 1) \<noteq> 0 then Some (-1, s)
            else do {
              msg \<leftarrow> parse_route env b rtm rtns;
              (if nlmsg_type b h = RTM_NEWROUTE then send_rib d (MSG_ROUTE_ENTRY_ADD msg) s
               else if nlmsg_type b h = RTM_DELROUTE then send_rib d (MSG_ROUTE_ENTRY_DEL msg) s
               else Some (-1, s))
            })
         }))"

section \<open>Next hop messages\<close>

definition NHA_ID :: nat where "NHA_ID = 1"
definition NHA_GROUP :: nat where "NHA_GROUP = 2"
definition NHA_OIF :: nat where "NHA_OIF = 5"
definition NHA_GATEWAY :: nat where "NHA_GATEWAY = 6"

text \<open>A \<^verbatim>\<open>struct nexthop_grp\<close> has 8 bytes: the id (4 bytes) and the weight less one (1 byte).\<close>

definition group_member :: "key \<Rightarrow> nat \<Rightarrow> nat \<Rightarrow> internal_msg_nh_member" where
  "group_member b grp i =
     zero_nh_member\<lparr>mm_kernel_nh_id := s32 (rd32 b (grp + 8 * i)), mm_weight := of_nat (unat (b (grp + 8 * i + 4)) + 1)\<rparr>"

definition nh_group_msg :: "key \<Rightarrow> nat \<Rightarrow> internal_msg_nh_entry \<Rightarrow> internal_msg_nh_entry option" where
  "nh_group_msg b rta nh =
     (let grp_count = rta_payload b rta div 8
      in if MAX_ECMP_ENTRY < grp_count then None
         else Some (nh\<lparr>msg_nhcnt := int grp_count,
                       msg_members := map (group_member b (rta_data rta)) [0..<grp_count] @ drop grp_count (msg_members nh)\<rparr>))"

definition nh_object_msg :: "nl_env \<Rightarrow> int \<Rightarrow> key \<Rightarrow> nat option list \<Rightarrow> internal_msg_nh_entry \<Rightarrow> internal_msg_nh_entry" where
  "nh_object_msg env family b rtas nh =
     (let info = zero_info\<lparr>nhi_family := family\<rparr>;
          info = (case att rtas NHA_OIF of
                    None \<Rightarrow> info
                  | Some rta \<Rightarrow> info\<lparr>oif := of_nat (rd32 b (rta_data rta)), oif_name := if_name env (rd32 b (rta_data rta)) []\<rparr>);
          info = (case att rtas NHA_GATEWAY of
                    None \<Rightarrow> info
                  | Some rta \<Rightarrow>
                      if family = AF_INET then info\<lparr>gw := rdn b (rta_data rta) 4 @ replicate 12 0, nhi_type := NEXTHOP_TYPE_GATEWAY\<rparr>
                      else if family = AF_INET6 then info\<lparr>gw := rdn b (rta_data rta) 16, nhi_type := NEXTHOP_TYPE_GATEWAY\<rparr>
                      else info)
      in nh\<lparr>msg_nhcnt := 1, msg_members := (msg_members nh)[0 := zero_nh_member\<lparr>mm_info := info\<rparr>]\<rparr>)"

text \<open>Here \<open>None\<close> of \<^const>\<open>nh_group_msg\<close> is the early return for too many members.\<close>

definition netlink_read_nlmsg_nexthop :: "nl_env \<Rightarrow> dpdk \<Rightarrow> key \<Rightarrow> nat \<Rightarrow> dp_state \<Rightarrow> (int \<times> dp_state) option" where
  "netlink_read_nlmsg_nexthop env d b h s =
     (if nlmsg_len b h < 24 then Some (-1, s)
      else
        (let nhm = nlmsg_data h
         in do {
           rtas \<leftarrow> get_attrs (NHA_MAX env + 1) (NHA_MAX env) b (nhm + 8) (int (nlmsg_len b h) - 24);
           (let nh = zero_nh_entry\<lparr>msg_kernel_nh_id := s32 (attr_u32 b (att rtas NHA_ID))\<rparr>
            in case (case att rtas NHA_GROUP of
                       Some rta \<Rightarrow> nh_group_msg b rta nh
                     | None \<Rightarrow> Some (nh_object_msg env (int (unat (b nhm))) b rtas nh)) of
                 None \<Rightarrow> Some (-1, s)
               | Some nh \<Rightarrow>
                   if nlmsg_type b h = RTM_NEWNEXTHOP then send_rib d (MSG_NEXTHOP_ENTRY_ADD nh) s
                   else if nlmsg_type b h = RTM_DELNEXTHOP then send_rib d (MSG_NEXTHOP_ENTRY_DEL nh) s
                   else Some (-1, s))
         }))"

section \<open>Link messages\<close>

definition netlink_read_nlmsg_link :: "nl_env \<Rightarrow> dpdk \<Rightarrow> key \<Rightarrow> nat \<Rightarrow> dp_state \<Rightarrow> (int \<times> dp_state) option" where
  "netlink_read_nlmsg_link env d b h s =
     (if nlmsg_len b h < 32 then Some (-1, s)
      else
        (let ifi = nlmsg_data h; ifname = if_name env (rd32 b (ifi + 4)) []
         in do {
           rtas \<leftarrow> get_attrs (IFLA_MAX env + 1) (IFLA_MAX env) b (ifi + 16) (int (nlmsg_len b h) - 32);
           (case att rtas 1 of
              None \<Rightarrow> Some (-1, s)
            | Some rta \<Rightarrow>
                if nlmsg_type b h = RTM_NEWLINK then send_rib d (MSG_MAC_ADDR_ADD ifname (rdn b (rta_data rta) 6)) s
                else if nlmsg_type b h = RTM_DELLINK then send_rib d (MSG_MAC_ADDR_DEL ifname (rdn b (rta_data rta) 6)) s
                else Some (-1, s))
         }))"

section \<open>Hooks (\<^verbatim>\<open>netlink_hook.c\<close>)\<close>

definition NLHOOK_SIZE :: nat where "NLHOOK_SIZE = 4"

record nlhook_entry =
  nlh_sched :: u8
  nlh_flag :: u16
  nlh_nlmsg_type :: nat
  nlh_family :: int
  nlh_prefix_len :: nat
  nlh_ifindex :: int
  nlh_ifname :: "string option"
  nlh_argv_list_index :: int

definition zero_nlhook :: nlhook_entry where
  "zero_nlhook = \<lparr>nlh_sched = 0, nlh_flag = 0, nlh_nlmsg_type = 0, nlh_family = 0, nlh_prefix_len = 0, nlh_ifindex = 0,
     nlh_ifname = None, nlh_argv_list_index = 0\<rparr>"

text \<open>\<open>match\<close> and \<open>unmatch\<close> count the criteria an entry sets (first component) that hold or not (second).\<close>

fun tally :: "(bool \<times> bool) list \<Rightarrow> nat \<times> nat" where
  "tally [] = (0, 0)"
| "tally ((present, equal) # cs) =
     (case tally cs of (match, unmatch) \<Rightarrow>
        if present then (if equal then (match + 1, unmatch) else (match, unmatch + 1)) else (match, unmatch))"

definition nlhook_criteria :: "nlhook_entry \<Rightarrow> nat \<Rightarrow> int \<Rightarrow> string \<Rightarrow> int \<Rightarrow> nat \<Rightarrow> (bool \<times> bool) list" where
  "nlhook_criteria e type ifindex ifname family prefix_len =
     [(nlh_nlmsg_type e \<noteq> 0, nlh_nlmsg_type e = type), (nlh_ifindex e \<noteq> 0, nlh_ifindex e = ifindex),
      (nlh_ifname e \<noteq> None, nlh_ifname e = Some ifname), (nlh_family e \<noteq> 0, nlh_family e = family),
      (nlh_prefix_len e \<noteq> 0, nlh_prefix_len e = prefix_len)]"

definition nlhook_check_ifaddr :: "nat \<Rightarrow> int \<Rightarrow> string \<Rightarrow> int \<Rightarrow> nat \<Rightarrow> nlhook_entry list \<Rightarrow> nlhook_entry list" where
  "nlhook_check_ifaddr type ifindex ifname family prefix_len =
     map (\<lambda>e. case tally (nlhook_criteria e type ifindex ifname family prefix_len) of (match, unmatch) \<Rightarrow>
            if unmatch = 0 \<and> match \<noteq> 0 then e\<lparr>nlh_sched := nlh_sched e + 1\<rparr> else e)"

text \<open>
  Executing the hooks, as the parent process sees it: the outcomes of \<^verbatim>\<open>fork\<close>, and the argument
  lists that the children run.
\<close>

primrec netlink_hook_exec :: "nlhook_entry list \<Rightarrow> mallocs \<Rightarrow> nlhook_entry list \<times> mallocs \<times> int list" where
  "netlink_hook_exec [] forks = ([], forks, [])"
| "netlink_hook_exec (e # es) forks =
     (if nlh_sched e \<noteq> 0 then
        (case malloc_ok forks of (ok, forks) \<Rightarrow>
           case netlink_hook_exec es forks of (es, forks, runs) \<Rightarrow>
             (e\<lparr>nlh_sched := 0\<rparr> # es, forks, if ok then nlh_argv_list_index e # runs else runs))
      else case netlink_hook_exec es forks of (es, forks, runs) \<Rightarrow> (e # es, forks, runs))"

definition nlhook_ifaddr_ifname :: "nat \<Rightarrow> string \<Rightarrow> string \<Rightarrow> string \<Rightarrow> int \<Rightarrow> nlhook_entry list \<Rightarrow> nlhook_entry list" where
  "nlhook_ifaddr_ifname index af action ifname argv_list_index es =
     es[index := zero_nlhook\<lparr>nlh_nlmsg_type := (if action = ''new'' then RTM_NEWADDR else RTM_DELADDR),
       nlh_family := (if af = ''ipv4'' then AF_INET else if af = ''ipv6'' then AF_INET6 else 0),
       nlh_ifname := Some ifname, nlh_argv_list_index := argv_list_index\<rparr>]"

section \<open>Address messages\<close>

text \<open>The state of the netlink thread; the buffer keeps what earlier datagrams left behind.\<close>

record nl_state =
  nlhook_entries :: "nlhook_entry list"
  nl_dp :: dp_state
  nl_buf :: key
  msg_count :: u32

definition addr_msg :: "nl_env \<Rightarrow> key \<Rightarrow> nat \<Rightarrow> nat \<Rightarrow> internal_msg_ip_addr option" where
  "addr_msg env b ifa rta =
     (let family = int (unat (b ifa)); ifname = if_name env (rd32 b (ifa + 4)) []
      in if family = AF_INET
         then Some \<lparr>mip_ifname = ifname, mip_family = family, mip_is_ll_addr = False, mip_addr = rdn b (rta_data rta) 4 @ replicate 12 0\<rparr>
         else if family = AF_INET6
         then Some \<lparr>mip_ifname = ifname, mip_family = family, mip_is_ll_addr = (b (ifa + 3) = 253), mip_addr = rdn b (rta_data rta) 16\<rparr>
         else None)"

definition hook_addr :: "nl_env \<Rightarrow> key \<Rightarrow> nat \<Rightarrow> nl_state \<Rightarrow> nl_state" where
  "hook_addr env b h st =
     (let ifa = nlmsg_data h; family = int (unat (b ifa))
      in if family = AF_INET6 \<and> b (ifa + 3) = 253 then st
         else st\<lparr>nlhook_entries := nlhook_check_ifaddr (nlmsg_type b h) (s32 (rd32 b (ifa + 4))) (if_name env (rd32 b (ifa + 4)) [])
                   family (unat (b (ifa + 1))) (nlhook_entries st)\<rparr>)"

definition netlink_read_nlmsg_addr :: "nl_env \<Rightarrow> dpdk \<Rightarrow> key \<Rightarrow> nat \<Rightarrow> nl_state \<Rightarrow> (int \<times> nl_state) option" where
  "netlink_read_nlmsg_addr env d b h st =
     (if nlmsg_len b h < 24 then Some (-1, st)
      else
        (let ifa = nlmsg_data h
         in do {
           rtas \<leftarrow> get_attrs (IFA_MAX env + 1) (IFA_MAX env) b (ifa + 8) (int (nlmsg_len b h) - 24);
           (case Option.bind (att rtas 1) (addr_msg env b ifa) of
              None \<Rightarrow> Some (-1, st)
            | Some msg \<Rightarrow>
                if nlmsg_type b h \<noteq> RTM_NEWADDR \<and> nlmsg_type b h \<noteq> RTM_DELADDR then Some (-1, st)
                else do {
                  (ret, s) \<leftarrow> send_rib d (if nlmsg_type b h = RTM_NEWADDR then MSG_IP_ADDR_ADD msg else MSG_IP_ADDR_DEL msg) (nl_dp st);
                  Some (ret, if ret < 0 then st\<lparr>nl_dp := s\<rparr> else hook_addr env b h (st\<lparr>nl_dp := s\<rparr>))
                })
         }))"

section \<open>The messages of a datagram\<close>

definition on_dp :: "(dp_state \<Rightarrow> (int \<times> dp_state) option) \<Rightarrow> nl_state \<Rightarrow> nl_state option" where
  "on_dp f st = map_option (\<lambda>(ret, s). st\<lparr>nl_dp := s\<rparr>) (f (nl_dp st))"

definition read_nlmsg :: "nl_env \<Rightarrow> dpdk \<Rightarrow> key \<Rightarrow> nat \<Rightarrow> nl_state \<Rightarrow> nl_state option" where
  "read_nlmsg env d b h st =
     (let type = nlmsg_type b h
      in if type = RTM_NEWNEIGH \<or> type = RTM_DELNEIGH then on_dp (netlink_read_nlmsg_neigh env d b h) st
         else if type = RTM_NEWROUTE \<or> type = RTM_DELROUTE then on_dp (netlink_read_nlmsg_route env d b h) st
         else if type = RTM_NEWLINK \<or> type = RTM_DELLINK then on_dp (netlink_read_nlmsg_link env d b h) st
         else if type = RTM_NEWADDR \<or> type = RTM_DELADDR then map_option snd (netlink_read_nlmsg_addr env d b h st)
         else if type = RTM_NEWNEXTHOP \<or> type = RTM_DELNEXTHOP then on_dp (netlink_read_nlmsg_nexthop env d b h) st
         else Some st)"

definition NLMSG_OK :: "key \<Rightarrow> nat \<Rightarrow> int \<Rightarrow> bool" where
  "NLMSG_OK b h len \<longleftrightarrow> 16 \<le> len \<and> 16 \<le> nlmsg_len b h \<and> int (nlmsg_len b h) \<le> len"

function read_nlmsgs :: "nl_env \<Rightarrow> dpdk \<Rightarrow> key \<Rightarrow> nat \<Rightarrow> int \<Rightarrow> bool \<Rightarrow> nl_state \<Rightarrow> (bool \<times> nl_state) option" where
  "read_nlmsgs env d b h len fin st =
     (if NLMSG_OK b h len then
        do {
          st \<leftarrow> read_nlmsg env d b h st;
          read_nlmsgs env d b (h + nl_align (nlmsg_len b h)) (len - int (nl_align (nlmsg_len b h)))
            (fin \<or> nlmsg_type b h = NLMSG_DONE) st
        }
      else Some (fin, st))"
  by pat_completeness auto
termination by (relation "measure (\<lambda>(env, d, b, h, len, fin, st). nat len)") (auto simp: NLMSG_OK_def nl_align_def)

declare read_nlmsgs.simps [simp del]

section \<open>Reading a socket\<close>

text \<open>
  The results of \<^verbatim>\<open>recvmsg\<close>: an error that makes the loop go on, nothing to read, or a datagram with
  the port of its sender and the length of the sender's address.  Behind the last result the call
  does not return.
\<close>

datatype recv_result = Recv_Error | Recv_Again | Recv (nl_pid: nat) (msg_namelen: nat) (dgram: "u8 list")

datatype nl_end = Blocked | Returned int

definition fill :: "u8 list \<Rightarrow> key \<Rightarrow> key" where
  "fill xs b = (\<lambda>i. if i < length xs then xs ! i else b i)"

primrec netlink_read :: "nl_env \<Rightarrow> dpdk \<Rightarrow> recv_result list \<Rightarrow> bool \<Rightarrow> nl_state \<Rightarrow> (nl_end \<times> recv_result list \<times> nl_state) option" where
  "netlink_read env d [] fin st = Some (Blocked, [], st)"
| "netlink_read env d (r # rs) fin st =
     (case r of
        Recv_Error \<Rightarrow> netlink_read env d rs fin st
      | Recv_Again \<Rightarrow> Some (Returned 0, rs, st)
      | Recv pid namelen dg \<Rightarrow>
          (let xs = take 8192 dg; st = st\<lparr>nl_buf := fill xs (nl_buf st), msg_count := msg_count st + 1\<rparr>
           in if pid \<noteq> 0 then netlink_read env d rs fin st
              else if xs = [] then Some (Returned (-1), rs, st)
              else if namelen \<noteq> 12 then Some (Returned (-1), rs, st)
              else do {
                (fin, st) \<leftarrow> read_nlmsgs env d (nl_buf st) 0 (int (length xs)) fin st;
                (if fin then Some (Returned 0, rs, st) else netlink_read env d rs fin st)
              }))"

text \<open>
  A request, as it is written to a socket that is open: the flags are \<^verbatim>\<open>NLM_F_ROOT\<close>,
  \<^verbatim>\<open>NLM_F_MATCH\<close> and \<^verbatim>\<open>NLM_F_REQUEST\<close>, and the structure ends with three bytes of padding.
\<close>

definition le16 :: "nat \<Rightarrow> u8 list" where "le16 n = [of_nat n, of_nat (n div 256)]"
definition le32 :: "nat \<Rightarrow> u8 list" where "le32 n = le16 n @ le16 (n div 65536)"

record netlink_sock =
  sockfd :: int
  nl_seq :: u32

definition netlink_request :: "u8 \<Rightarrow> nat \<Rightarrow> u8 list \<Rightarrow> bool \<Rightarrow> netlink_sock option \<Rightarrow> int \<times> u8 list option \<times> netlink_sock option" where
  "netlink_request family type padding sent nlsock =
     (case nlsock of
        None \<Rightarrow> (-1, None, None)
      | Some sock \<Rightarrow>
          if sockfd sock < 0 then (-1, None, Some sock)
          else
            (let sock = sock\<lparr>nl_seq := nl_seq sock + 1\<rparr>;
                 req = le32 20 @ le16 type @ le16 769 @ le32 (unat (nl_seq sock)) @ le32 0 @ [family] @ padding
             in (if sent then 0 else -1, Some req, Some sock)))"

text \<open>
  One round of the main loop: the command socket, the kernel socket, the hooks.  Both sockets are
  non-blocking here: behind the last result there is nothing to read.
\<close>

definition netlink_round ::
  "nl_env \<Rightarrow> dpdk \<Rightarrow> recv_result list \<times> recv_result list \<times> mallocs \<times> nl_state
   \<Rightarrow> (recv_result list \<times> recv_result list \<times> mallocs \<times> int list \<times> nl_state) option"
where
  "netlink_round env d = (\<lambda>(cmd, kernel, forks, st).
     do {
       (end1, cmd, st) \<leftarrow> netlink_read env d cmd False st;
       (end2, kernel, st) \<leftarrow> netlink_read env d kernel False st;
       (case netlink_hook_exec (nlhook_entries st) forks of (es, forks, runs) \<Rightarrow>
          Some (cmd, kernel, forks, runs, st\<lparr>nlhook_entries := es\<rparr>))
     })"

end
