(* ===== verification/Netlink_Facts.thy ===== *)
theory Netlink_Facts
  imports Netlink
begin

text \<open>
  What the netlink thread does with the messages of the kernel: the framing of messages and
  attributes (locale \<open>framing\<close>, with both as instances), the attributes found, the routes that
  arrive, the validity of what is sent to the RIB manager, the hooks; and where the code reads or
  writes too far.
\<close>

section \<open>Framing\<close>

text \<open>
  Messages and attributes are framed alike: a header with the length of the record, records aligned
  to four bytes.  \<open>frames\<close> lists the offsets that the loops visit.
\<close>

definition holds :: "key \<Rightarrow> nat \<Rightarrow> u8 list \<Rightarrow> bool" where
  "holds b p xs \<longleftrightarrow> (\<forall>i<length xs. b (p + i) = xs ! i)"

lemma holds_append: "holds b p (xs @ ys) \<longleftrightarrow> holds b p xs \<and> holds b (p + length xs) ys"
proof -
  have "(\<forall>i<length xs + length ys. b (p + i) = (xs @ ys) ! i)
      \<longleftrightarrow> (\<forall>i<length xs. b (p + i) = xs ! i) \<and> (\<forall>i<length ys. b (p + length xs + i) = ys ! i)" (is "?l = (?r1 \<and> ?r2)")
  proof
    assume ?l
    then have "b (p + (length xs + i)) = ys ! i" if "i < length ys" for i using that by (metis add_less_cancel_left nth_append_length_plus)
    with \<open>?l\<close> show "?r1 \<and> ?r2" by (auto simp: nth_append add.assoc)
  next
    assume r: "?r1 \<and> ?r2"
    show ?l
    proof (intro allI impI)
      fix i assume "i < length xs + length ys"
      then show "b (p + i) = (xs @ ys) ! i" using r by (cases "i < length xs") (auto simp: nth_append dest: spec [of _ "i - length xs"])
    qed
  qed
  then show ?thesis by (simp add: holds_def)
qed

lemma holds_Nil [simp]: "holds b p []"
  by (simp add: holds_def)

lemma holds_rdn: "holds b p xs \<Longrightarrow> length xs = n \<Longrightarrow> rdn b p n = xs"
  by (auto simp: holds_def rdn_def intro: nth_equalityI)

lemma holds_self: "holds (bytes_at xs) 0 xs"
  by (simp add: holds_def bytes_at_def)

lemma nl_align_ge: "n \<le> nl_align n"
  by (simp add: nl_align_def)

function frames :: "(key \<Rightarrow> nat \<Rightarrow> nat) \<Rightarrow> nat \<Rightarrow> key \<Rightarrow> nat \<Rightarrow> int \<Rightarrow> nat list" where
  "frames lf hdr b p len =
     (if 0 < hdr \<and> int hdr \<le> len \<and> hdr \<le> lf b p \<and> int (lf b p) \<le> len
      then p # frames lf hdr b (p + nl_align (lf b p)) (len - int (nl_align (lf b p)))
      else [])"
  by pat_completeness auto
termination by (relation "measure (\<lambda>(lf, hdr, b, p, len). nat len)") (auto simp: nl_align_def)

declare frames.simps [simp del]

lemma frames_bounds:
  "q \<in> set (frames lf hdr b p len) \<Longrightarrow> p \<le> q \<and> hdr \<le> lf b q \<and> int (q + lf b q) \<le> int p + len"
proof (induction lf hdr b p len rule: frames.induct)
  case (1 lf hdr b p len)
  show ?case
  proof (cases "0 < hdr \<and> int hdr \<le> len \<and> hdr \<le> lf b p \<and> int (lf b p) \<le> len")
    case True
    with 1 show ?thesis by (subst (asm) (2) frames.simps) auto
  next
    case False
    with 1(2) show ?thesis by (subst (asm) frames.simps) simp
  qed
qed

locale framing =
  fixes len_field :: "key \<Rightarrow> nat \<Rightarrow> nat" and hdr :: nat and enc :: "'x \<Rightarrow> u8 list" and good :: "'x \<Rightarrow> bool"
  assumes hdr_pos: "0 < hdr"
    and local_field: "(\<And>i. i < hdr \<Longrightarrow> b (p + i) = c (p + i)) \<Longrightarrow> len_field b p = len_field c p"
    and enc_law: "\<lbrakk> good x; holds b p (enc x) \<rbrakk> \<Longrightarrow> hdr \<le> len_field b p \<and> length (enc x) = nl_align (len_field b p)"
begin

fun offsets :: "nat \<Rightarrow> 'x list \<Rightarrow> nat list" where
  "offsets p [] = []"
| "offsets p (x # xs) = p # offsets (p + length (enc x)) xs"

lemma frames_concat:
  "\<lbrakk> \<forall>x \<in> set xs. good x; holds b p (concat (map enc xs)) \<rbrakk> \<Longrightarrow>
     frames len_field hdr b p (int (length (concat (map enc xs)))) = offsets p xs"
proof (induction xs arbitrary: p)
  case Nil
  then show ?case using hdr_pos by (simp add: frames.simps)
next
  case (Cons x xs)
  then have h: "holds b p (enc x)" "holds b (p + length (enc x)) (concat (map enc xs))" by (auto simp: holds_append)
  from enc_law [OF _ h(1)] Cons.prems have e: "hdr \<le> len_field b p" "length (enc x) = nl_align (len_field b p)" by auto
  with nl_align_ge [of "len_field b p"] Cons.IH [OF _ h(2)] Cons.prems(1) hdr_pos show ?case by (subst frames.simps) simp
qed

lemma frames_cong:
  "(\<And>i. int i < int p + len \<Longrightarrow> b i = c i) \<Longrightarrow> frames len_field hdr b p len = frames len_field hdr c p len"
proof (induction "nat len" arbitrary: p len rule: less_induct)
  case less
  show ?case
  proof (cases "int hdr \<le> len")
    case True
    have f: "len_field b p = len_field c p" using less.prems True by (intro local_field) simp
    have "frames len_field hdr b (p + nl_align (len_field b p)) (len - int (nl_align (len_field b p)))
        = frames len_field hdr c (p + nl_align (len_field b p)) (len - int (nl_align (len_field b p)))"
      if "hdr \<le> len_field b p" using that True hdr_pos less.prems nl_align_ge [of "len_field b p"] by (intro less.hyps) auto
    then show ?thesis using f by (subst (1 2) frames.simps) auto
  next
    case False
    then show ?thesis by (subst (1 2) frames.simps) simp
  qed
qed

end

section \<open>The layout of attributes and messages\<close>

lemma length_le [simp]: "length (le16 n) = 2" "length (le32 n) = 4"
  by (simp_all add: le16_def le32_def)

lemma rd16_le16_mod: "holds b p (le16 n) \<Longrightarrow> rd16 b p = n mod 65536"
  using mod_mult2_eq [of n 256 256]
  by (auto simp: holds_def le16_def rd16_def less_Suc_eq unat_of_nat all_conj_distrib numeral_2_eq_2)

lemma rd16_le16: "n < 65536 \<Longrightarrow> holds b p (le16 n) \<Longrightarrow> rd16 b p = n"
  by (simp add: rd16_le16_mod)

lemma rd32_le32: "n < 2 ^ 32 \<Longrightarrow> holds b p (le32 n) \<Longrightarrow> rd32 b p = n"
  using rd16_le16_mod [of b p n] rd16_le16 [of "n div 65536" b "p + 2"]
  by (simp add: le32_def holds_append rd32_def less_mult_imp_div_less)

definition padded :: "u8 list \<Rightarrow> u8 list" where
  "padded xs = xs @ replicate (nl_align (length xs) - length xs) 0"

lemma length_padded [simp]: "length (padded xs) = nl_align (length xs)"
  using nl_align_ge by (simp add: padded_def)

text \<open>An attribute is its type and its payload; a message its type, its flags and its body.\<close>

definition rtattr_bytes :: "nat \<times> u8 list \<Rightarrow> u8 list" where
  "rtattr_bytes a = padded (le16 (4 + length (snd a)) @ le16 (fst a) @ snd a)"

definition rtattr_good :: "nat \<times> u8 list \<Rightarrow> bool" where
  "rtattr_good a \<longleftrightarrow> fst a < 65536 \<and> 4 + length (snd a) < 65536"

definition nlmsg_bytes :: "nat \<times> nat \<times> u8 list \<Rightarrow> u8 list" where
  "nlmsg_bytes m = padded (le32 (16 + length (snd (snd m))) @ le16 (fst m) @ le16 (fst (snd m)) @ replicate 8 0 @ snd (snd m))"

definition nlmsg_good :: "nat \<times> nat \<times> u8 list \<Rightarrow> bool" where
  "nlmsg_good m \<longleftrightarrow> fst m < 65536 \<and> 16 + length (snd (snd m)) < 2 ^ 32"

lemma rtattr_fields:
  assumes "rtattr_good a" "holds b p (rtattr_bytes a)"
  shows "rta_len b p = 4 + length (snd a)" "rta_type b p = fst a" "holds b (rta_data p) (snd a)"
proof -
  have "holds b p (le16 (4 + length (snd a)))" "holds b (p + 2) (le16 (fst a))" and "holds b (p + 2 + 2) (snd a)"
    using assms(2) by (simp_all add: rtattr_bytes_def padded_def holds_append)
  moreover have "p + 2 + 2 = p + 4" by simp
  ultimately show "rta_len b p = 4 + length (snd a)" "rta_type b p = fst a" "holds b (rta_data p) (snd a)"
    using assms(1) by (simp_all add: rd16_le16 rtattr_good_def rta_len_def rta_type_def rta_data_def del: add_2_eq_Suc' add_2_eq_Suc)
qed

lemma nlmsg_fields:
  assumes "nlmsg_good m" "holds b p (nlmsg_bytes m)"
  shows "nlmsg_len b p = 16 + length (snd (snd m))" "nlmsg_type b p = fst m" "holds b (nlmsg_data p) (snd (snd m))"
  using assms rd16_le16 rd32_le32
  by (auto simp: nlmsg_good_def nlmsg_bytes_def padded_def holds_append nlmsg_len_def nlmsg_type_def nlmsg_data_def add.commute)

interpretation attributes: framing rta_len 4 rtattr_bytes rtattr_good
proof
  fix b c :: key and p :: nat
  assume "\<And>i. i < 4 \<Longrightarrow> b (p + i) = c (p + i)"
  from this [of 0] this [of 1] show "rta_len b p = rta_len c p" by (simp add: rta_len_def rd16_def)
next
  fix a b p
  assume "rtattr_good a" "holds b p (rtattr_bytes a)"
  from rtattr_fields(1) [OF this] show "4 \<le> rta_len b p \<and> length (rtattr_bytes a) = nl_align (rta_len b p)"
    by (simp add: rtattr_bytes_def numeral_eq_Suc)
qed simp

interpretation messages: framing nlmsg_len 16 nlmsg_bytes nlmsg_good
proof
  fix b c :: key and p :: nat
  assume "\<And>i. i < 16 \<Longrightarrow> b (p + i) = c (p + i)"
  from this [of 0] this [of 1] this [of 2] this [of 3] show "nlmsg_len b p = nlmsg_len c p"
    by (simp add: nlmsg_len_def rd32_def rd16_def add.commute [of p] del: add_2_eq_Suc' add_2_eq_Suc)
next
  fix m b p
  assume "nlmsg_good m" "holds b p (nlmsg_bytes m)"
  from nlmsg_fields(1) [OF this] show "16 \<le> nlmsg_len b p \<and> length (nlmsg_bytes m) = nl_align (nlmsg_len b p)"
    by (simp add: nlmsg_bytes_def)
qed simp

section \<open>Attributes are found\<close>

definition store_attr :: "key \<Rightarrow> nat \<Rightarrow> nat \<Rightarrow> nat option list \<Rightarrow> nat option list" where
  "store_attr b maxi rta rtas = (if rta_type b rta \<le> maxi then rtas[rta_type b rta := Some rta] else rtas)"

lemma get_rtattr_fold:
  "maxi < length rtas \<Longrightarrow>
     map_option fst (netlink_get_rtattr rtas maxi b p len n) = Some (fold (store_attr b maxi) (frames rta_len 4 b p len) rtas)"
proof (induction rtas maxi b p len n rule: netlink_get_rtattr.induct)
  case (1 rtas maxi b p len n)
  have ok: "RTA_OK b p len \<longleftrightarrow> 4 \<le> len \<and> 4 \<le> rta_len b p \<and> int (rta_len b p) \<le> len" by (simp add: RTA_OK_def)
  show ?case
  proof (cases "RTA_OK b p len")
    case True
    with 1 ok show ?thesis
      by (subst frames.simps, subst netlink_get_rtattr.simps) (auto simp: store_attr_def [of b maxi p] Let_def)
  next
    case False
    with ok show ?thesis by (subst frames.simps, subst netlink_get_rtattr.simps) auto
  qed
qed

lemma get_attrs_fold:
  "maxi < sz \<Longrightarrow> get_attrs sz maxi b p len = Some (fold (store_attr b maxi) (frames rta_len 4 b p len) (replicate sz None))"
  by (simp add: get_attrs_def get_rtattr_fold)

lemma length_fold_store [simp]: "length (fold (store_attr b maxi) ps rtas) = length rtas"
  by (induction ps arbitrary: rtas) (auto simp: store_attr_def)

definition attr_payload :: "key \<Rightarrow> nat \<Rightarrow> u8 list" where
  "attr_payload b rta = rdn b (rta_data rta) (rta_payload b rta)"

lemma att_store:
  "\<lbrakk> t \<le> maxi; maxi < length rtas \<rbrakk> \<Longrightarrow> att (store_attr b maxi r rtas) t = (if rta_type b r = t then Some r else att rtas t)"
  by (auto simp: att_def store_attr_def)

lemma fold_store_offsets:
  "\<lbrakk> \<forall>a \<in> set as. rtattr_good a; holds b p (concat (map rtattr_bytes as)); t \<le> maxi; maxi < length rtas \<rbrakk> \<Longrightarrow>
     map_option (attr_payload b) (att (fold (store_attr b maxi) (attributes.offsets p as) rtas) t)
     = (case map_of (rev as) t of None \<Rightarrow> map_option (attr_payload b) (att rtas t) | Some x \<Rightarrow> Some x)"
proof (induction as arbitrary: p rtas)
  case (Cons a as)
  then have h: "holds b p (rtattr_bytes a)" "holds b (p + length (rtattr_bytes a)) (concat (map rtattr_bytes as))"
    and g: "rtattr_good a" by (auto simp: holds_append)
  note f = rtattr_fields [OF g h(1)]
  have "attr_payload b p = snd a" using f by (auto simp: attr_payload_def rta_payload_def intro: holds_rdn)
  with Cons.IH [OF _ h(2), of "store_attr b maxi p rtas"] Cons.prems f att_store [of t maxi rtas b p] show ?case
    by (cases a) (auto simp: store_attr_def map_add_def split: option.splits)
qed simp

lemma get_attrs_finds:
  assumes "\<forall>a \<in> set as. rtattr_good a" "holds b p (concat (map rtattr_bytes as))" "maxi < sz"
    and len: "len = int (length (concat (map rtattr_bytes as)))"
  shows "\<exists>rtas. get_attrs sz maxi b p len = Some rtas \<and> length rtas = sz
           \<and> (\<forall>t\<le>maxi. map_option (attr_payload b) (att rtas t) = map_of (rev as) t)"
proof -
  have "att (replicate sz None) t = None" for t by (simp add: att_def)
  then show ?thesis using fold_store_offsets [OF assms(1,2), of _ maxi "replicate sz None"] assms
    by (auto simp: get_attrs_fold attributes.frames_concat split: option.splits)
qed

section \<open>What is sent\<close>

text \<open>\<open>appends P s s'\<close>: the events from \<open>s\<close> to \<open>s'\<close> are added behind those before and satisfy \<open>P\<close>.\<close>

definition appends :: "(dp_event \<Rightarrow> bool) \<Rightarrow> dp_state \<Rightarrow> dp_state \<Rightarrow> bool" where
  "appends P s s' \<longleftrightarrow> (\<exists>es. dp_events s' = dp_events s @ es \<and> (\<forall>e \<in> set es. P e))"

lemma appends_refl [simp]: "appends P s s"
  by (simp add: appends_def)

lemma appends_trans [trans]: "appends P s t \<Longrightarrow> appends P t u \<Longrightarrow> appends P s u"
  by (fastforce simp: appends_def)

lemma internal_msg_create_events:
  "internal_msg_create m s = (mo, s') \<Longrightarrow> dp_events s' = dp_events s \<and> (mo = None \<or> mo = Some m)"
  by (auto simp: internal_msg_create_def split: prod.splits)

lemma internal_msg_send_to_events:
  "internal_msg_send_to q mo s = Some (r, s') \<Longrightarrow>
     dp_events s' = dp_events s \<or> (\<exists>e. mo = Some e \<and> dp_events s' = dp_events s @ [e])"
  by (auto simp: internal_msg_send_to_def emit_def split: if_splits prod.splits option.splits)

lemma send_rib_appends:
  assumes "send_rib d m s = Some (r, s')" "P (Rib_Msg m)"
  shows "appends P s s'"
proof -
  obtain mo s1 where c: "internal_msg_create (Rib_Msg m) s = (mo, s1)" by fastforce
  from internal_msg_create_events [OF c] assms c internal_msg_send_to_events [of True mo s1] show ?thesis
    by (auto simp: send_rib_def appends_def split: option.splits if_splits bind_splits)
qed

definition rib_event_ok :: "dp_event \<Rightarrow> bool" where
  "rib_event_ok e = (case e of Rib_Msg m \<Rightarrow> msg_valid m \<and> no_port_get m | _ \<Rightarrow> True)"

lemma rib_event_ok_simps [simp]:
  "rib_event_ok (Neigh_Msg n)" "rib_event_ok (Rib_Msg (MSG_MAC_ADDR_ADD i a))" "rib_event_ok (Rib_Msg (MSG_MAC_ADDR_DEL i a))"
  "rib_event_ok (Rib_Msg (MSG_IP_ADDR_ADD ip))" "rib_event_ok (Rib_Msg (MSG_IP_ADDR_DEL ip))"
  "rib_event_ok (Rib_Msg (MSG_ROUTE_ENTRY_DEL m))" "rib_event_ok (Rib_Msg (MSG_NEXTHOP_ENTRY_DEL nh))"
  "rib_event_ok (Rib_Msg (MSG_ROUTE_ENTRY_ADD m)) \<longleftrightarrow> route_msg_ok m"
  "rib_event_ok (Rib_Msg (MSG_NEXTHOP_ENTRY_ADD nh)) \<longleftrightarrow> msg_ok nh"
  by (simp_all add: rib_event_ok_def msg_valid_def no_port_get_def)

text \<open>Every next hop entry that is sent has at most \<^const>\<open>MAX_ECMP_ENTRY\<close> members.\<close>

lemma read_rtnexthops_ok:
  "\<lbrakk> read_rtnexthops env family b rtnh len nh = Some nh'; msg_ok nh \<rbrakk> \<Longrightarrow> msg_ok nh'"
proof (induction env family b rtnh len nh rule: read_rtnexthops.induct)
  case (1 env family b rtnh len nh)
  then show ?case
    by (subst (asm) (2) read_rtnexthops.simps) (auto simp: msg_ok_def split: if_splits bind_splits)
qed

lemma route_nexthops_ok:
  "\<lbrakk> route_multipath env family b rtns zero_nh_entry = Some nh; route_single env family b rtns nh = Some nh' \<rbrakk> \<Longrightarrow> msg_ok nh'"
  using read_rtnexthops_ok [of env family b _ _ zero_nh_entry nh]
  by (auto simp: route_multipath_def route_single_def Let_def msg_ok_def zero_nh_entry_def MAX_ECMP_ENTRY_def split: option.splits if_splits)

lemma length_copy_attr: "copy_attr b rta old = Some new \<Longrightarrow> length new = length old"
  by (auto simp: copy_attr_def rdn_def split: if_splits)

lemma length_attr_bytes: "attr_bytes b r n = Some xs \<Longrightarrow> length xs = n"
  by (auto simp: attr_bytes_def dest: length_copy_attr split: option.splits)

lemma parse_route_ok:
  assumes "parse_route env b rtm rtns = Some m" "b rtm \<noteq> 0" "unat (b (rtm + 1)) \<le> 128"
  shows "route_msg_ok m"
proof -
  have "msg_ok (nh\<lparr>msg_kernel_nh_id := k\<rparr>) = msg_ok nh" for nh k by (simp add: msg_ok_def)
  with assms show ?thesis
    by (auto simp: parse_route_def Let_def route_msg_ok_def uint_0_iff length_attr_bytes
        dest: route_nexthops_ok split: bind_splits if_splits)
qed

definition route_hdr_ok :: "key \<Rightarrow> nat \<Rightarrow> bool" where
  "route_hdr_ok b h \<longleftrightarrow> (nlmsg_type b h = RTM_NEWROUTE \<and> 28 \<le> nlmsg_len b h \<longrightarrow> b (h + 16) \<noteq> 0 \<and> unat (b (h + 17)) \<le> 128)"

lemma route_appends:
  assumes "netlink_read_nlmsg_route env d b h s = Some (r, s')" "route_hdr_ok b h"
  shows "appends rib_event_ok s s'"
  using assms parse_route_ok [of env b "h + 16"]
  by (auto simp: add.commute [of h] netlink_read_nlmsg_route_def route_hdr_ok_def Let_def nlmsg_data_def nl_types
      split: if_splits bind_splits intro!: send_rib_appends)

lemma nh_group_msg_ok: "nh_group_msg b rta nh = Some nh' \<Longrightarrow> msg_ok nh'"
  by (auto simp: nh_group_msg_def Let_def msg_ok_def split: if_splits)

lemma nexthop_appends:
  assumes "netlink_read_nlmsg_nexthop env d b h s = Some (r, s')"
  shows "appends rib_event_ok s s'"
proof -
  have "msg_ok (nh_object_msg env family b rtas nh)" for family rtas nh by (simp add: nh_object_msg_def Let_def msg_ok_def MAX_ECMP_ENTRY_def)
  with assms show ?thesis
    by (auto simp: netlink_read_nlmsg_nexthop_def Let_def dest: nh_group_msg_ok
        split: if_splits bind_splits option.splits intro!: send_rib_appends)
qed

lemma link_appends: "netlink_read_nlmsg_link env d b h s = Some (r, s') \<Longrightarrow> appends rib_event_ok s s'"
  by (auto simp: netlink_read_nlmsg_link_def Let_def split: if_splits bind_splits option.splits intro!: send_rib_appends)

lemma neigh_appends:
  assumes "netlink_read_nlmsg_neigh env d b h s = Some (r, s')"
  shows "appends rib_event_ok s s'"
proof -
  have "appends rib_event_ok s t'"
    if c: "internal_msg_create (Neigh_Msg msg) s = (mo, t)" and i: "internal_msg_send_to q mo t = Some (x, t')" for msg mo t q x t'
    using internal_msg_create_events [OF c] internal_msg_send_to_events [OF i] by (auto simp: appends_def)
  with assms show ?thesis
    by (auto simp: netlink_read_nlmsg_neigh_def Let_def split: if_splits bind_splits option.splits prod.splits)
qed

lemma addr_appends:
  assumes "netlink_read_nlmsg_addr env d b h st = Some (r, st')"
  shows "appends rib_event_ok (nl_dp st) (nl_dp st')"
proof -
  have [simp]: "nl_dp (hook_addr env b h st) = nl_dp st" for st by (simp add: hook_addr_def Let_def)
  from assms show ?thesis
    by (auto simp: netlink_read_nlmsg_addr_def Let_def split: if_splits bind_splits option.splits intro!: send_rib_appends)
qed

lemma read_nlmsg_appends:
  assumes "read_nlmsg env d b h st = Some st'" "route_hdr_ok b h"
  shows "appends rib_event_ok (nl_dp st) (nl_dp st')"
  using assms
  by (auto simp: read_nlmsg_def on_dp_def Let_def split: if_splits
      intro: route_appends nexthop_appends link_appends neigh_appends addr_appends)

section \<open>The loop over the messages\<close>

lemma read_nlmsgs_each:
  "map_option snd (read_nlmsgs env d b h len fin st) = each (read_nlmsg env d b) (frames nlmsg_len 16 b h len) st"
proof (induction env d b h len fin st rule: read_nlmsgs.induct)
  case (1 env d b h len fin st)
  have ok: "NLMSG_OK b h len \<longleftrightarrow> 16 \<le> len \<and> 16 \<le> nlmsg_len b h \<and> int (nlmsg_len b h) \<le> len" by (simp add: NLMSG_OK_def)
  show ?case
  proof (cases "NLMSG_OK b h len")
    case True
    with 1 ok show ?thesis by (subst frames.simps, subst read_nlmsgs.simps) (auto split: bind_split)
  next
    case False
    with ok show ?thesis by (subst frames.simps, subst read_nlmsgs.simps) auto
  qed
qed

lemma each_appends:
  "\<lbrakk> each (read_nlmsg env d b) hs st = Some st'; \<forall>h \<in> set hs. route_hdr_ok b h \<rbrakk> \<Longrightarrow> appends rib_event_ok (nl_dp st) (nl_dp st')"
proof (induction hs arbitrary: st)
  case (Cons h hs)
  then obtain t where t: "read_nlmsg env d b h st = Some t" "each (read_nlmsg env d b) hs t = Some st'" by (auto split: bind_splits)
  from read_nlmsg_appends [OF t(1)] Cons t(2) show ?case by (auto intro: appends_trans)
qed simp

text \<open>
  The datagrams of the kernel: a route has an address family and a prefix length of at most 128.
  The frames of a datagram do not depend on what earlier datagrams have left in the buffer.
\<close>

definition dgram_ok :: "u8 list \<Rightarrow> bool" where
  "dgram_ok xs \<longleftrightarrow> (\<forall>h \<in> set (frames nlmsg_len 16 (bytes_at xs) 0 (int (length xs))). route_hdr_ok (bytes_at xs) h)"

lemma fill_frames:
  assumes "dgram_ok xs" "h \<in> set (frames nlmsg_len 16 (fill xs b) 0 (int (length xs)))"
  shows "route_hdr_ok (fill xs b) h"
proof -
  have eq: "i < length xs \<Longrightarrow> fill xs b i = bytes_at xs i" for i by (simp add: fill_def bytes_at_def)
  then have f: "frames nlmsg_len 16 (fill xs b) 0 (int (length xs)) = frames nlmsg_len 16 (bytes_at xs) 0 (int (length xs))"
    by (intro messages.frames_cong) simp
  with assms have "h \<in> set (frames nlmsg_len 16 (bytes_at xs) 0 (int (length xs)))" by simp
  from frames_bounds [OF this] have "16 \<le> nlmsg_len (bytes_at xs) h" "h + nlmsg_len (bytes_at xs) h \<le> length xs" by auto
  moreover from this have "nlmsg_len (fill xs b) h = nlmsg_len (bytes_at xs) h" "nlmsg_type (fill xs b) h = nlmsg_type (bytes_at xs) h"
    by (simp_all add: nlmsg_len_def nlmsg_type_def rd32_def rd16_def eq)
  ultimately show ?thesis using assms(1) f assms(2) eq by (auto simp: dgram_ok_def route_hdr_ok_def)
qed

lemma netlink_read_appends:
  assumes "netlink_read env d rs fin st = Some (e, rest, st')" "\<forall>r \<in> set rs. case r of Recv pid n dg \<Rightarrow> dgram_ok (take 8192 dg) | _ \<Rightarrow> True"
  shows "appends rib_event_ok (nl_dp st) (nl_dp st')"
  using assms
proof (induction rs arbitrary: fin st)
  case (Cons r rs)
  show ?case
  proof (cases r)
    case (Recv pid n dg)
    let ?xs = "take 8192 dg" and ?st = "st\<lparr>nl_buf := fill (take 8192 dg) (nl_buf st), msg_count := msg_count st + 1\<rparr>"
    have "appends rib_event_ok (nl_dp st) (nl_dp t)"
      if "read_nlmsgs env d (nl_buf ?st) 0 (int (length ?xs)) fin ?st = Some (f, t)" for f t
    proof -
      from that have "each (read_nlmsg env d (nl_buf ?st)) (frames nlmsg_len 16 (nl_buf ?st) 0 (int (length ?xs))) ?st = Some t"
        using read_nlmsgs_each [of env d "nl_buf ?st" 0 "int (length ?xs)" fin ?st] by simp
      from each_appends [OF this] fill_frames [of ?xs _ "nl_buf st"] Cons.prems(2) Recv show ?thesis by simp
    qed
    with Cons Recv show ?thesis by (fastforce simp: Let_def split: if_splits bind_splits intro: appends_trans)
  qed (use Cons in auto)
qed simp

section \<open>Routes with one next hop\<close>

lemma rdn_holds: "rdn b p n = xs \<Longrightarrow> holds b p xs"
  by (auto simp: rdn_def holds_def)

lemma length_rdn [simp]: "length (rdn b p n) = n"
  by (simp add: rdn_def)

lemma payload_copy:
  "attr_payload b rta = xs \<Longrightarrow> length xs \<le> length old \<Longrightarrow> copy_attr b rta old = Some (xs @ drop (length xs) old)"
  by (auto simp: attr_payload_def copy_attr_def)

lemma payload_u32: "attr_payload b rta = le32 n \<Longrightarrow> n < 2 ^ 32 \<Longrightarrow> rd32 b (rta_data rta) = n"
  unfolding attr_payload_def by (rule rd32_le32 [OF _ rdn_holds])

definition zero_extend :: "u8 list \<Rightarrow> u8 list" where
  "zero_extend xs = xs @ replicate (16 - length xs) 0"

definition gateway_info :: "nl_env \<Rightarrow> int \<Rightarrow> nat \<Rightarrow> u8 list option \<Rightarrow> nh_info" where
  "gateway_info env family ifindex g =
     \<lparr>nhi_family = family, nhi_type = (if g = None then NEXTHOP_TYPE_CONNECTED else NEXTHOP_TYPE_GATEWAY),
      gw = (case g of None \<Rightarrow> replicate 16 0 | Some a \<Rightarrow> zero_extend a), oif = of_nat ifindex, oif_name = if_name env ifindex [], refcnt = 0\<rparr>"

definition entry_of :: "nh_info list \<Rightarrow> internal_msg_nh_entry" where
  "entry_of infos =
     \<lparr>msg_kernel_nh_id = 0, msg_nhcnt = int (length infos),
      msg_members = map (\<lambda>i. zero_nh_member\<lparr>mm_info := i\<rparr>) infos @ replicate (MAX_ECMP_ENTRY - length infos) zero_nh_member\<rparr>"

definition kernel_route :: "u8 \<Rightarrow> u8 \<Rightarrow> u8 list \<Rightarrow> nh_info list \<Rightarrow> internal_msg_route_entry" where
  "kernel_route family dst_len dst infos =
     \<lparr>mre_family = int (unat family), mre_table_id = 254,
      mre_dst = \<lparr>rdi_family = int (unat family), dst_ip_addr = zero_extend dst, plen = unat dst_len\<rparr>,
      mre_is_nhid = False, mre_nh = entry_of infos\<rparr>"

text \<open>The body of a route message: \<^verbatim>\<open>struct rtmsg\<close> (table 254 is the main one) and the attributes.\<close>

definition route_body :: "u8 \<Rightarrow> u8 \<Rightarrow> (nat \<times> u8 list) list \<Rightarrow> u8 list" where
  "route_body family dst_len as = [family, dst_len, 0, 0, 254, 0, 0, 1, 0, 0, 0, 0] @ concat (map rtattr_bytes as)"

lemma route_body_at:
  assumes "nlmsg_good (type, flags, route_body family dst_len as)" "holds b h (nlmsg_bytes (type, flags, route_body family dst_len as))"
  shows "nlmsg_type b h = type" "nlmsg_len b h = 28 + length (concat (map rtattr_bytes as))"
    "b (nlmsg_data h) = family" "b (nlmsg_data h + 1) = dst_len" "b (nlmsg_data h + 4) = 254"
    "holds b (nlmsg_data h + 12) (concat (map rtattr_bytes as))"
proof -
  note f = nlmsg_fields [OF assms]
  show "nlmsg_type b h = type" "nlmsg_len b h = 28 + length (concat (map rtattr_bytes as))"
    using f(1,2) by (simp_all add: route_body_def)
  from f(3) have "holds b (nlmsg_data h) [family, dst_len, 0, 0, 254, 0, 0, 1, 0, 0, 0, 0]"
    and 2: "holds b (nlmsg_data h + 12) (concat (map rtattr_bytes as))" 
    unfolding route_body_def holds_append snd_conv by (simp_all add: add.commute numeral_eq_Suc)
  then have "i < 12 \<Longrightarrow> b (nlmsg_data h + i) = [family, dst_len, 0, 0, 254, 0, 0, 1, 0, 0, 0, 0] ! i" for i by (simp add: holds_def)
  from this [of 0] this [of 1] this [of 4] show "b (nlmsg_data h) = family" "b (nlmsg_data h + 1) = dst_len" "b (nlmsg_data h + 4) = 254"
    by simp_all
  show "holds b (nlmsg_data h + 12) (concat (map rtattr_bytes as))" by (rule 2)
qed

text \<open>The attributes of a route to one next hop; other attributes may be present.\<close>

definition single_route :: "(nat \<times> u8 list) list \<Rightarrow> u8 list \<Rightarrow> u8 list option \<Rightarrow> nat \<Rightarrow> bool" where
  "single_route as dst g ifindex \<longleftrightarrow>
     (let m = map_of (rev as)
      in (\<forall>a \<in> set as. rtattr_good a) \<and> m RTA_DST = Some dst \<and> length dst \<le> 16 \<and> m RTA_GATEWAY = g
         \<and> (case g of None \<Rightarrow> True | Some a \<Rightarrow> length a \<le> 16) \<and> m RTA_OIF = Some (le32 ifindex) \<and> ifindex < 2 ^ 32
         \<and> m RTA_MULTIPATH = None \<and> m RTA_NH_ID = None \<and> m RTA_ENCAP = None)"

lemma some_attr: "map_option (attr_payload b) (att rtas t) = Some x \<Longrightarrow> \<exists>rta. att rtas t = Some rta \<and> attr_payload b rta = x"
  by auto

lemma parse_single:
  assumes a: "\<forall>t\<le>RTA_MAX env. map_option (attr_payload b) (att rtas t) = map_of (rev as) t"
    and s: "single_route as dst g ifindex" and m: "30 \<le> RTA_MAX env" and h: "b rtm = family" "b (rtm + 1) = dst_len" "b (rtm + 4) = 254"
  shows "parse_route env b rtm rtas = Some (kernel_route family dst_len dst [gateway_info env (int (unat family)) ifindex g])"
proof -
  have att: "map_option (attr_payload b) (att rtas t) = map_of (rev as) t" if "t \<le> 30" for t using a m that by simp
  have none: "att rtas RTA_MULTIPATH = None" "att rtas RTA_NH_ID = None" "att rtas RTA_ENCAP = None"
    using att [of RTA_MULTIPATH] att [of RTA_NH_ID] att [of RTA_ENCAP] s by (auto simp: single_route_def Let_def rta_types)
  obtain r1 where dst: "att rtas RTA_DST = Some r1" "attr_payload b r1 = dst"
    using att [of RTA_DST] s by (auto simp: single_route_def Let_def rta_types)
  obtain r2 where oif: "att rtas RTA_OIF = Some r2" "attr_payload b r2 = le32 ifindex"
    using att [of RTA_OIF] s by (auto simp: single_route_def Let_def rta_types)
  have gw: "map_option (attr_payload b) (att rtas RTA_GATEWAY) = g" using att [of RTA_GATEWAY] s by (simp add: single_route_def Let_def rta_types)
  have d: "attr_bytes b (att rtas RTA_DST) 16 = Some (zero_extend dst)"
    using dst s payload_copy [of b r1 dst "replicate 16 0"] by (auto simp: attr_bytes_def zero_extend_def single_route_def Let_def)
  have o: "attr_u32 b (att rtas RTA_OIF) = ifindex" using oif s payload_u32 by (simp add: attr_u32_def single_route_def Let_def)
  have "set_gateway b (att rtas RTA_GATEWAY) (zero_info\<lparr>nhi_family := family'\<rparr>)
      = Some (zero_info\<lparr>nhi_family := family', nhi_type := (if g = None then NEXTHOP_TYPE_CONNECTED else NEXTHOP_TYPE_GATEWAY),
               gw := (case g of None \<Rightarrow> replicate 16 0 | Some a \<Rightarrow> zero_extend a)\<rparr>)" for family'
    using gw s payload_copy [of b _ _ "replicate 16 0"]
    by (cases "att rtas RTA_GATEWAY") (auto simp: set_gateway_def zero_info_def zero_extend_def single_route_def Let_def)
  then have "route_single env family' b rtas zero_nh_entry = Some (entry_of [gateway_info env family' ifindex g])" for family'
    using oif o by (simp add: route_single_def Let_def zero_nh_entry_def zero_nh_member_def entry_of_def gateway_info_def zero_info_def MAX_ECMP_ENTRY_def
        numeral_eq_Suc)
  with none d h show ?thesis
    by (simp add: parse_route_def Let_def route_multipath_def route_encap_def kernel_route_def)
qed

lemma route_message_read:
  assumes g: "nlmsg_good (type, flags, route_body family dst_len as)" and h: "holds b h (nlmsg_bytes (type, flags, route_body family dst_len as))"
    and s: "single_route as dst g ifindex" and m: "30 \<le> RTA_MAX env" and t: "type = RTM_NEWROUTE \<or> type = RTM_DELROUTE"
  shows "netlink_read_nlmsg_route env d b h s
       = send_rib d ((if type = RTM_NEWROUTE then MSG_ROUTE_ENTRY_ADD else MSG_ROUTE_ENTRY_DEL)
           (kernel_route family dst_len dst [gateway_info env (int (unat family)) ifindex g])) s"
proof -
  note f = route_body_at [OF g h]
  have "\<forall>a \<in> set as. rtattr_good a" using s by (simp add: single_route_def Let_def)
  from get_attrs_finds [OF this f(6), of "RTA_MAX env" "RTA_MAX env + 1"]
  obtain rtas where r: "get_attrs (RTA_MAX env + 1) (RTA_MAX env) b (nlmsg_data h + 12) (int (nlmsg_len b h) - 28) = Some rtas"
      "\<forall>t\<le>RTA_MAX env. map_option (attr_payload b) (att rtas t) = map_of (rev as) t" using f(2) by auto
  have "map_option (attr_payload b) (att rtas RTA_DST) = Some dst" using r(2) s m by (simp add: single_route_def Let_def rta_types)
  then have "att rtas RTA_DST \<noteq> None" by auto
  with r(1) parse_single [OF r(2) s m f(3,4,5)] f t show ?thesis
    by (auto simp: netlink_read_nlmsg_route_def Let_def RT_TABLE_MAIN_def nl_types)
qed

section \<open>Routes with several next hops\<close>

text \<open>A next hop of \<^verbatim>\<open>RTA_MULTIPATH\<close> as the kernel writes it: an interface and attributes.\<close>

definition rtnh_bytes :: "nat \<times> (nat \<times> u8 list) list \<Rightarrow> u8 list" where
  "rtnh_bytes hop = le16 (8 + length (concat (map rtattr_bytes (snd hop)))) @ [0, 0] @ le32 (fst hop) @ concat (map rtattr_bytes (snd hop))"

definition hop_good :: "nat \<times> (nat \<times> u8 list) list \<Rightarrow> bool" where
  "hop_good hop \<longleftrightarrow> fst hop < 2 ^ 32 \<and> (\<forall>a \<in> set (snd hop). rtattr_good a \<and> (fst a = RTA_GATEWAY \<longrightarrow> length (snd a) \<le> 16))
     \<and> 8 + length (concat (map rtattr_bytes (snd hop))) < 65536"

definition hop_info :: "nl_env \<Rightarrow> int \<Rightarrow> nat \<times> (nat \<times> u8 list) list \<Rightarrow> nh_info" where
  "hop_info env family hop = gateway_info env family (fst hop) (map_of (rev (snd hop)) RTA_GATEWAY)"

lemma att_replicate: "att (replicate n None) t = None"
  by (simp add: att_def)

lemma nl_align_aligned: "n mod 4 = 0 \<Longrightarrow> nl_align n = n"
  by (auto simp: nl_align_def mod_eq_0_iff_dvd)

lemma attrs_aligned: "length (concat (map rtattr_bytes as)) mod 4 = 0"
  by (induction as) (auto simp: rtattr_bytes_def nl_align_def mod_add_left_eq [symmetric] simp del: mod_add_left_eq)

lemma rtnh_fields:
  assumes "hop_good hop" "holds b p (rtnh_bytes hop)"
  shows "rtnh_len b p = length (rtnh_bytes hop)" "rtnh_ifindex b p = fst hop" "nl_align (rtnh_len b p) = length (rtnh_bytes hop)"
    "holds b (p + 8) (concat (map rtattr_bytes (snd hop)))" "8 \<le> length (rtnh_bytes hop)"
proof -
  let ?as = "concat (map rtattr_bytes (snd hop))"
  have h: "holds b p (le16 (8 + length ?as))" "holds b (p + 2 + 2) (le32 (fst hop))" "holds b (p + 2 + 2 + 4) ?as"
    using assms(2) unfolding rtnh_bytes_def holds_append by simp_all
  have eq: "p + 2 + 2 = p + 4" "p + 2 + 2 + 4 = p + 8" by simp_all
  show l: "rtnh_len b p = length (rtnh_bytes hop)" using h(1) assms(1) rd16_le16 by (simp add: rtnh_len_def hop_good_def rtnh_bytes_def)
  show "rtnh_ifindex b p = fst hop" using h(2) [unfolded eq(1)] assms(1) rd32_le32 [of "fst hop" b "p + 4"]
    by (simp add: rtnh_ifindex_def hop_good_def)
  have "length (rtnh_bytes hop) mod 4 = 0" using attrs_aligned [of "snd hop"] mod_add_right_eq [of 8 "length ?as" 4]
    by (simp add: rtnh_bytes_def)
  then show "nl_align (rtnh_len b p) = length (rtnh_bytes hop)" using l nl_align_aligned by simp
  show "holds b (p + 8) ?as" using h(3) unfolding eq(2) .
  show "8 \<le> length (rtnh_bytes hop)" by (simp add: rtnh_bytes_def)
qed

lemma gateway_set:
  assumes "map_option (attr_payload b) r = g" "case g of None \<Rightarrow> True | Some a \<Rightarrow> length a \<le> 16"
    and "info = zero_info\<lparr>nhi_family := family, oif := of_nat i, oif_name := if_name env i []\<rparr>"
  shows "set_gateway b r info = Some (gateway_info env family i g)"
  using assms payload_copy [of b _ _ "replicate 16 0"]
  by (cases r) (auto simp: set_gateway_def zero_info_def zero_extend_def gateway_info_def)

lemma read_rtnexthop_hop:
  assumes g: "hop_good hop" and h: "holds b p (rtnh_bytes hop)" and m: "30 \<le> RTA_MAX env"
  shows "read_rtnexthop env family b p zero_nh_member = Some (zero_nh_member\<lparr>mm_info := hop_info env family hop\<rparr>)"
proof -
  note f = rtnh_fields [OF g h]
  have good: "\<forall>a \<in> set (snd hop). rtattr_good a" using g by (auto simp: hop_good_def)
  let ?info = "zero_info\<lparr>nhi_family := family, oif := of_nat (fst hop), oif_name := if_name env (fst hop) []\<rparr>"
  have name: "oif_name zero_info = []" by (simp add: zero_info_def)
  show ?thesis
  proof (cases "snd hop = []")
    case True
    have "gateway_info env family (fst hop) None = ?info" by (simp add: gateway_info_def zero_info_def)
    with True f name show ?thesis
      by (simp add: read_rtnexthop_def Let_def hop_info_def rtnh_bytes_def zero_nh_member_def)
  next
    case False
    have ne: "8 < length (rtnh_bytes hop)" using False by (cases "snd hop") (auto simp: rtnh_bytes_def rtattr_bytes_def padded_def le16_def)
    from get_attrs_finds [OF good f(4), of "RTA_MAX env" "RTA_MAX env + 1"]
    obtain rtas where r: "get_attrs (RTA_MAX env + 1) (RTA_MAX env) b (p + 8) (int (rtnh_len b p) - 8) = Some rtas"
        "map_option (attr_payload b) (att rtas RTA_GATEWAY) = map_of (rev (snd hop)) RTA_GATEWAY"
      using f(1) m by (auto simp: rtnh_bytes_def RTA_GATEWAY_def)
    have "case map_of (rev (snd hop)) RTA_GATEWAY of None \<Rightarrow> True | Some a \<Rightarrow> length a \<le> 16"
      using g map_of_SomeD [of "rev (snd hop)" RTA_GATEWAY] by (fastforce simp: hop_good_def split: option.splits)
    from gateway_set [OF r(2) this, of ?info] r(1) ne f name show ?thesis
      by (simp add: read_rtnexthop_def Let_def hop_info_def zero_nh_member_def)
  qed
qed

lemma entry_of_next: "length infos < MAX_ECMP_ENTRY \<Longrightarrow> msg_members (entry_of infos) ! length infos = zero_nh_member"
  by (simp add: entry_of_def nth_append)

lemma entry_of_snoc:
  assumes "length infos < MAX_ECMP_ENTRY"
  shows "(entry_of infos)\<lparr>msg_members := (msg_members (entry_of infos))[length infos := zero_nh_member\<lparr>mm_info := i\<rparr>],
           msg_nhcnt := int (length infos) + 1\<rparr> = entry_of (infos @ [i])"
proof -
  have "replicate (MAX_ECMP_ENTRY - length infos) zero_nh_member = zero_nh_member # replicate (MAX_ECMP_ENTRY - Suc (length infos)) zero_nh_member"
    using assms by (metis Suc_diff_Suc replicate_Suc)
  then show ?thesis by (simp add: entry_of_def list_update_append)
qed

lemma read_rtnexthops_step:
  assumes "RTNH_OK b p len" "length infos < MAX_ECMP_ENTRY"
    and "read_rtnexthop env family b p zero_nh_member = Some (zero_nh_member\<lparr>mm_info := i\<rparr>)"
  shows "read_rtnexthops env family b p len (entry_of infos)
       = read_rtnexthops env family b (p + nl_align (rtnh_len b p)) len (entry_of (infos @ [i]))"
proof -
  have n: "msg_nhcnt (entry_of infos) = int (length infos)" by (simp add: entry_of_def)
  with assms entry_of_next [OF assms(2)] entry_of_snoc [OF assms(2), of i] show ?thesis
    by (subst read_rtnexthops.simps) simp
qed

lemma read_rtnexthops_hops:
  "\<lbrakk> \<forall>hop \<in> set hops. hop_good hop \<and> length (rtnh_bytes hop) \<le> len; holds b p (concat (map rtnh_bytes hops));
     length infos + length hops \<le> MAX_ECMP_ENTRY; 30 \<le> RTA_MAX env \<rbrakk> \<Longrightarrow>
   read_rtnexthops env family b p (int len) (entry_of infos)
   = read_rtnexthops env family b (p + length (concat (map rtnh_bytes hops))) (int len) (entry_of (infos @ map (hop_info env family) hops))"
proof (induction hops arbitrary: p infos)
  case (Cons hop hops)
  then have h: "hop_good hop" "holds b p (rtnh_bytes hop)" "holds b (p + length (rtnh_bytes hop)) (concat (map rtnh_bytes hops))"
    by (auto simp: holds_append)
  note f = rtnh_fields [OF h(1,2)]
  have "RTNH_OK b p (int len)" using f Cons.prems(1) by (simp add: RTNH_OK_def)
  from read_rtnexthops_step [OF this _ read_rtnexthop_hop [OF h(1,2) Cons.prems(4)]] Cons.prems f Cons.IH [OF _ h(3), of "infos @ [hop_info env family hop]"]
  show ?case by (simp add: add.assoc)
qed simp

section \<open>The record behind the next hops\<close>

text \<open>
  For an IPv6 route the kernel writes \<^verbatim>\<open>RTA_CACHEINFO\<close> (32 bytes) and \<^verbatim>\<open>RTA_PREF\<close> (one byte) behind
  \<^verbatim>\<open>RTA_MULTIPATH\<close>.
\<close>

definition RTA_CACHEINFO :: nat where "RTA_CACHEINFO = 12"
definition RTA_PREF :: nat where "RTA_PREF = 20"

lemma cacheinfo_hop:
  assumes h: "holds b p (rtattr_bytes (RTA_CACHEINFO, replicate 32 0))"
  shows "rtnh_len b p = 36" "read_rtnexthop env family b p zero_nh_member = Some (zero_nh_member\<lparr>mm_info := gateway_info env family 0 None\<rparr>)"
proof -
  have g: "rtattr_good (RTA_CACHEINFO, replicate 32 0)" by (simp add: rtattr_good_def RTA_CACHEINFO_def)
  note f = rtattr_fields [OF g h]
  show l: "rtnh_len b p = 36" using f(1) by (simp add: rtnh_len_def rta_len_def)
  have "i < 32 \<Longrightarrow> b (p + 4 + i) = 0" for i using f(3) by (simp add: holds_def rta_data_def)
  from this [of 0] this [of 1] this [of 2] this [of 3] this [of 4] this [of 5]
  have z: "rtnh_ifindex b p = 0" "rta_len b (p + 8) = 0"
    by (simp_all add: rtnh_ifindex_def rd32_def rd16_def rta_len_def add.commute [of p] del: add_2_eq_Suc' add_2_eq_Suc)
  then have "frames rta_len 4 b (p + 8) (int (rtnh_len b p) - 8) = []" by (subst frames.simps) simp
  then have "get_attrs (RTA_MAX env + 1) (RTA_MAX env) b (p + 8) (int (rtnh_len b p) - 8) = Some (replicate (RTA_MAX env + 1) None)"
    by (simp add: get_attrs_fold)
  moreover have "att (replicate (RTA_MAX env + 1) None) RTA_GATEWAY = None" by (rule att_replicate)
  moreover have "oif_name zero_info = []" by (simp add: zero_info_def)
  ultimately show "read_rtnexthop env family b p zero_nh_member = Some (zero_nh_member\<lparr>mm_info := gateway_info env family 0 None\<rparr>)"
    using l z gateway_set [OF _ _ refl, where b = b and r = None and g = None and i = 0 and family = family and env = env]
    by (simp add: read_rtnexthop_def Let_def zero_nh_member_def)
qed

lemma multipath_extra_hop:
  assumes hops: "\<forall>hop \<in> set hops. hop_good hop" and len: "36 \<le> length (concat (map rtnh_bytes hops))" "4 + length (concat (map rtnh_bytes hops)) < 65536"
    and n: "length hops < MAX_ECMP_ENTRY" and m: "30 \<le> RTA_MAX env" and x: "att rtns RTA_MULTIPATH = Some p"
    and b: "holds b p (concat (map rtattr_bytes [(RTA_MULTIPATH, concat (map rtnh_bytes hops)), (RTA_CACHEINFO, replicate 32 0), (RTA_PREF, [0])]))"
  shows "route_multipath env family b rtns zero_nh_entry = Some (entry_of (map (hop_info env family) hops @ [gateway_info env family 0 None]))"
proof -
  let ?hs = "concat (map rtnh_bytes hops)" and ?q = "p + 4 + length (concat (map rtnh_bytes hops))"
  have "length ?hs mod 4 = 0"
  proof (induction hops)
    case (Cons hop hops)
    have "length (rtnh_bytes hop) mod 4 = 0" using attrs_aligned [of "snd hop"] mod_add_right_eq [of 8 "length (concat (map rtattr_bytes (snd hop)))" 4]
      by (simp add: rtnh_bytes_def)
    with Cons show ?case by (metis concat.simps(2) length_append list.simps(9) mod_add_eq add_0 mod_0)
  qed simp
  then have al: "nl_align (4 + length ?hs) = 4 + length ?hs" by (intro nl_align_aligned) presburger
  have g: "rtattr_good (RTA_MULTIPATH, ?hs)" using len by (simp add: rtattr_good_def RTA_MULTIPATH_def)
  have l: "length (rtattr_bytes (RTA_MULTIPATH, ?hs)) = 4 + length ?hs" using al by (simp add: rtattr_bytes_def numeral_eq_Suc)
  have h: "holds b p (rtattr_bytes (RTA_MULTIPATH, ?hs))" "holds b ?q (rtattr_bytes (RTA_CACHEINFO, replicate 32 0))"
      "holds b (?q + 36) (rtattr_bytes (RTA_PREF, [0]))"
    using b l by (simp_all add: holds_append add.assoc) (simp_all add: rtattr_bytes_def nl_align_def add.commute add.left_commute)
  note f = rtattr_fields [OF g h(1)]
  have each: "\<forall>hop \<in> set hops. hop_good hop \<and> length (rtnh_bytes hop) \<le> length ?hs"
    using hops by (auto simp: length_concat intro: member_le_sum_list)
  have e0: "zero_nh_entry = entry_of []" by (simp add: zero_nh_entry_def entry_of_def)
  have pref: "rtnh_len b (?q + 36) = 5" using rtattr_fields(1) [OF _ h(3)] by (simp add: rtattr_good_def RTA_PREF_def rtnh_len_def rta_len_def)
  have ok: "RTNH_OK b ?q (int (length ?hs))" using cacheinfo_hop(1) [OF h(2)] len(1) by (simp add: RTNH_OK_def)
  have nok: "\<not> RTNH_OK b (?q + 36) (int (length ?hs))" using pref by (simp add: RTNH_OK_def)
  have "read_rtnexthops env family b (p + 4) (int (length ?hs)) (entry_of [])
      = read_rtnexthops env family b ?q (int (length ?hs)) (entry_of (map (hop_info env family) hops))"
    using read_rtnexthops_hops [OF each, of b "p + 4" "[]"] f(3) n m by (simp add: rta_data_def)
  also have "\<dots> = read_rtnexthops env family b (?q + 36) (int (length ?hs)) (entry_of (map (hop_info env family) hops @ [gateway_info env family 0 None]))"
    using read_rtnexthops_step [OF ok _ cacheinfo_hop(2) [OF h(2)]] cacheinfo_hop(1) [OF h(2)] n by (simp add: nl_align_def)
  also have "\<dots> = Some (entry_of (map (hop_info env family) hops @ [gateway_info env family 0 None]))"
    using nok by (subst read_rtnexthops.simps) simp
  finally show ?thesis using x f(1) e0 by (simp add: route_multipath_def rta_payload_def rta_data_def)
qed

lemma offsets_append:
  "attributes.offsets p (xs @ ys) = attributes.offsets p xs @ attributes.offsets (p + length (concat (map rtattr_bytes xs))) ys"
  by (induction xs arbitrary: p) (auto simp: add.assoc)

lemma att_fold_other:
  "\<lbrakk> \<forall>a \<in> set as. rtattr_good a \<and> fst a \<noteq> t; holds b p (concat (map rtattr_bytes as)); t \<le> maxi; maxi < length rtas \<rbrakk> \<Longrightarrow>
     att (fold (store_attr b maxi) (attributes.offsets p as) rtas) t = att rtas t"
proof (induction as arbitrary: p rtas)
  case (Cons a as)
  then have h: "holds b p (rtattr_bytes a)" "holds b (p + length (rtattr_bytes a)) (concat (map rtattr_bytes as))" and g: "rtattr_good a" "fst a \<noteq> t"
    by (auto simp: holds_append)
  from Cons.IH [OF _ h(2), of "store_attr b maxi p rtas"] Cons.prems rtattr_fields(2) [OF g(1) h(1)] g(2) att_store [of t maxi rtas b p]
  show ?case by (simp add: store_attr_def)
qed simp

lemma att_fold_last:
  assumes "\<forall>a \<in> set (pre @ (t, x) # post). rtattr_good a" "t \<notin> fst ` set post" "t \<le> maxi" "maxi < length rtas"
    and h: "holds b p (concat (map rtattr_bytes (pre @ (t, x) # post)))"
  shows "att (fold (store_attr b maxi) (attributes.offsets p (pre @ (t, x) # post)) rtas) t = Some (p + length (concat (map rtattr_bytes pre)))"
proof -
  let ?q = "p + length (concat (map rtattr_bytes pre))"
  let ?r = "fold (store_attr b maxi) (attributes.offsets p pre) rtas"
  have "holds b ?q (rtattr_bytes (t, x))" "holds b (?q + length (rtattr_bytes (t, x))) (concat (map rtattr_bytes post))"
    using h by (simp_all add: holds_append)
  with att_fold_other [of post t b "?q + length (rtattr_bytes (t, x))" maxi "store_attr b maxi ?q ?r"] assms
    rtattr_fields(2) [of "(t, x)" b ?q] att_store [of t maxi ?r b ?q]
  show ?thesis by (force simp: offsets_append store_attr_def)
qed

text \<open>The attributes of a route to several IPv6 next hops, each given by its interface and gateway.\<close>

definition gw_hops :: "(nat \<times> u8 list) list \<Rightarrow> (nat \<times> (nat \<times> u8 list) list) list" where
  "gw_hops = map (\<lambda>(i, g). (i, [(RTA_GATEWAY, g)]))"

definition ipv6_multipath :: "(nat \<times> u8 list) list \<Rightarrow> (nat \<times> u8 list) list \<Rightarrow> (nat \<times> u8 list) list" where
  "ipv6_multipath pre hops = pre @ [(RTA_MULTIPATH, concat (map rtnh_bytes (gw_hops hops))), (RTA_CACHEINFO, replicate 32 0), (RTA_PREF, [0])]"

lemma gw_hops_good: "(\<forall>(i, g) \<in> set hops. i < 2 ^ 32 \<and> length g = 16) \<Longrightarrow> \<forall>hop \<in> set (gw_hops hops). hop_good hop"
  by (auto simp: gw_hops_def hop_good_def rtattr_good_def RTA_GATEWAY_def rtattr_bytes_def nl_align_def)

lemma length_gw_hops:
  "(\<forall>(i, g) \<in> set hops. i < 2 ^ 32 \<and> length g = 16) \<Longrightarrow> length (concat (map rtnh_bytes (gw_hops hops))) = 28 * length hops"
  by (induction hops) (auto simp: gw_hops_def rtnh_bytes_def rtattr_bytes_def nl_align_def)

lemma multipath_route_read:
  assumes g: "nlmsg_good (RTM_NEWROUTE, flags, route_body family dst_len as)"
    and h: "holds b h (nlmsg_bytes (RTM_NEWROUTE, flags, route_body family dst_len as))"
    and as: "as = ipv6_multipath pre hops"
    and pre: "\<forall>a \<in> set pre. rtattr_good a \<and> fst a \<notin> {RTA_OIF, RTA_GATEWAY, RTA_NH_ID, RTA_ENCAP}"
    and dst: "map_of (rev pre) RTA_DST = Some dst" "length dst \<le> 16"
    and hops: "\<forall>(i, g) \<in> set hops. i < 2 ^ 32 \<and> length g = 16" "2 \<le> length hops" "length hops < MAX_ECMP_ENTRY" and m: "30 \<le> RTA_MAX env"
  shows "netlink_read_nlmsg_route env d b h s
       = send_rib d (MSG_ROUTE_ENTRY_ADD (kernel_route family dst_len dst
           (map (hop_info env (int (unat family))) (gw_hops hops) @ [gateway_info env (int (unat family)) 0 None]))) s"
proof -
  note f = route_body_at [OF g h]
  let ?hs = "concat (map rtnh_bytes (gw_hops hops))" and ?p = "nlmsg_data h + 12"
  let ?tail = "[(RTA_MULTIPATH, ?hs), (RTA_CACHEINFO, replicate 32 0), (RTA_PREF, [0])]"
  have len: "length ?hs = 28 * length hops" by (rule length_gw_hops [OF hops(1)])
  have good: "\<forall>a \<in> set as. rtattr_good a"
    using pre hops(2,3) len by (auto simp: as ipv6_multipath_def rtattr_good_def rta_types RTA_CACHEINFO_def RTA_PREF_def MAX_ECMP_ENTRY_def)
  define rtas where "rtas = fold (store_attr b (RTA_MAX env)) (attributes.offsets ?p as) (replicate (RTA_MAX env + 1) None)"
  have ga: "get_attrs (RTA_MAX env + 1) (RTA_MAX env) b ?p (int (nlmsg_len b h) - 28) = Some rtas"
    using f(2,6) good by (simp add: get_attrs_fold attributes.frames_concat rtas_def)
  with get_attrs_finds [OF good f(6), of "RTA_MAX env" "RTA_MAX env + 1"] f(2)
  have att: "map_option (attr_payload b) (att rtas t) = map_of (rev as) t" if "t \<le> 30" for t using m that by auto
  have rev: "map_of (rev as) t = map_of (rev pre) t" if "t \<notin> {RTA_MULTIPATH, RTA_CACHEINFO, RTA_PREF}" for t
    using that by (simp add: as ipv6_multipath_def)
  have nopre: "map_of (rev pre) t = None" if "t \<in> {RTA_OIF, RTA_GATEWAY, RTA_NH_ID, RTA_ENCAP}" for t
    using pre that by (fastforce simp: map_of_eq_None_iff)
  have none: "att rtas RTA_OIF = None" "att rtas RTA_GATEWAY = None" "att rtas RTA_NH_ID = None" "att rtas RTA_ENCAP = None"
    using att [of RTA_OIF] att [of RTA_GATEWAY] att [of RTA_NH_ID] att [of RTA_ENCAP] rev nopre by (auto simp: rta_types RTA_CACHEINFO_def RTA_PREF_def)
  obtain r1 where r1: "att rtas RTA_DST = Some r1" "attr_payload b r1 = dst"
    using att [of RTA_DST] rev [of RTA_DST] dst(1) by (auto simp: rta_types RTA_CACHEINFO_def RTA_PREF_def)
  have d: "attr_bytes b (att rtas RTA_DST) 16 = Some (zero_extend dst)"
    using r1 dst(2) payload_copy [of b r1 dst "replicate 16 0"] by (simp add: attr_bytes_def zero_extend_def)
  have mp: "att rtas RTA_MULTIPATH = Some (?p + length (concat (map rtattr_bytes pre)))"
    unfolding rtas_def as ipv6_multipath_def
    by (rule att_fold_last) (use good f(6) m in \<open>auto simp: as ipv6_multipath_def rta_types RTA_CACHEINFO_def RTA_PREF_def\<close>)
  have "holds b (?p + length (concat (map rtattr_bytes pre))) (concat (map rtattr_bytes ?tail))"
    using f(6) unfolding as ipv6_multipath_def map_append concat_append holds_append by simp
  from multipath_extra_hop [OF gw_hops_good [OF hops(1)] _ _ _ m mp this] len hops(2,3)
  have "route_multipath env family' b rtas zero_nh_entry = Some (entry_of (map (hop_info env family') (gw_hops hops) @ [gateway_info env family' 0 None]))"
    for family' by (simp add: MAX_ECMP_ENTRY_def gw_hops_def)
  with none d f(3,4,5) have "parse_route env b (nlmsg_data h) rtas = Some (kernel_route family dst_len dst
      (map (hop_info env (int (unat family))) (gw_hops hops) @ [gateway_info env (int (unat family)) 0 None]))"
    by (simp add: parse_route_def Let_def route_single_def route_encap_def kernel_route_def)
  with ga r1 f show ?thesis by (simp add: netlink_read_nlmsg_route_def Let_def RT_TABLE_MAIN_def)
qed

section \<open>Neighbor messages\<close>

lemma get_rtattr_overflow:
  "\<lbrakk> r \<in> set (frames rta_len 4 b p len); length rtas \<le> rta_type b r; rta_type b r \<le> maxi \<rbrakk> \<Longrightarrow> netlink_get_rtattr rtas maxi b p len n = None"
proof (induction rtas maxi b p len n rule: netlink_get_rtattr.induct)
  case (1 rtas maxi b p len n)
  have ok: "RTA_OK b p len \<longleftrightarrow> 4 \<le> len \<and> 4 \<le> rta_len b p \<and> int (rta_len b p) \<le> len" by (simp add: RTA_OK_def)
  from 1(3) have ne: "RTA_OK b p len" by (subst (asm) frames.simps) (auto simp: ok split: if_splits)
  then have "frames rta_len 4 b p len = p # frames rta_len 4 b (p + nl_align (rta_len b p)) (len - int (nl_align (rta_len b p)))"
    using ok by (subst frames.simps) simp
  with 1 ne show ?case by (subst netlink_get_rtattr.simps) (auto simp: Let_def)
qed

definition neigh_body :: "u8 list \<Rightarrow> (nat \<times> u8 list) list \<Rightarrow> u8 list" where
  "neigh_body ndm as = ndm @ concat (map rtattr_bytes as)"

lemma offsets_type:
  "\<lbrakk> \<forall>a \<in> set as. rtattr_good a; holds b p (concat (map rtattr_bytes as)); a \<in> set as \<rbrakk> \<Longrightarrow>
     \<exists>r \<in> set (attributes.offsets p as). rta_type b r = fst a"
proof (induction as arbitrary: p)
  case (Cons c as)
  then have h: "holds b p (rtattr_bytes c)" "holds b (p + length (rtattr_bytes c)) (concat (map rtattr_bytes as))" "rtattr_good c"
    by (auto simp: holds_append)
  with Cons rtattr_fields(2) [OF h(3,1)] Cons.IH [OF _ h(2)] show ?case by auto
qed simp

lemma neigh_unknown_attribute:
  assumes g: "nlmsg_good (type, flags, neigh_body ndm as)" and h: "holds b h (nlmsg_bytes (type, flags, neigh_body ndm as))"
    and as: "\<forall>a \<in> set as. rtattr_good a" "length ndm = 12" "20 \<le> length (neigh_body ndm as)"
    and a: "(t, x) \<in> set as" "NDA_MAX env < t" "t \<le> RTA_MAX env"
  shows "netlink_read_nlmsg_neigh env d b h s = None"
proof -
  note f = nlmsg_fields [OF g h]
  have at: "holds b (nlmsg_data h + 12) (concat (map rtattr_bytes as))" using f(3) as(2) by (simp add: neigh_body_def holds_append)
  have len: "int (nlmsg_len b h) - 28 = int (length (concat (map rtattr_bytes as)))" using f(1) as(2) by (simp add: neigh_body_def)
  obtain r where "r \<in> set (attributes.offsets (nlmsg_data h + 12) as)" "rta_type b r = t" using offsets_type [OF as(1) at a(1)] by auto
  with attributes.frames_concat [OF as(1) at] a len
  have "get_attrs (NDA_MAX env + 1) (RTA_MAX env) b (nlmsg_data h + 12) (int (nlmsg_len b h) - 28) = None"
    by (auto simp: get_attrs_def intro: get_rtattr_overflow)
  with f(1) as(3) show ?thesis by (simp add: netlink_read_nlmsg_neigh_def Let_def)
qed

section \<open>Hooks\<close>

definition hook_matches :: "nlhook_entry \<Rightarrow> nat \<Rightarrow> int \<Rightarrow> string \<Rightarrow> int \<Rightarrow> nat \<Rightarrow> bool" where
  "hook_matches e type ifindex ifname family prefix_len \<longleftrightarrow>
     (let cs = nlhook_criteria e type ifindex ifname family prefix_len in (\<exists>c \<in> set cs. fst c) \<and> (\<forall>c \<in> set cs. fst c \<longrightarrow> snd c))"

lemma tally_spec: "(snd (tally cs) = 0 \<longleftrightarrow> (\<forall>c \<in> set cs. fst c \<longrightarrow> snd c)) \<and> (fst (tally cs) \<noteq> 0 \<longleftrightarrow> (\<exists>c \<in> set cs. fst c \<and> snd c))"
  by (induction cs rule: tally.induct) (auto split: prod.splits)

lemma nlhook_check_spec:
  "nlhook_check_ifaddr type ifindex ifname family prefix_len es =
     map (\<lambda>e. if hook_matches e type ifindex ifname family prefix_len then e\<lparr>nlh_sched := nlh_sched e + 1\<rparr> else e) es"
  unfolding nlhook_check_ifaddr_def
  by (rule map_cong [OF refl]) (use tally_spec in \<open>force simp: hook_matches_def Let_def case_prod_beta\<close>)

lemma hook_matches_sched [simp]: "hook_matches (e\<lparr>nlh_sched := n\<rparr>) = hook_matches e"
  by (intro ext) (simp add: hook_matches_def nlhook_criteria_def)

lemma nlhook_check_pow:
  "(nlhook_check_ifaddr type ifindex ifname family prefix_len ^^ n) es =
     map (\<lambda>e. if hook_matches e type ifindex ifname family prefix_len then e\<lparr>nlh_sched := nlh_sched e + of_nat n\<rparr> else e) es"
  by (induction n) (auto simp: nlhook_check_spec add.commute add.left_commute intro: map_idI [symmetric])

lemma netlink_hook_exec_spec:
  "never_fails forks \<Longrightarrow> \<exists>forks'. never_fails forks' \<and>
     netlink_hook_exec es forks = (map (\<lambda>e. e\<lparr>nlh_sched := 0\<rparr>) es, forks', map nlh_argv_list_index (filter (\<lambda>e. nlh_sched e \<noteq> 0) es))"
proof (induction es arbitrary: forks)
  case (Cons e es)
  obtain f where f: "malloc_ok forks = (True, f)" "never_fails f" using malloc_never_fails [OF Cons.prems] by auto
  show ?case using Cons.IH [OF f(2)] Cons.IH [OF Cons.prems] f by (cases "nlh_sched e = 0") auto
qed simp

lemma of_nat_256: "(of_nat n :: u8) = 0 \<longleftrightarrow> 256 dvd n"
  by (simp add: word_of_nat_eq_0_iff)

section \<open>The log of segments\<close>

lemma log_segments_overflow:
  assumes "\<forall>j\<le>i. k \<le> length (inet_ntop env AF_INET6 (rdn b (srh + 8 + 16 * j) 16))" "1024 < length str + i * (k + 1)"
  shows "log_segments env b srh i str = None"
  using assms
proof (induction i arbitrary: str)
  case (Suc i)
  let ?t = "inet_ntop env AF_INET6 (rdn b (srh + 8 + 16 * Suc i) 16)"
  have "k \<le> length ?t" using Suc.prems(1) by blast
  with Suc.IH [of "str @ ?t @ '',''"] Suc.prems show ?case
    by (subst log_segments.simps) (auto simp: sn_append_def split: bind_splits)
qed (subst log_segments.simps, simp add: sn_append_def)

lemma log_segments_fits:
  assumes "\<forall>j\<le>i. length (inet_ntop env AF_INET6 (rdn b (srh + 8 + 16 * j) 16)) \<le> k" "length str + i * (k + 1) \<le> 1024"
  shows "\<exists>str'. log_segments env b srh i str = Some str'"
  using assms
proof (induction i arbitrary: str)
  case (Suc i)
  let ?t = "inet_ntop env AF_INET6 (rdn b (srh + 8 + 16 * Suc i) 16)"
  have "length ?t \<le> k" using Suc.prems(1) by blast
  with Suc.IH [of "str @ ?t @ '',''"] Suc.prems show ?case
    by (subst log_segments.simps) (auto simp: sn_append_def)
qed (subst log_segments.simps, simp add: sn_append_def)

section \<open>Properties\<close>

text \<open>
  The attributes of a message are found.  When memory holds a sequence of attributes in the
  layout of rtnetlink, the parser returns for each type up to its limit the payload of the last
  attribute of that type, and nothing for a type that does not occur.
\<close>

theorem netlink_attributes_found:
  assumes "\<forall>a \<in> set as. rtattr_good a" "holds b p (concat (map rtattr_bytes as))" "maxi < sz"
    and "len = int (length (concat (map rtattr_bytes as)))"
  shows "\<exists>rtas. get_attrs sz maxi b p len = Some rtas \<and> length rtas = sz
           \<and> (\<forall>t\<le>maxi. map_option (attr_payload b) (att rtas t) = map_of (rev as) t)"
  using assms by (rule get_attrs_finds)

definition sample_attrs :: "(nat \<times> u8 list) list" where
  "sample_attrs = [(15, [254, 0, 0, 0]), (RTA_DST, [10, 1, 0, 0]), (6, [100, 0, 0, 0]), (RTA_GATEWAY, [192, 168, 0, 1]), (RTA_OIF, le32 3)]"

definition sample_nl_env :: nl_env where
  "sample_nl_env = \<lparr>RTA_MAX = 30, NDA_MAX = 14, NHA_MAX = 17, IFLA_MAX = 60, IFA_MAX = 11, SEG6_LOCAL_MAX = 11,
     if_indextoname = (\<lambda>i. if i = 3 then Some ''eth0'' else None), inet_ntop = (\<lambda>af a. replicate 39 (CHR ''f'')), stack_str = []\<rparr>"

lemma sample_good: "nlmsg_good (RTM_NEWROUTE, 0, route_body 2 16 sample_attrs)"
  by (simp add: nlmsg_good_def RTM_NEWROUTE_def route_body_def sample_attrs_def rtattr_bytes_def nl_align_def)

lemma sample_single: "single_route sample_attrs [10, 1, 0, 0] (Some [192, 168, 0, 1]) 3"
  by (simp add: single_route_def sample_attrs_def rta_types rtattr_good_def)

lemma sample_rta_max: "30 \<le> RTA_MAX sample_nl_env"
  by (simp add: sample_nl_env_def)

theorem netlink_attributes_found_witness:
  "\<exists>rtas. get_attrs 31 30 (bytes_at (concat (map rtattr_bytes sample_attrs))) 0 40 = Some rtas
     \<and> map_option (attr_payload (bytes_at (concat (map rtattr_bytes sample_attrs)))) (att rtas RTA_GATEWAY) = Some [192, 168, 0, 1]
     \<and> att rtas RTA_ENCAP = None"
proof -
  have len: "(40::int) = int (length (concat (map rtattr_bytes sample_attrs)))" by (simp add: sample_attrs_def rtattr_bytes_def nl_align_def)
  have "\<forall>a \<in> set sample_attrs. rtattr_good a" by (simp add: sample_attrs_def rtattr_good_def rta_types)
  from netlink_attributes_found [OF this holds_self _ len, of 30 31] obtain rtas
    where r: "get_attrs 31 30 (bytes_at (concat (map rtattr_bytes sample_attrs))) 0 40 = Some rtas"
      "\<And>t. t \<le> 30 \<Longrightarrow> map_option (attr_payload (bytes_at (concat (map rtattr_bytes sample_attrs)))) (att rtas t) = map_of (rev sample_attrs) t"
    by auto
  have "map_of (rev sample_attrs) RTA_GATEWAY = Some [192, 168, 0, 1]" "map_of (rev sample_attrs) RTA_ENCAP = None"
    by (simp_all add: sample_attrs_def rta_types)
  with r(1) r(2) [of RTA_GATEWAY] r(2) [of RTA_ENCAP] show ?thesis by (auto simp: rta_types)
qed




definition sample_dgram :: "u8 list" where
  "sample_dgram = nlmsg_bytes (RTM_NEWROUTE, 0, route_body 2 16 sample_attrs)"

definition nl_start :: nl_state where
  "nl_start = \<lparr>nlhook_entries = replicate NLHOOK_SIZE zero_nlhook, nl_dp = dp_start, nl_buf = (\<lambda>_. 0), msg_count = 0\<rparr>"

lemma sample_frames: "frames nlmsg_len 16 (bytes_at sample_dgram) 0 (int (length sample_dgram)) = [0]"
  using messages.frames_concat [of "[(RTM_NEWROUTE, 0, route_body 2 16 sample_attrs)]" "bytes_at sample_dgram" 0] holds_self [of sample_dgram] sample_good
  by (simp add: sample_dgram_def)

lemma sample_dgram_length: "length sample_dgram = 68"
  by (simp add: sample_dgram_def nlmsg_bytes_def route_body_def sample_attrs_def rtattr_bytes_def nl_align_def)

lemma sample_dgram_ok: "dgram_ok (take 8192 sample_dgram)"
proof -
  from route_body_at [OF sample_good holds_self] have "bytes_at sample_dgram 16 = 2" "bytes_at sample_dgram 17 = 16"
    by (simp_all add: sample_dgram_def nlmsg_data_def)
  with sample_frames sample_dgram_length show ?thesis by (simp add: dgram_ok_def route_hdr_ok_def)
qed

text \<open>One datagram of the kernel with one route, one message for the RIB manager.\<close>

lemma read_route_dgram:
  assumes g: "nlmsg_good (RTM_NEWROUTE, flags, route_body family dst_len as)" and s: "single_route as dst gateway ifindex"
    and r: "30 \<le> RTA_MAX env" and q: "msg_queue_rib d" and len: "length dg \<le> 8192" and dg: "dg = nlmsg_bytes (RTM_NEWROUTE, flags, route_body family dst_len as)"
  shows "\<exists>rest st'. netlink_read env d [Recv 0 12 dg, Recv_Again] False nl_start = Some (Returned 0, rest, st')
     \<and> dp_events (nl_dp st') = [Rib_Msg (MSG_ROUTE_ENTRY_ADD (kernel_route family dst_len dst [gateway_info env (int (unat family)) ifindex gateway]))]"
proof -
  let ?b = "fill dg (\<lambda>_. 0)" and ?m = "kernel_route family dst_len dst [gateway_info env (int (unat family)) ifindex gateway]"
  have eq: "?b = bytes_at dg" by (simp add: fill_def bytes_at_def)
  have h: "holds ?b 0 (nlmsg_bytes (RTM_NEWROUTE, flags, route_body family dst_len as))" using holds_self [of dg] eq dg by simp
  have ne: "dg \<noteq> []" by (simp add: dg nlmsg_bytes_def padded_def le32_def le16_def)
  have "netlink_read_nlmsg_route env d ?b 0 dp_start = send_rib d (MSG_ROUTE_ENTRY_ADD ?m) dp_start"
    using route_message_read [OF g h s r, of d dp_start] by simp
  then obtain t where t: "read_nlmsg env d ?b 0 (nl_start\<lparr>nl_buf := ?b, msg_count := 1\<rparr>) = Some t"
     "dp_events (nl_dp t) = [Rib_Msg (MSG_ROUTE_ENTRY_ADD ?m)]"
    using route_body_at(1) [OF g h] q by (simp add: read_nlmsg_def on_dp_def nl_types nl_start_def send_rib_def internal_msg_create_def
        internal_msg_send_to_def dp_start_def emit_def)
  have "frames nlmsg_len 16 ?b 0 (int (length dg)) = [0]" using messages.frames_concat [of "[(RTM_NEWROUTE, flags, route_body family dst_len as)]" ?b 0] g h dg
    by simp
  with t(1) obtain fin where "read_nlmsgs env d ?b 0 (int (length dg)) False (nl_start\<lparr>nl_buf := ?b, msg_count := 1\<rparr>) = Some (fin, t)"
    using read_nlmsgs_each [of env d ?b 0 "int (length dg)" False "nl_start\<lparr>nl_buf := ?b, msg_count := 1\<rparr>"] by auto
  with len t(2) ne show ?thesis by (cases fin) (auto simp: nl_start_def Let_def)
qed

lemma sample_read:
  "\<exists>rest st'. netlink_read sample_nl_env sample_dpdk [Recv 0 12 sample_dgram, Recv_Again] False nl_start = Some (Returned 0, rest, st')
     \<and> dp_events (nl_dp st') = [Rib_Msg (MSG_ROUTE_ENTRY_ADD (kernel_route 2 16 [10, 1, 0, 0] [gateway_info sample_nl_env 2 3 (Some [192, 168, 0, 1])]))]"
proof -
  have "length sample_dgram \<le> 8192" "msg_queue_rib sample_dpdk" by (simp_all add: sample_dgram_length sample_dpdk_def)
  from read_route_dgram [OF sample_good sample_single sample_rta_max this(2,1) sample_dgram_def] show ?thesis by simp
qed


text \<open>
  C30: An IPv6 route to several next hops gains one.  The loop over \<^verbatim>\<open>RTA_MULTIPATH\<close> does not count
  down the length, so it reads on behind the attribute: of a kernel message whose next hops are
  followed by \<^verbatim>\<open>RTA_CACHEINFO\<close> and \<^verbatim>\<open>RTA_PREF\<close>, the former is taken for one more next hop, connected
  on interface 0, and the RIB manager is told so.
\<close>

theorem ipv6_multipath_gains_next_hop:
  assumes "nlmsg_good (RTM_NEWROUTE, flags, route_body family dst_len as)"
    and "holds b h (nlmsg_bytes (RTM_NEWROUTE, flags, route_body family dst_len as))"
    and "as = ipv6_multipath pre hops"
    and "\<forall>a \<in> set pre. rtattr_good a \<and> fst a \<notin> {RTA_OIF, RTA_GATEWAY, RTA_NH_ID, RTA_ENCAP}"
    and "map_of (rev pre) RTA_DST = Some dst" "length dst \<le> 16"
    and "\<forall>(i, g) \<in> set hops. i < 2 ^ 32 \<and> length g = 16" "2 \<le> length hops" "length hops < MAX_ECMP_ENTRY" "30 \<le> RTA_MAX env"
  shows "netlink_read_nlmsg_route env d b h s
       = send_rib d (MSG_ROUTE_ENTRY_ADD (kernel_route family dst_len dst
           (map (hop_info env (int (unat family))) (gw_hops hops) @ [gateway_info env (int (unat family)) 0 None]))) s"
  using assms by (rule multipath_route_read)

definition sample_hops :: "(nat \<times> u8 list) list" where
  "sample_hops = [(3, replicate 15 0 @ [1]), (4, replicate 15 0 @ [2])]"

definition sample_multipath :: "u8 list" where
  "sample_multipath = nlmsg_bytes (RTM_NEWROUTE, 0, route_body 10 64 (ipv6_multipath [(RTA_DST, 32 # replicate 15 0)] sample_hops))"

theorem ipv6_multipath_gains_next_hop_witness:
  "\<exists>m s'. netlink_read_nlmsg_route sample_nl_env sample_dpdk (bytes_at sample_multipath) 0 dp_start = Some (0, s')
     \<and> dp_events s' = [Rib_Msg (MSG_ROUTE_ENTRY_ADD m)] \<and> length sample_hops = 2 \<and> msg_nhcnt (mre_nh m) = 3"
proof -
  let ?pre = "[(RTA_DST, 32 # replicate 15 0)] :: (nat \<times> u8 list) list"
  have hops: "\<forall>(i, g) \<in> set sample_hops. i < 2 ^ 32 \<and> length g = 16" "2 \<le> length sample_hops" "length sample_hops < MAX_ECMP_ENTRY" "length sample_hops = 2"
    by (simp_all add: sample_hops_def MAX_ECMP_ENTRY_def)
  have r: "30 \<le> RTA_MAX sample_nl_env" by (simp add: sample_nl_env_def)
  have "length (concat (map rtnh_bytes (gw_hops sample_hops))) = 56" using length_gw_hops [OF hops(1)] hops(4) by simp
  then have g: "nlmsg_good (RTM_NEWROUTE, 0, route_body 10 64 (ipv6_multipath ?pre sample_hops))"
    by (simp add: nlmsg_good_def RTM_NEWROUTE_def route_body_def ipv6_multipath_def rtattr_bytes_def nl_align_def)
  have pre: "\<forall>a \<in> set ?pre. rtattr_good a \<and> fst a \<notin> {RTA_OIF, RTA_GATEWAY, RTA_NH_ID, RTA_ENCAP}" "map_of (rev ?pre) RTA_DST = Some (32 # replicate 15 0)"
    by (simp_all add: rtattr_good_def rta_types)
  have n: "msg_nhcnt (mre_nh (kernel_route 10 64 dst (map f (gw_hops sample_hops) @ [i]))) = 3" for dst f i
    by (simp add: kernel_route_def entry_of_def gw_hops_def hops(4))
  show ?thesis
    using ipv6_multipath_gains_next_hop [OF g holds_self refl pre _ hops(1,2,3) r, of sample_dpdk dp_start] n hops(4)
    by (auto simp: sample_multipath_def send_rib_def internal_msg_create_def internal_msg_send_to_def dp_start_def sample_dpdk_def emit_def)
qed

text \<open>
  A neighbor message with an attribute the program does not know can write out of bounds.  The
  handler has an array for the attributes up to \<^verbatim>\<open>NDA_MAX\<close> but accepts types up to \<^verbatim>\<open>RTA_MAX\<close>: any
  attribute of a type in between is stored behind the end of the array.
\<close>

theorem neigh_attribute_overflow:
  assumes "nlmsg_good (type, flags, neigh_body ndm as)" "holds b h (nlmsg_bytes (type, flags, neigh_body ndm as))"
    and "\<forall>a \<in> set as. rtattr_good a" "length ndm = 12" "20 \<le> length (neigh_body ndm as)"
    and "(t, x) \<in> set as" "NDA_MAX env < t" "t \<le> RTA_MAX env"
  shows "netlink_read_nlmsg_neigh env d b h s = None"
  using assms by (rule neigh_unknown_attribute)

theorem neigh_attribute_overflow_witness:
  "netlink_read_nlmsg_neigh sample_nl_env sample_dpdk
     (bytes_at (nlmsg_bytes (RTM_NEWNEIGH, 0, neigh_body (2 # replicate 11 0) [(NDA_DST, [10, 0, 0, 1]), (15, [0, 0, 0, 0])]))) 0 dp_start = None"
  by (rule neigh_attribute_overflow [OF _ holds_self, where t = 15 and x = "[0, 0, 0, 0]"])
    (simp_all add: nlmsg_good_def RTM_NEWNEIGH_def neigh_body_def rtattr_bytes_def nl_align_def rtattr_good_def NDA_DST_def sample_nl_env_def)



definition segment_text :: "nl_env \<Rightarrow> key \<Rightarrow> nat \<Rightarrow> nat \<Rightarrow> string" where
  "segment_text env b tuninfo j = inet_ntop env AF_INET6 (rdn b (tuninfo + 12 + 16 * j) 16)"

text \<open>
  The log line of a segment list is safe for 25 segments and overruns its buffer from 27 long ones
  on.  A line of a list whose last index is at most 24 stays within the buffer, however its
  addresses are written (at most 39 characters); with an index of 26 or more and addresses of 39 characters, the
  line is written beyond the 1024 bytes of the buffer.
\<close>

theorem seg6_log_bounds:
  assumes "\<forall>j\<le>first_segment b (tuninfo + 4). length (segment_text env b tuninfo j) \<le> 39"
  shows "(first_segment b (tuninfo + 4) \<le> 24 \<longrightarrow> netlink_log_seg6 env b tuninfo \<noteq> None)
    \<and> (26 \<le> first_segment b (tuninfo + 4) \<and> (\<forall>j\<le>first_segment b (tuninfo + 4). length (segment_text env b tuninfo j) = 39) \<longrightarrow> netlink_log_seg6 env b tuninfo = None)"
proof -
  let ?n = "first_segment b (tuninfo + 4)"
  have mode: "length (seg6_mode_str m) \<le> 15" for m by (simp add: seg6_mode_str_def)
  obtain str where str: "length str \<le> 31" "netlink_log_seg6 env b tuninfo = log_segments env b (tuninfo + 4) ?n str"
  proof (rule that [of "''seg6'' @ (if 0 \<le> s32 (rd32 b tuninfo) then '' mode '' @ seg6_mode_str (s32 (rd32 b tuninfo)) else []) @ '' segs ''"])
  qed (use mode [of "s32 (rd32 b tuninfo)"] in \<open>auto simp: netlink_log_seg6_def Let_def sn_append_def\<close>)
  have "\<exists>str'. log_segments env b (tuninfo + 4) ?n str = Some str'" if "?n \<le> 24"
    by (rule log_segments_fits [where k = 39]) (use assms that str(1) in \<open>simp_all add: segment_text_def ac_simps\<close>)
  moreover have "log_segments env b (tuninfo + 4) ?n str = None" if "26 \<le> ?n" "\<forall>j\<le>?n. length (segment_text env b tuninfo j) = 39"
    by (rule log_segments_overflow [where k = 39]) (use that in \<open>simp_all add: segment_text_def ac_simps\<close>)
  ultimately show ?thesis using str(2) by auto
qed

theorem seg6_log_bounds_witness:
  "netlink_log_seg6 sample_nl_env (bytes_at (replicate 9 26)) 0 = None \<and> netlink_log_seg6 sample_nl_env (bytes_at (replicate 9 24)) 0 \<noteq> None"
proof -
  have len: "\<forall>j\<le>n. length (inet_ntop sample_nl_env AF_INET6 (rdn b (0 + 12 + 16 * j) 16)) = 39" for b n by (simp add: sample_nl_env_def)
  have f: "first_segment (bytes_at (replicate 9 x)) (0 + 4) = unat x" for x by (simp add: first_segment_def bytes_at_def)
  show ?thesis
    using seg6_log_bounds [of "bytes_at (replicate 9 26)" 0 sample_nl_env] seg6_log_bounds [of "bytes_at (replicate 9 24)" 0 sample_nl_env] len f
    by (simp add: f segment_text_def)
qed

end
