(* ===== verification/Vector.thy ===== *)
theory Vector
  imports Interfaces
begin

text \<open>
  The growing arrays of pointers of \<^verbatim>\<open>lib/sdplane/vector.c\<close>, which hold the command tree of the
  shell and its history.  A vector is its array, of \<^verbatim>\<open>limit\<close> elements, and the number in use; a
  null pointer is \<open>None\<close>.  The outcomes of \<^verbatim>\<open>realloc\<close> are a list, like those of \<^verbatim>\<open>malloc\<close>.  Sizes
  are natural numbers: a vector with \<^verbatim>\<open>2^31\<close> elements does not fit into memory.  A violated
  assertion is \<open>None\<close> as a result.  An iterator (\<^verbatim>\<open>vector_head\<close>, \<^verbatim>\<open>vector_next\<close>) over a vector that
  the body of the loop does not change visits the elements in use in order.
\<close>

section \<open>State and operations\<close>

record 'a vector =
  v_array :: "'a option list"
  v_size :: nat

definition v_limit :: "'a vector \<Rightarrow> nat" where "v_limit v = length (v_array v)"

definition VECTOR_DEFSIZ :: nat where "VECTOR_DEFSIZ = 1"
definition VECTOR_RETRY :: nat where "VECTOR_RETRY = 16"

definition vector_create :: "mallocs \<Rightarrow> 'a vector option \<times> mallocs" where
  "vector_create ms =
     (case malloc_ok ms of
        (False, ms) \<Rightarrow> (None, ms)
      | (True, ms) \<Rightarrow>
          (case malloc_ok ms of
             (False, ms) \<Rightarrow> (None, ms)
           | (True, ms) \<Rightarrow> (Some \<lparr>v_array = replicate VECTOR_DEFSIZ None, v_size = 0\<rparr>, ms)))"

text \<open>The index of the first element equal to \<open>data\<close>, and the bisection of a sorted vector.\<close>

definition vector_lookup_index :: "'a option \<Rightarrow> 'a vector \<Rightarrow> nat option" where
  "vector_lookup_index data v = List.find (\<lambda>i. v_array v ! i = data) [0..<v_size v]"

definition vector_lookup :: "'a option \<Rightarrow> 'a vector \<Rightarrow> 'a option" where
  "vector_lookup data v = (case vector_lookup_index data v of None \<Rightarrow> None | Some i \<Rightarrow> v_array v ! i)"

fun vector_binsearch :: "'a option \<Rightarrow> nat \<Rightarrow> nat \<Rightarrow> ('a option \<Rightarrow> 'a option \<Rightarrow> int) \<Rightarrow> 'a vector \<Rightarrow> nat option" where
  "vector_binsearch data index n cmp v =
     (let middle = index + n div 2; shift = (if n mod 2 = 1 then 1 else 0); ret = cmp data (v_array v ! middle)
      in if ret = 0 then Some middle
         else if n = 0 \<or> n = 1 then None
         else if ret < 0 then vector_binsearch data index (n div 2) cmp v
         else vector_binsearch data (middle + shift) (n div 2) cmp v)"

declare vector_binsearch.simps [simp del]

definition vector_lookup_index_bsearch :: "'a option \<Rightarrow> ('a option \<Rightarrow> 'a option \<Rightarrow> int) \<Rightarrow> 'a vector \<Rightarrow> nat option" where
  "vector_lookup_index_bsearch data cmp v =
     (if v_size v = 0 then None
      else case vector_binsearch data 0 (v_size v) cmp v of
             None \<Rightarrow> None
           | Some index \<Rightarrow> if cmp data (v_array v ! index) = 0 then Some index else None)"

definition vector_lookup_bsearch :: "'a option \<Rightarrow> ('a option \<Rightarrow> 'a option \<Rightarrow> int) \<Rightarrow> 'a vector \<Rightarrow> 'a option" where
  "vector_lookup_bsearch data cmp v =
     (case vector_lookup_index_bsearch data cmp v of None \<Rightarrow> None | Some index \<Rightarrow> v_array v ! index)"

definition vector_expand :: "'a vector \<times> mallocs \<Rightarrow> 'a vector \<times> mallocs" where
  "vector_expand vm =
     (case malloc_ok (snd vm) of
        (ok, ms) \<Rightarrow> (if ok then (fst vm)\<lparr>v_array := v_array (fst vm) @ replicate (v_limit (fst vm)) None\<rparr> else fst vm, ms))"

text \<open>\<open>while (retry-- && P v) vector_expand (v)\<close>\<close>

fun expand_while :: "nat \<Rightarrow> ('a vector \<Rightarrow> bool) \<Rightarrow> 'a vector \<times> mallocs \<Rightarrow> 'a vector \<times> mallocs" where
  "expand_while 0 P vm = vm"
| "expand_while (Suc retry) P vm = (if P (fst vm) then expand_while retry P (vector_expand vm) else vm)"

definition vector_add_allow_dup :: "'a option \<Rightarrow> 'a vector \<times> mallocs \<Rightarrow> 'a vector \<times> mallocs" where
  "vector_add_allow_dup data vm =
     (case expand_while VECTOR_RETRY (\<lambda>v. v_size v = v_limit v) vm of
        (v, ms) \<Rightarrow>
          (if v_size v = v_limit v then v else v\<lparr>v_array := (v_array v)[v_size v := data], v_size := v_size v + 1\<rparr>, ms))"

definition vector_add :: "'a option \<Rightarrow> 'a vector \<times> mallocs \<Rightarrow> ('a vector \<times> mallocs) option" where
  "vector_add data vm = (if vector_lookup data (fst vm) \<noteq> None then None else Some (vector_add_allow_dup data vm))"

text \<open>\<^verbatim>\<open>qsort\<close> with a comparison that orders the elements like the key \<open>k\<close>.\<close>

definition vector_sort :: "('a option \<Rightarrow> 'k::linorder) \<Rightarrow> 'a vector \<Rightarrow> 'a vector" where
  "vector_sort k v = v\<lparr>v_array := sort_key k (take (v_size v) (v_array v)) @ drop (v_size v) (v_array v)\<rparr>"

definition vector_add_sort :: "'a option \<Rightarrow> ('a option \<Rightarrow> 'k::linorder) \<Rightarrow> 'a vector \<times> mallocs \<Rightarrow> ('a vector \<times> mallocs) option" where
  "vector_add_sort data k vm = map_option (\<lambda>(v, ms). (vector_sort k v, ms)) (vector_add data vm)"

definition vector_remove_index :: "nat \<Rightarrow> 'a vector \<Rightarrow> 'a vector" where
  "vector_remove_index index v =
     (let v = v\<lparr>v_array := (v_array v)[index := None], v_size := v_size v - 1\<rparr>
      in if index + 1 < v_limit v
         then v\<lparr>v_array := memmove index (index + 1) (v_limit v - index - 1) (v_array v)\<rparr>
         else v)"

definition vector_remove :: "'a option \<Rightarrow> 'a vector \<Rightarrow> 'a vector option" where
  "vector_remove data v =
     (case vector_lookup_index data v of None \<Rightarrow> None | Some index \<Rightarrow> Some (vector_remove_index index v))"

definition vector_clear :: "'a vector \<Rightarrow> 'a vector" where
  "vector_clear v = v\<lparr>v_array := replicate (v_limit v) None, v_size := 0\<rparr>"

definition vector_set :: "nat \<Rightarrow> 'a option \<Rightarrow> 'a vector \<times> mallocs \<Rightarrow> 'a vector \<times> mallocs" where
  "vector_set index data vm =
     (case expand_while VECTOR_RETRY (\<lambda>v. v_limit v \<le> index) vm of
        (v, ms) \<Rightarrow>
          (if v_limit v \<le> index then v
           else v\<lparr>v_array := (v_array v)[index := data], v_size := (if v_size v \<le> index then index + 1 else v_size v)\<rparr>, ms))"

definition vector_get :: "'a vector \<Rightarrow> nat \<Rightarrow> 'a option" where
  "vector_get v index = (if v_size v \<le> index then None else v_array v ! index)"

definition contents :: "'a vector \<Rightarrow> 'a option list" where
  "contents v = take (v_size v) (v_array v)"

text \<open>The iterator: an index and the element found there.\<close>

definition vector_head :: "'a vector \<Rightarrow> mallocs \<Rightarrow> (nat \<times> 'a option) option \<times> mallocs" where
  "vector_head v ms =
     (if v_size v = 0 then (None, ms)
      else case malloc_ok ms of (ok, ms) \<Rightarrow> (if ok then Some (0, v_array v ! 0) else None, ms))"

definition vector_next :: "'a vector \<Rightarrow> nat \<times> 'a option \<Rightarrow> (nat \<times> 'a option) option" where
  "vector_next v node =
     (let index = (if snd node = v_array v ! fst node \<and> fst node < v_size v then fst node + 1 else fst node)
      in if index = v_size v then None else Some (index, v_array v ! index))"

text \<open>
  Copies, comparison and the set operations, for two different vectors.  A new vector is null if
  memory runs out; \<open>None\<close> as a result is an assertion violated or a null pointer followed.
\<close>

definition vector_copy :: "'a vector \<Rightarrow> mallocs \<Rightarrow> ('a vector option \<times> mallocs) option" where
  "vector_copy v ms =
     (case vector_create ms of
        (None, ms) \<Rightarrow> if v_size v = 0 then Some (None, ms) else None
      | (Some c, ms) \<Rightarrow>
          (case fold (\<lambda>index. vector_set index (vector_get v index)) [0..<v_size v] (c, ms) of (c, ms) \<Rightarrow> Some (Some c, ms)))"

definition vector_is_same :: "'a vector \<Rightarrow> 'a vector \<Rightarrow> bool" where
  "vector_is_same va vb \<longleftrightarrow> v_size va = v_size vb \<and> list_all (\<lambda>i. v_array va ! i = v_array vb ! i) [0..<v_size va]"

definition vector_is_empty :: "'a vector \<Rightarrow> bool" where
  "vector_is_empty v \<longleftrightarrow> v_size v = 0"

definition vector_empty_index :: "'a vector \<Rightarrow> nat" where
  "vector_empty_index v = (case List.find (\<lambda>i. v_array v ! i = None) [0..<v_size v] of None \<Rightarrow> v_size v | Some i \<Rightarrow> i)"

primrec add_each :: "('a option \<Rightarrow> 'a vector \<Rightarrow> bool) \<Rightarrow> 'a option list \<Rightarrow> 'a vector \<times> mallocs \<Rightarrow> ('a vector \<times> mallocs) option" where
  "add_each P [] vm = Some vm"
| "add_each P (x # xs) vm = (if P x (fst vm) then Option.bind (vector_add x vm) (add_each P xs) else add_each P xs vm)"

definition vector_catenate :: "'a vector \<times> mallocs \<Rightarrow> 'a vector \<Rightarrow> ('a vector \<times> mallocs) option" where
  "vector_catenate va vb = add_each (\<lambda>x v. True) (contents vb) va"

definition vector_merge :: "'a vector \<times> mallocs \<Rightarrow> 'a vector \<Rightarrow> ('a vector \<times> mallocs) option" where
  "vector_merge dst src = add_each (\<lambda>x v. vector_lookup x v = None) (contents src) dst"

definition vector_cap :: "'a vector \<Rightarrow> 'a vector \<Rightarrow> mallocs \<Rightarrow> ('a vector option \<times> mallocs) option" where
  "vector_cap va vb ms =
     (let common = concat (map (\<lambda>x. filter (\<lambda>y. x \<noteq> None \<and> x = y) (contents vb)) (contents va))
      in case vector_create ms of
           (None, ms) \<Rightarrow> if common = [] then Some (None, ms) else None
         | (Some cap, ms) \<Rightarrow> map_option (\<lambda>(cap, ms). (Some cap, ms)) (add_each (\<lambda>x v. True) common (cap, ms)))"

section \<open>Facts\<close>

definition vec_ok :: "'a vector \<Rightarrow> bool" where
  "vec_ok v \<longleftrightarrow> v_size v \<le> v_limit v \<and> 0 < v_limit v"

text \<open>\<open>vec_clean\<close>: also, every element that is not in use is null, which \<^verbatim>\<open>vector_assert\<close> checks.\<close>

definition vec_clean :: "'a vector \<Rightarrow> bool" where
  "vec_clean v \<longleftrightarrow> vec_ok v \<and> (\<forall>i<v_limit v. v_size v \<le> i \<longrightarrow> v_array v ! i = None)"

lemma vector_create_clean: "vector_create ms = (Some v, ms') \<Longrightarrow> vec_clean v \<and> contents v = []"
  by (auto simp: vector_create_def vec_clean_def vec_ok_def v_limit_def contents_def VECTOR_DEFSIZ_def split: prod.splits bool.splits)

lemma expand_keeps:
  assumes "vector_expand (v, ms) = (v', ms')"
  shows "v_size v' = v_size v \<and> (\<exists>k. v_array v' = v_array v @ replicate k None) \<and> (never_fails ms \<longrightarrow> v_limit v' = 2 * v_limit v \<and> never_fails ms')"
  using assms malloc_never_fails [of ms] by (auto simp: vector_expand_def v_limit_def split: prod.splits if_splits)

lemma expand_while_keeps:
  "expand_while n P (v, ms) = (v', ms') \<Longrightarrow>
     v_size v' = v_size v \<and> (\<exists>k. v_array v' = v_array v @ replicate k None) \<and> (never_fails ms \<longrightarrow> never_fails ms')"
proof (induction n arbitrary: v ms)
  case (Suc n)
  obtain v1 ms1 where e: "vector_expand (v, ms) = (v1, ms1)" by fastforce
  from expand_keeps [OF e] Suc e show ?case by (fastforce simp: replicate_add [symmetric] split: if_splits)
qed auto

lemma expand_while_done: "expand_while n P (v, ms) = (v', ms') \<Longrightarrow> \<not> P v \<Longrightarrow> v' = v \<and> ms' = ms"
  by (cases n) auto

lemma vector_add_allow_dup_spec:
  assumes ok: "vec_ok v" and a: "vector_add_allow_dup x (v, ms) = (v', ms')"
  shows "vec_ok v' \<and> (contents v' = contents v @ [x] \<or> contents v' = contents v)
    \<and> (never_fails ms \<longrightarrow> contents v' = contents v @ [x] \<and> never_fails ms') \<and> (vec_clean v \<longrightarrow> vec_clean v')"
proof -
  obtain w ms1 where w: "expand_while VECTOR_RETRY (\<lambda>v. v_size v = v_limit v) (v, ms) = (w, ms1)" by fastforce
  from expand_while_keeps [OF w] obtain k where k: "v_size w = v_size v" "v_array w = v_array v @ replicate k None"
    and nf: "never_fails ms \<longrightarrow> never_fails ms1" by auto
  have grow: "never_fails ms \<longrightarrow> v_size w < v_limit w"
  proof
    assume "never_fails ms"
    obtain v1 ms2 where e: "vector_expand (v, ms) = (v1, ms2)" by fastforce
    show "v_size w < v_limit w"
    proof (cases "v_size v = v_limit v")
      case True
      with \<open>never_fails ms\<close> expand_keeps [OF e] ok have "v_size v1 < v_limit v1" by (auto simp: vec_ok_def)
      with w e True expand_while_done [of 15 "\<lambda>v. v_size v = v_limit v" v1 ms2 w ms1] show ?thesis by (simp add: VECTOR_RETRY_def numeral_eq_Suc)
    next
      case False
      with expand_while_done [OF w] ok show ?thesis by (simp add: vec_ok_def)
    qed
  qed
  have c: "contents w = contents v" using k ok by (simp add: contents_def vec_ok_def v_limit_def)
  have v': "v' = (if v_size w = v_limit w then w else w\<lparr>v_array := (v_array w)[v_size w := x], v_size := v_size w + 1\<rparr>)" "ms' = ms1"
    using a w by (auto simp: vector_add_allow_dup_def)
  have okw: "vec_ok w" using ok k by (simp add: vec_ok_def v_limit_def)
  have cw: "vec_clean v \<longrightarrow> vec_clean w" using okw k by (auto simp: vec_clean_def v_limit_def vec_ok_def nth_append)
  show ?thesis
  proof (cases "v_size w = v_limit w")
    case True
    with v' c okw cw nf grow show ?thesis by auto
  next
    case False
    then have lt: "v_size w < length (v_array w)" using okw by (simp add: vec_ok_def v_limit_def)
    then have "contents v' = contents v @ [x]" using v' False c by (simp add: contents_def take_Suc_conv_app_nth)
    moreover have "vec_ok v'" using v' False lt by (auto simp: vec_ok_def v_limit_def)
    moreover have "vec_clean w \<longrightarrow> vec_clean v'"
      using v'(1) False \<open>vec_ok v'\<close> by (simp add: vec_clean_def v_limit_def)
    ultimately show ?thesis using v'(2) nf cw by auto
  qed
qed

text \<open>Look-up and removal.\<close>

lemma vector_lookup_index_Some:
  "vec_ok v \<Longrightarrow> vector_lookup_index x v = Some i \<Longrightarrow> i < v_size v \<and> contents v ! i = x \<and> x \<notin> set (take i (contents v))"
  by (auto simp: vector_lookup_index_def contents_def vec_ok_def v_limit_def in_set_conv_nth dest!: find_upt_Some)

lemma vector_lookup_index_None: "vec_ok v \<Longrightarrow> vector_lookup_index x v = None \<longleftrightarrow> x \<notin> set (contents v)"
  by (auto simp: vector_lookup_index_def contents_def vec_ok_def v_limit_def find_upt_None in_set_conv_nth)

lemma vector_lookup_spec: "vec_ok v \<Longrightarrow> vector_lookup x v = (if x \<in> set (contents v) then x else None)"
  using vector_lookup_index_Some [of v x] vector_lookup_index_None [of v x]
  by (auto simp: vector_lookup_def contents_def vec_ok_def v_limit_def split: option.splits)

lemma vector_remove_index_spec:
  assumes ok: "vec_ok v" and i: "i < v_size v"
  shows "vec_ok (vector_remove_index i v)" "contents (vector_remove_index i v) = take i (contents v) @ drop (Suc i) (contents v)"
    "vec_clean v \<Longrightarrow> v_size v < v_limit v \<or> Suc i = v_size v \<Longrightarrow> vec_clean (vector_remove_index i v)"
proof -
  let ?n = "length (v_array v)"
  have l: "length ((v_array v)[i := None]) = ?n" by simp
  have sz: "v_size v \<le> ?n" "0 < ?n" using ok by (auto simp: vec_ok_def v_limit_def)
  have size: "v_size (vector_remove_index i v) = v_size v - 1" by (simp add: vector_remove_index_def Let_def)
  have arr: "v_array (vector_remove_index i v) = (if Suc i < ?n then memmove i (Suc i) (?n - i - 1) ((v_array v)[i := None]) else (v_array v)[i := None])"
    by (simp add: vector_remove_index_def Let_def v_limit_def)
  then have len: "length (v_array (vector_remove_index i v)) = ?n" by (simp add: length_memmove)
  have nth: "v_array (vector_remove_index i v) ! j = (if j < i then v_array v ! j else if Suc j < ?n then v_array v ! Suc j else if Suc i = ?n then None else v_array v ! j)"
    if "j < ?n" for j
    using that arr i sz by (auto simp: nth_memmove nth_list_update)
  show "vec_ok (vector_remove_index i v)" using len size sz by (simp add: vec_ok_def v_limit_def)
  show "contents (vector_remove_index i v) = take i (contents v) @ drop (Suc i) (contents v)"
  proof (rule nth_equalityI)
    show "length (contents (vector_remove_index i v)) = length (take i (contents v) @ drop (Suc i) (contents v))"
      using len size sz i by (simp add: contents_def)
  next
    fix j
    assume "j < length (contents (vector_remove_index i v))"
    then have j: "j < v_size v - 1" using len size sz by (simp add: contents_def)
    then show "contents (vector_remove_index i v) ! j = (take i (contents v) @ drop (Suc i) (contents v)) ! j"
      using nth [of j] size sz i by (auto simp: contents_def nth_append min_def)
  qed
  show "vec_clean (vector_remove_index i v)" if c: "vec_clean v" and t: "v_size v < v_limit v \<or> Suc i = v_size v"
  proof -
    have none: "v_array v ! j = None" if "v_size v \<le> j" "j < ?n" for j using c that by (simp add: vec_clean_def v_limit_def)
    have "v_array (vector_remove_index i v) ! j = None" if "v_size v - 1 \<le> j" "j < ?n" for j
      using nth [of j] none [of j] none [of "Suc j"] t i sz that by (auto simp: v_limit_def)
    then show ?thesis using \<open>vec_ok (vector_remove_index i v)\<close> size len by (simp add: vec_clean_def v_limit_def)
  qed
qed

lemma remove1_take_drop: "x \<notin> set (take i xs) \<Longrightarrow> i < length xs \<Longrightarrow> xs ! i = x \<Longrightarrow> remove1 x xs = take i xs @ drop (Suc i) xs"
  by (metis id_take_nth_drop remove1.simps(2) remove1_append)

section \<open>Bisection\<close>

text \<open>The comparison \<open>cmp\<close> orders the elements; the vector is sorted by it.\<close>

definition sorted_cmp :: "('a option \<Rightarrow> 'a option \<Rightarrow> int) \<Rightarrow> 'a option list \<Rightarrow> bool" where
  "sorted_cmp cmp xs \<longleftrightarrow> (\<forall>x i j. i < j \<and> j < length xs \<longrightarrow> (cmp x (xs ! i) < 0 \<longrightarrow> cmp x (xs ! j) < 0) \<and> (0 < cmp x (xs ! j) \<longrightarrow> 0 < cmp x (xs ! i)))"

lemma vector_binsearch_spec:
  assumes "sorted_cmp cmp (contents v)" "vec_ok v" "index + n \<le> v_size v" "0 < n"
  shows "case vector_binsearch x index n cmp v of
           Some i \<Rightarrow> index \<le> i \<and> i < index + n \<and> cmp x (v_array v ! i) = 0
         | None \<Rightarrow> \<forall>i. index \<le> i \<and> i < index + n \<longrightarrow> cmp x (v_array v ! i) \<noteq> 0"
  using assms
proof (induction x index n cmp v rule: vector_binsearch.induct)
  case (1 x index n cmp v)
  let ?m = "index + n div 2" and ?r = "cmp x (v_array v ! (index + n div 2))"
  have unf: "vector_binsearch x index n cmp v = (if ?r = 0 then Some ?m else if n = 0 \<or> n = 1 then None
      else if ?r < 0 then vector_binsearch x index (n div 2) cmp v else vector_binsearch x (?m + (if n mod 2 = 1 then 1 else 0)) (n div 2) cmp v)"
    by (subst vector_binsearch.simps) (simp add: Let_def)
  have m: "?m < index + n" using 1(6) by simp
  have nth: "contents v ! j = v_array v ! j" if "j < v_size v" for j using that by (simp add: contents_def)
  have lc: "length (contents v) = v_size v" using 1(4) by (simp add: contents_def vec_ok_def v_limit_def)
  have up: "cmp x (v_array v ! j) < 0" if "?r < 0" "?m < j" "j < index + n" for j
    using that 1(3,5) nth [of ?m] nth [of j] lc m unfolding sorted_cmp_def by (metis le_trans less_le_trans)
  have down: "0 < cmp x (v_array v ! j)" if "0 < ?r" "j < ?m" for j
    using that 1(3,5) nth [of ?m] nth [of j] lc m unfolding sorted_cmp_def by (metis less_le_trans less_trans)
  consider "?r = 0" | "?r \<noteq> 0" "n = 1" | "?r < 0" "2 \<le> n" | "0 < ?r" "2 \<le> n" using 1(6) by linarith
  then show ?case
  proof cases
    case 1
    with m show ?thesis by (simp add: unf)
  next
    case 2
    then show ?thesis unfolding unf by (auto simp: le_Suc_eq less_Suc_eq_le dest: le_antisym)
  next
    case 3
    then have "0 < n div 2" "index + n div 2 \<le> v_size v" using 1(5) by auto
    with 1(1) [OF refl refl refl _ _ 3(1)] 3 1(3,4)
    have IH: "case vector_binsearch x index (n div 2) cmp v of Some i \<Rightarrow> index \<le> i \<and> i < index + n div 2 \<and> cmp x (v_array v ! i) = 0
        | None \<Rightarrow> \<forall>i. index \<le> i \<and> i < index + n div 2 \<longrightarrow> cmp x (v_array v ! i) \<noteq> 0" by simp
    have up0: "cmp x (v_array v ! i) \<noteq> 0" if "\<not> i < ?m" "i < index + n" for i using up [of i] 3(1) that by (cases "i = ?m") auto
    have "vector_binsearch x index n cmp v = vector_binsearch x index (n div 2) cmp v" using unf 3 by simp
    with IH up0 m show ?thesis by (cases "vector_binsearch x index (n div 2) cmp v") auto
  next
    case 4
    let ?s = "if n mod 2 = 1 then 1 else 0 :: nat"
    have n: "n = n div 2 + (n div 2 + ?s)" by presburger
    then have b: "0 < n div 2" "?m + ?s + n div 2 \<le> v_size v" using 1(5) 4 by auto
    with 1(2) [OF refl refl refl] 4 1(3,4)
    have IH: "case vector_binsearch x (?m + ?s) (n div 2) cmp v of Some i \<Rightarrow> ?m + ?s \<le> i \<and> i < ?m + ?s + n div 2 \<and> cmp x (v_array v ! i) = 0
        | None \<Rightarrow> \<forall>i. ?m + ?s \<le> i \<and> i < ?m + ?s + n div 2 \<longrightarrow> cmp x (v_array v ! i) \<noteq> 0" by simp
    have e: "?m + ?s + n div 2 = index + n" using n by linarith
    have down0: "cmp x (v_array v ! i) \<noteq> 0" if "\<not> ?m + ?s \<le> i" for i
      using down [of i] 4(1) that by (cases "i = ?m") (auto split: if_splits simp: less_Suc_eq)
    have "vector_binsearch x index n cmp v = vector_binsearch x (?m + ?s) (n div 2) cmp v" using unf 4 by simp
    with IH [unfolded e] down0 show ?thesis by (cases "vector_binsearch x (?m + ?s) (n div 2) cmp v") (auto simp del: One_nat_def)
  qed
qed

section \<open>A vector is a list\<close>

text \<open>The operations of the interface, as the callers use them; a null pointer is not stored.\<close>

fun vec_step :: "'a option list_op \<Rightarrow> 'a vector \<times> mallocs \<Rightarrow> ('a vector \<times> mallocs) option" where
  "vec_step (Append x) vm = Some (vector_add_allow_dup x vm)"
| "vec_step (Append_New x) vm = vector_add x vm"
| "vec_step (Remove x) vm = map_option (\<lambda>v. (v, snd vm)) (vector_remove x (fst vm))"
| "vec_step Clear vm = Some (vector_clear (fst vm), snd vm)"

interpretation vec: list_store vec_step "\<lambda>vm. contents (fst vm)" "\<lambda>vm. vec_ok (fst vm) \<and> never_fails (snd vm)" "\<lambda>x. x \<noteq> None"
proof (unfold_locales, goal_cases)
  case (1 vm e)
  obtain v ms where vm: "vm = (v, ms)" by fastforce
  from 1 vm have ok: "vec_ok v" "never_fails ms" by auto
  have add: "\<exists>v' ms'. vector_add_allow_dup x (v, ms) = (v', ms') \<and> vec_ok v' \<and> contents v' = contents v @ [x] \<and> never_fails ms'" for x
    using vector_add_allow_dup_spec [OF ok(1), of x ms] ok(2) by (cases "vector_add_allow_dup x (v, ms)") auto
  show ?case
  proof (cases e)
    case (Append x)
    with add [of x] vm show ?thesis by auto
  next
    case (Append_New x)
    with add [of x] vm 1 vector_lookup_spec [OF ok(1), of x] show ?thesis by (auto simp: vector_add_def)
  next
    case (Remove x)
    show ?thesis
    proof (cases "vector_lookup_index x v")
      case None
      with Remove vm vector_lookup_index_None [OF ok(1), of x] show ?thesis by (simp add: vector_remove_def)
    next
      case (Some i)
      note i = vector_lookup_index_Some [OF ok(1) Some]
      then have "x \<in> set (contents v)" "i < length (contents v)" using ok by (auto simp: contents_def vec_ok_def v_limit_def in_set_conv_nth)
      with Remove Some vm i vector_remove_index_spec [OF ok(1), of i] remove1_take_drop [of x i "contents v"] ok(2) show ?thesis
        by (auto simp: vector_remove_def)
    qed
  next
    case Clear
    with vm ok show ?thesis by (auto simp: vector_clear_def contents_def vec_ok_def v_limit_def)
  qed
qed

text \<open>The iterator visits the elements in order.\<close>

primrec visit :: "nat \<Rightarrow> 'a vector \<Rightarrow> (nat \<times> 'a option) option \<Rightarrow> 'a option list" where
  "visit 0 v node = []"
| "visit (Suc n) v node = (case node of None \<Rightarrow> [] | Some nd \<Rightarrow> snd nd # visit n v (vector_next v nd))"

lemma visit_from: "i < v_size v \<Longrightarrow> v_size v - i \<le> n \<Longrightarrow> visit n v (Some (i, v_array v ! i)) = map (\<lambda>j. v_array v ! j) [i..<v_size v]"
proof (induction n arbitrary: i)
  case (Suc n)
  then show ?case using Suc.IH [of "Suc i"] by (cases n) (auto simp: vector_next_def Let_def upt_conv_Cons)
qed simp

lemma visit_all: "vec_ok v \<Longrightarrow> v_size v \<le> n \<Longrightarrow> visit n v (fst (vector_head v [])) = contents v"
proof (cases "v_size v")
  case 0
  then show ?thesis by (cases n) (simp_all add: vector_head_def contents_def)
next
  case (Suc m)
  assume "vec_ok v" "v_size v \<le> n"
  moreover have "map ((!) (v_array v)) [0..<v_size v] = take (v_size v) (v_array v)" if "v_size v \<le> length (v_array v)"
    using that by (auto intro: nth_equalityI)
  ultimately show ?thesis using Suc visit_from [of 0 v n]
    by (simp add: vector_head_def contents_def vec_ok_def v_limit_def del: upt_Suc)
qed

section \<open>Properties\<close>



text \<open>
  Bisection finds what is there.  In a vector sorted by the comparison, the recursive bisection
  ends, stays within the elements in use, and returns an index whose element compares equal, exactly
  if there is one.
\<close>

theorem vector_bsearch_correct:
  assumes "sorted_cmp cmp (contents v)" "vec_ok v"
  shows "case vector_lookup_index_bsearch x cmp v of
           Some i \<Rightarrow> i < v_size v \<and> cmp x (contents v ! i) = 0
         | None \<Rightarrow> \<forall>y \<in> set (contents v). cmp x y \<noteq> 0"
proof (cases "v_size v = 0")
  case True
  then show ?thesis by (simp add: vector_lookup_index_bsearch_def contents_def)
next
  case False
  have nth: "contents v ! j = v_array v ! j" if "j < v_size v" for j using that by (simp add: contents_def)
  from vector_binsearch_spec [OF assms, of 0 "v_size v" x] False assms(2) nth show ?thesis
    by (cases "vector_binsearch x 0 (v_size v) cmp v")
      (auto simp: vector_lookup_index_bsearch_def in_set_conv_nth contents_def vec_ok_def v_limit_def)
qed

definition cmp_nat :: "nat option \<Rightarrow> nat option \<Rightarrow> int" where
  "cmp_nat x y = int (case x of None \<Rightarrow> 0 | Some n \<Rightarrow> n) - int (case y of None \<Rightarrow> 0 | Some n \<Rightarrow> n)"

theorem vector_bsearch_correct_witness:
  "vector_lookup_index_bsearch (Some 5) cmp_nat \<lparr>v_array = [Some 2, Some 3, Some 5, None], v_size = 3\<rparr> = Some 2"
proof -
  let ?v = "\<lparr>v_array = [Some 2, Some 3, Some 5, None], v_size = 3\<rparr> :: nat vector"
  have "sorted_cmp cmp_nat (contents ?v)" by (auto simp: sorted_cmp_def contents_def cmp_nat_def less_Suc_eq numeral_eq_Suc)
  moreover have "vec_ok ?v" by (simp add: vec_ok_def v_limit_def)
  ultimately show ?thesis using vector_bsearch_correct [of cmp_nat ?v "Some 5"]
    by (auto simp: contents_def cmp_nat_def less_Suc_eq numeral_eq_Suc split: option.splits)
qed

text \<open>
  Removing from a full vector leaves a stale pointer.  The shift moves one element too few, so
  after removing any element but the last of a vector without room, the slot behind the elements
  still holds the last of them; a later \<^verbatim>\<open>vector_set\<close> beyond it brings it back where
  \<^verbatim>\<open>vector_get\<close> should return \<^verbatim>\<open>NULL\<close>.
\<close>

theorem vector_remove_leaves_stale:
  assumes "vec_ok v" "v_size v = v_limit v" "Suc i < v_size v"
  shows "v_array (vector_remove_index i v) ! (v_size v - 1) = last (contents v)
    \<and> vector_get (fst (vector_set (v_size v) y (vector_remove_index i v, []))) (v_size v - 1) = last (contents v)"
proof -
  let ?w = "vector_remove_index i v"
  have n: "length (v_array v) = v_size v" "v_array v \<noteq> []" using assms by (auto simp: v_limit_def)
  have arr: "v_array ?w = memmove i (Suc i) (v_size v - i - 1) ((v_array v)[i := None])" "v_size ?w = v_size v - 1"
    using assms n by (simp_all add: vector_remove_index_def Let_def v_limit_def)
  then have len: "length (v_array ?w) = v_size v" using n assms(3) by (simp add: length_memmove)
  have "v_array ?w ! (v_size v - 1) = v_array v ! (v_size v - 1)" using arr(1) n assms(3) by (simp add: nth_memmove)
  then have l: "v_array ?w ! (v_size v - 1) = last (contents v)" using n by (simp add: contents_def last_conv_nth)
  have "expand_while 16 (\<lambda>u. v_limit u \<le> v_size v) (?w, []) = (?w\<lparr>v_array := v_array ?w @ replicate (v_size v) None\<rparr>, [])"
    using len assms(3) expand_while_done [of 15 "\<lambda>u. v_limit u \<le> v_size v" "?w\<lparr>v_array := v_array ?w @ replicate (v_size v) None\<rparr>" "[]"]
    by (simp add: numeral_eq_Suc vector_expand_def v_limit_def)
  moreover have "\<not> Suc (v_size v) \<le> v_size v - Suc 0" by simp
  ultimately show ?thesis using l len assms(3) arr(2) by (simp add: vector_set_def VECTOR_RETRY_def v_limit_def vector_get_def nth_append Suc_diff_le not_le)
qed

theorem vector_remove_leaves_stale_witness:
  "let v = \<lparr>v_array = [Some 1, Some (2::nat)], v_size = 2\<rparr> in vector_get (fst (vector_set 2 (Some 3) (vector_remove_index 0 v, []))) 1 = Some 2"
  using vector_remove_leaves_stale [of "\<lparr>v_array = [Some 1, Some (2::nat)], v_size = 2\<rparr>" 0 "Some 3"]
  by (simp add: vec_ok_def v_limit_def contents_def)

end
