(* ===== verification/Command.thy ===== *)
theory Command
  imports Prelude "HOL-Library.Char_ord" "HOL-Library.Sublist" "HOL-Library.Monad_Syntax"
begin

text \<open>
  The command interpreter of the shell, \<^verbatim>\<open>lib/sdplane/command.c\<close> with \<^verbatim>\<open>path_disassemble\<close> of
  \<^verbatim>\<open>file.c\<close>: the tree of commands, the kinds of arguments, matching with abbreviations, the
  execution and completion of a line.

  A string has no zero byte.  A node of the tree is reached from the root by exactly one path of
  keywords, so the code's pointers to nodes are the paths (\<open>string list\<close>) here.  The vectors of
  nodes are lists (theory Vector).  The code does not test most of its allocations; they succeed here.
  The functions that commands call are values of type \<open>'f\<close>.  Files, the conversion of floating-point
  numbers and of IPv4 addresses are parameters.
\<close>

section \<open>The C library\<close>

datatype stat_result = St_Enoent | St_Error | St_Reg | St_Dir | St_Other

record cli_env =
  inet_pton4 :: "string \<Rightarrow> bool"
  strtod_rest :: "string \<Rightarrow> string"
  strtod_less :: "string \<Rightarrow> string \<Rightarrow> bool"
  stat_of :: "string \<Rightarrow> stat_result"
  readdir_of :: "string \<Rightarrow> string list option"
  strftime_of :: "string \<Rightarrow> string option"

definition digit_val :: "char \<Rightarrow> nat option" where
  "digit_val c =
     (let n = of_char c :: nat
      in if 48 \<le> n \<and> n \<le> 57 then Some (n - 48) else if 97 \<le> n \<and> n \<le> 122 then Some (n - 87)
         else if 65 \<le> n \<and> n \<le> 90 then Some (n - 55) else None)"

fun read_digits :: "nat \<Rightarrow> nat \<Rightarrow> string \<Rightarrow> nat \<times> string" where
  "read_digits base acc [] = (acc, [])"
| "read_digits base acc (c # cs) =
     (case digit_val c of
        Some d \<Rightarrow> if d < base then read_digits base (acc * base + d) cs else (acc, c # cs)
      | None \<Rightarrow> (acc, c # cs))"

definition is_space :: "char \<Rightarrow> bool" where
  "is_space c \<longleftrightarrow> (of_char c :: nat) \<in> {9, 10, 11, 12, 13, 32}"

text \<open>Sign, magnitude and the rest of the string; nothing is consumed if there is no digit.\<close>

definition strto :: "nat \<Rightarrow> string \<Rightarrow> bool \<times> nat \<times> string" where
  "strto base s =
     (let t = dropWhile is_space s;
          neg = (t \<noteq> [] \<and> hd t = CHR ''-'');
          t = (if t \<noteq> [] \<and> (hd t = CHR ''-'' \<or> hd t = CHR ''+'') then tl t else t);
          hex = (base = 0 \<and> 3 \<le> length t \<and> hd t = CHR ''0'' \<and> t ! 1 \<in> {CHR ''x'', CHR ''X''}
                 \<and> (case digit_val (t ! 2) of Some d \<Rightarrow> d < 16 | None \<Rightarrow> False));
          b = (if hex then 16 else if base = 0 then (if t \<noteq> [] \<and> hd t = CHR ''0'' then 8 else 10) else base);
          t = (if hex then drop 2 t else t)
      in case read_digits b 0 t of (v, r) \<Rightarrow> if length r = length t then (False, 0, s) else (neg, v, r))"

definition strtoul :: "string \<Rightarrow> nat \<times> string" where
  "strtoul s = (case strto 0 s of (neg, v, r) \<Rightarrow> (if 2 ^ 64 \<le> v then 2 ^ 64 - 1 else if neg then (2 ^ 64 - v) mod 2 ^ 64 else v, r))"

text \<open>\<^verbatim>\<open>strtol (p, &endp, 10)\<close> as an \<^verbatim>\<open>int\<close>.\<close>

definition strtol_int :: "string \<Rightarrow> int \<times> string" where
  "strtol_int s =
     (case strto 10 s of (neg, v, r) \<Rightarrow>
        (let x = (if neg then max (- int v) (- (2 ^ 63)) else min (int v) (2 ^ 63 - 1)); y = x mod 2 ^ 32
         in (if y < 2 ^ 31 then y else y - 2 ^ 32, r)))"

fun split_on :: "char \<Rightarrow> string \<Rightarrow> string list" where
  "split_on c [] = [[]]"
| "split_on c (x # xs) = (case split_on c xs of [] \<Rightarrow> [] | w # ws \<Rightarrow> if x = c then [] # w # ws else (x # w) # ws)"

text \<open>\<^verbatim>\<open>strchr\<close>, as the part before the first \<open>c\<close> and the part from it on, and \<^verbatim>\<open>strstr\<close>.\<close>

definition before :: "char \<Rightarrow> string \<Rightarrow> string" where "before c s = takeWhile (\<lambda>x. x \<noteq> c) s"
definition from_char :: "char \<Rightarrow> string \<Rightarrow> string" where "from_char c s = dropWhile (\<lambda>x. x \<noteq> c) s"

fun strstr :: "string \<Rightarrow> string \<Rightarrow> string option" where
  "strstr [] w = (if w = [] then Some [] else None)"
| "strstr (c # cs) w = (if prefix w (c # cs) then Some (c # cs) else strstr cs w)"

section \<open>Kinds of arguments\<close>

definition ipv4_spec :: "string \<Rightarrow> bool" where "ipv4_spec spec \<longleftrightarrow> spec = ''A.B.C.D''"
definition ipv4_match :: "cli_env \<Rightarrow> string \<Rightarrow> bool" where "ipv4_match env word \<longleftrightarrow> inet_pton4 env word"
definition ipv4_prefix_spec :: "string \<Rightarrow> bool" where "ipv4_prefix_spec spec \<longleftrightarrow> spec = ''A.B.C.D/M''"

definition ipv4_prefix_match :: "cli_env \<Rightarrow> string \<Rightarrow> bool" where
  "ipv4_prefix_match env word =
     (if CHR ''/'' \<notin> set word then False
      else case strtol_int (tl (from_char (CHR ''/'') word)) of (len, endp) \<Rightarrow>
        if endp \<noteq> [] then False
        else if len < 0 \<or> 32 < len then False
        else inet_pton4 env (before (CHR ''/'') word))"

text \<open>The two bounds in \<^verbatim>\<open><min-max>\<close>.\<close>

definition MAX_RANGE_SPEC_STR :: nat where "MAX_RANGE_SPEC_STR = 10"

definition range_strs :: "string \<Rightarrow> string \<times> string" where
  "range_strs spec = (before (CHR ''-'') (tl spec), butlast (tl (from_char (CHR ''-'') spec)))"

definition is_double :: "string \<times> string \<Rightarrow> bool" where
  "is_double r \<longleftrightarrow> CHR ''.'' \<in> set (fst r) \<or> CHR ''.'' \<in> set (snd r)"

definition range_spec :: "cli_env \<Rightarrow> string \<Rightarrow> bool" where
  "range_spec env spec =
     (if spec = [] \<or> hd spec \<noteq> CHR ''<'' then False
      else if CHR ''-'' \<notin> set spec then False
      else if MAX_RANGE_SPEC_STR < length (fst (range_strs spec)) then False
      else if last spec \<noteq> CHR ''>'' then False
      else if MAX_RANGE_SPEC_STR < length (snd (range_strs spec)) then False
      else
        (case range_strs spec of (minstr, maxstr) \<Rightarrow>
           if is_double (minstr, maxstr)
           then strtod_rest env minstr = [] \<and> strtod_rest env maxstr = [] \<and> \<not> strtod_less env maxstr minstr
           else snd (strtoul minstr) = [] \<and> snd (strtoul maxstr) = [] \<and> \<not> fst (strtoul maxstr) < fst (strtoul minstr)))"

definition range_match :: "cli_env \<Rightarrow> string \<Rightarrow> string \<Rightarrow> bool" where
  "range_match env spec word =
     (case range_strs spec of (minstr, maxstr) \<Rightarrow>
        if is_double (minstr, maxstr)
        then strtod_rest env word = [] \<and> \<not> strtod_less env word minstr \<and> \<not> strtod_less env maxstr word
        else snd (strtoul word) = [] \<and> fst (strtoul minstr) \<le> fst (strtoul word) \<and> fst (strtoul word) \<le> fst (strtoul maxstr))"

definition double_spec :: "string \<Rightarrow> bool" where
  "double_spec spec \<longleftrightarrow> spec = ''<[-]ddd.ddd>'' \<or> spec = ''<[-]d.ddde[+-]dd>''"

definition double_match :: "cli_env \<Rightarrow> string \<Rightarrow> bool" where
  "double_match env word \<longleftrightarrow> strtod_rest env word = []"

definition path_disassemble :: "string \<Rightarrow> string \<times> string" where
  "path_disassemble pathname =
     (if CHR ''/'' \<notin> set pathname then (''.'', pathname)
      else
        (let filename = rev (before (CHR ''/'') (rev pathname)); dirname = rev (tl (from_char (CHR ''/'') (rev pathname)))
         in (if dirname = [] then ''/'' else dirname, filename)))"

definition file_spec :: "string \<Rightarrow> bool" where "file_spec spec \<longleftrightarrow> spec = ''<FILENAME>'' \<or> spec = ''<FILE>''"

definition file_match :: "cli_env \<Rightarrow> string \<Rightarrow> bool" where
  "file_match env word =
     (if word \<noteq> [] \<and> hd word = CHR ''-'' then False
      else
        (case path_disassemble word of (dirname, filename) \<Rightarrow>
           if stat_of env dirname \<notin> {St_Enoent, St_Dir} then False
           else stat_of env filename \<noteq> St_Other))"

definition flag_spec :: "string \<Rightarrow> bool" where "flag_spec spec \<longleftrightarrow> spec = ''<FLAGS>'' \<or> spec = ''<FLAG>''"
definition flag_match :: "string \<Rightarrow> bool" where "flag_match word \<longleftrightarrow> word \<noteq> [] \<and> hd word = CHR ''-''"
definition line_spec :: "string \<Rightarrow> bool" where "line_spec spec \<longleftrightarrow> spec = ''<LINE>''"
definition word_spec :: "string \<Rightarrow> bool" where "word_spec spec \<longleftrightarrow> spec = ''<WORD>''"
definition var_spec :: "string \<Rightarrow> bool" where "var_spec spec \<longleftrightarrow> spec = ''<VAR>''"

definition is_command_match_variable :: "cli_env \<Rightarrow> string \<Rightarrow> string \<Rightarrow> bool" where
  "is_command_match_variable env spec word \<longleftrightarrow>
     ipv4_spec spec \<and> ipv4_match env word \<or> ipv4_prefix_spec spec \<and> ipv4_prefix_match env word
     \<or> range_spec env spec \<and> range_match env spec word \<or> double_spec spec \<and> double_match env word
     \<or> file_spec spec \<and> file_match env word \<or> flag_spec spec \<and> flag_match word
     \<or> line_spec spec \<or> word_spec spec \<or> var_spec spec"

definition is_command_match_regular :: "string \<Rightarrow> string \<Rightarrow> bool" where
  "is_command_match_regular spec word \<longleftrightarrow> prefix word spec"

definition is_command_match :: "cli_env \<Rightarrow> string \<Rightarrow> string \<Rightarrow> bool" where
  "is_command_match env spec word \<longleftrightarrow> is_command_match_variable env spec word \<or> is_command_match_regular spec word"

definition varmatch_pri :: "cli_env \<Rightarrow> string \<Rightarrow> int" where
  "varmatch_pri env spec =
     (if ipv4_prefix_spec spec then 6 else if ipv4_spec spec then 5 else if range_spec env spec then 4 else if double_spec spec then 3
      else if file_spec spec then 2 else if var_spec spec then 1 else if line_spec spec then 0 else -1)"

section \<open>The tree and matching\<close>

datatype 'f cmd_node =
  CNode (cmdstr: string) (helpstr: "string option") (cmd_func: "'f option") (cmdvec: "'f cmd_node list")

definition command_node_create :: "string \<Rightarrow> string option \<Rightarrow> 'f cmd_node" where
  "command_node_create word help = CNode word help None []"

definition is_command_node_variable :: "cli_env \<Rightarrow> 'f cmd_node \<Rightarrow> bool" where
  "is_command_node_variable env node \<longleftrightarrow>
     (let s = cmdstr node in ipv4_spec s \<or> range_spec env s \<or> double_spec s \<or> file_spec s \<or> line_spec s \<or> var_spec s \<or> word_spec s)"

definition command_match_exact :: "'f cmd_node \<Rightarrow> string \<Rightarrow> 'f cmd_node option" where
  "command_match_exact parent word = List.find (\<lambda>node. cmdstr node = word) (rev (cmdvec parent))"

record 'f match_state =
  ms_match :: "'f cmd_node option"
  ms_varmatch :: "'f cmd_node option"
  match_count :: nat
  varmatch_count :: nat

definition match_step :: "cli_env \<Rightarrow> string \<Rightarrow> 'f cmd_node \<Rightarrow> 'f match_state \<Rightarrow> 'f match_state" where
  "match_step env word node s =
     (let s = (if is_command_match_variable env (cmdstr node) word
               then s\<lparr>ms_match := Some node,
                      ms_varmatch := (case ms_varmatch s of
                                        None \<Rightarrow> Some node
                                      | Some v \<Rightarrow> if varmatch_pri env (cmdstr v) < varmatch_pri env (cmdstr node) then Some node else Some v),
                      varmatch_count := varmatch_count s + 1, match_count := match_count s + 1\<rparr>
               else s)
      in if is_command_match_regular (cmdstr node) word then s\<lparr>ms_match := Some node, match_count := match_count s + 1\<rparr> else s)"

definition match_start :: "'f match_state" where
  "match_start = \<lparr>ms_match = None, ms_varmatch = None, match_count = 0, varmatch_count = 0\<rparr>"

definition command_match_unique :: "cli_env \<Rightarrow> 'f cmd_node \<Rightarrow> string \<Rightarrow> 'f cmd_node option" where
  "command_match_unique env parent word =
     (let s = fold (match_step env word) (cmdvec parent) match_start
      in if ms_match s = None then None
         else if varmatch_count s = match_count s then ms_varmatch s
         else if match_count s = 1 then ms_match s
         else None)"

definition command_match_unique_exact :: "cli_env \<Rightarrow> 'f cmd_node \<Rightarrow> string \<Rightarrow> 'f cmd_node option" where
  "command_match_unique_exact env parent word =
     (case command_match_unique env parent word of Some m \<Rightarrow> Some m | None \<Rightarrow> command_match_exact parent word)"

section \<open>Installing commands\<close>

text \<open>Changing the node at a path, and adding a child to it unless it has one with that keyword.\<close>

fun node_update :: "string list \<Rightarrow> ('f cmd_node \<Rightarrow> 'f cmd_node) \<Rightarrow> 'f cmd_node \<Rightarrow> 'f cmd_node" where
  "node_update [] f node = f node"
| "node_update (w # ws) f (CNode s h fn cs) = CNode s h fn (map (\<lambda>c. if cmdstr c = w then node_update ws f c else c) cs)"

definition add_child :: "string \<Rightarrow> string option \<Rightarrow> 'f cmd_node \<Rightarrow> 'f cmd_node" where
  "add_child word help parent =
     (if command_match_exact parent word = None
      then CNode (cmdstr parent) (helpstr parent) (cmd_func parent) (sort_key cmdstr (cmdvec parent @ [command_node_create word help]))
      else parent)"

definition set_func :: "'f \<Rightarrow> 'f cmd_node \<Rightarrow> 'f cmd_node" where
  "set_func func node = CNode (cmdstr node) (helpstr node) (Some func) (cmdvec node)"

text \<open>\<^verbatim>\<open>strsep (&hstringp, "\n")\<close> takes the next help text; past the last it returns \<^verbatim>\<open>NULL\<close>.\<close>

definition next_help :: "string list \<Rightarrow> string option \<times> string list" where
  "next_help hs = (case hs of [] \<Rightarrow> (None, []) | h # hs \<Rightarrow> (Some h, hs))"

fun install_words :: "string list \<Rightarrow> string list \<Rightarrow> string list \<Rightarrow> 'f cmd_node \<Rightarrow> string list \<times> 'f cmd_node" where
  "install_words [] hs path root = (path, root)"
| "install_words (word # words) hs path root =
     (case next_help hs of (h, hs) \<Rightarrow> install_words words hs (path @ [word]) (node_update path (add_child word h) root))"

definition command_install :: "string \<Rightarrow> string \<Rightarrow> 'f \<Rightarrow> 'f cmd_node \<Rightarrow> 'f cmd_node" where
  "command_install command_line help_string func root =
     (case install_words (split_on (CHR '' '') command_line) (split_on (CHR ''\<newline>'') help_string) [] root of
        (path, root) \<Rightarrow> node_update path (set_func func) root)"

text \<open>
  \<^verbatim>\<open>command_install2\<close>: a word may be a choice \<^verbatim>\<open>(a|b|c)\<close>, an empty alternative leaving it out.  The
  paths reached so far are \<open>parents\<close>; a path that is reached twice violates the assertion of
  \<^verbatim>\<open>vector_add\<close>.
\<close>

definition choice_of :: "string \<Rightarrow> string list" where
  "choice_of word =
     (let word = (if CHR ''('' \<in> set word then tl (from_char (CHR ''('') word) else word)
      in split_on (CHR ''|'') (before (CHR '')'') word))"

fun add_below :: "string \<Rightarrow> string option \<Rightarrow> string list list \<Rightarrow> string list list \<Rightarrow> 'f cmd_node \<Rightarrow> (string list list \<times> 'f cmd_node) option" where
  "add_below subword help [] next root = Some (next, root)"
| "add_below subword help (parent # parents) next root =
     (if subword = [] then
        (if parent \<in> set next then None else add_below subword help parents (next @ [parent]) root)
      else
        (if parent @ [subword] \<in> set next then None
         else add_below subword help parents (next @ [parent @ [subword]]) (node_update parent (add_child subword help) root)))"

fun add_choice ::
  "string list \<Rightarrow> string option \<Rightarrow> string list \<Rightarrow> string list list \<Rightarrow> string list list \<Rightarrow> 'f cmd_node
   \<Rightarrow> (string list list \<times> string option \<times> string list \<times> 'f cmd_node) option"
where
  "add_choice [] help hs parents next root = Some (next, help, hs, root)"
| "add_choice (subword # subwords) help hs parents next root =
     (case (if subword = [] then (help, hs) else next_help hs) of (help, hs) \<Rightarrow>
        do {
          (next, root) \<leftarrow> add_below subword help parents next root;
          add_choice subwords help hs parents next root
        })"

fun add_words :: "string list \<Rightarrow> string option \<Rightarrow> string list \<Rightarrow> string list list \<Rightarrow> 'f cmd_node \<Rightarrow> (string list list \<times> 'f cmd_node) option" where
  "add_words [] help hs parents root = Some (parents, root)"
| "add_words (word # words) help hs parents root =
     do {
       (next, help, hs, root) \<leftarrow> add_choice (choice_of word) help hs parents [] root;
       add_words words help hs next root
     }"

definition command_install2 :: "string \<Rightarrow> string \<Rightarrow> 'f \<Rightarrow> 'f cmd_node \<Rightarrow> 'f cmd_node option" where
  "command_install2 command_line help_string func root =
     do {
       (parents, root) \<leftarrow> add_words (split_on (CHR '' '') command_line) (Some ''\<newline>'') (split_on (CHR ''\<newline>'') help_string) [[]] root;
       Some (fold (\<lambda>path. node_update path (set_func func)) parents root)
     }"

definition command_set_create :: "'f cmd_node" where
  "command_set_create = CNode [] None None []"

section \<open>Execution and completion\<close>

definition file_replace :: "cli_env \<Rightarrow> string \<Rightarrow> string" where
  "file_replace env word =
     (if CHR ''%'' \<notin> set word then word
      else case strftime_of env word of None \<Rightarrow> word | Some filename \<Rightarrow> filename)"

definition command_replace :: "cli_env \<Rightarrow> 'f cmd_node \<Rightarrow> string \<Rightarrow> string" where
  "command_replace env cmd word =
     (if file_spec (cmdstr cmd) then file_replace env word
      else if \<not> is_command_match_variable env (cmdstr cmd) word then cmdstr cmd
      else word)"

text \<open>The loop of \<^verbatim>\<open>shell_format3\<close>, with its variables \<open>count\<close>, \<open>i\<close> and the text written so far.\<close>

fun squeeze :: "nat \<Rightarrow> nat \<Rightarrow> string \<Rightarrow> string" where
  "squeeze count i [] = []"
| "squeeze count i (c # cs) =
     (let count = (if c = CHR '' '' then count + 1 else count)
      in if c = CHR '' '' \<and> 1 < count then squeeze count (i + 1) cs
         else if c = CHR '' '' \<and> i = 0 then squeeze count (i + 1) cs
         else c # squeeze (if c \<noteq> CHR '' '' then 0 else count) (i + 1) cs)"

definition shell_format3 :: "string \<Rightarrow> string" where
  "shell_format3 command_line_orig = squeeze 0 0 command_line_orig"

text \<open>
  \<^verbatim>\<open>s += snprintf (s, e - s, ...)\<close>, also \<^verbatim>\<open>left -= ret\<close>: once the text is longer than the buffer,
  the size passed is a huge number and the next call writes behind it (\<open>None\<close>).
\<close>

definition buf_append :: "nat \<Rightarrow> string \<Rightarrow> string \<Rightarrow> string option" where
  "buf_append bufsize str s = (if bufsize < length str then None else Some (str @ s))"

fun argv_log :: "string list \<Rightarrow> string \<Rightarrow> string option" where
  "argv_log [] str = Some str"
| "argv_log (a # as) str = Option.bind (buf_append 1024 str ('' '' @ [CHR 0x22] @ a @ [CHR 0x22])) (argv_log as)"

definition command_argv_parse :: "string \<Rightarrow> string list option" where
  "command_argv_parse command_line_dup =
     (let argv = split_on (CHR '' '') (shell_format3 command_line_dup)
      in do { str_buf \<leftarrow> argv_log argv []; Some argv })"

text \<open>The nodes matched, one per word as far as they match, and the arguments as they are rewritten.\<close>

fun matched_nodes :: "cli_env \<Rightarrow> string \<Rightarrow> string list \<Rightarrow> 'f cmd_node \<Rightarrow> ('f cmd_node option \<times> string option) list" where
  "matched_nodes env command_line [] parent = []"
| "matched_nodes env command_line (word # argv) parent =
     (case command_match_unique_exact env parent word of
        None \<Rightarrow> map (\<lambda>w. (None, Some w)) (word # argv)
      | Some m \<Rightarrow>
          if line_spec (cmdstr m) then (Some m, strstr command_line word) # map (\<lambda>w. (None, Some w)) argv
          else (Some m, Some (command_replace env m word)) # matched_nodes env command_line argv m)"

definition command_matched_nodes ::
  "cli_env \<Rightarrow> string list \<Rightarrow> string \<Rightarrow> 'f cmd_node \<Rightarrow> 'f cmd_node option list \<times> string option list"
where
  "command_matched_nodes env argv command_line root =
     (let r = matched_nodes env command_line argv root in (map fst r, map snd r))"

text \<open>The node matched last and the arguments, which are pointers and may be null.\<close>

fun execute_words ::
  "cli_env \<Rightarrow> string \<Rightarrow> string list \<Rightarrow> 'f cmd_node \<Rightarrow> 'f cmd_node option \<Rightarrow> string option list
   \<Rightarrow> 'f cmd_node option \<times> string option list"
where
  "execute_words env command_line [] parent m argv = (m, argv)"
| "execute_words env command_line (word # words) parent m argv =
     (if word = [] then (m, argv)
      else case command_match_unique_exact env parent word of
             None \<Rightarrow> (None, argv)
           | Some m \<Rightarrow>
               if line_spec (cmdstr m) \<or> file_spec (cmdstr m) then (Some m, argv @ [strstr command_line word])
               else execute_words env command_line words m (Some m) (argv @ [Some (command_replace env m word)]))"

text \<open>The function called and its arguments; \<open>None\<close> is \<^verbatim>\<open>CMD_NOT_FOUND\<close>.\<close>

definition command_execute :: "cli_env \<Rightarrow> string \<Rightarrow> 'f cmd_node \<Rightarrow> ('f \<times> string option list) option" where
  "command_execute env command_line root =
     (case execute_words env command_line (split_on (CHR '' '') command_line) root None [] of
        (m, argv) \<Rightarrow> map_option (\<lambda>func. (func, argv)) (Option.bind m cmd_func))"

fun strcommon :: "string \<Rightarrow> string \<Rightarrow> string" where
  "strcommon (d # dest) (s # src) = (if d = s then d # strcommon dest src else [])"
| "strcommon dest src = []"

definition common_of :: "string list \<Rightarrow> string" where
  "common_of ws = (case ws of [] \<Rightarrow> [] | w # ws \<Rightarrow> foldl strcommon w ws)"

definition file_complete :: "cli_env \<Rightarrow> string \<Rightarrow> string option" where
  "file_complete env word =
     (case path_disassemble word of (dirname, filename) \<Rightarrow>
        case readdir_of env dirname of
          None \<Rightarrow> None
        | Some names \<Rightarrow>
            (case filter (prefix filename) names of
               [] \<Rightarrow> Some []
             | [matched] \<Rightarrow>
                 (let filepath = (if dirname = ''/'' then ''/'' @ matched else dirname @ ''/'' @ matched)
                  in Some (if stat_of env filepath = St_Dir then drop (length filename) matched @ ''/''
                           else drop (length filename) matched))
             | ms \<Rightarrow> Some (drop (length filename) (common_of ms))))"

text \<open>
  The buffer \<^verbatim>\<open>common\<close> has 64 bytes, of which the last is zero; the result starts \<open>length word\<close> bytes
  into it.  \<open>None\<close> is a read behind a buffer.
\<close>

definition command_complete_common :: "cli_env \<Rightarrow> string \<Rightarrow> 'f cmd_node \<Rightarrow> string option" where
  "command_complete_common env word parent =
     (let ms = filter (\<lambda>node. \<not> is_command_node_variable env node \<and> prefix word (cmdstr node)) (cmdvec parent);
          common = (case ms of [] \<Rightarrow> [] | m # ms \<Rightarrow> foldl (\<lambda>c node. strcommon c (cmdstr node)) (take 63 (cmdstr m)) ms)
      in if 64 \<le> length word then None else Some (drop (length word) common))"

text \<open>Where the walk along the words ends: at a word without a match, or with the match of the last word.\<close>

fun complete_walk :: "cli_env \<Rightarrow> string list \<Rightarrow> 'f cmd_node \<Rightarrow> string \<Rightarrow> ('f cmd_node \<times> string) + ('f cmd_node \<times> string)" where
  "complete_walk env [] m matched = Inr (m, matched)"
| "complete_walk env (word # words) parent matched =
     (case command_match_unique_exact env parent word of
        None \<Rightarrow> Inl (parent, word)
      | Some m \<Rightarrow> complete_walk env words m word)"

definition command_complete :: "cli_env \<Rightarrow> string \<Rightarrow> 'f cmd_node \<Rightarrow> string option" where
  "command_complete env command_line root =
     (case complete_walk env (split_on (CHR '' '') (shell_format3 command_line)) root [] of
        Inl (parent, word) \<Rightarrow> map_option (take 63) (command_complete_common env word parent)
      | Inr (m, matched) \<Rightarrow>
          if \<not> is_command_node_variable env m then
            (if length matched \<le> length (cmdstr m) then Some (take 63 (drop (length matched) (cmdstr m) @ '' '')) else None)
          else if file_spec (cmdstr m) then Some (take 63 (case file_complete env matched of None \<Rightarrow> [] | Some c \<Rightarrow> c))
          else Some [])"

fun match_node_words :: "cli_env \<Rightarrow> string list \<Rightarrow> 'f cmd_node \<Rightarrow> 'f cmd_node option" where
  "match_node_words env [] m = Some m"
| "match_node_words env (word # words) parent =
     (if word = [] then Some parent
      else case command_match_unique_exact env parent word of
             None \<Rightarrow> None
           | Some m \<Rightarrow> if line_spec (cmdstr m) \<or> file_spec (cmdstr m) then Some m else match_node_words env words m)"

definition command_match_node :: "cli_env \<Rightarrow> string \<Rightarrow> 'f cmd_node \<Rightarrow> 'f cmd_node option" where
  "command_match_node env command_line root = match_node_words env (split_on (CHR '' '') command_line) root"

section \<open>Saved configuration and names of functions\<close>

fun config_words :: "string list \<Rightarrow> string \<Rightarrow> string option" where
  "config_words [] str = Some str"
| "config_words (a # as) str = Option.bind (buf_append 128 str ('' '' @ a)) (config_words as)"

text \<open>\<open>argv\<close> has at least one element; the copies made by \<^verbatim>\<open>strdup\<close> are different pointers.\<close>

definition command_config_add :: "string list \<Rightarrow> string list \<Rightarrow> string list option" where
  "command_config_add config argv =
     (case argv of
        [] \<Rightarrow> None
      | a # as \<Rightarrow>
          do {
            config_line \<leftarrow> buf_append 128 [] (''  '' @ a);
            config_line \<leftarrow> config_words as config_line;
            Some (config @ [take 127 config_line])
          })"

definition command_config_clear :: "string list \<Rightarrow> string list" where
  "command_config_clear config = []"

definition command_config_write :: "string list \<Rightarrow> string" where
  "command_config_write config = concat (map (\<lambda>l. l @ ''\<newline>'') config)"

definition command_func_name_register :: "'f \<Rightarrow> string \<Rightarrow> ('f \<times> string) list \<Rightarrow> ('f \<times> string) list" where
  "command_func_name_register command_func command_name names = names @ [(command_func, command_name)]"

definition command_func_name_lookup :: "'f \<Rightarrow> ('f \<times> string) list \<Rightarrow> string option" where
  "command_func_name_lookup command_func names =
     fold (\<lambda>entry m. if fst entry = command_func then Some (snd entry) else m) names None"

end
