(* ===== verification/Shell.thy ===== *)
theory Shell
  imports Command
begin

text \<open>
  The line editor of the shell, \<^verbatim>\<open>lib/sdplane/shell.c\<close>, \<^verbatim>\<open>shell_keyfunc.c\<close> and \<^verbatim>\<open>shell_telnet.c\<close>,
  with the history, the completion and the execution of lines of \<^verbatim>\<open>command_shell.c\<close>.

  The buffer \<^verbatim>\<open>command_line\<close> is the list of its \<^verbatim>\<open>size\<close> bytes, \<open>cursor\<close> and \<open>end\<close> are indices into it
  and no smaller than zero.  What is written to the terminal is a list, to which \<^verbatim>\<open>fprintf\<close> adds
  when its buffer is flushed.  A violated assertion is \<open>None\<close>, and so is a write behind a buffer.
  Allocations succeed; the bytes that \<^verbatim>\<open>realloc\<close> adds are a parameter.  The terminal is open, and the
  pager is off, as on the terminals of the network.  Debug output other than telnet's is not
  modelled.
\<close>

section \<open>State\<close>

datatype keyfunc =
    K_move_to_begin | K_move_to_end | K_forward_char | K_backward_char | K_delete_char | K_delete_char_advanced
  | K_backspace | K_kill_line | K_kill_all | K_yank | K_clear_screen | K_refresh | K_empty_enter | K_insert_tab
  | K_escape | K_delete_word_backward | K_input_char | K_history_prev | K_history_next | K_completion | K_execute | K_ls_candidate | K_clear_terminal
  | V_normal | V_escape_1 | V_escape_2 | V_move_word_backward | V_move_word_forward | V_delete_word_backward
  | V_arrow_up | V_arrow_down | V_arrow_left | V_arrow_right
  | T_iac_start | T_telnet_opt | T_telnet_cmd | T_subnego | T_sb_start | T_sb_end

datatype keymap_id = Keymap_Normal | Keymap_Escape_1 | Keymap_Escape_2 | Keymap_Iac_1 | Keymap_Iac_2 | Keymap_Subnego

datatype tout = Ch char | Clear_Screen

record hist =
  h_array :: "string option list"
  h_last :: nat
  h_current :: nat

record 'f shell =
  writefd_ok :: bool
  fl_escape :: bool
  fl_interactive :: bool
  sh_NL :: string
  sh_prompt :: string
  command_line :: string
  sh_cursor :: nat
  sh_end :: nat
  cut_buffer :: "string option"
  inputch :: char
  sh_keymap :: keymap_id
  keymap_normal :: "char \<Rightarrow> keyfunc option"
  cmdset :: "'f cmd_node"
  sh_history :: "hist option"
  fl_telnet_debug :: bool
  ws_row :: u16
  ws_col :: u16
  telnet_cmd :: char
  telnet_opt :: char
  subnego_buf :: string
  terminal_buf :: "tout list"
  sh_output :: "tout list"

definition sh_size :: "'f shell \<Rightarrow> nat" where "sh_size sh = length (command_line sh)"

definition CTRL_H :: char where "CTRL_H = CHR 0x08"
definition NUL :: char where "NUL = CHR 0x00"

text \<open>The string that starts at index \<open>i\<close> of the buffer.\<close>

definition line_from :: "nat \<Rightarrow> 'f shell \<Rightarrow> string" where
  "line_from i sh = takeWhile (\<lambda>c. c \<noteq> NUL) (drop i (command_line sh))"

text \<open>\<^verbatim>\<open>write\<close> and \<^verbatim>\<open>writec\<close>, which fail without effect on a closed descriptor, and the buffered output.\<close>

definition write_out :: "string \<Rightarrow> 'f shell \<Rightarrow> 'f shell" where
  "write_out s sh = (if writefd_ok sh then sh\<lparr>sh_output := sh_output sh @ map Ch s\<rparr> else sh)"

definition writec_times :: "char \<Rightarrow> nat \<Rightarrow> 'f shell \<Rightarrow> 'f shell" where
  "writec_times c n sh = write_out (replicate n c) sh"

definition term_printf :: "tout list \<Rightarrow> 'f shell \<Rightarrow> 'f shell" where
  "term_printf ts sh = sh\<lparr>terminal_buf := terminal_buf sh @ ts\<rparr>"

definition term_flush :: "'f shell \<Rightarrow> 'f shell" where
  "term_flush sh = sh\<lparr>sh_output := sh_output sh @ terminal_buf sh, terminal_buf := []\<rparr>"

section \<open>Editing\<close>

definition shell_terminate :: "'f shell \<Rightarrow> 'f shell" where
  "shell_terminate sh = (if sh_size sh \<le> sh_end sh then sh else sh\<lparr>command_line := (command_line sh)[sh_end sh := NUL]\<rparr>)"

definition shell_linefeed :: "'f shell \<Rightarrow> 'f shell" where
  "shell_linefeed sh = term_printf (map Ch (sh_NL sh)) sh"

definition shell_clear :: "'f shell \<Rightarrow> 'f shell" where
  "shell_clear sh = shell_terminate (sh\<lparr>sh_cursor := 0, sh_end := 0\<rparr>)"

definition shell_prompt :: "'f shell \<Rightarrow> 'f shell" where
  "shell_prompt sh =
     (if \<not> writefd_ok sh then sh
      else write_out (sh_prompt sh) ((if fl_interactive sh then write_out [CHR 0x0D] else id) (term_flush sh)))"

text \<open>\<^verbatim>\<open>shell_expand\<close> doubles the buffer until it has \<open>need\<close> bytes; the new ones are \<open>fresh\<close>.\<close>

function shell_fit :: "(nat \<Rightarrow> char) \<Rightarrow> nat \<Rightarrow> string \<Rightarrow> string option" where
  "shell_fit fresh need line =
     (if need \<le> length line then Some line
      else if line = [] then None
      else shell_fit fresh need (line @ map fresh [length line..<2 * length line]))"
  by pat_completeness auto
termination
  by (relation "measure (\<lambda>(fresh, need, line). need - length line)") (auto simp: neq_Nil_conv)

declare shell_fit.simps [simp del]

definition overwrite :: "nat \<Rightarrow> string \<Rightarrow> string \<Rightarrow> string" where
  "overwrite i s line = take i line @ s @ drop (i + length s) line"

definition shell_insert :: "(nat \<Rightarrow> char) \<Rightarrow> string \<Rightarrow> 'f shell \<Rightarrow> 'f shell option" where
  "shell_insert fresh s sh =
     do {
       line \<leftarrow> shell_fit fresh (sh_end sh + length s + 1) (command_line sh);
       let cursor = sh_cursor sh;
       let line = memmove (cursor + length s) cursor (sh_end sh - cursor) line;
       let sh = shell_terminate (sh\<lparr>command_line := overwrite cursor s line, sh_end := sh_end sh + length s\<rparr>);
       Some (if writefd_ok sh
             then (let sh = (write_out (line_from cursor sh) sh)\<lparr>sh_cursor := cursor + length s\<rparr>
                   in writec_times CTRL_H (sh_end sh - sh_cursor sh) sh)
             else sh)
     }"

definition shell_delete_string :: "nat \<Rightarrow> nat \<Rightarrow> 'f shell \<Rightarrow> 'f shell option" where
  "shell_delete_string start stop sh =
     (if \<not> (start \<le> stop \<and> stop \<le> sh_end sh) then None
      else Some (
        let movesize = sh_end sh - stop;
            line = (if movesize \<noteq> 0 then memmove start stop movesize (command_line sh) else command_line sh);
            line = overwrite (start + movesize) (replicate (sh_end sh - (start + movesize)) (CHR '' '')) line;
            sh = shell_terminate (sh\<lparr>command_line := line\<rparr>);
            sh = writec_times CTRL_H (sh_cursor sh - start) sh;
            sh = write_out (line_from start sh) sh;
            sh = sh\<lparr>sh_cursor := start\<rparr>;
            sh = writec_times CTRL_H (sh_end sh - sh_cursor sh) sh
        in shell_terminate (sh\<lparr>sh_end := sh_end sh - (stop - start)\<rparr>)))"

definition shell_cut :: "nat \<Rightarrow> nat \<Rightarrow> 'f shell \<Rightarrow> 'f shell option" where
  "shell_cut start stop sh =
     (if \<not> (start \<le> stop \<and> stop \<le> sh_end sh) then None
      else if stop - start = 0 then Some (sh\<lparr>cut_buffer := None\<rparr>)
      else shell_delete_string start stop
             (sh\<lparr>cut_buffer := Some (takeWhile (\<lambda>c. c \<noteq> NUL) (take (stop - start) (drop start (command_line sh))))\<rparr>))"

definition shell_forward :: "nat \<Rightarrow> 'f shell \<Rightarrow> 'f shell" where
  "shell_forward num sh =
     (if sh_end sh < sh_cursor sh + num then sh
      else (write_out (take num (drop (sh_cursor sh) (command_line sh))) sh)\<lparr>sh_cursor := sh_cursor sh + num\<rparr>)"

definition shell_backward :: "nat \<Rightarrow> 'f shell \<Rightarrow> 'f shell" where
  "shell_backward num sh =
     (if sh_cursor sh < num then sh else writec_times CTRL_H num (sh\<lparr>sh_cursor := sh_cursor sh - num\<rparr>))"

definition shell_moveto :: "nat \<Rightarrow> 'f shell \<Rightarrow> 'f shell option" where
  "shell_moveto index sh =
     (if \<not> index \<le> sh_end sh then None
      else Some (if sh_cursor sh < index then shell_forward (index - sh_cursor sh) sh
                 else if index < sh_cursor sh then shell_backward (sh_cursor sh - index) sh
                 else sh))"

definition shell_refresh :: "'f shell \<Rightarrow> 'f shell" where
  "shell_refresh sh =
     (let sh = shell_terminate (shell_prompt sh); sh = write_out (line_from 0 sh) sh
      in writec_times CTRL_H (sh_end sh - sh_cursor sh) sh)"

text \<open>The loop of \<^verbatim>\<open>shell_format\<close> over the line: the text kept and the new cursor.\<close>

fun format_loop :: "nat \<Rightarrow> nat \<Rightarrow> nat \<Rightarrow> string \<Rightarrow> string \<times> nat" where
  "format_loop cur count i [] = ([], 0)"
| "format_loop cur count i (c # cs) =
     (let count = (if c = CHR '' '' then count + 1 else count)
      in if c = CHR '' '' \<and> 1 < count then format_loop cur count (i + 1) cs
         else if c = CHR '' '' \<and> i = 0 then format_loop cur count (i + 1) cs
         else case format_loop cur (if c \<noteq> CHR '' '' then 0 else count) (i + 1) cs of
                (kept, cursor) \<Rightarrow> (c # kept, (if i < cur then cursor + 1 else cursor)))"

definition shell_format2 :: "'f shell \<Rightarrow> 'f shell" where
  "shell_format2 sh =
     (case format_loop (sh_cursor sh) 0 0 (take (sh_end sh) (command_line sh)) of
        (kept, cursor) \<Rightarrow>
          sh\<lparr>command_line := kept @ replicate (sh_size sh - length kept) NUL, sh_cursor := cursor, sh_end := length kept\<rparr>)"

definition shell_format :: "'f shell \<Rightarrow> 'f shell" where
  "shell_format sh =
     (let sh2 = shell_format2 sh
      in if fl_interactive sh
         then writec_times CTRL_H (sh_end sh - sh_cursor sh2)
                (writec_times (CHR '' '') (sh_end sh - sh_end sh2)
                  (write_out (line_from 0 sh2) (writec_times CTRL_H (sh_cursor sh) sh2)))
         else sh2)"

section \<open>Words\<close>

text \<open>The tokens \<^verbatim>\<open>strsep\<close> returns one after the other, each with its position.\<close>

function strseps :: "string \<Rightarrow> nat \<Rightarrow> string \<Rightarrow> (nat \<times> string) list" where
  "strseps ds i s =
     (let w = takeWhile (\<lambda>c. c \<notin> set ds) s
      in (i, w) # (case drop (length w) s of [] \<Rightarrow> [] | c # s \<Rightarrow> strseps ds (i + length w + 1) s))"
  by pat_completeness auto
termination
proof (relation "measure (\<lambda>(ds, i, s). length s)", goal_cases)
  case (2 ds i s w c s')
  then have "length (drop (length w) s) = Suc (length s')" by simp
  then show ?case by simp
qed simp

declare strseps.simps [simp del]

definition SHELL_WORD_DELIMITERS :: string where "SHELL_WORD_DELIMITERS = '' ''"
definition SHELL_WORD_DELIMITERS_SUB :: string where "SHELL_WORD_DELIMITERS_SUB = '' /''"

fun find_word :: "nat \<Rightarrow> nat \<times> string \<Rightarrow> (nat \<times> string) list \<Rightarrow> nat \<times> string" where
  "find_word point word [] = word"
| "find_word point word (next # toks) =
     (if fst word \<le> point \<and> point < fst next then word
      else find_word point (if snd next \<noteq> [] then next else word) toks)"

text \<open>\<^verbatim>\<open>word = start\<close>: the first token.\<close>

definition word_at :: "string \<Rightarrow> nat \<Rightarrow> string \<Rightarrow> nat \<times> string" where
  "word_at ds point s = (let toks = strseps ds 0 s in find_word point (hd toks) toks)"

definition line_head :: "string \<Rightarrow> nat \<Rightarrow> 'f shell \<Rightarrow> nat option" where
  "line_head ds point sh =
     (if \<not> point \<le> sh_end sh then None
      else case word_at ds point (line_from 0 (shell_terminate sh)) of
             (start, w) \<Rightarrow> Some (if start + length w < point then point else start))"

definition shell_word_head :: "nat \<Rightarrow> 'f shell \<Rightarrow> nat option" where
  "shell_word_head = line_head SHELL_WORD_DELIMITERS"

definition shell_subword_head :: "nat \<Rightarrow> 'f shell \<Rightarrow> nat option" where
  "shell_subword_head = line_head SHELL_WORD_DELIMITERS_SUB"

definition shell_word_dup :: "nat \<Rightarrow> 'f shell \<Rightarrow> string option option" where
  "shell_word_dup point sh =
     (if \<not> point \<le> sh_end sh then None
      else case word_at SHELL_WORD_DELIMITERS point (line_from 0 (shell_terminate sh)) of
             (start, w) \<Rightarrow> Some (if start + length w < point then None else Some w))"

definition shell_word_end :: "nat \<Rightarrow> 'f shell \<Rightarrow> nat option" where
  "shell_word_end point sh =
     (if \<not> point \<le> sh_end sh then None
      else case word_at SHELL_WORD_DELIMITERS point (line_from 0 (shell_terminate sh)) of
             (start, w) \<Rightarrow> Some (if start + length w < point then point else start + length w))"

definition on_token :: "nat \<Rightarrow> nat \<times> string \<Rightarrow> bool" where
  "on_token point word \<longleftrightarrow> fst word \<le> point \<and> point \<le> fst word + length (snd word)"

fun next_token :: "nat \<Rightarrow> (nat \<times> string) list \<Rightarrow> nat option" where
  "next_token point [] = None"
| "next_token point (word # toks) =
     (if on_token point word
      then (case toks of [] \<Rightarrow> None | nx # toks \<Rightarrow> if snd nx \<noteq> [] then Some (fst nx) else None)
      else next_token point toks)"

definition shell_word_next_head :: "nat \<Rightarrow> 'f shell \<Rightarrow> nat option" where
  "shell_word_next_head point sh =
     (if \<not> point \<le> sh_end sh then None
      else Some (case next_token point (strseps SHELL_WORD_DELIMITERS 0 (line_from 0 (shell_terminate sh))) of
                   None \<Rightarrow> sh_end sh
                 | Some head \<Rightarrow> head))"

fun prev_token :: "nat \<Rightarrow> nat \<Rightarrow> (nat \<times> string) list \<Rightarrow> nat" where
  "prev_token point prev [] = prev"
| "prev_token point prev (word # toks) =
     (if on_token point word then prev else prev_token point (if snd word \<noteq> [] then fst word else prev) toks)"

definition line_prev_head :: "string \<Rightarrow> nat \<Rightarrow> 'f shell \<Rightarrow> nat option" where
  "line_prev_head ds point sh =
     (if \<not> point \<le> sh_end sh then None else Some (prev_token point 0 (strseps ds 0 (line_from 0 (shell_terminate sh)))))"

definition shell_word_prev_head :: "nat \<Rightarrow> 'f shell \<Rightarrow> nat option" where
  "shell_word_prev_head = line_prev_head SHELL_WORD_DELIMITERS"

definition shell_subword_prev_head :: "nat \<Rightarrow> 'f shell \<Rightarrow> nat option" where
  "shell_subword_prev_head = line_prev_head SHELL_WORD_DELIMITERS_SUB"

definition backward_target :: "'f shell \<Rightarrow> nat option" where
  "backward_target sh =
     do {
       start \<leftarrow> shell_subword_head (sh_cursor sh) sh;
       if start = sh_cursor sh then shell_subword_prev_head (sh_cursor sh) sh else Some start
     }"

text \<open>The word functions also terminate the line in the buffer.\<close>

definition shell_delete_word_backward :: "'f shell \<Rightarrow> 'f shell option" where
  "shell_delete_word_backward sh =
     do { start \<leftarrow> backward_target sh; shell_cut start (sh_cursor sh) (shell_terminate sh) }"

definition shell_move_word_backward :: "'f shell \<Rightarrow> 'f shell option" where
  "shell_move_word_backward sh = do { start \<leftarrow> backward_target sh; shell_moveto start (shell_terminate sh) }"

definition shell_move_word_forward :: "'f shell \<Rightarrow> 'f shell option" where
  "shell_move_word_forward sh =
     do { start \<leftarrow> shell_word_next_head (sh_cursor sh) sh; shell_moveto start (shell_terminate sh) }"

section \<open>History, completion and execution\<close>

definition HISTORY_SIZE :: nat where "HISTORY_SIZE = 128"
definition HISTORY_PREV :: "nat \<Rightarrow> nat" where "HISTORY_PREV x = (if x = 0 then HISTORY_SIZE - 1 else x - 1)"
definition HISTORY_NEXT :: "nat \<Rightarrow> nat" where "HISTORY_NEXT x = (if x + 1 = HISTORY_SIZE then 0 else x + 1)"

definition hist_empty :: hist where
  "hist_empty = \<lparr>h_array = replicate HISTORY_SIZE None, h_last = 0, h_current = 0\<rparr>"

definition command_history_add :: "string \<Rightarrow> hist option \<Rightarrow> hist option" where
  "command_history_add line history =
     (let h = (case history of None \<Rightarrow> hist_empty | Some h \<Rightarrow> h);
          h = (if h_array h ! h_last h \<noteq> None then h\<lparr>h_current := HISTORY_NEXT (h_last h)\<rparr> else h)
      in if h_array h ! h_current h \<noteq> None then None
         else if h_array h ! h_last h = Some line then Some h
         else
           (let h = h\<lparr>h_array := (h_array h)[h_current h := Some line], h_last := h_current h, h_current := HISTORY_NEXT (h_current h)\<rparr>
            in Some (h\<lparr>h_array := (h_array h)[h_current h := None]\<rparr>)))"

definition show_entry :: "(nat \<Rightarrow> char) \<Rightarrow> string \<Rightarrow> 'f shell \<Rightarrow> 'f shell option" where
  "show_entry fresh s sh = do { sh \<leftarrow> shell_delete_string 0 (sh_end sh) sh; shell_insert fresh s sh }"

definition command_history_prev :: "(nat \<Rightarrow> char) \<Rightarrow> 'f shell \<Rightarrow> 'f shell option" where
  "command_history_prev fresh sh =
     (case sh_history sh of
        None \<Rightarrow> Some sh
      | Some h \<Rightarrow>
          if h_current h = HISTORY_NEXT (HISTORY_NEXT (h_last h)) then Some sh
          else
            (let prev = HISTORY_PREV (h_current h)
             in case h_array h ! prev of
                  None \<Rightarrow> Some sh
                | Some s \<Rightarrow> do { sh \<leftarrow> show_entry fresh s sh; Some (sh\<lparr>sh_history := Some (h\<lparr>h_current := prev\<rparr>)\<rparr>) }))"

definition command_history_next :: "(nat \<Rightarrow> char) \<Rightarrow> 'f shell \<Rightarrow> 'f shell option" where
  "command_history_next fresh sh =
     (case sh_history sh of
        None \<Rightarrow> Some sh
      | Some h \<Rightarrow>
          (let floor = HISTORY_NEXT (h_last h); nx = HISTORY_NEXT (h_current h)
           in if h_current h = floor then Some sh
              else
                do {
                  sh \<leftarrow> (case h_array h ! nx of
                           None \<Rightarrow> Some sh
                         | Some s \<Rightarrow> do { sh \<leftarrow> show_entry fresh s sh; Some (sh\<lparr>sh_history := Some (h\<lparr>h_current := nx\<rparr>)\<rparr>) });
                  if nx = floor
                  then do { sh \<leftarrow> shell_delete_string 0 (sh_end sh) sh; Some (sh\<lparr>sh_history := Some (h\<lparr>h_current := nx\<rparr>)\<rparr>) }
                  else Some sh
                }))"

text \<open>
  What the editor takes from outside: new memory, the command line's environment, what the functions
  of the commands do with the shell, and the entries of directories.
\<close>

record 'f sh_env =
  fresh_mem :: "nat \<Rightarrow> char"
  sh_cli :: cli_env
  run_cmd :: "'f \<Rightarrow> string option list \<Rightarrow> 'f shell \<Rightarrow> 'f shell \<times> int"
  dirents_of :: "string \<Rightarrow> (string \<times> bool) list option"

definition command_shell_completion :: "'f sh_env \<Rightarrow> 'f shell \<Rightarrow> 'f shell option" where
  "command_shell_completion env sh =
     do {
       point \<leftarrow> shell_word_end (sh_cursor sh) sh;
       sh \<leftarrow> shell_moveto point (shell_terminate sh);
       completion \<leftarrow> command_complete (sh_cli env) (line_from 0 sh) (cmdset sh);
       sh \<leftarrow> shell_insert (fresh_mem env) completion sh;
       Some (term_flush sh)
     }"

text \<open>
  \<^verbatim>\<open>file_ls_candidate\<close> prints the entries of a directory that begin with a name, sorted and in columns.
  An entry is a name and whether it is a directory.  With a window of less than two columns the
  division rounds to zero, since every entry has a name.
\<close>

fun strcmp_le :: "string \<Rightarrow> string \<Rightarrow> bool" where
  "strcmp_le [] t = True"
| "strcmp_le (a # s) [] = False"
| "strcmp_le (a # s) (b # t) = (if of_char a < (of_char b :: nat) then True else if a = b then strcmp_le s t else False)"

fun dirent_insert :: "string \<times> bool \<Rightarrow> (string \<times> bool) list \<Rightarrow> (string \<times> bool) list" where
  "dirent_insert d [] = [d]"
| "dirent_insert d (e # es) = (if strcmp_le (fst d) (fst e) then d # e # es else e # dirent_insert d es)"

definition pad_right :: "nat \<Rightarrow> string \<Rightarrow> string" where
  "pad_right n s = s @ replicate (n - length s) (CHR '' '')"

definition print_dirent :: "string \<Rightarrow> nat \<Rightarrow> nat \<Rightarrow> string \<times> bool \<Rightarrow> nat \<Rightarrow> string" where
  "print_dirent NL ncolumn print_width dirent num =
     (let printname = fst dirent @ (if snd dirent then ''/'' else [])
      in (if num mod ncolumn = 0 then ''  '' else [])
         @ (if ncolumn \<noteq> 1 then pad_right print_width printname else printname)
         @ (if num mod ncolumn = ncolumn - 1 then NL else []))"

definition file_ls_candidate :: "'f sh_env \<Rightarrow> 'f shell \<Rightarrow> string \<Rightarrow> string" where
  "file_ls_candidate env sh file_path =
     (case path_disassemble file_path of (dirname, filename) \<Rightarrow>
        case dirents_of env dirname of
          None \<Rightarrow> ''opendir() failed: '' @ file_path @ '' dir: '' @ dirname @ sh_NL sh
        | Some dirents \<Rightarrow>
            (let sel = filter (\<lambda>d. \<not> prefix ''.'' (fst d) \<and> prefix filename (fst d)) dirents;
                 maxlen = foldl max 0 (map (\<lambda>d. length (fst d)) sel);
                 ncolumn = (unat (ws_col sh) - 2) div (maxlen + 2);
                 ncolumn = (if ncolumn = 0 then 1 else ncolumn);
                 sorted = foldr dirent_insert sel []
             in sh_NL sh @ concat (map2 (print_dirent (sh_NL sh) ncolumn (maxlen + 2)) sorted [0..<length sorted]) @ sh_NL sh))"

text \<open>\<^verbatim>\<open>"  %-16s %s%s"\<close>; a help text that is missing is printed as \<^verbatim>\<open>(null)\<close>.\<close>

definition ls_line :: "'f shell \<Rightarrow> string \<Rightarrow> string option \<Rightarrow> string" where
  "ls_line sh word help = ''  '' @ pad_right 16 word @ '' '' @ (case help of None \<Rightarrow> ''(null)'' | Some h \<Rightarrow> h) @ sh_NL sh"

definition ls_node :: "'f sh_env \<Rightarrow> 'f shell \<Rightarrow> string \<Rightarrow> 'f cmd_node \<Rightarrow> string" where
  "ls_node env sh word node =
     (if is_command_match (sh_cli env) (cmdstr node) word then ls_line sh (cmdstr node) (helpstr node) else [])"

definition ls_nodes :: "'f sh_env \<Rightarrow> 'f shell \<Rightarrow> 'f cmd_node option list \<Rightarrow> nat \<Rightarrow> string \<Rightarrow> string" where
  "ls_nodes env sh cmdnodes last_arg word =
     (if 0 < last_arg
      then (case cmdnodes ! (last_arg - 1) of
              None \<Rightarrow> []
            | Some match \<Rightarrow>
                (if word = [] \<and> cmd_func match \<noteq> None then ls_line sh ''<cr>'' (helpstr match) else [])
                @ concat (map (\<lambda>node. ls_node env sh word node @ (if file_spec (cmdstr node) then file_ls_candidate env sh word else []))
                    (cmdvec match)))
      else concat (map (ls_node env sh word) (cmdvec (cmdset sh))))"

text \<open>The arguments are pointers; \<^verbatim>\<open>command_matched_nodes\<close> may set the last one to null.\<close>

definition ls_candidates :: "'f sh_env \<Rightarrow> 'f shell \<Rightarrow> string option" where
  "ls_candidates env sh =
     do {
       argv \<leftarrow> command_argv_parse (line_from 0 sh);
       let (cmdnodes, argv) = command_matched_nodes (sh_cli env) argv (line_from 0 sh) (cmdset sh);
       word \<leftarrow> argv ! (length argv - 1);
       Some (ls_nodes env sh cmdnodes (length argv - 1) word)
     }"

definition command_shell_ls_candidate :: "'f sh_env \<Rightarrow> 'f shell \<Rightarrow> 'f shell option" where
  "command_shell_ls_candidate env sh =
     (let sh = shell_linefeed (shell_terminate sh);
          sh = (if sh_cursor sh \<noteq> sh_end sh then shell_refresh (sh\<lparr>sh_cursor := sh_end sh\<rparr>) else sh)
      in do { text \<leftarrow> ls_candidates env sh; Some (shell_refresh (term_printf (map Ch text) sh)) })"

definition is_comment :: "char \<Rightarrow> bool" where "is_comment c \<longleftrightarrow> c = CHR ''#'' \<or> c = CHR ''!''"

text \<open>The comment is cut off; the cursor moves with the end.\<close>

definition strip_comment :: "'f shell \<Rightarrow> 'f shell" where
  "strip_comment sh =
     (let s = line_from 0 sh; n = length (takeWhile (\<lambda>c. \<not> is_comment c) s)
      in if n < length s
         then shell_terminate (sh\<lparr>sh_end := n, sh_cursor := (if n < sh_cursor sh then n else sh_cursor sh)\<rparr>)
         else sh)"

definition CMD_FAILURE :: int where "CMD_FAILURE = 2"
definition CMD_NOT_FOUND :: int where "CMD_NOT_FOUND = 3"

text \<open>
  The block for a line that is not empty.  The call is the function executed with its arguments.  The
  functions do not end the shell and do not start the pager.
\<close>

definition execute_line :: "'f sh_env \<Rightarrow> 'f shell \<Rightarrow> ('f shell \<times> ('f \<times> string option list) option \<times> int) option" where
  "execute_line env sh =
     (let sh = shell_format2 sh;
          call = command_execute (sh_cli env) (line_from 0 sh) (cmdset sh);
          (sh, ret) = (case call of None \<Rightarrow> (sh, CMD_NOT_FOUND) | Some (f, argv) \<Rightarrow> run_cmd env f argv sh);
          sh = (if ret = CMD_NOT_FOUND then term_printf (map Ch (''no such command: '' @ line_from 0 sh @ sh_NL sh)) sh
                else if ret = CMD_FAILURE then term_printf (map Ch (''command failed: '' @ line_from 0 sh @ sh_NL sh)) sh
                else sh);
          ret = (if ret = CMD_NOT_FOUND \<or> ret = CMD_FAILURE then -1 else ret)
      in do { h \<leftarrow> command_history_add (line_from 0 sh) (sh_history sh); Some (sh\<lparr>sh_history := Some h\<rparr>, call, ret) })"

definition command_shell_execute :: "'f sh_env \<Rightarrow> 'f shell \<Rightarrow> ('f shell \<times> ('f \<times> string option list) option \<times> int) option" where
  "command_shell_execute env sh =
     (if line_from 0 sh = [] \<and> \<not> fl_interactive sh then Some (sh, None, 0)
      else
        do {
          let sh = strip_comment (term_flush (shell_linefeed sh));
          (sh, call, ret) \<leftarrow> (if line_from 0 sh \<noteq> [] then execute_line env sh else Some (sh, None, 0));
          let sh = shell_prompt (shell_clear sh);
          Some (if fl_interactive sh then shell_refresh sh else sh, call, ret)
        })"

section \<open>Keys\<close>

definition shell_keyfunc_delete_char :: "'f shell \<Rightarrow> 'f shell option" where
  "shell_keyfunc_delete_char sh =
     (if sh_cursor sh < sh_end sh then shell_delete_string (sh_cursor sh) (sh_cursor sh + 1) sh else Some sh)"

definition shell_keyfunc_delete_char_advanced :: "'f shell \<Rightarrow> 'f shell option" where
  "shell_keyfunc_delete_char_advanced sh =
     (if sh_cursor sh < sh_end sh then shell_delete_string (sh_cursor sh) (sh_cursor sh + 1) sh
      else if 0 < sh_end sh then shell_delete_string (sh_end sh - 1) (sh_end sh) sh
      else Some sh)"

definition shell_keyfunc_backspace :: "'f shell \<Rightarrow> 'f shell option" where
  "shell_keyfunc_backspace sh =
     (if sh_cursor sh = 0 then Some sh
      else if fl_escape sh then shell_delete_word_backward sh
      else (let sh = shell_backward 1 sh in shell_delete_string (sh_cursor sh) (sh_cursor sh + 1) sh))"

definition shell_keyfunc_kill_all :: "'f shell \<Rightarrow> 'f shell option" where
  "shell_keyfunc_kill_all sh = (let sh = shell_backward (sh_cursor sh) sh in shell_cut 0 (sh_end sh) sh)"

definition shell_keyfunc_yank :: "(nat \<Rightarrow> char) \<Rightarrow> 'f shell \<Rightarrow> 'f shell option" where
  "shell_keyfunc_yank fresh sh = (case cut_buffer sh of None \<Rightarrow> Some sh | Some s \<Rightarrow> shell_insert fresh s sh)"

definition shell_keyfunc_clear_screen :: "'f shell \<Rightarrow> 'f shell" where
  "shell_keyfunc_clear_screen sh = shell_refresh (shell_format (term_printf [Clear_Screen] sh))"

definition shell_keyfunc_refresh :: "'f shell \<Rightarrow> 'f shell" where
  "shell_keyfunc_refresh sh = shell_refresh (shell_linefeed (shell_format sh))"

definition shell_keyfunc_clear_terminal :: "'f shell \<Rightarrow> 'f shell" where
  "shell_keyfunc_clear_terminal sh = shell_refresh (term_flush (term_printf [Clear_Screen] sh))"

definition shell_keyfunc_empty_enter :: "'f shell \<Rightarrow> 'f shell" where
  "shell_keyfunc_empty_enter sh = term_flush (shell_prompt (shell_clear (shell_linefeed sh)))"

section \<open>Telnet\<close>

text \<open>
  \<^verbatim>\<open>shell_telnet.c\<close>.  The buffer of a sub-negotiation is the list of its \<^verbatim>\<open>subnego_size\<close> bytes.  A
  \<^verbatim>\<open>char\<close> is signed.  The numbers are those of \<^verbatim>\<open>arpa/telnet.h\<close>.
\<close>

definition telcmds2str :: "nat \<Rightarrow> string" where
  "telcmds2str n =
     (case map_of [(255, ''IAC''), (254, ''DONT''), (253, ''DO''), (252, ''WONT''), (251, ''WILL''), (250, ''SB''), (249, ''GA''),
        (248, ''EL''), (247, ''EC''), (246, ''AYT''), (245, ''AO''), (244, ''IP''), (243, ''BREAK''), (242, ''DM''), (241, ''NOP''),
        (240, ''SE''), (239, ''EOR''), (238, ''ABORT''), (237, ''SUSP''), (236, ''xEOF'')] n of
        None \<Rightarrow> []
      | Some s \<Rightarrow> s)"

definition telopts2str :: "nat \<Rightarrow> string" where
  "telopts2str n =
     (case map_of [(0, ''BINARY''), (1, ''ECHO''), (2, ''RCP''), (3, ''SGA''), (4, ''NAMS''), (5, ''STATUS''), (6, ''TM''), (7, ''RCTE''),
        (8, ''NAOL''), (9, ''NAOP''), (10, ''NAOCRD''), (11, ''NAOHTS''), (12, ''NAOHTD''), (13, ''NAOFFD''), (14, ''NAOVTS''), (15, ''NAOVTD''),
        (16, ''NAOLFD''), (17, ''XASCII''), (18, ''LOGOUT''), (19, ''BM''), (20, ''DET''), (21, ''SUPDUP''), (22, ''SUPDUPOUTPUT''),
        (23, ''SNDLOC''), (24, ''TTYPE''), (25, ''EOR''), (26, ''TUID''), (27, ''OUTMRK''), (28, ''TTYLOC''), (29, ''3270REGIME''),
        (30, ''X3PAD''), (31, ''NAWS''), (32, ''TSPEED''), (33, ''LFLOW''), (34, ''LINEMODE''), (36, ''OLD_ENVIRON''),
        (37, ''AUTHENTICATION''), (38, ''ENCRYPT''), (39, ''NEW_ENVIRON''), (255, ''EXOPL'')] n of
        None \<Rightarrow> []
      | Some s \<Rightarrow> s)"

text \<open>The formats \<open>%d\<close> of a number, \<open>%#hhx\<close> and \<open>%#02x\<close> of a byte.\<close>

definition digit :: "nat \<Rightarrow> char" where "digit n = ''0123456789abcdef'' ! n"

fun dec_str :: "nat \<Rightarrow> string" where
  "dec_str n = (if n < 10 then [digit n] else dec_str (n div 10) @ [digit (n mod 10)])"

declare dec_str.simps [simp del]

definition hhx_str :: "char \<Rightarrow> string" where
  "hhx_str c =
     (let n = of_char c :: nat
      in if n = 0 then ''0'' else ''0x'' @ (if n < 16 then [digit n] else [digit (n div 16), digit (n mod 16)]))"

definition hex02_str :: "char \<Rightarrow> string" where
  "hex02_str c = (if c = NUL then ''00'' else hhx_str c)"

definition telnet_debug :: "string \<Rightarrow> 'f shell \<Rightarrow> 'f shell" where
  "telnet_debug s sh = (if fl_telnet_debug sh then term_printf (map Ch (s @ sh_NL sh)) sh else sh)"

definition vty_shell_keyfunc_telnet_opt :: "'f shell \<Rightarrow> 'f shell" where
  "vty_shell_keyfunc_telnet_opt sh =
     (let sh = sh\<lparr>sh_keymap := Keymap_Normal, telnet_opt := inputch sh\<rparr>;
          cmd = of_char (telnet_cmd sh);
          opt = of_char (telnet_opt sh);
          cmd_str = take 31 (telcmds2str cmd @ ''('' @ dec_str cmd @ ''|'' @ hex02_str (telnet_cmd sh) @ '')'');
          opt_str = take 31 (telopts2str opt @ ''('' @ dec_str opt @ ''|'' @ hex02_str (telnet_opt sh) @ '')'')
      in term_flush (telnet_debug (''IAC '' @ cmd_str @ '' '' @ opt_str @ ''.'') sh))"

definition vty_shell_keyfunc_subnego :: "'f shell \<Rightarrow> 'f shell" where
  "vty_shell_keyfunc_subnego sh =
     term_flush (if length (subnego_buf sh) < 256 then sh\<lparr>subnego_buf := subnego_buf sh @ [inputch sh]\<rparr> else sh)"

definition vty_shell_keyfunc_sb_start :: "'f shell \<Rightarrow> 'f shell" where
  "vty_shell_keyfunc_sb_start sh =
     (let sh = sh\<lparr>sh_keymap := Keymap_Subnego, subnego_buf := []\<rparr>
      in term_flush (telnet_debug (''IAC SB ('' @ hhx_str (inputch sh) @ '').'') sh))"

text \<open>
  One \<^verbatim>\<open>snprintf (p, end - p, ...)\<close> of the log, where \<open>s\<close> is what the ones before would have written: with
  \<^verbatim>\<open>p\<close> behind \<^verbatim>\<open>end\<close> the size is a huge number, and it writes behind the buffer of 64 bytes.
\<close>

definition subnego_print :: "string \<Rightarrow> string \<Rightarrow> string option" where
  "subnego_print t s = (if 63 < length s then None else Some (s @ t))"

fun subnego_bytes :: "string \<Rightarrow> string \<Rightarrow> string option" where
  "subnego_bytes [] s = Some s"
| "subnego_bytes (c # cs) s = do { s \<leftarrow> subnego_print ('' '' @ hhx_str c) s; subnego_bytes cs s }"

definition subnego_str :: "string \<Rightarrow> string option" where
  "subnego_str buf =
     do {
       s \<leftarrow> subnego_print (''len: '' @ dec_str (length buf) @ '' ['') [];
       s \<leftarrow> subnego_bytes buf s;
       s \<leftarrow> subnego_print '']'' s;
       Some (take 62 s)
     }"

text \<open>\<^verbatim>\<open>((u_short) hi << 8) + lo\<close>, where both bytes are signed.\<close>

definition u_short_of :: "char \<Rightarrow> char \<Rightarrow> u16" where
  "u_short_of hi lo = push_bit 8 (scast (of_char hi :: u8)) + scast (of_char lo :: u8)"

definition vty_shell_keyfunc_sb_end :: "'f shell \<Rightarrow> 'f shell option" where
  "vty_shell_keyfunc_sb_end sh =
     do {
       let sh = telnet_debug (''IAC SE ('' @ hhx_str (inputch sh) @ '').'') (sh\<lparr>sh_keymap := Keymap_Normal\<rparr>);
       s \<leftarrow> subnego_str (subnego_buf sh);
       let sh = telnet_debug (''telnet_sb: '' @ s) sh;
       let sh = (case subnego_buf sh of
                   [opt, w1, w2, h1, h2] \<Rightarrow>
                     if opt = CHR 0x1F
                     then (let sh = sh\<lparr>ws_col := u_short_of w1 w2, ws_row := u_short_of h1 h2\<rparr>
                           in telnet_debug (''width: '' @ dec_str (unat (ws_col sh)) @ '' height: '' @ dec_str (unat (ws_row sh))) sh)
                     else sh
                 | _ \<Rightarrow> sh);
       Some (shell_refresh (term_flush sh))
     }"

definition normal :: "'f shell \<Rightarrow> 'f shell" where
  "normal sh = sh\<lparr>sh_keymap := Keymap_Normal\<rparr>"

text \<open>The functions that keys call.  All return 0, but for \<open>K_execute\<close>, which returns the status of the command.\<close>

fun run_key :: "'f sh_env \<Rightarrow> keyfunc \<Rightarrow> 'f shell \<Rightarrow> 'f shell option" where
  "run_key env K_move_to_begin sh = Some (shell_backward (sh_cursor sh) sh)"
| "run_key env K_move_to_end sh = Some (shell_forward (sh_end sh - sh_cursor sh) sh)"
| "run_key env K_forward_char sh = Some (shell_forward 1 sh)"
| "run_key env K_backward_char sh = Some (shell_backward 1 sh)"
| "run_key env K_delete_char sh = shell_keyfunc_delete_char sh"
| "run_key env K_delete_char_advanced sh = shell_keyfunc_delete_char_advanced sh"
| "run_key env K_backspace sh = shell_keyfunc_backspace sh"
| "run_key env K_kill_line sh = shell_cut (sh_cursor sh) (sh_end sh) sh"
| "run_key env K_kill_all sh = shell_keyfunc_kill_all sh"
| "run_key env K_yank sh = shell_keyfunc_yank (fresh_mem env) sh"
| "run_key env K_clear_screen sh = Some (shell_keyfunc_clear_screen sh)"
| "run_key env K_refresh sh = Some (shell_keyfunc_refresh sh)"
| "run_key env K_empty_enter sh = Some (shell_keyfunc_empty_enter sh)"
| "run_key env K_insert_tab sh = shell_insert (fresh_mem env) ''<tab>'' sh"
| "run_key env K_escape sh = Some (sh\<lparr>fl_escape := True\<rparr>)"
| "run_key env K_delete_word_backward sh = shell_delete_word_backward sh"
| "run_key env K_input_char sh = shell_insert (fresh_mem env) [inputch sh] sh"
| "run_key env K_history_prev sh = command_history_prev (fresh_mem env) sh"
| "run_key env K_history_next sh = command_history_next (fresh_mem env) sh"
| "run_key env K_completion sh = command_shell_completion env sh"
| "run_key env K_execute sh = map_option fst (command_shell_execute env sh)"
| "run_key env K_ls_candidate sh = command_shell_ls_candidate env sh"
| "run_key env K_clear_terminal sh = Some (shell_keyfunc_clear_terminal sh)"
| "run_key env V_normal sh = Some (normal sh)"
| "run_key env V_escape_1 sh = Some (sh\<lparr>sh_keymap := Keymap_Escape_1\<rparr>)"
| "run_key env V_escape_2 sh = Some (sh\<lparr>sh_keymap := Keymap_Escape_2\<rparr>)"
| "run_key env V_move_word_backward sh = map_option normal (shell_move_word_backward sh)"
| "run_key env V_move_word_forward sh = map_option normal (shell_move_word_forward sh)"
| "run_key env V_delete_word_backward sh = map_option normal (shell_delete_word_backward sh)"
| "run_key env V_arrow_up sh = map_option normal (command_history_prev (fresh_mem env) sh)"
| "run_key env V_arrow_down sh = map_option normal (command_history_next (fresh_mem env) sh)"
| "run_key env V_arrow_left sh = Some (normal (shell_backward 1 sh))"
| "run_key env V_arrow_right sh = Some (normal (shell_forward 1 sh))"
| "run_key env T_iac_start sh = Some (sh\<lparr>sh_keymap := Keymap_Iac_1, telnet_cmd := NUL\<rparr>)"
| "run_key env T_telnet_opt sh = Some (vty_shell_keyfunc_telnet_opt sh)"
| "run_key env T_telnet_cmd sh = Some (sh\<lparr>sh_keymap := Keymap_Iac_2, telnet_cmd := inputch sh\<rparr>)"
| "run_key env T_subnego sh = Some (vty_shell_keyfunc_subnego sh)"
| "run_key env T_sb_start sh = Some (vty_shell_keyfunc_sb_start sh)"
| "run_key env T_sb_end sh = vty_shell_keyfunc_sb_end sh"

definition default_keymap :: "char \<Rightarrow> keyfunc option" where
  "default_keymap c =
     (let n = of_char c :: nat
      in if 32 \<le> n \<and> n < 127 then Some K_input_char
         else map_of [(1, K_move_to_begin), (2, K_backward_char), (4, K_delete_char), (5, K_move_to_end), (6, K_forward_char),
           (8, K_backspace), (9, K_insert_tab), (10, K_empty_enter), (11, K_kill_line), (12, K_clear_screen), (13, K_empty_enter),
           (18, K_refresh), (21, K_kill_all), (23, K_delete_word_backward), (25, K_yank), (27, K_escape), (127, K_delete_char_advanced)] n)"

definition key_func_escape_1 :: "char \<Rightarrow> keyfunc" where
  "key_func_escape_1 c =
     (if c = CHR ''b'' then V_move_word_backward else if c = CHR ''f'' then V_move_word_forward
      else if c = CTRL_H \<or> c = CHR 0x7F then V_delete_word_backward else if c = CHR ''['' then V_escape_2 else V_normal)"

definition key_func_escape_2 :: "char \<Rightarrow> keyfunc" where
  "key_func_escape_2 c =
     (if c = CHR ''A'' then V_arrow_up else if c = CHR ''B'' then V_arrow_down else if c = CHR ''C'' then V_arrow_right
      else if c = CHR ''D'' then V_arrow_left else V_normal)"

definition IAC :: char where "IAC = CHR 0xFF"
definition SB :: char where "SB = CHR 0xFA"
definition SE :: char where "SE = CHR 0xF0"

definition key_func_iac_1 :: "char \<Rightarrow> keyfunc" where
  "key_func_iac_1 c =
     (if c = SB then T_sb_start else if c = SE then T_sb_end
      else if c \<in> {CHR 0xFB, CHR 0xFC, CHR 0xFD, CHR 0xFE} then T_telnet_cmd else T_telnet_opt)"

definition key_func_iac_2 :: "char \<Rightarrow> keyfunc" where
  "key_func_iac_2 c = T_telnet_opt"

definition key_func_subnego :: "char \<Rightarrow> keyfunc" where
  "key_func_subnego c = (if c = IAC then T_iac_start else T_subnego)"

definition shell_install :: "char \<Rightarrow> keyfunc \<Rightarrow> (char \<Rightarrow> keyfunc option) \<Rightarrow> char \<Rightarrow> keyfunc option" where
  "shell_install key func keymap = keymap(key := Some func)"

text \<open>
  \<^verbatim>\<open>command_shell_create\<close>, \<^verbatim>\<open>shell_escape_keyfunc_init\<close> and the console install these over the
  default.
\<close>

definition command_keymap :: "char \<Rightarrow> keyfunc option" where
  "command_keymap =
     shell_install (CHR 0x7F) K_delete_char_advanced (shell_install (CHR 0x0C) K_clear_terminal (shell_install (CHR 0x1B) V_escape_1
       (shell_install (CHR 0x0E) K_history_next (shell_install (CHR 0x10) K_history_prev (shell_install (CHR ''?'') K_ls_candidate
         (shell_install (CHR 0x09) K_completion (shell_install (CHR 0x0D) K_execute (shell_install (CHR 0x0A) K_execute default_keymap))))))))"

text \<open>\<^verbatim>\<open>shell_telnet_keyfunc_init\<close>, called for the terminals that come over the network.\<close>

definition vty_keymap :: "char \<Rightarrow> keyfunc option" where
  "vty_keymap = shell_install IAC T_iac_start command_keymap"

definition key_of :: "'f shell \<Rightarrow> char \<Rightarrow> keyfunc option" where
  "key_of sh c =
     (case sh_keymap sh of
        Keymap_Normal \<Rightarrow> keymap_normal sh c
      | Keymap_Escape_1 \<Rightarrow> Some (key_func_escape_1 c)
      | Keymap_Escape_2 \<Rightarrow> Some (key_func_escape_2 c)
      | Keymap_Iac_1 \<Rightarrow> Some (key_func_iac_1 c)
      | Keymap_Iac_2 \<Rightarrow> Some (key_func_iac_2 c)
      | Keymap_Subnego \<Rightarrow> Some (key_func_subnego c))"

text \<open>The result has the function that was called with its arguments, when a line was executed.\<close>

definition key_call :: "'f sh_env \<Rightarrow> keyfunc \<Rightarrow> 'f shell \<Rightarrow> ('f shell \<times> ('f \<times> string option list) option \<times> int) option" where
  "key_call env k sh =
     (if k = K_execute then command_shell_execute env sh else map_option (\<lambda>sh. (sh, None, 0)) (run_key env k sh))"

definition shell_input :: "'f sh_env \<Rightarrow> char \<Rightarrow> 'f shell \<Rightarrow> ('f shell \<times> ('f \<times> string option list) option \<times> int) option" where
  "shell_input env ch sh =
     (let escaped = fl_escape sh; sh = sh\<lparr>inputch := ch\<rparr>
      in do {
        (sh, call, ret) \<leftarrow> (case key_of sh ch of None \<Rightarrow> Some (sh, None, 0) | Some k \<Rightarrow> key_call env k sh);
        Some (if escaped then sh\<lparr>fl_escape := False\<rparr> else sh, call, ret)
      })"

definition list_of_option :: "'x option \<Rightarrow> 'x list" where
  "list_of_option x = (case x of None \<Rightarrow> [] | Some y \<Rightarrow> [y])"

text \<open>
  \<^verbatim>\<open>shell_read\<close> on the bytes that \<^verbatim>\<open>read\<close> returns: a negative result drops the rest of them.  The
  result has the functions called.
\<close>

fun shell_read :: "'f sh_env \<Rightarrow> string \<Rightarrow> 'f shell \<Rightarrow> ('f shell \<times> ('f \<times> string option list) list \<times> int) option" where
  "shell_read env [] sh = Some (sh, [], 0)"
| "shell_read env (c # cs) sh =
     do {
       (sh, call, ret) \<leftarrow> shell_input env c sh;
       if ret < 0 \<or> cs = [] then Some (sh, list_of_option call, ret)
       else map_option (\<lambda>(sh, calls, ret). (sh, list_of_option call @ calls, ret)) (shell_read env cs sh)
     }"

text \<open>The loop of the terminals, which reads one block after the other.\<close>

fun shell_session :: "'f sh_env \<Rightarrow> string list \<Rightarrow> 'f shell \<Rightarrow> ('f shell \<times> ('f \<times> string option list) list) option" where
  "shell_session env [] sh = Some (sh, [])"
| "shell_session env (block # blocks) sh =
     do {
       (sh, calls, ret) \<leftarrow> shell_read env block sh;
       (sh, more) \<leftarrow> shell_session env blocks sh;
       Some (sh, calls @ more)
     }"

definition INITIAL_COMMAND_LINE_SIZE :: nat where "INITIAL_COMMAND_LINE_SIZE = 32"

definition shell_create :: "'f cmd_node \<Rightarrow> 'f shell" where
  "shell_create root =
     \<lparr>writefd_ok = False, fl_escape = False, fl_interactive = True, sh_NL = ''\<newline>'', sh_prompt = ''prompt> '',
      command_line = replicate INITIAL_COMMAND_LINE_SIZE NUL, sh_cursor = 0, sh_end = 0, cut_buffer = None, inputch = NUL,
      sh_keymap = Keymap_Normal, keymap_normal = command_keymap, cmdset = root, sh_history = None,
      fl_telnet_debug = False, ws_row = 0, ws_col = 0, telnet_cmd = NUL, telnet_opt = NUL, subnego_buf = [], terminal_buf = [], sh_output = []\<rparr>"

end
