(* ===== verification/Command_Facts.thy ===== *)
theory Command_Facts
  imports Command
begin

text \<open>
  Properties of the command interpreter: which child a word selects, the tree of commands as a map
  from lists of keywords to functions, the words of a line, the execution of lines after any
  sequence of installations, and completion.
\<close>

section \<open>Matching\<close>

definition regular_matches :: "'f cmd_node \<Rightarrow> string \<Rightarrow> 'f cmd_node list" where
  "regular_matches parent word = filter (\<lambda>c. is_command_match_regular (cmdstr c) word) (cmdvec parent)"

definition variable_matches :: "cli_env \<Rightarrow> 'f cmd_node \<Rightarrow> string \<Rightarrow> 'f cmd_node list" where
  "variable_matches env parent word = filter (\<lambda>c. is_command_match_variable env (cmdstr c) word) (cmdvec parent)"

text \<open>The first of the nodes with the highest priority.\<close>

fun best_var :: "cli_env \<Rightarrow> 'f cmd_node list \<Rightarrow> 'f cmd_node option" where
  "best_var env [] = None"
| "best_var env (v # vs) =
     (case best_var env vs of
        Some b \<Rightarrow> if varmatch_pri env (cmdstr v) < varmatch_pri env (cmdstr b) then Some b else Some v
      | None \<Rightarrow> Some v)"

lemma best_var_snoc:
  "best_var env (vs @ [v]) =
     (case best_var env vs of
        None \<Rightarrow> Some v
      | Some b \<Rightarrow> if varmatch_pri env (cmdstr b) < varmatch_pri env (cmdstr v) then Some v else Some b)"
  by (induction vs) (auto split: option.splits)

lemma best_var_None [simp]: "best_var env vs = None \<longleftrightarrow> vs = []"
  by (cases vs) (auto split: option.splits)

lemma match_fold:
  fixes cs :: "'f cmd_node list"
  defines "V \<equiv> \<lambda>w env. filter (\<lambda>c. is_command_match_variable env (cmdstr c) w)" and "R \<equiv> \<lambda>w. filter (\<lambda>c. is_command_match_regular (cmdstr c) w)"
  shows "let s = fold (match_step env w) cs match_start
     in varmatch_count s = length (V w env cs) \<and> match_count s = length (V w env cs) + length (R w cs)
        \<and> ms_varmatch s = best_var env (V w env cs) \<and> (ms_match s = None \<longleftrightarrow> V w env cs = [] \<and> R w cs = [])
        \<and> (V w env cs = [] \<longrightarrow> R w cs \<noteq> [] \<longrightarrow> ms_match s = Some (last (R w cs)))"
proof (induction cs rule: rev_induct)
  case Nil
  then show ?case by (simp add: match_start_def V_def R_def)
next
  case (snoc c cs)
  then show ?case by (auto simp: match_step_def Let_def V_def R_def best_var_snoc split: option.splits)
qed

lemma find_eq_None: "List.find P xs = None \<longleftrightarrow> filter P xs = []"
  by (auto simp: find_None_iff filter_empty_conv)

lemma match_unique_spec:
  "command_match_unique env parent word =
     (let V = variable_matches env parent word; R = regular_matches parent word
      in if V = [] \<and> R = [] then None else if R = [] then best_var env V else if length V + length R = 1 then Some (last R) else None)"
  using match_fold [of env word "cmdvec parent", folded regular_matches_def variable_matches_def]
  unfolding command_match_unique_def Let_def by (auto simp: add_is_1 split: if_splits)

lemma exact_selects:
  assumes "command_match_exact parent word = Some c"
  shows "command_match_unique_exact env parent word = Some c"
proof -
  from assms have c: "c \<in> set (cmdvec parent)" "cmdstr c = word"
    by (auto simp: command_match_exact_def find_Some_iff rev_nth)
  then have "c \<in> set (regular_matches parent word)" by (simp add: regular_matches_def is_command_match_regular_def)
  then have "regular_matches parent word \<noteq> []"
    "length (variable_matches env parent word) + length (regular_matches parent word) = Suc 0 \<Longrightarrow> last (regular_matches parent word) = c"
    by (cases "regular_matches parent word"; auto)+
  with assms show ?thesis unfolding command_match_unique_exact_def by (auto simp: match_unique_spec Let_def split: option.splits)
qed

text \<open>
  C20: Which node a word selects.  The loop of \<^verbatim>\<open>command_match_unique\<close> with its counters, followed by the
  search for an exact match, computes this: the child whose keyword is the word; else, if the word
  abbreviates no keyword, the first of the arguments with the highest priority among those it fits;
  else the keyword, if it is the only one abbreviated and no argument fits; else nothing.
\<close>

theorem word_selects_child:
  "command_match_unique_exact env parent word =
     (case command_match_exact parent word of
        Some c \<Rightarrow> Some c
      | None \<Rightarrow>
          if regular_matches parent word = [] then best_var env (variable_matches env parent word)
          else if variable_matches env parent word = [] \<and> length (regular_matches parent word) = 1 then Some (hd (regular_matches parent word))
          else None)"
proof (cases "command_match_exact parent word")
  case None
  have "length R = 1 \<Longrightarrow> last R = hd R" "V \<noteq> [] \<Longrightarrow> length V + length R = Suc 0 \<Longrightarrow> R = []" for R V :: "'a cmd_node list"
    by (cases R; cases V; auto)+
  with None show ?thesis unfolding command_match_unique_exact_def match_unique_spec Let_def
    by (auto split: option.splits)
qed (simp add: exact_selects)

section \<open>The tree as a map\<close>

fun node_at :: "string list \<Rightarrow> 'f cmd_node \<Rightarrow> 'f cmd_node option" where
  "node_at [] n = Some n"
| "node_at (w # ws) n = Option.bind (command_match_exact n w) (node_at ws)"

definition func_at :: "'f cmd_node \<Rightarrow> string list \<Rightarrow> 'f option" where
  "func_at root path = Option.bind (node_at path root) cmd_func"

definition has_path :: "'f cmd_node \<Rightarrow> string list \<Rightarrow> bool" where
  "has_path root path \<longleftrightarrow> node_at path root \<noteq> None"

text \<open>Every node has its children once each, in the order of their keywords.\<close>

fun tree_ok :: "'f cmd_node \<Rightarrow> bool" where
  "tree_ok (CNode s h f cs) \<longleftrightarrow> distinct (map cmdstr cs) \<and> sorted (map cmdstr cs) \<and> (\<forall>c \<in> set cs. tree_ok c)"

definition kids_ok :: "'f cmd_node \<Rightarrow> bool" where
  "kids_ok n \<longleftrightarrow> distinct (map cmdstr (cmdvec n)) \<and> sorted (map cmdstr (cmdvec n))"

lemma tree_ok_iff: "tree_ok n \<longleftrightarrow> kids_ok n \<and> (\<forall>c \<in> set (cmdvec n). tree_ok c)"
  by (cases n) (auto simp: kids_ok_def)

lemma tree_ok_kids: "tree_ok n \<Longrightarrow> kids_ok n"
  using tree_ok_iff [of n] by blast

lemma exact_SomeD: "command_match_exact n w = Some c \<Longrightarrow> c \<in> set (cmdvec n) \<and> cmdstr c = w"
  by (auto simp: command_match_exact_def find_Some_iff rev_nth)

lemma exact_None: "command_match_exact n w = None \<longleftrightarrow> w \<notin> cmdstr ` set (cmdvec n)"
  by (auto simp: command_match_exact_def find_None_iff)

lemma exact_Some: "kids_ok n \<Longrightarrow> command_match_exact n w = Some c \<longleftrightarrow> c \<in> set (cmdvec n) \<and> cmdstr c = w"
proof (cases "command_match_exact n w")
  case None
  then show ?thesis using exact_None [of n w] by auto
next
  case (Some d)
  moreover assume "kids_ok n"
  ultimately show ?thesis using exact_SomeD [OF Some] by (auto simp: kids_ok_def distinct_map inj_on_def)
qed

lemma find_map_same: "(\<And>x. P (f x) = P x) \<Longrightarrow> List.find P (map f xs) = map_option f (List.find P xs)"
  by (induction xs) auto

definition keeps_key :: "('f cmd_node \<Rightarrow> 'f cmd_node) \<Rightarrow> bool" where
  "keeps_key g \<longleftrightarrow> (\<forall>n. cmdstr (g n) = cmdstr n)"

lemma update_key: "keeps_key g \<Longrightarrow> cmdstr (node_update path g n) = cmdstr n"
  by (cases path; cases n) (auto simp: keeps_key_def)

lemma update_exact:
  "keeps_key g \<Longrightarrow> command_match_exact (node_update (w # ws) g n) v =
     map_option (\<lambda>c. if v = w then node_update ws g c else c) (command_match_exact n v)"
proof -
  assume k: "keeps_key g"
  obtain s h f cs where n: "n = CNode s h f cs" by (cases n)
  have "command_match_exact (node_update (w # ws) g n) v =
      map_option (\<lambda>c. if cmdstr c = w then node_update ws g c else c) (command_match_exact n v)"
    unfolding command_match_exact_def n using k by (simp add: rev_map update_key find_map_same)
  then show ?thesis using exact_SomeD [of n v] by (cases "command_match_exact n v") auto
qed

lemma func_at_Nil [simp]: "func_at n [] = cmd_func n" by (simp add: func_at_def)
lemma func_at_Cons: "func_at n (w # ws) = (case command_match_exact n w of None \<Rightarrow> None | Some c \<Rightarrow> func_at c ws)"
  by (simp add: func_at_def split: option.splits)
lemma has_path_Nil [simp]: "has_path n []" by (simp add: has_path_def)
lemma has_path_Cons: "has_path n (w # ws) \<longleftrightarrow> (case command_match_exact n w of None \<Rightarrow> False | Some c \<Rightarrow> has_path c ws)"
  by (simp add: has_path_def split: option.splits)

lemma cmd_func_update: "cmd_func (node_update (w # ws) g n) = cmd_func n"
  by (cases n) simp

lemma func_at_update:
  assumes k: "keeps_key g"
  shows "func_at (node_update path g n) p =
     (if prefix path p then Option.bind (node_at path n) (\<lambda>m. func_at (g m) (drop (length path) p)) else func_at n p)"
proof (induction path arbitrary: n p)
  case (Cons w ws)
  show ?case
  proof (cases p)
    case (Cons v vs)
    then show ?thesis using Cons.IH by (auto simp: func_at_Cons update_exact [OF k] split: option.splits)
  qed (simp add: cmd_func_update)
qed simp

lemma has_path_update:
  assumes k: "keeps_key g"
  shows "has_path (node_update path g n) p =
     (if prefix path p then (case node_at path n of None \<Rightarrow> False | Some m \<Rightarrow> has_path (g m) (drop (length path) p)) else has_path n p)"
proof (induction path arbitrary: n p)
  case (Cons w ws)
  show ?case
  proof (cases p)
    case (Cons v vs)
    then show ?thesis using Cons.IH by (auto simp: has_path_Cons update_exact [OF k] split: option.splits)
  qed simp
qed simp

lemma func_at_append: "node_at path n = Some m \<Longrightarrow> func_at n (path @ p) = func_at m p"
  by (induction path arbitrary: n) (auto simp: func_at_Cons split: option.splits bind_splits)

lemma has_path_append: "node_at path n = Some m \<Longrightarrow> has_path n (path @ p) = has_path m p"
  by (induction path arbitrary: n) (auto simp: has_path_Cons split: option.splits bind_splits)

lemma tree_ok_update:
  assumes k: "keeps_key g" and g: "\<And>m. tree_ok m \<Longrightarrow> tree_ok (g m)"
  shows "tree_ok n \<Longrightarrow> tree_ok (node_update path g n)"
proof (induction path arbitrary: n)
  case (Cons w ws)
  obtain s h f cs where n: "n = CNode s h f cs" by (cases n)
  have "map cmdstr (map (\<lambda>c. if cmdstr c = w then node_update ws g c else c) cs) = map cmdstr cs"
    using k by (simp add: update_key)
  with Cons n show ?case by (auto simp del: map_map)
qed (simp add: g)

text \<open>The two changes made by an installation.\<close>

lemma keeps_key_changes [simp]: "keeps_key (add_child w h)" "keeps_key (set_func f)"
  by (auto simp: keeps_key_def add_child_def set_func_def)

lemma tree_ok_set_func: "tree_ok m \<Longrightarrow> tree_ok (set_func f m)"
  by (cases m) (simp add: set_func_def)

lemma tree_ok_add_child: "tree_ok m \<Longrightarrow> tree_ok (add_child w h m)"
  using image_eqI [of w cmdstr "command_node_create w h" "set (cmdvec m)"]
  by (cases m) (auto simp: add_child_def command_node_create_def exact_None distinct_map inj_on_def sorted_sort_key split: if_splits)

lemma add_child_exact:
  assumes "tree_ok m"
  shows "command_match_exact (add_child w h m) v =
    (if command_match_exact m w = None \<and> v = w then Some (command_node_create w h) else command_match_exact m v)"
proof (cases "command_match_exact m w")
  case None
  have ok: "kids_ok (add_child w h m)" "kids_ok m" using tree_ok_add_child [OF assms, of w h] assms by (auto intro: tree_ok_kids)
  have s: "set (cmdvec (add_child w h m)) = insert (command_node_create w h) (set (cmdvec m))"
    using None by (simp add: add_child_def)
  have k: "cmdstr (command_node_create w h) = w" by (simp add: command_node_create_def)
  show ?thesis
  proof (cases "v = w")
    case True
    with None s k show ?thesis by (simp add: exact_Some [OF ok(1)])
  next
    case False
    show ?thesis
    proof (cases "command_match_exact m v")
      case None
      with False s k have "v \<notin> cmdstr ` set (cmdvec (add_child w h m))" using exact_None [of m v] by auto
      with None False exact_None [of "add_child w h m" v] show ?thesis by simp
    next
      case (Some c)
      then have "c \<in> set (cmdvec m)" "cmdstr c = v" by (simp_all add: exact_Some [OF ok(2)])
      with Some False s show ?thesis using exact_Some [OF ok(1), of v c] by auto
    qed
  qed
qed (simp add: add_child_def)

lemma exact_new [simp]: "command_match_exact (command_node_create w h) v = None" "cmd_func (command_node_create w h) = None"
  by (simp_all add: command_node_create_def command_match_exact_def)

lemma new_paths [simp]: "func_at (command_node_create w h) p = None" "has_path (command_node_create w h) p \<longleftrightarrow> p = []"
  by (cases p; simp add: func_at_Cons has_path_Cons)+

lemma cmd_func_add_child: "cmd_func (add_child w h m) = cmd_func m"
  by (simp add: add_child_def)

lemma func_at_add_child: "tree_ok m \<Longrightarrow> func_at (add_child w h m) p = func_at m p"
  by (cases p) (auto simp: func_at_Cons add_child_exact cmd_func_add_child split: option.splits)

lemma has_path_add_child: "tree_ok m \<Longrightarrow> has_path (add_child w h m) p \<longleftrightarrow> has_path m p \<or> p = [w]"
  by (cases p) (auto simp: has_path_Cons add_child_exact split: option.splits)

lemma func_at_set_func: "func_at (set_func f m) p = (if p = [] then Some f else func_at m p)"
  by (cases p) (simp_all add: set_func_def func_at_Cons command_match_exact_def)

lemma has_path_set_func: "has_path (set_func f m) p = has_path m p"
  by (cases p) (simp_all add: set_func_def has_path_Cons command_match_exact_def)

text \<open>The word lists a command line stands for: one alternative for every choice, the empty one left out.\<close>

definition extend :: "string list list \<Rightarrow> string \<Rightarrow> string list list" where
  "extend parents subword = (if subword = [] then parents else map (\<lambda>p. p @ [subword]) parents)"

fun expansions :: "string list \<Rightarrow> string list list \<Rightarrow> string list list" where
  "expansions [] parents = parents"
| "expansions (word # words) parents = expansions words (concat (map (extend parents) (choice_of word)))"

text \<open>Two trees with the same functions, of which the second has in addition the paths \<open>ps\<close>.\<close>

definition grown :: "'f cmd_node \<Rightarrow> string list list \<Rightarrow> 'f cmd_node \<Rightarrow> bool" where
  "grown root ps root' \<longleftrightarrow> tree_ok root' \<and> (\<forall>p. func_at root' p = func_at root p) \<and> (\<forall>p. has_path root' p \<longleftrightarrow> has_path root p \<or> p \<in> set ps)"

lemma grown_refl: "tree_ok root \<Longrightarrow> grown root [] root"
  by (simp add: grown_def)

lemma grown_trans: "grown r ps r' \<Longrightarrow> grown r' qs r'' \<Longrightarrow> grown r (ps @ qs) r''"
  by (auto simp: grown_def)

lemma grown_add_child:
  assumes "tree_ok root" "has_path root parent"
  shows "grown root [parent @ [w]] (node_update parent (add_child w h) root)"
proof -
  from assms obtain m where m: "node_at parent root = Some m" by (auto simp: has_path_def)
  have "tree_ok m" using m assms(1)
  proof (induction parent arbitrary: root)
    case (Cons v vs)
    then obtain c where "command_match_exact root v = Some c" "node_at vs c = Some m" by (auto split: bind_splits)
    with Cons exact_SomeD [of root v c] tree_ok_iff [of root] show ?case by blast
  qed simp
  have "func_at (node_update parent (add_child w h) root) p = func_at root p
      \<and> has_path (node_update parent (add_child w h) root) p = (has_path root p \<or> p = parent @ [w])" for p
  proof (cases "prefix parent p")
    case True
    then obtain q where "p = parent @ q" by (auto simp: prefix_def)
    with m \<open>tree_ok m\<close> show ?thesis
      by (simp add: func_at_update has_path_update func_at_add_child has_path_add_child func_at_append has_path_append)
  qed (auto simp: func_at_update has_path_update)
  then show ?thesis using tree_ok_update [OF keeps_key_changes(1) tree_ok_add_child assms(1)] by (simp add: grown_def)
qed

lemma add_below_spec:
  assumes "tree_ok root" "\<forall>p \<in> set parents. has_path root p" "distinct next"
  shows "(if distinct (next @ extend parents w)
      then \<exists>root'. add_below w h parents next root = Some (next @ extend parents w, root') \<and> grown root (extend parents w) root'
      else add_below w h parents next root = None)"
  using assms
proof (induction parents arbitrary: "next" root)
  case Nil
  then show ?case by (simp add: extend_def grown_refl)
next
  case (Cons p parents)
  show ?case
  proof (cases "w = []")
    case True
    with Cons.prems Cons.IH [of root "next @ [p]"] show ?thesis
      by (cases "distinct (next @ p # parents)") (auto simp: extend_def grown_def split: if_splits)
  next
    case False
    note g = grown_add_child [of root p w h]
    with Cons.prems have *: "tree_ok (node_update p (add_child w h) root)" "\<forall>q \<in> set parents. has_path (node_update p (add_child w h) root) q"
      by (auto simp: grown_def)
    with False Cons.prems Cons.IH [OF *, of "next @ [p @ [w]]"] g grown_trans [of root "[p @ [w]]" "node_update p (add_child w h) root"]
    show ?thesis by (auto simp: extend_def)
  qed
qed

lemma extend_paths: "p \<in> set (extend parents w) \<Longrightarrow> grown root (extend parents w) root' \<Longrightarrow> \<forall>q \<in> set parents. has_path root q \<Longrightarrow> has_path root' p"
  by (auto simp: grown_def)

lemma add_choice_spec:
  assumes "tree_ok root" "\<forall>p \<in> set parents. has_path root p" "distinct next"
  shows "(let new = concat (map (extend parents) subwords)
      in if distinct (next @ new)
         then \<exists>h' hs' root'. add_choice subwords h hs parents next root = Some (next @ new, h', hs', root') \<and> grown root new root'
         else add_choice subwords h hs parents next root = None)"
  using assms
proof (induction subwords arbitrary: h hs "next" root)
  case Nil
  then show ?case by (simp add: grown_refl)
next
  case (Cons w ws)
  obtain h1 hs1 where h: "(if w = [] then (h, hs) else next_help hs) = (h1, hs1)" by fastforce
  note b = add_below_spec [OF Cons.prems, of w h1]
  show ?case
  proof (cases "distinct (next @ extend parents w)")
    case False
    with b have "add_below w h1 parents next root = None" by presburger
    moreover have "\<not> distinct (next @ concat (map (extend parents) (w # ws)))" using False by auto
    ultimately show ?thesis using h by (simp only: Let_def add_choice.simps bind.bind_lzero if_False split)
  next
    case True
    with b obtain root1 where r: "add_below w h1 parents next root = Some (next @ extend parents w, root1)" "grown root (extend parents w) root1"
      by auto
    then have "tree_ok root1" "\<forall>p \<in> set parents. has_path root1 p" using Cons.prems(2) by (auto simp: grown_def)
    from Cons.IH [OF this True, of h1 hs1] r h grown_trans [OF r(2)] show ?thesis by (auto simp: Let_def)
  qed
qed

lemma add_words_spec:
  assumes "tree_ok root" "\<forall>p \<in> set parents. has_path root p"
  shows "case add_words words h hs parents root of
      Some (ps, root') \<Rightarrow> ps = expansions words parents \<and> (\<exists>qs. grown root qs root') \<and> (\<forall>p \<in> set ps. has_path root' p)
    | None \<Rightarrow> \<exists>us vs. words = us @ vs \<and> \<not> distinct (expansions us parents)"
  using assms
proof (induction words arbitrary: h hs parents root)
  case Nil
  then show ?case by (auto intro: grown_refl)
next
  case (Cons word words)
  let ?new = "concat (map (extend parents) (choice_of word))"
  note c = add_choice_spec [OF Cons.prems, of "[]" "choice_of word" h hs]
  show ?case
  proof (cases "distinct ?new")
    case False
    with c have n: "add_words (word # words) h hs parents root = None" by (simp add: Let_def)
    have "word # words = [word] @ words \<and> \<not> distinct (expansions [word] parents)" using False by simp
    then have e: "\<exists>us vs. word # words = us @ vs \<and> \<not> distinct (expansions us parents)" by blast
    show ?thesis unfolding n option.case by (rule e)
  next
    case True
    with c obtain h' hs' root' where r: "add_choice (choice_of word) h hs parents [] root = Some (?new, h', hs', root')" "grown root ?new root'"
      by (auto simp: Let_def)
    then have "tree_ok root'" "\<forall>p \<in> set ?new. has_path root' p" by (auto simp: grown_def)
    note IH = Cons.IH [OF this, of h' hs']
    show ?thesis
    proof (cases "add_words words h' hs' ?new root'")
      case None
      with IH obtain us vs where "words = us @ vs" "\<not> distinct (expansions us ?new)" by auto
      then have "word # words = (word # us) @ vs \<and> \<not> distinct (expansions (word # us) parents)" by simp
      then have e: "\<exists>us vs. word # words = us @ vs \<and> \<not> distinct (expansions us parents)" by blast
      have n: "add_words (word # words) h hs parents root = None" using None r by simp
      show ?thesis unfolding n option.case by (rule e)
    next
      case (Some x)
      with IH r grown_trans [OF r(2)] show ?thesis by (cases x) auto
    qed
  qed
qed

lemma func_at_set: 
  assumes "has_path root path"
  shows "func_at (node_update path (set_func f) root) p = (if p = path then Some f else func_at root p)"
proof -
  from assms obtain m where m: "node_at path root = Some m" by (auto simp: has_path_def)
  show ?thesis
  proof (cases "prefix path p")
    case True
    then obtain q where "p = path @ q" by (auto simp: prefix_def)
    with m show ?thesis by (simp add: func_at_update func_at_set_func func_at_append)
  qed (auto simp: func_at_update)
qed

lemma has_path_set: "has_path (node_update path (set_func f) root) p = has_path root p"
proof (cases "node_at path root")
  case None
  then have "prefix path p \<Longrightarrow> \<not> has_path root p" 
  proof (induction path arbitrary: root p)
    case (Cons w ws)
    then show ?case by (cases p) (auto simp: has_path_Cons split: option.splits bind_splits)
  qed simp
  with None show ?thesis by (auto simp: has_path_update)
next
  case (Some m)
  show ?thesis
  proof (cases "prefix path p")
    case True
    then obtain q where "p = path @ q" by (auto simp: prefix_def)
    with Some show ?thesis by (simp add: has_path_update has_path_set_func has_path_append)
  qed (auto simp: has_path_update)
qed

lemma set_funcs:
  assumes "tree_ok root" "\<forall>p \<in> set ps. has_path root p"
  shows "let root' = fold (\<lambda>path. node_update path (set_func f)) ps root
     in tree_ok root' \<and> (\<forall>p. has_path root' p = has_path root p) \<and> (\<forall>p. func_at root' p = (if p \<in> set ps then Some f else func_at root p))"
  using assms
proof (induction ps arbitrary: root)
  case (Cons p ps)
  have "tree_ok (node_update p (set_func f) root)" using Cons.prems(1) by (intro tree_ok_update tree_ok_set_func) auto
  with Cons show ?case by (auto simp: has_path_set func_at_set Let_def)
qed simp

definition line_paths :: "string \<Rightarrow> string list list" where
  "line_paths command_line = expansions (split_on (CHR '' '') command_line) [[]]"

lemma command_install2_spec:
  assumes "tree_ok root"
  shows "case command_install2 line hp f root of
      Some root' \<Rightarrow> tree_ok root' \<and> (\<forall>p. func_at root' p = (if p \<in> set (line_paths line) then Some f else func_at root p))
    | None \<Rightarrow> \<exists>us vs. split_on (CHR '' '') line = us @ vs \<and> \<not> distinct (expansions us [[]])"
proof -
  note a = add_words_spec [OF assms, of "[[]]" "split_on (CHR '' '') line" "Some ''\<newline>''" "split_on (CHR ''\<newline>'') hp"]
  show ?thesis
  proof (cases "add_words (split_on (CHR '' '') line) (Some ''\<newline>'') (split_on (CHR ''\<newline>'') hp) [[]] root")
    case None
    with a show ?thesis by (simp add: command_install2_def)
  next
    case (Some x)
    obtain ps root' where x: "x = (ps, root')" by fastforce
    with Some a have "tree_ok root'" "\<forall>p. func_at root' p = func_at root p" "\<forall>p \<in> set ps. has_path root' p" "ps = line_paths line"
      by (auto simp: grown_def line_paths_def)
    with set_funcs [of root' ps f] Some x show ?thesis by (simp add: command_install2_def Let_def)
  qed
qed

section \<open>Words of a line\<close>

fun spaced :: "string list \<Rightarrow> string" where
  "spaced [] = []"
| "spaced [w] = w"
| "spaced (w # ws) = w @ CHR '' '' # spaced ws"

lemma split_on_ne [simp]: "split_on c s \<noteq> []"
  by (induction s) (auto split: list.splits)

lemma split_on_Cons: "split_on c (x # xs) = (if x = c then [] # split_on c xs else (x # hd (split_on c xs)) # tl (split_on c xs))"
  by (cases "split_on c xs") auto

declare split_on.simps(2) [simp del] split_on_Cons [simp]

lemma split_on_word: "c \<notin> set w \<Longrightarrow> split_on c (w @ s) = (w @ hd (split_on c s)) # tl (split_on c s)"
proof (induction w)
  case Nil
  then show ?case by (cases s) auto
qed auto

lemma split_spaced: "ws \<noteq> [] \<Longrightarrow> \<forall>w \<in> set ws. CHR '' '' \<notin> set w \<Longrightarrow> split_on (CHR '' '') (spaced ws) = ws"
proof (induction ws rule: spaced.induct)
  case (2 w)
  then show ?case using split_on_word [of _ w "[]"] by simp
qed (simp_all add: split_on_word)

lemma split_last: "l \<noteq> [] \<Longrightarrow> last l = c \<Longrightarrow> tl (split_on c l) \<noteq> []"
  by (induction l) (auto split: if_splits)

lemma split_end: "l = [] \<or> last l = c \<Longrightarrow> split_on c l = butlast (split_on c l) @ [[]]"
proof (induction l)
  case (Cons x l)
  then show ?case using split_last [of l c] by (cases "split_on c l") (auto split: if_splits)
qed simp

lemma squeeze_words:
  "0 < c \<Longrightarrow> 0 < i \<Longrightarrow> split_on (CHR '' '') (squeeze c i l) =
     filter (\<lambda>w. w \<noteq> []) (split_on (CHR '' '') l) @ (if l = [] \<or> last l = CHR '' '' then [[]] else [])"
  "0 < i \<Longrightarrow> split_on (CHR '' '') (squeeze 0 i l) = hd (split_on (CHR '' '') l) #
     (if tl (split_on (CHR '' '') l) = [] then [] else filter (\<lambda>w. w \<noteq> []) (tl (split_on (CHR '' '') l)) @ (if last l = CHR '' '' then [[]] else []))"
proof (induction l arbitrary: c i)
  case Nil
  case 1
  then show ?case by simp
next
  case Nil
  case 2
  then show ?case by simp
next
  case (Cons x l)
  case 1
  then show ?case using Cons.IH(1) [of "Suc c" "Suc i"] Cons.IH(2) [of "Suc i"] split_last [of l "CHR '' ''"]
    by (cases "split_on (CHR '' '') l") auto
next
  case (Cons x l)
  case (2 j)
  then show ?case using Cons.IH(1) [of 1 "Suc j"] Cons.IH(2) [of "Suc j"] split_last [of l "CHR '' ''"]
    by (cases "split_on (CHR '' '') l") auto
qed

lemma format3_words:
  "split_on (CHR '' '') (shell_format3 l) =
     filter (\<lambda>w. w \<noteq> []) (split_on (CHR '' '') l) @ (if l = [] \<or> last l = CHR '' '' then [[]] else [])"
proof (cases l)
  case (Cons x xs)
  then show ?thesis using squeeze_words(1) [of 1 1 xs] squeeze_words(2) [of 1 xs] split_last [of xs "CHR '' ''"]
    by (cases "split_on (CHR '' '') xs") (auto simp: shell_format3_def)
qed (simp add: shell_format3_def)

text \<open>A line of words between single spaces, of which the last may be empty.\<close>

lemma format3_spaced:
  assumes "ws \<noteq> []" "\<forall>w \<in> set ws. CHR '' '' \<notin> set w" "\<forall>w \<in> set (butlast ws). w \<noteq> []"
  shows "split_on (CHR '' '') (shell_format3 (spaced ws)) = ws"
proof -
  have l: "spaced ws = [] \<or> last (spaced ws) = CHR '' '' \<longleftrightarrow> last ws = []" using assms
  proof (induction ws rule: spaced.induct)
    case (2 w)
    then show ?case by (cases "w = []") (auto dest: last_in_set)
  next
    case (3 w v vs)
    then show ?case by (cases "spaced (v # vs)") auto
  qed simp
  have "filter (\<lambda>w. w \<noteq> []) ws = (if last ws = [] then butlast ws else ws)"
    using assms(1,3) by (cases ws rule: rev_cases) (auto simp: filter_id_conv)
  moreover have "ws = (if last ws = [] then butlast ws @ [[]] else ws)"
    using assms(1) by (cases ws rule: rev_cases) auto
  ultimately show ?thesis using l by (cases "last ws = []") (simp_all add: format3_words split_spaced assms(1,2))
qed

text \<open>What the log of the arguments takes of its buffer.\<close>

definition log_cost :: "string list \<Rightarrow> nat" where
  "log_cost ws = sum_list (map (\<lambda>w. length w + 3) ws)"

lemma argv_log_iff: "argv_log ws str \<noteq> None \<longleftrightarrow> ws = [] \<or> length str + log_cost (butlast ws) \<le> 1024"
proof (induction ws arbitrary: str)
  case (Cons w ws)
  have "argv_log (w # ws) str \<noteq> None \<longleftrightarrow> length str \<le> 1024 \<and> argv_log ws (str @ '' '' @ [CHR 0x22] @ w @ [CHR 0x22]) \<noteq> None"
    by (auto simp: buf_append_def)
  then show ?case unfolding Cons.IH by (auto simp: log_cost_def)
qed simp

lemma split_cost: "sum_list (map (\<lambda>w. length w + 1) (split_on c l)) = length l + 1"
proof (induction l)
  case (Cons x l)
  then show ?case by (cases "split_on c l") auto
qed simp

lemma log_cost_nonempty: "log_cost (filter (\<lambda>w. w \<noteq> []) ws) \<le> 2 * sum_list (map (\<lambda>w. length w + 1) ws)"
proof (induction ws)
  case (Cons w ws)
  then show ?case by (cases w) (auto simp: log_cost_def)
qed (simp add: log_cost_def)

lemma log_cost_butlast: "log_cost (butlast ws) \<le> log_cost ws"
  by (cases ws rule: rev_cases) (simp_all add: log_cost_def)

lemma argv_parse_short:
  assumes "length l \<le> 512"
  shows "command_argv_parse l =
     Some (filter (\<lambda>w. w \<noteq> []) (split_on (CHR '' '') l) @ (if l = [] \<or> last l = CHR '' '' then [[]] else []))"
proof -
  let ?P = "split_on (CHR '' '') l"
  let ?W = "filter (\<lambda>w. w \<noteq> []) ?P"
  have "log_cost (butlast (?W @ (if l = [] \<or> last l = CHR '' '' then [[]] else []))) \<le> 2 * length l"
  proof (cases "l = [] \<or> last l = CHR '' ''")
    case True
    then obtain ps where P: "?P = ps @ [[]]" using split_end by blast
    then have "sum_list (map (\<lambda>w. length w + 1) ps) = length l" using split_cost [of "CHR '' ''" l] by simp
    with True P log_cost_nonempty [of ps] show ?thesis by simp
  next
    case False
    have "?W \<noteq> []" using False
    proof (induction l)
      case (Cons x l)
      then show ?case by (cases "split_on (CHR '' '') l") (auto split: if_splits)
    qed simp
    then obtain ws w where W: "?W = ws @ [w]" by (cases ?W rule: rev_cases) auto
    have "w \<in> set ?W" unfolding W by simp
    then have "0 < length w" by simp
    then have "log_cost ws + 4 \<le> log_cost ?W" unfolding W by (simp add: log_cost_def Suc_le_eq)
    with False W log_cost_nonempty [of ?P] split_cost [of "CHR '' ''" l] show ?thesis by simp
  qed
  then have "log_cost (butlast (split_on (CHR '' '') (shell_format3 l))) \<le> 1024"
    using assms unfolding format3_words by linarith
  then have "argv_log (split_on (CHR '' '') (shell_format3 l)) [] \<noteq> None" by (simp only: argv_log_iff) simp
  then show ?thesis
    unfolding format3_words [symmetric] by (auto simp: command_argv_parse_def Let_def)
qed

text \<open>
  C36: Bounds of the argument parser.  A line of up to 512 characters is split into its words, without
  the empty ones between spaces, with an empty word at its end if it ends with a space.  From 514
  characters on there are lines, \<open>"a a a ... "\<close>, for which the log of the arguments is written
  behind its buffer of 1024 bytes, since \<^verbatim>\<open>snprintf\<close> returns what it would have written.
\<close>

theorem argv_parse_bounds:
  "(length l \<le> 512 \<longrightarrow> command_argv_parse l =
     Some (filter (\<lambda>w. w \<noteq> []) (split_on (CHR '' '') l) @ (if l = [] \<or> last l = CHR '' '' then [[]] else [])))
   \<and> (256 < n \<longrightarrow> command_argv_parse (concat (replicate n ''a '')) = None)"
proof (intro conjI impI)
  assume "length l \<le> 512"
  then show "command_argv_parse l = Some (filter (\<lambda>w. w \<noteq> []) (split_on (CHR '' '') l) @ (if l = [] \<or> last l = CHR '' '' then [[]] else []))"
    by (rule argv_parse_short)
next
  assume n: "256 < n"
  let ?l = "concat (replicate n ''a '')"
  have s: "split_on (CHR '' '') (concat (replicate k ''a '')) = replicate k ''a'' @ [[]]" for k by (induction k) simp_all
  have "last ?l = CHR '' ''" using n by (cases n) (simp_all add: last_append replicate_append_same [symmetric])
  with n have "split_on (CHR '' '') (shell_format3 ?l) = replicate n ''a'' @ [[]]" by (simp add: format3_words s filter_replicate)
  moreover have "log_cost (replicate n ''a'') = 4 * n" by (simp add: log_cost_def sum_list_replicate)
  ultimately show "command_argv_parse ?l = None"
    using n argv_log_iff [of "replicate n ''a'' @ [[]]" "[]"] by (auto simp: command_argv_parse_def Let_def)
qed

theorem argv_parse_bounds_witness:
  "command_argv_parse '' show  ip '' = Some [''show'', ''ip'', []] \<and> command_argv_parse (concat (replicate 300 ''a '')) = None"
  using argv_parse_bounds [of "'' show  ip ''" 300] by simp

section \<open>Sequences of installations\<close>

fun install_all :: "(string \<times> string \<times> 'f) list \<Rightarrow> 'f cmd_node \<Rightarrow> 'f cmd_node option" where
  "install_all [] root = Some root"
| "install_all ((line, hp, f) # cs) root = Option.bind (command_install2 line hp f root) (install_all cs)"

text \<open>The abstract command set: the function of a list of keywords is the one installed last for it.\<close>

definition commands_of :: "(string \<times> string \<times> 'f) list \<Rightarrow> string list \<Rightarrow> 'f option" where
  "commands_of cs p = map_option (\<lambda>(line, hp, f). f) (List.find (\<lambda>(line, hp, f). p \<in> set (line_paths line)) (rev cs))"

lemma commands_of_snoc:
  "commands_of (cs @ [(line, hp, f)]) p = (if p \<in> set (line_paths line) then Some f else commands_of cs p)"
  by (simp add: commands_of_def)

lemma install_all_snoc: "install_all (cs @ [(line, hp, f)]) root = Option.bind (install_all cs root) (command_install2 line hp f)"
  by (induction cs arbitrary: root) (auto simp: bind_assoc split: bind_splits)

lemma tree_ok_empty: "tree_ok command_set_create" "func_at command_set_create p = None"
  by (simp add: command_set_create_def, cases p) (simp_all add: command_set_create_def func_at_Cons command_match_exact_def)

lemma install_all_spec:
  "install_all cs command_set_create = Some root \<Longrightarrow> tree_ok root \<and> (\<forall>p. func_at root p = commands_of cs p)"
proof (induction cs arbitrary: root rule: rev_induct)
  case Nil
  then show ?case using tree_ok_empty by (auto simp: commands_of_def)
next
  case (snoc c cs)
  obtain line hp f where c: "c = (line, hp, f)" by (cases c)
  with snoc.prems obtain r where r: "install_all cs command_set_create = Some r" "command_install2 line hp f r = Some root"
    by (auto simp: install_all_snoc split: bind_splits)
  with snoc.IH [OF r(1)] command_install2_spec [where root = r and line = line and hp = hp and f = f] c show ?case by (auto simp: commands_of_snoc)
qed

lemma execute_path:
  assumes "node_at ws n = Some c" "\<forall>w \<in> set ws. w \<noteq> [] \<and> \<not> line_spec w \<and> \<not> file_spec w"
  shows "execute_words env line (ws @ us) n m argv = execute_words env line us c (if ws = [] then m else Some c) (argv @ map Some ws)"
  using assms
proof (induction ws arbitrary: n m argv)
  case (Cons w ws)
  then obtain d where d: "command_match_exact n w = Some d" "node_at ws d = Some c" by (auto split: bind_splits)
  then have k: "cmdstr d = w" by (auto simp: command_match_exact_def find_Some_iff rev_nth)
  then have "command_replace env d w = w" using Cons.prems(2) by (simp add: command_replace_def)
  with Cons d k show ?case by (cases ws) (auto simp: exact_selects)
qed simp

text \<open>No choice of the line leads to one list of keywords in two ways, so the assertion holds.\<close>

definition line_ok :: "string \<Rightarrow> bool" where
  "line_ok line \<longleftrightarrow> (let ws = split_on (CHR '' '') line in list_all (\<lambda>k. distinct (expansions (take k ws) [[]])) [0..<Suc (length ws)])"

lemma line_ok_prefix: "line_ok line \<Longrightarrow> split_on (CHR '' '') line = us @ vs \<Longrightarrow> distinct (expansions us [[]])"
  by (auto simp: line_ok_def Let_def list_all_iff dest!: bspec [of _ _ "length us"])

lemma install_all_succeeds:
  "\<forall>(line, hp, f) \<in> set cs. line_ok line \<Longrightarrow> \<exists>root. install_all cs command_set_create = Some root"
proof (induction cs rule: rev_induct)
  case (snoc c cs)
  obtain line hp f where c: "c = (line, hp, f)" by (cases c)
  with snoc obtain r where r: "install_all cs command_set_create = Some r" by auto
  have "command_install2 line hp f r \<noteq> None"
    using command_install2_spec [where root = r and line = line and hp = hp and f = f] install_all_spec [OF r] snoc.prems c line_ok_prefix [of line]
    by (cases "command_install2 line hp f r") (simp_all, blast)
  with r c show ?case by (auto simp: install_all_snoc)
qed simp

definition plain_word :: "string \<Rightarrow> bool" where
  "plain_word w \<longleftrightarrow> w \<noteq> [] \<and> CHR '' '' \<notin> set w \<and> \<not> line_spec w \<and> \<not> file_spec w"

text \<open>
  C18: Installed commands run.  If no line to install reaches one list of keywords in two ways, all of
  them are installed, and then every line of keywords is executed by calling the function installed
  last for it, with the keywords as its arguments, whatever else is in the tree: arguments that
  would fit and keywords that the words abbreviate.
\<close>

theorem commands_run:
  assumes "\<forall>(line, hp, f) \<in> set cs. line_ok line"
  shows "\<exists>root. install_all cs command_set_create = Some root
    \<and> (\<forall>env ws f. commands_of cs ws = Some f \<and> ws \<noteq> [] \<and> list_all plain_word ws
         \<longrightarrow> command_execute env (spaced ws) root = Some (f, map Some ws))"
proof -
  from install_all_succeeds [OF assms] obtain root where r: "install_all cs command_set_create = Some root" by blast
  have "command_execute env (spaced ws) root = Some (f, map Some ws)"
    if ws: "commands_of cs ws = Some f" "ws \<noteq> []" "list_all plain_word ws" for env ws f
  proof -
    have "func_at root ws = Some f" using install_all_spec [OF r] ws(1) by simp
    then obtain c where c: "node_at ws root = Some c" "cmd_func c = Some f" by (auto simp: func_at_def split: bind_splits)
    have w: "\<forall>w \<in> set ws. w \<noteq> [] \<and> CHR '' '' \<notin> set w \<and> \<not> line_spec w \<and> \<not> file_spec w"
      using ws(3) by (auto simp: list_all_iff plain_word_def)
    with c execute_path [OF c(1), of env "spaced ws" "[]" None "[]"] ws(2) split_spaced [of ws] show ?thesis
      by (simp add: command_execute_def)
  qed
  with r show ?thesis by blast
qed

theorem commands_run_witness:
  "\<exists>root. install_all [(''(show|list) (ip|) route'', ''h'', 1::nat), (''show route'', ''h'', 2)] command_set_create = Some root
    \<and> (\<forall>env. command_execute env ''list route'' root = Some (1, [Some ''list'', Some ''route''])
             \<and> command_execute env ''show route'' root = Some (2, [Some ''show'', Some ''route'']))"
proof -
  let ?cs = "[(''(show|list) (ip|) route'', ''h'', 1), (''show route'', ''h'', 2)] :: (string \<times> string \<times> nat) list"
  have "list_all (\<lambda>(line, hp, f). line_ok line) ?cs" by code_simp
  then have l: "\<forall>(line, hp, f) \<in> set ?cs. line_ok line" by (simp only: list_all_iff)
  have c: "commands_of ?cs [''list'', ''route''] = Some 1" "commands_of ?cs [''show'', ''route''] = Some 2" by code_simp+
  have p: "list_all plain_word [''list'', ''route'']" "list_all plain_word [''show'', ''route'']" by code_simp+
  from commands_run [OF l] obtain root where r: "install_all ?cs command_set_create = Some root"
    "\<forall>env ws f. commands_of ?cs ws = Some f \<and> ws \<noteq> [] \<and> list_all plain_word ws
       \<longrightarrow> command_execute env (spaced ws) root = Some (f, map Some ws)" by blast
  then have "command_execute env ''list route'' root = Some (1, [Some ''list'', Some ''route''])"
    "command_execute env ''show route'' root = Some (2, [Some ''show'', Some ''route''])" for env
    using r(2) [rule_format, OF conjI, OF c(1)] r(2) [rule_format, OF conjI, OF c(2)] p by simp_all
  with r(1) show ?thesis by blast
qed

lemma best_var_in: "best_var env vs = Some b \<Longrightarrow> b \<in> set vs"
  by (induction vs arbitrary: b) (auto split: option.splits if_splits)

lemma unique_exact_child:
  assumes "command_match_unique_exact env n w = Some c"
  shows "c \<in> set (cmdvec n) \<and> is_command_match env (cmdstr c) w"
proof (cases "command_match_unique env n w")
  case None
  with assms show ?thesis
    by (auto simp: command_match_unique_exact_def is_command_match_def is_command_match_regular_def dest: exact_SomeD)
next
  case (Some d)
  with assms have "command_match_unique env n w = Some c" by (simp add: command_match_unique_exact_def)
  then have "c \<in> set (variable_matches env n w) \<union> set (regular_matches n w)"
    by (auto simp: match_unique_spec Let_def dest: best_var_in split: if_splits)
  then show ?thesis by (auto simp: variable_matches_def regular_matches_def is_command_match_def)
qed

lemma execute_words_path:
  assumes "tree_ok n" "execute_words env line words n m argv = (Some c, args)"
  shows "(m = Some c \<and> args = argv) \<or> (\<exists>p. node_at p n = Some c \<and> length args = length argv + length p
     \<and> list_all2 (is_command_match env) p (take (length p) words))"
  using assms
proof (induction words arbitrary: n m argv)
  case (Cons w ws)
  show ?case
  proof (cases "w = [] \<or> command_match_unique_exact env n w = None")
    case True
    with Cons.prems(2) show ?thesis by (auto split: if_splits)
  next
    case False
    then obtain d where d: "command_match_unique_exact env n w = Some d" "w \<noteq> []" by auto
    note ch = unique_exact_child [OF d(1)]
    then have e: "node_at [cmdstr d] n = Some d" "tree_ok d"
      using exact_Some [OF tree_ok_kids [OF Cons.prems(1)], of "cmdstr d" d] Cons.prems(1) tree_ok_iff [of n] by auto
    have one: ?thesis if "c = d" "length args = length argv + 1"
      using e that ch by (intro disjI2 exI [of _ "[cmdstr d]"]) simp
    show ?thesis
    proof (cases "line_spec (cmdstr d) \<or> file_spec (cmdstr d)")
      case True
      with Cons.prems(2) d one show ?thesis by auto
    next
      case False
      with Cons.prems(2) d Cons.IH [OF e(2), of "Some d" "argv @ [Some (command_replace env d w)]"]
      consider "c = d" "length args = length argv + 1"
        | p where "node_at p d = Some c" "length args = length argv + 1 + length p" "list_all2 (is_command_match env) p (take (length p) ws)"
        by auto
      then show ?thesis
      proof cases
        case 2
        with e(1) ch show ?thesis by (intro disjI2 exI [of _ "cmdstr d # p"]) (auto split: bind_splits)
      qed (rule one)
    qed
  qed
qed simp

text \<open>
  C19: Only what was typed is executed.  If the execution of a line calls a function, then it is the
  function installed last for some list of keywords, every typed word up to the length of that
  list fits its keyword or argument, and the function gets as many arguments.
\<close>

theorem executed_command_matches:
  assumes "install_all cs command_set_create = Some root" "command_execute env line root = Some (f, args)"
  shows "\<exists>p. commands_of cs p = Some f \<and> length args = length p
     \<and> list_all2 (is_command_match env) p (take (length p) (split_on (CHR '' '') line))"
proof -
  note i = install_all_spec [OF assms(1)]
  from assms(2) obtain c where c: "execute_words env line (split_on (CHR '' '') line) root None [] = (Some c, args)" "cmd_func c = Some f"
    by (auto simp: command_execute_def split: prod.splits bind_splits)
  with execute_words_path [OF _ c(1)] i obtain p where "node_at p root = Some c" "length args = length p"
    "list_all2 (is_command_match env) p (take (length p) (split_on (CHR '' '') line))" by auto
  moreover from this(1) c(2) i have "commands_of cs p = Some f" by (metis bind.bind_lunit func_at_def)
  ultimately show ?thesis by blast
qed

theorem executed_command_matches_witness:
  "\<exists>root. install_all [(''show route'', ''h'', 1::nat)] command_set_create = Some root
    \<and> (\<forall>env f args. command_execute env ''sh ro'' root = Some (f, args) \<longrightarrow> f = 1 \<and> length args = 2)
    \<and> command_execute \<lparr>inet_pton4 = (\<lambda>w. True), strtod_rest = id, strtod_less = (\<lambda>a b. False), stat_of = (\<lambda>f. St_Enoent),
      readdir_of = (\<lambda>d. None), strftime_of = Some\<rparr> ''sh ro'' root = Some (1, [Some ''show'', Some ''route''])"
proof -
  let ?cs = "[(''show route'', ''h'', 1)] :: (string \<times> string \<times> nat) list"
  let ?env = "\<lparr>inet_pton4 = (\<lambda>w. True), strtod_rest = id, strtod_less = (\<lambda>a b. False), stat_of = (\<lambda>f. St_Enoent), readdir_of = (\<lambda>d. None), strftime_of = Some\<rparr>"
  let ?r = "CNode [] None None [CNode ''show'' (Some ''h'') None [CNode ''route'' None (Some (1::nat)) []]]"
  have r: "install_all ?cs command_set_create = Some ?r" by code_simp
  have e: "command_execute ?env ''sh ro'' ?r = Some (1, [Some ''show'', Some ''route''])" by code_simp
  have l: "line_paths ''show route'' = [[''show'', ''route'']]" by code_simp
  have "f = 1 \<and> length args = 2" if "command_execute env ''sh ro'' ?r = Some (f, args)" for env f args
    using executed_command_matches [OF r that] l by (auto simp: commands_of_def split: if_splits)
  with r e show ?thesis by blast
qed

section \<open>Completion\<close>

lemma strcommon_prefix: "prefix d (strcommon a b) \<longleftrightarrow> prefix d a \<and> prefix d b"
proof (induction a arbitrary: b d)
  case (Cons x a)
  then show ?case by (cases b; cases d) auto
qed auto

lemma common_fold: "prefix d (foldl (\<lambda>c node. strcommon c (cmdstr node)) c ns) \<longleftrightarrow> prefix d c \<and> (\<forall>n \<in> set ns. prefix d (cmdstr n))"
  by (induction ns arbitrary: c) (auto simp: strcommon_prefix)

definition candidates :: "cli_env \<Rightarrow> 'f cmd_node \<Rightarrow> string \<Rightarrow> string set" where
  "candidates env parent word = cmdstr ` set (filter (\<lambda>c. \<not> is_command_node_variable env c \<and> prefix word (cmdstr c)) (cmdvec parent))"

lemma complete_common_spec:
  assumes "length word < 64" "candidates env parent word \<noteq> {}" "\<forall>k \<in> candidates env parent word. length k < 64"
  obtains c where "command_complete_common env word parent = Some c"
    "\<And>d. prefix d (word @ c) \<longleftrightarrow> (\<forall>k \<in> candidates env parent word. prefix d k)"
proof -
  let ?ms = "filter (\<lambda>node. \<not> is_command_node_variable env node \<and> prefix word (cmdstr node)) (cmdvec parent)"
  have cand: "candidates env parent word = cmdstr ` set ?ms" by (auto simp: candidates_def)
  with assms(2) obtain m ms where ms: "?ms = m # ms" by (cases ?ms) auto
  then have m: "length (cmdstr m) < 64" using assms(3) cand by auto
  define common where "common = foldl (\<lambda>c node. strcommon c (cmdstr node)) (cmdstr m) ms"
  have c: "prefix d common \<longleftrightarrow> (\<forall>k \<in> candidates env parent word. prefix d k)" for d
    unfolding common_def common_fold cand ms by auto
  then have "prefix word common" by (auto simp: candidates_def)
  then have "common = word @ drop (length word) common" by (auto simp: prefix_def)
  moreover have "command_complete_common env word parent = Some (drop (length word) common)"
    using assms(1) m ms by (simp add: command_complete_common_def common_def)
  ultimately show thesis using that c by metis
qed

lemma walk_path:
  assumes "node_at ws n = Some p"
  shows "complete_walk env (ws @ [w]) n m = (case command_match_unique_exact env p w of None \<Rightarrow> Inl (p, w) | Some c \<Rightarrow> Inr (c, w))"
  using assms
proof (induction ws arbitrary: n m)
  case Nil
  then show ?case by (simp split: option.splits)
next
  case (Cons v ws)
  then show ?case by (auto simp: exact_selects split: bind_splits)
qed

definition typed_words :: "string list \<Rightarrow> bool" where
  "typed_words ws \<longleftrightarrow> (\<forall>w \<in> set ws. CHR '' '' \<notin> set w \<and> w \<noteq> [])"

lemma complete_line:
  assumes "node_at ws root = Some p" "typed_words ws" "CHR '' '' \<notin> set w"
  shows "complete_walk env (split_on (CHR '' '') (shell_format3 (spaced (ws @ [w])))) root [] =
    (case command_match_unique_exact env p w of None \<Rightarrow> Inl (p, w) | Some c \<Rightarrow> Inr (c, w))"
proof -
  have "split_on (CHR '' '') (shell_format3 (spaced (ws @ [w]))) = ws @ [w]"
    using assms(2,3) by (intro format3_spaced) (auto simp: typed_words_def)
  with walk_path [OF assms(1)] show ?thesis by simp
qed

text \<open>
  C21: Completion.  Behind keywords that were typed in full, a word that selects nothing and begins some
  keywords is completed by the longest text on which all of them agree (words and keywords shorter
  than 64 characters, the size of the buffers).
\<close>

theorem completion_correct:
  assumes "node_at ws root = Some p" "typed_words ws" "CHR '' '' \<notin> set w" "length w < 64"
    and "command_match_unique_exact env p w = None" "candidates env p w \<noteq> {}" "\<forall>k \<in> candidates env p w. length k < 64"
  shows "\<exists>c. command_complete env (spaced (ws @ [w])) root = Some c
    \<and> (\<forall>k \<in> candidates env p w. prefix (w @ c) k) \<and> (\<forall>d. (\<forall>k \<in> candidates env p w. prefix (w @ d) k) \<longrightarrow> prefix d c)"
proof -
  from complete_common_spec [OF assms(4,6,7)] obtain c where c: "command_complete_common env w p = Some c"
    "\<And>d. prefix d (w @ c) \<longleftrightarrow> (\<forall>k \<in> candidates env p w. prefix d k)" by blast
  then have all: "\<forall>k \<in> candidates env p w. prefix (w @ c) k" by blast
  with assms(6,7) obtain k where "prefix (w @ c) k" "length k < 64" by blast
  then have "length c < 64" by (auto dest: prefix_length_le)
  then have "command_complete env (spaced (ws @ [w])) root = Some c"
    using complete_line [OF assms(1-3), of env] assms(5) c(1) by (simp add: command_complete_def)
  moreover have "prefix d c" if "\<forall>k \<in> candidates env p w. prefix (w @ d) k" for d
    using c(2) [of "w @ d"] that by simp
  ultimately show ?thesis using all by blast
qed

text \<open>
  Completion of a prefix argument.  A node for \<^verbatim>\<open>A.B.C.D/M\<close> is not counted as an argument, so the
  completion of a prefix of more than nine characters reads behind the keyword.
\<close>

theorem prefix_completion_overruns:
  assumes "node_at ws root = Some p" "typed_words ws" "CHR '' '' \<notin> set w"
    and "command_match_unique_exact env p w = Some c" "cmdstr c = ''A.B.C.D/M''" "9 < length w"
  shows "command_complete env (spaced (ws @ [w])) root = None"
proof -
  have "\<not> is_command_node_variable env c" using assms(5)
    by (simp add: is_command_node_variable_def ipv4_spec_def range_spec_def double_spec_def file_spec_def line_spec_def var_spec_def word_spec_def)
  with complete_line [OF assms(1-3), of env] assms(4,5,6) show ?thesis by (simp add: command_complete_def)
qed

theorem completion_correct_witness:
  "\<forall>env. \<exists>c. command_complete env ''show in'' (CNode [] None None [CNode ''show'' None None [CNode ''interface'' None (Some 1) [], CNode ''internal'' None (Some (2::nat)) []]]) = Some c
    \<and> prefix c ''ternal'' \<and> c = ''ter''"
proof (rule allI)
  fix env
  let ?a = "CNode ''interface'' None (Some 1) []" and ?b = "CNode ''internal'' None (Some (2::nat)) []"
  let ?p = "CNode ''show'' None None [?a, ?b]"
  let ?r = "CNode [] None None [?p]"
  note specs = ipv4_spec_def ipv4_prefix_spec_def range_spec_def double_spec_def file_spec_def flag_spec_def line_spec_def var_spec_def word_spec_def
  have n: "node_at [''show''] ?r = Some ?p" by (simp add: command_match_exact_def)
  have u: "command_match_unique_exact env ?p ''in'' = None"
    by (simp add: command_match_unique_exact_def command_match_exact_def command_match_unique_def match_step_def match_start_def
      is_command_match_variable_def is_command_match_regular_def specs Let_def)
  have k: "candidates env ?p ''in'' = {''interface'', ''internal''}"
    by (simp add: candidates_def is_command_node_variable_def specs Let_def)
  from completion_correct [OF n, of "''in''" env, OF _ _ _ u] k obtain c where
    c: "command_complete env ''show in'' ?r = Some c" "prefix (''in'' @ c) ''interface''" "prefix (''in'' @ c) ''internal''"
      "\<forall>d. prefix (''in'' @ d) ''interface'' \<and> prefix (''in'' @ d) ''internal'' \<longrightarrow> prefix d c"
    by (auto simp: typed_words_def)
  then have "prefix ''ter'' c" by simp
  then obtain e where e: "c = ''ter'' @ e" by (auto simp: prefix_def)
  with c(2,3) have "e = []" by (cases e) auto
  with c(1) e show "\<exists>c. command_complete env ''show in'' ?r = Some c \<and> prefix c ''ternal'' \<and> c = ''ter''" by simp
qed

theorem prefix_completion_overruns_witness:
  "command_complete \<lparr>inet_pton4 = (\<lambda>w. True), strtod_rest = id, strtod_less = (\<lambda>a b. False), stat_of = (\<lambda>f. St_Enoent),
      readdir_of = (\<lambda>d. None), strftime_of = Some\<rparr> ''ping 10.0.0.0/8'' (CNode [] None None [CNode ''ping'' None None [CNode ''A.B.C.D/M'' None (Some (1::nat)) []]]) = None"
proof -
  let ?env = "\<lparr>inet_pton4 = (\<lambda>w. True), strtod_rest = id, strtod_less = (\<lambda>a b. False), stat_of = (\<lambda>f. St_Enoent), readdir_of = (\<lambda>d. None), strftime_of = Some\<rparr>"
  let ?c = "CNode ''A.B.C.D/M'' None (Some (1::nat)) []"
  let ?p = "CNode ''ping'' None None [?c]"
  have n: "node_at [''ping''] (CNode [] None None [?p]) = Some ?p" by (simp add: command_match_exact_def)
  have u: "command_match_unique_exact ?env ?p ''10.0.0.0/8'' = Some ?c" by code_simp
  from prefix_completion_overruns [OF n _ _ u] show ?thesis by (simp add: typed_words_def)
qed

section \<open>The rest of the line as an argument\<close>

lemma split_on_append: "split_on c (a @ c # b) = split_on c a @ split_on c b"
  by (induction a) auto

lemma strstr_early: "sublist w a \<Longrightarrow> w \<noteq> [] \<Longrightarrow> \<exists>t. strstr (a @ b) w = Some t \<and> length b < length t"
proof (induction a)
  case (Cons x a)
  show ?case
  proof (cases "prefix w (x # a)")
    case True
    then have "prefix w ((x # a) @ b)" by (rule prefix_prefix)
    then show ?thesis by simp
  next
    case False
    with Cons show ?thesis by (auto simp: sublist_Cons_right)
  qed
qed simp

text \<open>
  The wrong rest of a line.  An argument \<^verbatim>\<open><LINE>\<close> is found by searching the line for its first word,
  so if that word occurs in the keywords before, the function gets a longer text from there.
\<close>

theorem line_argument_first_occurrence:
  assumes "node_at ws root = Some p" "list_all plain_word ws" "ws \<noteq> []"
    and "command_match_unique_exact env p w = Some c" "line_spec (cmdstr c)" "cmd_func c = Some f"
    and "CHR '' '' \<notin> set w" "w \<noteq> []" "rest = [] \<or> hd rest = CHR '' ''" "sublist w (spaced ws)"
  shows "\<exists>t. command_execute env (spaced ws @ '' '' @ w @ rest) root = Some (f, map Some ws @ [Some t]) \<and> length (w @ rest) < length t"
proof -
  let ?line = "spaced ws @ '' '' @ w @ rest"
  have pw: "\<forall>w \<in> set ws. w \<noteq> [] \<and> \<not> line_spec w \<and> \<not> file_spec w" "\<forall>w \<in> set ws. CHR '' '' \<notin> set w"
    using assms(2) by (auto simp: list_all_iff plain_word_def)
  obtain us where us: "split_on (CHR '' '') (w @ rest) = w # us"
  proof (cases rest)
    case Nil
    with that split_on_word [OF assms(7), of "[]"] show ?thesis by simp
  next
    case (Cons x r)
    with that split_on_word [OF assms(7), of rest] assms(9) show ?thesis by simp
  qed
  then have s: "split_on (CHR '' '') ?line = ws @ w # us"
    using split_on_append [of "CHR '' ''" "spaced ws" "w @ rest"] split_spaced [OF assms(3) pw(2)] by simp
  from strstr_early [OF assms(10,8), of "'' '' @ w @ rest"] obtain t where "strstr ?line w = Some t" "length (w @ rest) < length t"
    by auto
  with s execute_path [OF assms(1) pw(1), of env ?line "w # us" None "[]"] assms(3-6,8) show ?thesis
    by (simp add: command_execute_def)
qed

theorem line_argument_first_occurrence_witness:
  "\<forall>env. \<exists>t. command_execute env ''say a b'' (CNode [] None None [CNode ''say'' None None [CNode ''<LINE>'' None (Some (1::nat)) []]])
     = Some (1, [Some ''say'', Some t]) \<and> length ''a b'' < length t"
proof (rule allI)
  fix env
  let ?c = "CNode ''<LINE>'' None (Some (1::nat)) []"
  let ?p = "CNode ''say'' None None [?c]"
  note specs = ipv4_spec_def ipv4_prefix_spec_def range_spec_def double_spec_def file_spec_def flag_spec_def line_spec_def var_spec_def word_spec_def
  have n: "node_at [''say''] (CNode [] None None [?p]) = Some ?p" by (simp add: command_match_exact_def)
  have u: "command_match_unique_exact env ?p ''a'' = Some ?c"
    by (simp add: command_match_unique_exact_def command_match_unique_def match_step_def match_start_def
      is_command_match_variable_def is_command_match_regular_def specs Let_def)
  have "sublist ''a'' (spaced [''say''])" by (simp add: sublist_Cons_right)
  with line_argument_first_occurrence [OF n _ _ u, of 1 "'' b''"]
  show "\<exists>t. command_execute env ''say a b'' (CNode [] None None [?p]) = Some (1, [Some ''say'', Some t]) \<and> length ''a b'' < length t"
    by (simp add: plain_word_def specs)
qed

end
