(* ===== verification/Line_Editor.thy ===== *)
theory Line_Editor
  imports Interfaces Shell Command_Facts
begin

text \<open>
  The line editor (theory Shell) carries out an abstract one, \<open>ed\<close>: a text before and a text behind
  the cursor, the cut text, the history.  \<open>term_step\<close> is the terminal that shows what the shell writes,
  the row of the cursor and its column; \<open>shown\<close> says that the row is the prompt, the text and blanks.
  The lemmas \<open>shell_insert_edits\<close> to \<open>shell_format_edits\<close> are about the functions of \<^verbatim>\<open>shell.c\<close>,
  \<open>backward_target_spec\<close> about its words, and \<open>run_key_sim\<close> collects the keys.  \<open>ed_sim\<close> is the
  relation kept, for the locale \<open>simulation\<close>.
\<close>

section \<open>A terminal\<close>

text \<open>The row of the cursor and its column; the row is as wide as needed.\<close>

fun term_step :: "tout \<Rightarrow> string \<times> nat \<Rightarrow> string \<times> nat" where
  "term_step Clear_Screen s = ([], 0)"
| "term_step (Ch c) (row, col) =
     (if c = CTRL_H then (row, col - 1)
      else if c = CHR 0x0D then (row, 0)
      else if c = CHR 0x0A then (replicate col (CHR '' ''), col)
      else (overwrite col [c] row, col + 1))"

definition plain :: "char \<Rightarrow> bool" where
  "plain c \<longleftrightarrow> c \<noteq> NUL \<and> c \<noteq> CTRL_H \<and> c \<noteq> CHR 0x0D \<and> c \<noteq> CHR 0x0A"

lemma plain_space [simp]: "plain (CHR '' '')"
  by (simp add: plain_def NUL_def CTRL_H_def)

lemma term_put: "list_all plain s \<Longrightarrow> col \<le> length row \<Longrightarrow> fold term_step (map Ch s) (row, col) = (overwrite col s row, col + length s)"
proof (induction s arbitrary: row col)
  case (Cons c s)
  then have "col + 1 \<le> length (overwrite col [c] row)" by (simp add: overwrite_def)
  with Cons show ?case by (auto simp: overwrite_def plain_def add_ac)
qed (simp add: overwrite_def)

lemma term_back: "fold term_step (map Ch (replicate n CTRL_H)) (row, col) = (row, col - n)"
  by (induction n arbitrary: col) auto

definition screen :: "'f shell \<Rightarrow> string \<times> nat" where
  "screen sh = fold term_step (sh_output sh) ([], 0)"

lemma screen_write: "screen (write_out s sh) = (if writefd_ok sh then fold term_step (map Ch s) (screen sh) else screen sh)"
  by (simp add: screen_def write_out_def)

section \<open>The text before and after the cursor\<close>

definition text_at :: "string \<Rightarrow> string \<Rightarrow> 'f shell \<Rightarrow> bool" where
  "text_at l r sh \<longleftrightarrow> (\<exists>junk. command_line sh = l @ r @ NUL # junk) \<and> sh_cursor sh = length l
     \<and> sh_end sh = length l + length r \<and> list_all plain l \<and> list_all plain r"

definition shown :: "string \<Rightarrow> string \<Rightarrow> 'f shell \<Rightarrow> bool" where
  "shown l r sh \<longleftrightarrow> (\<exists>k. screen sh = (sh_prompt sh @ l @ r @ replicate k (CHR '' ''), length (sh_prompt sh) + length l))"

definition ready :: "'f shell \<Rightarrow> bool" where
  "ready sh \<longleftrightarrow> writefd_ok sh \<and> fl_interactive sh \<and> list_all plain (sh_prompt sh)
     \<and> (sh_NL sh = [CHR 0x0A] \<or> sh_NL sh = [CHR 0x0D, CHR 0x0A])"

definition edits :: "string \<Rightarrow> string \<Rightarrow> 'f shell \<Rightarrow> bool" where
  "edits l r sh \<longleftrightarrow> text_at l r sh \<and> shown l r sh \<and> ready sh"

text \<open>What editing leaves alone.\<close>

definition same :: "'f shell \<Rightarrow> 'f shell \<Rightarrow> bool" where
  "same sh sh' \<longleftrightarrow> fl_telnet_debug sh' = fl_telnet_debug sh \<and> ws_row sh' = ws_row sh \<and> ws_col sh' = ws_col sh \<and> subnego_buf sh' = subnego_buf sh
     \<and> writefd_ok sh' = writefd_ok sh \<and> fl_interactive sh' = fl_interactive sh \<and> fl_escape sh' = fl_escape sh
     \<and> sh_NL sh' = sh_NL sh \<and> sh_prompt sh' = sh_prompt sh \<and> inputch sh' = inputch sh \<and> sh_keymap sh' = sh_keymap sh
     \<and> keymap_normal sh' = keymap_normal sh \<and> cmdset sh' = cmdset sh \<and> sh_history sh' = sh_history sh \<and> terminal_buf sh' = terminal_buf sh"

lemma same_refl [simp]: "same sh sh" by (simp add: same_def)
lemma same_trans: "same a b \<Longrightarrow> same b c \<Longrightarrow> same a c" by (simp add: same_def)
lemma ready_same: "same sh sh' \<Longrightarrow> ready sh \<Longrightarrow> ready sh'" by (simp add: same_def ready_def)

lemma write_out_simps [simp]:
  "command_line (write_out s sh) = command_line sh" "sh_cursor (write_out s sh) = sh_cursor sh" "sh_end (write_out s sh) = sh_end sh"
  "sh_prompt (write_out s sh) = sh_prompt sh" "cut_buffer (write_out s sh) = cut_buffer sh" "same sh (write_out s sh)"
  "writefd_ok (write_out s sh) = writefd_ok sh"
  by (simp_all add: write_out_def same_def)

lemma line_from_text:
  "command_line sh = a @ b @ NUL # junk \<Longrightarrow> list_all plain b \<Longrightarrow> i = length a \<Longrightarrow> line_from i sh = b"
  by (simp add: line_from_def takeWhile_append list_all_iff plain_def takeWhile_eq_all_conv)

lemma terminate_text: "command_line sh = s @ c # junk \<Longrightarrow> sh_end sh = length s \<Longrightarrow> command_line (shell_terminate sh) = s @ NUL # junk"
  by (simp add: shell_terminate_def sh_size_def)

lemma terminate_simps [simp]:
  "sh_cursor (shell_terminate sh) = sh_cursor sh" "sh_end (shell_terminate sh) = sh_end sh" "sh_prompt (shell_terminate sh) = sh_prompt sh"
  "sh_output (shell_terminate sh) = sh_output sh" "writefd_ok (shell_terminate sh) = writefd_ok sh"
  "cut_buffer (shell_terminate sh) = cut_buffer sh" "same sh (shell_terminate sh)" "screen (shell_terminate sh) = screen sh"
  by (simp_all add: shell_terminate_def same_def screen_def)

lemma terminate_idle: "text_at l r sh \<Longrightarrow> shell_terminate sh = sh"
  by (cases sh) (auto simp: text_at_def shell_terminate_def sh_size_def nth_append list_update_append)

lemma shell_fit_spec:
  "line \<noteq> [] \<Longrightarrow> \<exists>more. shell_fit fresh need line = Some (line @ more) \<and> need \<le> length (line @ more)"
proof (induction fresh need line rule: shell_fit.induct)
  case (1 fresh need line)
  show ?case
  proof (cases "need \<le> length line")
    case True
    then show ?thesis by (subst shell_fit.simps) simp
  next
    case False
    then have "\<exists>more. shell_fit fresh need (line @ map fresh [length line..<2 * length line]) = Some ((line @ map fresh [length line..<2 * length line]) @ more)
        \<and> need \<le> length ((line @ map fresh [length line..<2 * length line]) @ more)"
      using 1 by blast
    with False 1(2) show ?thesis by (subst shell_fit.simps) auto
  qed
qed

text \<open>Writing text at the cursor and moving back.\<close>

lemma screen_put_back:
  assumes "screen sh = (row, col)" "writefd_ok sh" "list_all plain s" "col \<le> length row"
  shows "screen (writec_times CTRL_H n (write_out s sh)) = (overwrite col s row, col + length s - n)"
  using assms by (simp add: writec_times_def screen_write term_put term_back del: map_replicate)

lemma screen_back: "screen sh = (row, col) \<Longrightarrow> writefd_ok sh \<Longrightarrow> screen (writec_times CTRL_H n sh) = (row, col - n)"
  by (simp add: writec_times_def screen_write term_back del: map_replicate)

lemma shell_insert_edits:
  assumes e: "edits l r sh" and s: "list_all plain s"
  shows "\<exists>sh'. shell_insert fresh s sh = Some sh' \<and> edits (l @ s) r sh' \<and> same sh sh' \<and> cut_buffer sh' = cut_buffer sh"
proof -
  from e obtain junk where t: "command_line sh = l @ r @ NUL # junk" "sh_cursor sh = length l" "sh_end sh = length l + length r"
      "list_all plain l" "list_all plain r"
    by (auto simp: edits_def text_at_def)
  from t obtain more where f: "shell_fit fresh (sh_end sh + length s + 1) (command_line sh) = Some (command_line sh @ more)"
      "sh_end sh + length s + 1 \<le> length (command_line sh @ more)"
    using shell_fit_spec [of "command_line sh" fresh "sh_end sh + length s + 1"] by auto
  define line where "line = overwrite (length l) s (memmove (length l + length s) (length l) (length r) (command_line sh @ more))"
  define rest where "rest = drop (length l + length s + length r) (command_line sh @ more)"
  have "rest \<noteq> []" using f(2) t by (simp add: rest_def)
  then obtain c rest' where rest: "rest = c # rest'" by (cases rest) auto
  define xs A where "xs = command_line sh @ more" and "A = take (length l + length s) xs"
  have lA: "length A = length l + length s" "take (length l) A = l" using f(2) t by (simp_all add: A_def xs_def)
  have "memmove (length l + length s) (length l) (length r) xs = A @ r @ rest"
    using t by (simp add: memmove_def A_def xs_def rest_def)
  then have line: "line = (l @ s @ r) @ c # rest'"
    using lA unfolding line_def xs_def [symmetric] rest [symmetric] by (simp add: overwrite_def)
  define sh1 where "sh1 = shell_terminate (sh\<lparr>command_line := line, sh_end := sh_end sh + length s\<rparr>)"
  have l1: "command_line sh1 = l @ (s @ r) @ NUL # rest'"
    unfolding sh1_def using terminate_text [of "sh\<lparr>command_line := line, sh_end := sh_end sh + length s\<rparr>" "l @ s @ r" c rest'] line t
    by simp
  have out: "line_from (length l) sh1 = s @ r" using line_from_text [OF l1, of "length l"] s t by simp
  from e obtain k where k: "screen sh = (sh_prompt sh @ l @ r @ replicate k (CHR '' ''), length (sh_prompt sh) + length l)" and w: "ready sh"
    by (auto simp: edits_def shown_def)
  have sc: "screen sh1 = screen sh" by (simp add: sh1_def screen_def)
  define sh2 where "sh2 = writec_times CTRL_H (length r) ((write_out (s @ r) sh1)\<lparr>sh_cursor := length l + length s\<rparr>)"
  have i: "shell_insert fresh s sh = Some sh2"
    using f(1) t(2,3) w unfolding shell_insert_def Let_def
    by (simp add: line_def [symmetric]) (simp add: sh2_def sh1_def t(3) out [unfolded sh1_def t(3)] ready_def)
  have "screen sh2 = screen (writec_times CTRL_H (length r) (write_out (s @ r) sh1))"
    by (simp add: sh2_def screen_def writec_times_def write_out_def)
  also have "\<dots> = (overwrite (length (sh_prompt sh) + length l) (s @ r) (sh_prompt sh @ l @ r @ replicate k (CHR '' '')),
      length (sh_prompt sh) + length l + length s)"
    using screen_put_back [of sh1 _ _ "s @ r" "length r"] sc k w s t by (simp add: sh1_def ready_def)
  finally have "shown (l @ s) r sh2"
    by (auto simp: shown_def overwrite_def sh2_def sh1_def writec_times_def intro!: exI [of _ "k - length s"])
  moreover have "text_at (l @ s) r sh2" using l1 s t by (simp add: text_at_def sh2_def sh1_def writec_times_def)
  moreover have same: "same sh sh2" by (simp add: same_def sh2_def sh1_def writec_times_def write_out_def shell_terminate_def)
  ultimately show ?thesis using i ready_same [OF same w] by (simp add: edits_def sh2_def sh1_def writec_times_def)
qed

lemma shell_delete_edits:
  assumes e: "edits l r sh" and lr: "l @ r = a @ d @ b" "length a \<le> length l"
  shows "\<exists>sh'. shell_delete_string (length a) (length a + length d) sh = Some sh' \<and> edits a b sh' \<and> same sh sh' \<and> cut_buffer sh' = cut_buffer sh"
proof -
  from e obtain junk where t: "command_line sh = l @ r @ NUL # junk" "sh_cursor sh = length l" "sh_end sh = length l + length r"
      "list_all plain (l @ r)" and w: "ready sh"
    by (auto simp: edits_def text_at_def)
  have c: "command_line sh = a @ d @ b @ NUL # junk" using t(1) lr(1) by (metis append.assoc)
  have end_: "sh_end sh = length a + length d + length b" using arg_cong [OF lr(1), of length] t(3) by simp
  have pl: "list_all plain a" "list_all plain b" using t(4) lr(1) by (metis list_all_append)+
  have mv: "(if length b \<noteq> 0 then memmove (length a) (length a + length d) (length b) (command_line sh) else command_line sh)
      = a @ b @ drop (length b) (d @ b @ NUL # junk)"
    by (simp add: memmove_def c)
  define rest where "rest = b @ replicate (length d) (CHR '' '')"
  have "overwrite (length a + length b) (replicate (length d) (CHR '' '')) (a @ b @ drop (length b) (d @ b @ NUL # junk)) = (a @ rest) @ NUL # junk"
    by (simp add: overwrite_def rest_def)
  then have line: "overwrite (length a + length b) (replicate (sh_end sh - (length a + length b)) (CHR '' ''))
      (if length b \<noteq> 0 then memmove (length a) (length a + length d) (length b) (command_line sh) else command_line sh) = (a @ rest) @ NUL # junk"
    unfolding mv end_ by simp
  define sh1 where "sh1 = shell_terminate (sh\<lparr>command_line := (a @ rest) @ NUL # junk\<rparr>)"
  have le: "length a + length b + length d = sh_end sh" using end_ by simp
  have l1: "command_line sh1 = a @ rest @ NUL # junk"
    unfolding sh1_def using terminate_text [of "sh\<lparr>command_line := (a @ rest) @ NUL # junk\<rparr>" "a @ rest" NUL junk] le
    by (simp add: rest_def)
  have pr: "list_all plain rest" using pl by (auto simp: rest_def list_all_iff)
  define n where "n = length l - length a"
  define sh2 where "sh2 = writec_times CTRL_H (length d + length b)
    ((write_out rest (writec_times CTRL_H n sh1))\<lparr>sh_cursor := length a\<rparr>)"
  define sh3 where "sh3 = shell_terminate (sh2\<lparr>sh_end := length a + length b\<rparr>)"
  have out: "line_from (length a) (writec_times CTRL_H n sh1) = rest"
    using line_from_text [of "writec_times CTRL_H n sh1" a rest junk] l1 pr by (simp add: writec_times_def)
  have d: "shell_delete_string (length a) (length a + length d) sh = Some sh3"
  proof -
    have m: "sh_end sh - (length a + length d) = length b" using end_ by simp
    have c1: "sh_cursor sh1 - length a = n" "sh_end sh1 = sh_end sh" "sh_cursor sh1 = length l" by (simp_all add: sh1_def n_def t(2))
    show ?thesis
      unfolding shell_delete_string_def Let_def m line sh1_def [symmetric] c1(1) out
      by (simp add: sh3_def sh2_def end_ c1 writec_times_def)
  qed
  from e obtain k where k: "screen sh = (sh_prompt sh @ l @ r @ replicate k (CHR '' ''), length (sh_prompt sh) + length l)"
    by (auto simp: edits_def shown_def)
  have row: "sh_prompt sh @ l @ r @ replicate k (CHR '' '') = sh_prompt sh @ a @ d @ b @ replicate k (CHR '' '')" using lr(1) by simp
  have "screen (writec_times CTRL_H n sh1) = (sh_prompt sh @ a @ d @ b @ replicate k (CHR '' ''), length (sh_prompt sh) + length a)"
    using screen_back [of sh1 _ _ n] k [unfolded row] w lr(2) by (simp add: sh1_def ready_def n_def screen_def)
  then have "screen (writec_times CTRL_H (length d + length b) (write_out rest (writec_times CTRL_H n sh1)))
      = (overwrite (length (sh_prompt sh) + length a) rest (sh_prompt sh @ a @ d @ b @ replicate k (CHR '' '')), length (sh_prompt sh) + length a)"
    using screen_put_back [of "writec_times CTRL_H n sh1" _ _ rest "length d + length b"] w pr
    by (simp add: ready_def sh1_def writec_times_def rest_def)
  moreover have "screen sh3 = screen (writec_times CTRL_H (length d + length b) (write_out rest (writec_times CTRL_H n sh1)))"
    by (simp add: sh3_def sh2_def screen_def writec_times_def write_out_def)
  moreover have pr3: "sh_prompt sh3 = sh_prompt sh" by (simp add: sh3_def sh2_def sh1_def writec_times_def)
  ultimately have "shown a b sh3"
    by (simp add: shown_def overwrite_def rest_def replicate_add [symmetric])
  moreover have "command_line sh3 = a @ b @ NUL # tl (replicate (length d) (CHR '' '') @ NUL # junk)"
    using terminate_text [of "sh2\<lparr>sh_end := length a + length b\<rparr>" "a @ b"] l1
    by (cases "replicate (length d) (CHR '' '') @ NUL # junk") (simp_all add: sh3_def sh2_def writec_times_def rest_def)
  then have "text_at a b sh3" using pl by (simp add: text_at_def sh3_def sh2_def writec_times_def)
  moreover have same: "same sh sh3"
    by (simp add: same_def sh3_def sh2_def sh1_def writec_times_def write_out_def shell_terminate_def)
  ultimately show ?thesis using d ready_same [OF same w] by (simp add: edits_def sh3_def sh2_def sh1_def writec_times_def)
qed

lemma edits_other_fields [simp]:
  "edits l r (sh\<lparr>cut_buffer := x\<rparr>) = edits l r sh" "edits l r (sh\<lparr>sh_keymap := m\<rparr>) = edits l r sh"
  "edits l r (sh\<lparr>inputch := c\<rparr>) = edits l r sh" "edits l r (sh\<lparr>fl_escape := b\<rparr>) = edits l r sh"
  "edits l r (sh\<lparr>sh_history := h\<rparr>) = edits l r sh" "edits l r (sh\<lparr>terminal_buf := t\<rparr>) = edits l r sh"
  by (simp_all add: edits_def text_at_def shown_def ready_def screen_def)

lemma edits_plain: "edits l r sh \<Longrightarrow> list_all plain l \<and> list_all plain r"
  by (simp add: edits_def text_at_def)

lemma edits_cursor: "edits l r sh \<Longrightarrow> sh_cursor sh = length l \<and> sh_end sh = length l + length r"
  by (simp add: edits_def text_at_def)

lemma edits_line: "edits l r sh \<Longrightarrow> line_from 0 sh = l @ r"
  using line_from_text [of sh "[]" "l @ r"] by (auto simp: edits_def text_at_def)

lemma edits_terminate: "edits l r sh \<Longrightarrow> shell_terminate sh = sh"
  by (auto simp: edits_def dest: terminate_idle)

lemma shell_cut_edits:
  assumes e: "edits l r sh" and lr: "l @ r = a @ d @ b" "length a \<le> length l" "d = [] \<Longrightarrow> a = l"
  shows "\<exists>sh'. shell_cut (length a) (length a + length d) sh = Some sh' \<and> edits a b sh' \<and> same sh sh'
    \<and> cut_buffer sh' = (if d = [] then None else Some d)"
proof (cases "d = []")
  case True
  with e lr edits_cursor [OF e] show ?thesis by (auto simp: shell_cut_def same_def)
next
  case False
  from e obtain junk where t: "command_line sh = l @ r @ NUL # junk" by (auto simp: edits_def text_at_def)
  with lr(1) have "command_line sh = a @ d @ b @ NUL # junk" by (metis append.assoc)
  moreover have "list_all plain d" using edits_plain [OF e] lr(1) by (metis list_all_append)
  ultimately have c: "takeWhile (\<lambda>c. c \<noteq> NUL) (take (length d) (drop (length a) (command_line sh))) = d"
    by (auto simp: takeWhile_eq_all_conv list_all_iff plain_def)
  have le: "length a + length d \<le> sh_end sh" using edits_cursor [OF e] arg_cong [OF lr(1), of length] by simp
  have "edits l r (sh\<lparr>cut_buffer := Some d\<rparr>)" using e by simp
  from shell_delete_edits [OF this lr(1,2)] obtain sh' where
    "shell_delete_string (length a) (length a + length d) (sh\<lparr>cut_buffer := Some d\<rparr>) = Some sh'" "edits a b sh'"
    "same (sh\<lparr>cut_buffer := Some d\<rparr>) sh'" "cut_buffer sh' = Some d" by auto
  with False c le show ?thesis by (simp add: shell_cut_def same_def)
qed

lemma overwrite_same: "take (length s) (drop col row) = s \<Longrightarrow> overwrite col s row = row"
  by (metis append_take_drop_id drop_drop overwrite_def add.commute)

lemma shell_forward_edits:
  assumes e: "edits l (d @ r) sh"
  shows "edits (l @ d) r (shell_forward (length d) sh) \<and> same sh (shell_forward (length d) sh)
    \<and> cut_buffer (shell_forward (length d) sh) = cut_buffer sh"
proof -
  from e obtain junk k where t: "command_line sh = l @ (d @ r) @ NUL # junk" "sh_cursor sh = length l"
      "sh_end sh = length l + length (d @ r)" "list_all plain l" "list_all plain d" "list_all plain r" "ready sh"
      and k: "screen sh = (sh_prompt sh @ l @ (d @ r) @ replicate k (CHR '' ''), length (sh_prompt sh) + length l)"
    by (auto simp: edits_def text_at_def shown_def)
  define sh1 where "sh1 = (write_out d sh)\<lparr>sh_cursor := length l + length d\<rparr>"
  have f: "shell_forward (length d) sh = sh1" using t by (simp add: shell_forward_def sh1_def)
  have "screen sh1 = screen (write_out d sh)" by (simp add: sh1_def screen_def write_out_def)
  also have "\<dots> = (overwrite (length (sh_prompt sh) + length l) d (sh_prompt sh @ l @ d @ r @ replicate k (CHR '' '')), length (sh_prompt sh) + length l + length d)"
    using k t by (simp add: screen_write term_put ready_def del: map_map)
  also have "overwrite (length (sh_prompt sh) + length l) d (sh_prompt sh @ l @ d @ r @ replicate k (CHR '' '')) = sh_prompt sh @ l @ d @ r @ replicate k (CHR '' '')"
    by (rule overwrite_same) simp
  finally have "shown (l @ d) r sh1" by (auto simp: shown_def sh1_def)
  moreover have "text_at (l @ d) r sh1" using t by (simp add: text_at_def sh1_def)
  moreover have same: "same sh sh1" by (simp add: same_def sh1_def write_out_def)
  ultimately show ?thesis unfolding f using ready_same [OF same t(7)] by (simp add: edits_def sh1_def)
qed

lemma shell_backward_edits:
  assumes e: "edits (l @ d) r sh"
  shows "edits l (d @ r) (shell_backward (length d) sh) \<and> same sh (shell_backward (length d) sh)
    \<and> cut_buffer (shell_backward (length d) sh) = cut_buffer sh"
proof -
  from e obtain junk k where t: "command_line sh = (l @ d) @ r @ NUL # junk" "sh_cursor sh = length l + length d"
      "sh_end sh = length l + length d + length r" "list_all plain l" "list_all plain d" "list_all plain r" "ready sh"
      and k: "screen sh = (sh_prompt sh @ l @ d @ r @ replicate k (CHR '' ''), length (sh_prompt sh) + length l + length d)"
    by (auto simp: edits_def text_at_def shown_def)
  define sh1 where "sh1 = writec_times CTRL_H (length d) (sh\<lparr>sh_cursor := length l\<rparr>)"
  have f: "shell_backward (length d) sh = sh1" using t by (simp add: shell_backward_def sh1_def)
  have "screen sh1 = (sh_prompt sh @ l @ d @ r @ replicate k (CHR '' ''), length (sh_prompt sh) + length l)"
    unfolding sh1_def using k t screen_back [of "sh\<lparr>sh_cursor := length l\<rparr>"] by (simp add: screen_def ready_def)
  then have "shown l (d @ r) sh1" by (auto simp: shown_def sh1_def writec_times_def)
  moreover have "text_at l (d @ r) sh1" using t by (simp add: text_at_def sh1_def writec_times_def)
  moreover have same: "same sh sh1" by (simp add: same_def sh1_def writec_times_def write_out_def)
  ultimately show ?thesis unfolding f using ready_same [OF same t(7)] by (simp add: edits_def sh1_def writec_times_def)
qed

lemma shell_moveto_edits:
  assumes e: "edits l r sh" and lr: "l @ r = l' @ r'"
  shows "\<exists>sh'. shell_moveto (length l') sh = Some sh' \<and> edits l' r' sh' \<and> same sh sh' \<and> cut_buffer sh' = cut_buffer sh"
proof -
  note c = edits_cursor [OF e]
  have le: "length l' \<le> sh_end sh" using c arg_cong [OF lr, of length] by simp
  consider d where "l' = l @ d" "r = d @ r'" | d where "l = l' @ d" "r' = d @ r" using lr by (auto simp: append_eq_append_conv2)
  then show ?thesis
  proof cases
    case 1
    with shell_forward_edits [of l d r' sh] e c le show ?thesis by (cases "d = []") (auto simp: shell_moveto_def)
  next
    case 2
    with shell_backward_edits [of l' d r sh] e c le show ?thesis by (cases "d = []") (auto simp: shell_moveto_def)
  qed
qed

definition blank_from :: "nat \<Rightarrow> string \<Rightarrow> bool" where
  "blank_from n row \<longleftrightarrow> (\<exists>k. drop n row = replicate k (CHR '' ''))"

lemma blank_from_mono: "blank_from n row \<Longrightarrow> n \<le> m \<Longrightarrow> blank_from m row"
proof -
  assume "blank_from n row" "n \<le> m"
  then obtain k where "drop n row = replicate k (CHR '' '')" by (auto simp: blank_from_def)
  then have "drop (m - n) (drop n row) = replicate (k - (m - n)) (CHR '' '')" by simp
  with \<open>n \<le> m\<close> show ?thesis by (auto simp: blank_from_def)
qed

lemma screen_flush [simp]: "screen (term_flush sh) = fold term_step (terminal_buf sh) (screen sh)"
  by (simp add: screen_def term_flush_def)

lemma shell_prompt_screen:
  assumes "ready sh" "fold term_step (terminal_buf sh) (screen sh) = (row, col)"
  shows "screen (shell_prompt sh) = (sh_prompt sh @ drop (length (sh_prompt sh)) row, length (sh_prompt sh))"
    "sh_prompt (shell_prompt sh) = sh_prompt sh" "terminal_buf (shell_prompt sh) = []" "ready (shell_prompt sh)"
    "command_line (shell_prompt sh) = command_line sh" "sh_cursor (shell_prompt sh) = sh_cursor sh" "sh_end (shell_prompt sh) = sh_end sh"
    "same (sh\<lparr>terminal_buf := []\<rparr>) (shell_prompt sh)" "cut_buffer (shell_prompt sh) = cut_buffer sh"
proof -
  have p: "shell_prompt sh = write_out (sh_prompt sh) (write_out [CHR 0x0D] (term_flush sh))"
    using assms by (simp add: shell_prompt_def ready_def)
  have f: "term_flush sh = sh\<lparr>sh_output := sh_output sh @ terminal_buf sh, terminal_buf := []\<rparr>" by (simp add: term_flush_def)
  have "screen (write_out [CHR 0x0D] (term_flush sh)) = (row, 0)"
    using assms by (simp add: screen_write ready_def f) (simp add: screen_def CTRL_H_def)
  then show "screen (shell_prompt sh) = (sh_prompt sh @ drop (length (sh_prompt sh)) row, length (sh_prompt sh))"
    unfolding p using assms(1) by (simp add: screen_write [of "sh_prompt sh"] term_put ready_def overwrite_def f del: map_map)
  show "sh_prompt (shell_prompt sh) = sh_prompt sh" "terminal_buf (shell_prompt sh) = []" "ready (shell_prompt sh)"
    "command_line (shell_prompt sh) = command_line sh" "sh_cursor (shell_prompt sh) = sh_cursor sh" "sh_end (shell_prompt sh) = sh_end sh"
    "same (sh\<lparr>terminal_buf := []\<rparr>) (shell_prompt sh)" "cut_buffer (shell_prompt sh) = cut_buffer sh"
    unfolding p using assms(1) by (simp_all add: f write_out_def ready_def same_def)
qed

lemma shell_refresh_edits:
  assumes t: "text_at l r sh" and w: "ready sh" and tb: "fold term_step (terminal_buf sh) (screen sh) = (row, col)"
    and b: "blank_from (length (sh_prompt sh) + length l + length r) row"
  shows "edits l r (shell_refresh sh) \<and> same (sh\<lparr>terminal_buf := []\<rparr>) (shell_refresh sh) \<and> cut_buffer (shell_refresh sh) = cut_buffer sh"
proof -
  note p = shell_prompt_screen [OF w tb]
  define sh1 where "sh1 = shell_prompt sh"
  have t1: "text_at l r sh1" using t p unfolding sh1_def by (simp add: text_at_def)
  then have tm: "shell_terminate sh1 = sh1" by (rule terminate_idle)
  from t1 obtain junk where c: "command_line sh1 = [] @ (l @ r) @ NUL # junk" "sh_cursor sh1 = length l" "sh_end sh1 = length l + length r"
      "list_all plain (l @ r)" by (auto simp: text_at_def)
  have lf: "line_from 0 sh1 = l @ r" using line_from_text [OF c(1)] c(4) by simp
  have r: "shell_refresh sh = writec_times CTRL_H (length r) (write_out (l @ r) sh1)"
    by (simp add: shell_refresh_def Let_def sh1_def [symmetric] tm lf c)
  have "screen (shell_refresh sh) = (overwrite (length (sh_prompt sh)) (l @ r) (sh_prompt sh @ drop (length (sh_prompt sh)) row), length (sh_prompt sh) + length l)"
    unfolding r using screen_put_back [of sh1 _ _ "l @ r" "length r"] p(1,4) c(4) by (simp add: sh1_def ready_def)
  moreover have "overwrite (length (sh_prompt sh)) (l @ r) (sh_prompt sh @ drop (length (sh_prompt sh)) row)
      = sh_prompt sh @ l @ r @ drop (length (sh_prompt sh) + length l + length r) row"
    by (simp add: overwrite_def add_ac)
  ultimately have "shown l r (shell_refresh sh)"
    using b p(2) by (auto simp: shown_def blank_from_def r sh1_def writec_times_def)
  moreover have s: "same sh1 (shell_refresh sh)" by (simp add: r writec_times_def same_def write_out_def)
  moreover have "text_at l r (shell_refresh sh)" using t1 by (simp add: r text_at_def writec_times_def)
  ultimately show ?thesis using p(4,8,9) ready_same [OF s] same_trans [of _ sh1 "shell_refresh sh"]
    by (simp add: edits_def sh1_def r writec_times_def)
qed

text \<open>Formatting: the kept text is \<open>squeeze\<close>, and the cursor stays behind the same characters.\<close>

lemma format_loop_after: "cur \<le> i \<Longrightarrow> format_loop cur c i s = (squeeze c i s, 0)"
  by (induction s arbitrary: c i) (auto simp: Let_def)

lemma squeeze_append: "\<exists>c'. squeeze c i (a @ b) = squeeze c i a @ squeeze c' (i + length a) b"
proof (induction a arbitrary: c i)
  case (Cons x a)
  obtain c1 c2 where "squeeze (c + 1) (Suc i) (a @ b) = squeeze (c + 1) (Suc i) a @ squeeze c1 (Suc i + length a) b"
    "squeeze 0 (Suc i) (a @ b) = squeeze 0 (Suc i) a @ squeeze c2 (Suc i + length a) b" using Cons.IH by blast
  then show ?case by (cases "x = CHR '' ''"; cases "1 < c + 1"; cases "i = 0"; auto)
qed auto

lemma format_loop_spec: "format_loop (i + length l) c i (l @ r) = (squeeze c i (l @ r), length (squeeze c i l))"
proof (induction l arbitrary: c i)
  case Nil
  then show ?case by (simp add: format_loop_after)
next
  case (Cons x l)
  from Cons.IH [of "Suc i"] show ?case by (auto simp: Let_def)
qed

lemma set_squeeze: "set (squeeze c i s) \<subseteq> set s"
  by (induction s arbitrary: c i) (auto simp: Let_def split: if_splits)

lemma squeeze_plain: "list_all plain s \<Longrightarrow> list_all plain (squeeze c i s)"
  using set_squeeze [of c i s] by (auto simp: list_all_iff)

lemma length_squeeze: "length (squeeze c i s) \<le> length s"
  by (induction s arbitrary: c i) (auto simp: Let_def le_SucI split: if_splits)

definition format_left :: "string \<Rightarrow> string" where "format_left l = squeeze 0 0 l"
definition format_right :: "string \<Rightarrow> string \<Rightarrow> string" where
  "format_right l r = drop (length (format_left l)) (squeeze 0 0 (l @ r))"

lemma format_parts: "squeeze 0 0 (l @ r) = format_left l @ format_right l r"
  using squeeze_append [of 0 0 l r] by (auto simp: format_left_def format_right_def)

lemma format2_text:
  assumes "text_at l r sh"
  obtains buf where "shell_format2 sh = sh\<lparr>command_line := buf, sh_cursor := length (format_left l),
        sh_end := length (format_left l) + length (format_right l r)\<rparr>"
    "text_at (format_left l) (format_right l r) (shell_format2 sh)"
proof -
  from assms obtain junk where t: "command_line sh = l @ r @ NUL # junk" "sh_cursor sh = length l" "sh_end sh = length l + length r"
    "list_all plain (l @ r)" by (auto simp: text_at_def)
  let ?s = "format_left l @ format_right l r"
  have f: "format_loop (sh_cursor sh) 0 0 (take (sh_end sh) (command_line sh)) = (?s, length (format_left l))"
    using format_loop_spec [of 0 l 0 r] t by (simp add: format_parts format_left_def)
  have len: "length ?s \<le> length l + length r" using length_squeeze [of 0 0 "l @ r"] by (simp add: format_parts)
  have "list_all plain ?s" using squeeze_plain [OF t(4), of 0 0] by (simp add: format_parts)
  moreover have "replicate (sh_size sh - length ?s) NUL = NUL # replicate (sh_size sh - length ?s - 1) NUL"
    using len t(1) by (cases "sh_size sh - length ?s") (auto simp: sh_size_def)
  ultimately show thesis using that f by (simp add: shell_format2_def text_at_def)
qed

lemma shell_format_edits:
  assumes e: "edits l r sh"
  shows "edits (format_left l) (format_right l r) (shell_format sh) \<and> same sh (shell_format sh) \<and> cut_buffer (shell_format sh) = cut_buffer sh"
proof -
  let ?l = "format_left l" and ?r = "format_right l r"
  define sh2 where "sh2 = shell_format2 sh"
  from e have w: "ready sh" and t: "text_at l r sh" by (simp_all add: edits_def)
  from format2_text [OF t, folded sh2_def] obtain buf where
    f: "sh2 = sh\<lparr>command_line := buf, sh_cursor := length ?l, sh_end := length ?l + length ?r\<rparr>" "text_at ?l ?r sh2" by blast
  then obtain junk where c: "command_line sh2 = [] @ (?l @ ?r) @ NUL # junk" "list_all plain (?l @ ?r)" by (auto simp: text_at_def)
  have lf: "line_from 0 sh2 = ?l @ ?r" using line_from_text [OF c(1)] c(2) by simp
  have same2: "same sh sh2" "screen sh2 = screen sh" "cut_buffer sh2 = cut_buffer sh" "sh_cursor sh2 = length ?l"
    "sh_end sh2 = length ?l + length ?r" unfolding f(1) by (simp_all add: same_def screen_def)
  have cu: "sh_cursor sh = length l" "sh_end sh = length l + length r" using t by (simp_all add: text_at_def)
  have len: "length ?l + length ?r \<le> length l + length r" using length_squeeze [of 0 0 "l @ r"] by (simp add: format_parts)
  define sp where "sp = length l + length r - (length ?l + length ?r)"
  define n where "n = length l + length r - length ?l"
  define sh1 where "sh1 = writec_times CTRL_H (length l) sh2"
  have fm: "shell_format sh = writec_times CTRL_H n (write_out (replicate sp (CHR '' '')) (write_out (?l @ ?r) sh1))"
    using w by (simp add: shell_format_def Let_def sh2_def [symmetric] same2 cu lf sh1_def n_def sp_def ready_def)
      (simp add: writec_times_def)
  have join: "write_out b (write_out a s) = write_out (a @ b) s" for a b and s :: "'a shell" by (simp add: write_out_def)
  from e obtain k where k: "screen sh = (sh_prompt sh @ l @ r @ replicate k (CHR '' ''), length (sh_prompt sh) + length l)"
    by (auto simp: edits_def shown_def)
  have w1: "writefd_ok sh1" "sh_prompt sh1 = sh_prompt sh" using w same2(1) by (simp_all add: sh1_def writec_times_def ready_def same_def)
  have s1: "screen sh1 = (sh_prompt sh @ l @ r @ replicate k (CHR '' ''), length (sh_prompt sh))"
    unfolding sh1_def using screen_back [of sh2 _ _ "length l"] k same2 w by (simp add: ready_def same_def)
  have pl: "list_all plain ((?l @ ?r) @ replicate sp (CHR '' ''))" using c(2) by (auto simp: list_all_iff)
  have "screen (shell_format sh) = (overwrite (length (sh_prompt sh)) ((?l @ ?r) @ replicate sp (CHR '' '')) (sh_prompt sh @ l @ r @ replicate k (CHR '' '')),
      length (sh_prompt sh) + length ((?l @ ?r) @ replicate sp (CHR '' '')) - n)"
    unfolding fm join using screen_put_back [OF s1 w1(1) pl] by simp
  moreover have "length (sh_prompt sh) + length ((?l @ ?r) @ replicate sp (CHR '' '')) - n = length (sh_prompt sh) + length ?l"
    using len by (simp add: n_def sp_def)
  moreover have "overwrite (length (sh_prompt sh)) ((?l @ ?r) @ replicate sp (CHR '' '')) (sh_prompt sh @ l @ r @ replicate k (CHR '' ''))
      = sh_prompt sh @ ?l @ ?r @ replicate (sp + k) (CHR '' '')"
    using len by (simp add: overwrite_def sp_def replicate_add [symmetric])
  moreover have fields: "same sh (shell_format sh)" "cut_buffer (shell_format sh) = cut_buffer sh" "text_at ?l ?r (shell_format sh)"
    using same2 f(2) unfolding fm sh1_def by (simp_all add: writec_times_def same_def write_out_def text_at_def)
  ultimately show ?thesis using ready_same [OF fields(1) w] by (auto simp: edits_def shown_def same_def)
qed

section \<open>Words\<close>

text \<open>
  A text before the cursor, without the word it ends in, and without its last word and the
  delimiters behind that.
\<close>

definition drop_tail_word :: "string \<Rightarrow> string \<Rightarrow> string" where
  "drop_tail_word ds l = rev (dropWhile (\<lambda>c. c \<notin> set ds) (rev l))"

definition word_back :: "string \<Rightarrow> string \<Rightarrow> string" where
  "word_back ds l = rev (dropWhile (\<lambda>c. c \<notin> set ds) (dropWhile (\<lambda>c. c \<in> set ds) (rev l)))"

lemma strseps_delim:
  assumes "set a \<inter> set ds = {}" "c \<in> set ds"
  shows "strseps ds i (a @ c # s) = (i, a) # strseps ds (i + length a + 1) s"
proof -
  have "takeWhile (\<lambda>c. c \<notin> set ds) (a @ c # s) = a" using assms by (subst takeWhile_append2) auto
  then show ?thesis by (subst strseps.simps) simp
qed

lemma hd_strseps [simp]: "fst (hd (strseps ds i s)) = i" "strseps ds i s \<noteq> []"
  by (subst strseps.simps, simp add: Let_def)+

lemma strseps_word:
  assumes "set a \<inter> set ds = {}"
  shows "\<exists>toks. strseps ds i (a @ r) = (i, a @ takeWhile (\<lambda>c. c \<notin> set ds) r) # toks \<and> (toks = [] \<or> i + length a < fst (hd toks))"
proof -
  let ?w = "takeWhile (\<lambda>c. c \<notin> set ds) (a @ r)"
  have "?w = a @ takeWhile (\<lambda>c. c \<notin> set ds) r" using assms by (intro takeWhile_append2) auto
  then show ?thesis by (subst strseps.simps, cases "drop (length ?w) (a @ r)") (auto simp: Let_def)
qed

text \<open>A text has no delimiter, or it is what is before its first one and what is behind.\<close>

lemma first_delim:
  obtains "set l \<inter> set ds = {}" | a c l2 where "l = a @ c # l2" "set a \<inter> set ds = {}" "c \<in> set ds"
proof (cases "set l \<inter> set ds = {}")
  case False
  then obtain c where "c \<in> set l" "c \<in> set ds" by auto
  with split_list_first_prop [of l "\<lambda>c. c \<in> set ds"] that(2) show thesis by blast
qed (use that(1) in simp)

lemma drop_tail_simps:
  "set l \<inter> set ds = {} \<Longrightarrow> drop_tail_word ds l = []"
  "c \<in> set ds \<Longrightarrow> drop_tail_word ds (a @ c # l2) = a @ c # drop_tail_word ds l2"
  by (auto simp: drop_tail_word_def dropWhile_append)

lemma drop_tail_prefix: "\<exists>w. l = drop_tail_word ds l @ w"
  by (metis drop_tail_word_def rev_append rev_rev_ident takeWhile_dropWhile_id)

lemma find_word_spec:
  assumes "fst W \<le> i + length l"
  shows "case find_word (i + length l) W (strseps ds i (l @ r)) of
      (start, w) \<Rightarrow>
        if drop_tail_word ds l \<noteq> l then start = i + length (drop_tail_word ds l) \<and> i + length l \<le> start + length w
        else start = i + length l \<or> start + length w < i + length l \<or> (start, w) = W"
  using assms
proof (induction "length l" arbitrary: l i W rule: less_induct)
  case less
  show ?case
  proof (rule first_delim [of l ds])
    assume n: "set l \<inter> set ds = {}"
    from strseps_word [OF n, of i r] obtain toks where
      t: "strseps ds i (l @ r) = (i, l @ takeWhile (\<lambda>c. c \<notin> set ds) r) # toks" "toks = [] \<or> i + length l < fst (hd toks)" by blast
    have stop: "find_word (i + length l) V toks = V" if "fst V \<le> i + length l" for V
      using t(2) that by (cases toks) auto
    show ?thesis using t(1) stop [of W] stop [of "(i, l @ takeWhile (\<lambda>c. c \<notin> set ds) r)"] less.prems drop_tail_simps(1) [OF n]
      by (cases W) auto
  next
    fix a c l2
    assume l: "l = a @ c # l2" and a: "set a \<inter> set ds = {}" "c \<in> set ds"
    define V where "V = (if a \<noteq> [] then (i, a) else W)"
    have eq: "i + length l = i + length a + 1 + length l2" using l by simp
    have "fst V \<le> i + length a + 1 + length l2" using less.prems eq by (auto simp: V_def)
    from less.hyps [OF _ this] l have IH: "case find_word (i + length a + 1 + length l2) V (strseps ds (i + length a + 1) (l2 @ r)) of
      (start, w) \<Rightarrow> if drop_tail_word ds l2 \<noteq> l2 then start = i + length a + 1 + length (drop_tail_word ds l2) \<and> i + length a + 1 + length l2 \<le> start + length w
        else start = i + length a + 1 + length l2 \<or> start + length w < i + length a + 1 + length l2 \<or> (start, w) = V" by simp
    have "find_word (i + length l) W (strseps ds i (l @ r)) = find_word (i + length a + 1 + length l2) V (strseps ds (i + length a + 1) (l2 @ r))"
      using strseps_delim [OF a, of i "l2 @ r"] l by (simp add: V_def add_ac)
    moreover have "length (drop_tail_word ds l) = length a + 1 + length (drop_tail_word ds l2)"
        "drop_tail_word ds l \<noteq> l \<longleftrightarrow> drop_tail_word ds l2 \<noteq> l2"
      unfolding l drop_tail_simps(2) [OF a(2)] by simp_all
    ultimately show ?thesis using IH unfolding eq by (auto simp: V_def split: if_splits)
  qed
qed

lemma word_back_delim:
  "c \<in> set ds \<Longrightarrow> set a \<inter> set ds = {} \<Longrightarrow> set u \<inter> - set ds \<noteq> {} \<Longrightarrow> length (word_back ds (a @ c # u)) = length a + 1 + length (word_back ds u)"
proof -
  assume c: "c \<in> set ds" and u: "set u \<inter> - set ds \<noteq> {}"
  from u obtain x where x: "x \<in> set (rev u)" "x \<notin> set ds" by auto
  then have "dropWhile (\<lambda>c. c \<in> set ds) (rev u @ c # rev a) = dropWhile (\<lambda>c. c \<in> set ds) (rev u) @ c # rev a"
    by (intro dropWhile_append1) auto
  moreover have "dropWhile (\<lambda>c. c \<notin> set ds) (X @ c # rev a) = dropWhile (\<lambda>c. c \<notin> set ds) X @ c # rev a" for X
    using c dropWhile_append [of "\<lambda>c. c \<notin> set ds" X "c # rev a"] by (auto simp: dropWhile_eq_Nil_conv)
  ultimately show ?thesis by (simp add: word_back_def)
qed

lemma word_back_none:
  "c \<in> set ds \<Longrightarrow> set a \<inter> set ds = {} \<Longrightarrow> set u \<subseteq> set ds \<Longrightarrow> word_back ds (a @ c # u) = []"
proof -
  assume c: "c \<in> set ds" and a: "set a \<inter> set ds = {}" and u: "set u \<subseteq> set ds"
  then have "dropWhile (\<lambda>c. c \<in> set ds) (rev u @ c # rev a) = dropWhile (\<lambda>c. c \<in> set ds) (rev a)"
    by (subst dropWhile_append2) auto
  also have "\<dots> = rev a" using a by (cases "rev a") (auto dest: arg_cong [of _ _ set])
  finally show ?thesis using a by (auto simp: word_back_def)
qed

lemma prev_token_spec:
  "prev_token (i + length l) prev (strseps ds i (l @ r)) =
     (let u = drop_tail_word ds l in if set u \<inter> - set ds \<noteq> {} then i + length (word_back ds u) else prev)"
proof (induction "length l" arbitrary: l i prev rule: less_induct)
  case less
  show ?case
  proof (rule first_delim [of l ds])
    assume n: "set l \<inter> set ds = {}"
    from strseps_word [OF n, of i r] drop_tail_simps(1) [OF n] show ?thesis by (auto simp: on_token_def)
  next
    fix a c l2
    assume l: "l = a @ c # l2" and a: "set a \<inter> set ds = {}" "c \<in> set ds"
    let ?u = "drop_tail_word ds l2" and ?p = "if a \<noteq> [] then i else prev"
    have "prev_token (i + length l) prev (strseps ds i (l @ r)) = prev_token (i + length a + 1 + length l2) ?p (strseps ds (i + length a + 1) (l2 @ r))"
      using strseps_delim [OF a, of i "l2 @ r"] l by (simp add: on_token_def add_ac)
    also have "\<dots> = (if set ?u \<inter> - set ds \<noteq> {} then i + length a + 1 + length (word_back ds ?u) else ?p)"
      using less.hyps [of l2 "i + length a + 1" ?p] l by (simp add: Let_def)
    finally show ?thesis
      using l a word_back_delim [OF a(2,1), of ?u] word_back_none [OF a(2,1), of ?u]
        drop_tail_simps(2) [OF a(2), of a l2]
      by (cases a) (auto simp: Let_def)
  qed
qed

lemma word_back_tail:
  "drop_tail_word ds l \<noteq> l \<Longrightarrow> word_back ds l = drop_tail_word ds l"
  by (cases "rev l") (auto simp: word_back_def drop_tail_word_def)

lemma word_back_only_delims: "set l \<subseteq> set ds \<Longrightarrow> word_back ds l = []"
proof -
  assume "set l \<subseteq> set ds"
  then have "dropWhile (\<lambda>c. c \<in> set ds) (rev l) = []" by (auto simp: dropWhile_eq_Nil_conv)
  then show ?thesis unfolding word_back_def by (simp only: dropWhile.simps rev.simps)
qed

lemma word_back_prefix: "\<exists>w. l = word_back ds l @ w"
  unfolding word_back_def
  by (metis append.assoc rev_append rev_rev_ident takeWhile_dropWhile_id)

lemma backward_target_spec:
  assumes e: "edits l r sh"
  shows "backward_target sh = Some (length (word_back SHELL_WORD_DELIMITERS_SUB l))"
proof -
  let ?ds = SHELL_WORD_DELIMITERS_SUB
  note c = edits_cursor [OF e] and tm = edits_terminate [OF e] and ln = edits_line [OF e]
  obtain start w where fw: "find_word (length l) (hd (strseps ?ds 0 (l @ r))) (strseps ?ds 0 (l @ r)) = (start, w)" by fastforce
  have spec: "if drop_tail_word ?ds l \<noteq> l then start = length (drop_tail_word ?ds l) \<and> length l \<le> start + length w
        else start = length l \<or> start + length w < length l \<or> (start, w) = hd (strseps ?ds 0 (l @ r))"
    using find_word_spec [of "hd (strseps ?ds 0 (l @ r))" 0 l ?ds r] unfolding add_0 fw prod.case by simp
  have head: "shell_subword_head (sh_cursor sh) sh = Some (if start + length w < length l then length l else start)"
    using c fw tm ln by (simp add: shell_subword_head_def line_head_def word_at_def)
  show ?thesis
  proof (cases "drop_tail_word ?ds l = l")
    case False
    then have "length (drop_tail_word ?ds l) \<noteq> length l" using drop_tail_prefix [of l ?ds] by (metis append_eq_conv_conj take_all_iff order_refl)
    with False spec head c word_back_tail [of ?ds l] show ?thesis by (simp add: backward_target_def)
  next
    case True
    have "(if start + length w < length l then length l else start) = length l"
    proof (rule first_delim [of l ?ds])
      assume "set l \<inter> set ?ds = {}"
      with True drop_tail_simps(1) have "l = []" by metis
      with spec True show ?thesis by (auto simp: strseps.simps [of _ _ r] Let_def)
    next
      fix a d l2
      assume "l = a @ d # l2" "set a \<inter> set ?ds = {}" "d \<in> set ?ds"
      with spec True strseps_delim [of a ?ds d 0 "l2 @ r"] show ?thesis by auto
    qed
    with head c have h: "shell_subword_head (sh_cursor sh) sh = Some (sh_cursor sh)" by simp
    have "prev_token (length l) 0 (strseps ?ds 0 (l @ r)) = length (word_back ?ds l)"
      using prev_token_spec [of 0 l 0 ?ds r] True word_back_only_delims [of l ?ds] by (auto simp: Let_def)
    with h c tm ln show ?thesis by (simp add: backward_target_def shell_subword_prev_head_def line_prev_head_def)
  qed
qed

section \<open>The abstract editor\<close>

record 'f ed =
  ed_left :: string
  ed_right :: string
  ed_cut :: "string option"
  ed_keymap :: keymap_id
  ed_escape :: bool
  ed_hist :: "hist option"
  ed_commands :: "'f cmd_node"
  ed_prompt :: string

definition recall_prev :: "hist \<Rightarrow> (string \<times> hist) option" where
  "recall_prev h =
     (if h_current h = HISTORY_NEXT (HISTORY_NEXT (h_last h)) then None
      else map_option (\<lambda>s. (s, h\<lparr>h_current := HISTORY_PREV (h_current h)\<rparr>)) (h_array h ! HISTORY_PREV (h_current h)))"

definition recall_next :: "hist \<Rightarrow> (string \<times> hist) option" where
  "recall_next h =
     (let nx = HISTORY_NEXT (h_current h)
      in if h_current h = HISTORY_NEXT (h_last h) then None
         else if nx = HISTORY_NEXT (h_last h) then Some ([], h\<lparr>h_current := nx\<rparr>)
         else map_option (\<lambda>s. (s, h\<lparr>h_current := nx\<rparr>)) (h_array h ! nx))"

definition ed_recall :: "(hist \<Rightarrow> (string \<times> hist) option) \<Rightarrow> 'f ed \<Rightarrow> 'f ed" where
  "ed_recall f e =
     (case Option.bind (ed_hist e) f of
        None \<Rightarrow> e
      | Some (s, h) \<Rightarrow> e\<lparr>ed_left := s, ed_right := [], ed_hist := Some h\<rparr>)"

definition ed_back_word :: "'f ed \<Rightarrow> string" where
  "ed_back_word e = word_back SHELL_WORD_DELIMITERS_SUB (ed_left e)"

definition ed_cut_word :: "'f ed \<Rightarrow> 'f ed" where
  "ed_cut_word e =
     (let d = drop (length (ed_back_word e)) (ed_left e)
      in e\<lparr>ed_left := ed_back_word e, ed_cut := (if d = [] then None else Some d)\<rparr>)"

definition ed_to :: "nat \<Rightarrow> 'f ed \<Rightarrow> 'f ed" where
  "ed_to n e = e\<lparr>ed_left := take n (ed_left e @ ed_right e), ed_right := drop n (ed_left e @ ed_right e)\<rparr>"

definition ed_next_word :: "'f ed \<Rightarrow> nat" where
  "ed_next_word e =
     (case next_token (length (ed_left e)) (strseps SHELL_WORD_DELIMITERS 0 (ed_left e @ ed_right e)) of
        None \<Rightarrow> length (ed_left e @ ed_right e)
      | Some head \<Rightarrow> head)"

definition ed_format :: "'f ed \<Rightarrow> 'f ed" where
  "ed_format e = e\<lparr>ed_left := format_left (ed_left e), ed_right := format_right (ed_left e) (ed_right e)\<rparr>"

definition ed_kill :: "string \<Rightarrow> 'f ed \<Rightarrow> 'f ed" where
  "ed_kill s e = e\<lparr>ed_right := [], ed_cut := (if s = [] then None else Some s)\<rparr>"

definition ed_normal :: "'f ed \<Rightarrow> 'f ed" where "ed_normal e = e\<lparr>ed_keymap := Keymap_Normal\<rparr>"

definition ed_left_1 :: "'f ed \<Rightarrow> 'f ed" where "ed_left_1 e = ed_to (length (ed_left e) - 1) e"
definition ed_right_1 :: "'f ed \<Rightarrow> 'f ed" where "ed_right_1 e = ed_to (length (ed_left e) + 1) e"

text \<open>Enter runs the text without its comment and its unnecessary spaces, and starts a new line.\<close>

definition command_part :: "'f ed \<Rightarrow> string" where
  "command_part e = takeWhile (\<lambda>c. \<not> is_comment c) (ed_left e @ ed_right e)"

definition ed_execute :: "'f ed \<Rightarrow> 'f ed" where
  "ed_execute e =
     (let line = command_part e
      in e\<lparr>ed_left := [], ed_right := [],
           ed_hist := (if line = [] then ed_hist e else command_history_add (shell_format3 line) (ed_hist e))\<rparr>)"

fun ed_key :: "keyfunc \<Rightarrow> char \<Rightarrow> 'f ed \<Rightarrow> 'f ed" where
  "ed_key K_move_to_begin c e = ed_to 0 e"
| "ed_key K_move_to_end c e = ed_to (length (ed_left e @ ed_right e)) e"
| "ed_key K_forward_char c e = ed_right_1 e"
| "ed_key K_backward_char c e = ed_left_1 e"
| "ed_key K_delete_char c e = e\<lparr>ed_right := tl (ed_right e)\<rparr>"
| "ed_key K_delete_char_advanced c e =
     (if ed_right e = [] then e\<lparr>ed_left := butlast (ed_left e)\<rparr> else e\<lparr>ed_right := tl (ed_right e)\<rparr>)"
| "ed_key K_backspace c e =
     (if ed_left e = [] then e else if ed_escape e then ed_cut_word e else e\<lparr>ed_left := butlast (ed_left e)\<rparr>)"
| "ed_key K_kill_line c e = ed_kill (ed_right e) e"
| "ed_key K_kill_all c e = (ed_kill (ed_left e @ ed_right e) e)\<lparr>ed_left := []\<rparr>"
| "ed_key K_yank c e = (case ed_cut e of None \<Rightarrow> e | Some s \<Rightarrow> e\<lparr>ed_left := ed_left e @ s\<rparr>)"
| "ed_key K_clear_screen c e = ed_format e"
| "ed_key K_refresh c e = ed_format e"
| "ed_key K_empty_enter c e = e\<lparr>ed_left := [], ed_right := []\<rparr>"
| "ed_key K_insert_tab c e = e\<lparr>ed_left := ed_left e @ ''<tab>''\<rparr>"
| "ed_key K_escape c e = e\<lparr>ed_escape := True\<rparr>"
| "ed_key K_delete_word_backward c e = ed_cut_word e"
| "ed_key K_input_char c e = e\<lparr>ed_left := ed_left e @ [c]\<rparr>"
| "ed_key K_history_prev c e = ed_recall recall_prev e"
| "ed_key K_history_next c e = ed_recall recall_next e"
| "ed_key V_normal c e = ed_normal e"
| "ed_key V_escape_1 c e = e\<lparr>ed_keymap := Keymap_Escape_1\<rparr>"
| "ed_key V_escape_2 c e = e\<lparr>ed_keymap := Keymap_Escape_2\<rparr>"
| "ed_key V_move_word_backward c e = ed_normal (ed_to (length (ed_back_word e)) e)"
| "ed_key V_move_word_forward c e = ed_normal (ed_to (ed_next_word e) e)"
| "ed_key V_delete_word_backward c e = ed_normal (ed_cut_word e)"
| "ed_key V_arrow_up c e = ed_normal (ed_recall recall_prev e)"
| "ed_key V_arrow_down c e = ed_normal (ed_recall recall_next e)"
| "ed_key V_arrow_left c e = ed_normal (ed_left_1 e)"
| "ed_key V_arrow_right c e = ed_normal (ed_right_1 e)"
| "ed_key K_execute c e = ed_execute e"
| "ed_key k c e = e"

definition ed_key_of :: "'f ed \<Rightarrow> char \<Rightarrow> keyfunc option" where
  "ed_key_of e c =
     (case ed_keymap e of
        Keymap_Normal \<Rightarrow> command_keymap c
      | Keymap_Escape_1 \<Rightarrow> Some (key_func_escape_1 c)
      | Keymap_Escape_2 \<Rightarrow> Some (key_func_escape_2 c)
      | _ \<Rightarrow> None)"

definition ed_input :: "char \<Rightarrow> 'f ed \<Rightarrow> 'f ed" where
  "ed_input c e =
     (let e' = (case ed_key_of e c of None \<Rightarrow> e | Some k \<Rightarrow> ed_key k c e)
      in if ed_escape e then e'\<lparr>ed_escape := False\<rparr> else e')"

section \<open>The shell implements it\<close>

definition hist_ok :: "hist \<Rightarrow> bool" where
  "hist_ok h \<longleftrightarrow> length (h_array h) = HISTORY_SIZE \<and> h_last h < HISTORY_SIZE \<and> h_current h < HISTORY_SIZE
     \<and> h_array h ! h_last h \<noteq> None \<and> h_array h ! HISTORY_NEXT (h_last h) = None \<and> (\<forall>s. Some s \<in> set (h_array h) \<longrightarrow> list_all plain s)"

definition editor_keymap :: "keymap_id \<Rightarrow> bool" where
  "editor_keymap k \<longleftrightarrow> k = Keymap_Normal \<or> k = Keymap_Escape_1 \<or> k = Keymap_Escape_2"

definition ed_sim :: "'f ed \<Rightarrow> 'f shell \<Rightarrow> bool" where
  "ed_sim e sh \<longleftrightarrow> edits (ed_left e) (ed_right e) sh \<and> cut_buffer sh = ed_cut e \<and> pred_option (list_all plain) (ed_cut e)
     \<and> sh_keymap sh = ed_keymap e \<and> fl_escape sh = ed_escape e \<and> sh_history sh = ed_hist e \<and> pred_option hist_ok (ed_hist e)
     \<and> (keymap_normal sh = command_keymap \<or> keymap_normal sh = vty_keymap) \<and> editor_keymap (ed_keymap e) \<and> cmdset sh = ed_commands e \<and> sh_prompt sh = ed_prompt e \<and> terminal_buf sh = []"

lemma HISTORY_less: "x < HISTORY_SIZE \<Longrightarrow> HISTORY_NEXT x < HISTORY_SIZE" "x < HISTORY_SIZE \<Longrightarrow> HISTORY_PREV x < HISTORY_SIZE"
  by (auto simp: HISTORY_NEXT_def HISTORY_PREV_def HISTORY_SIZE_def)

text \<open>The cases of the simulation: only the text changes, and the text and the cut buffer change.\<close>

lemma sim_text:
  "ed_sim e sh \<Longrightarrow> edits l r sh' \<Longrightarrow> same sh sh' \<Longrightarrow> cut_buffer sh' = cut_buffer sh \<Longrightarrow> ed_sim (e\<lparr>ed_left := l, ed_right := r\<rparr>) sh'"
  by (simp add: ed_sim_def same_def)

lemma sim_cut:
  "ed_sim e sh \<Longrightarrow> edits l r sh' \<Longrightarrow> same sh sh' \<Longrightarrow> cut_buffer sh' = c \<Longrightarrow> pred_option (list_all plain) c
   \<Longrightarrow> ed_sim (e\<lparr>ed_left := l, ed_right := r, ed_cut := c\<rparr>) sh'"
  by (simp add: ed_sim_def same_def)

lemma ed_update_same [simp]:
  "e\<lparr>ed_left := ed_left e, ed_right := r\<rparr> = e\<lparr>ed_right := r\<rparr>" "e\<lparr>ed_left := l, ed_right := ed_right e\<rparr> = e\<lparr>ed_left := l\<rparr>"
  by simp_all

lemma sim_moveto:
  assumes "ed_sim e sh" "n \<le> length (ed_left e @ ed_right e)"
  shows "\<exists>sh'. shell_moveto n sh = Some sh' \<and> ed_sim (ed_to n e) sh'"
proof -
  have e: "edits (ed_left e) (ed_right e) sh" using assms(1) by (simp add: ed_sim_def)
  let ?t = "ed_left e @ ed_right e"
  have "length (take n ?t) = n" "ed_left e @ ed_right e = take n ?t @ drop n ?t" using assms(2) by (auto simp only: length_take min_absorb2 append_take_drop_id)
  with shell_moveto_edits [OF e, of "take n ?t" "drop n ?t"] sim_text [OF assms(1)] show ?thesis unfolding ed_to_def by metis
qed

lemma sim_backward:
  assumes "ed_sim e sh" "n \<le> length (ed_left e)"
  shows "ed_sim (ed_to (length (ed_left e) - n) e) (shell_backward n sh)"
proof -
  let ?a = "take (length (ed_left e) - n) (ed_left e)" and ?d = "drop (length (ed_left e) - n) (ed_left e)"
  have "edits (?a @ ?d) (ed_right e) sh" using assms(1) by (simp add: ed_sim_def)
  moreover have "length ?d = n" using assms(2) by simp
  ultimately show ?thesis using shell_backward_edits [of ?a ?d "ed_right e" sh] assms by (auto simp: ed_to_def intro!: sim_text)
qed

lemma sim_forward:
  assumes "ed_sim e sh" "n \<le> length (ed_right e)"
  shows "ed_sim (ed_to (length (ed_left e) + n) e) (shell_forward n sh)"
proof -
  let ?d = "take n (ed_right e)" and ?b = "drop n (ed_right e)"
  have "edits (ed_left e) (?d @ ?b) sh" using assms(1) by (simp add: ed_sim_def)
  moreover have "length ?d = n" using assms(2) by simp
  ultimately show ?thesis using shell_forward_edits [of "ed_left e" ?d ?b sh] assms(1) by (auto simp: ed_to_def intro!: sim_text)
qed

lemma ed_to_same: "ed_to (length (ed_left e)) e = e"
  by (simp add: ed_to_def)

lemma sim_left_1: "ed_sim e sh \<Longrightarrow> ed_sim (ed_left_1 e) (shell_backward 1 sh)"
  using sim_backward [of e sh 1] ed_to_same [of e] edits_cursor [of "ed_left e" "ed_right e" sh]
  by (cases "ed_left e = []") (auto simp: ed_left_1_def shell_backward_def ed_sim_def Suc_le_eq)

lemma sim_right_1: "ed_sim e sh \<Longrightarrow> ed_sim (ed_right_1 e) (shell_forward 1 sh)"
  using sim_forward [of e sh 1] edits_cursor [of "ed_left e" "ed_right e" sh] sim_text [of e sh "ed_left e" "[]" sh]
  by (cases "ed_right e = []") (auto simp: ed_right_1_def shell_forward_def ed_sim_def ed_to_def Suc_le_eq)

lemma sim_insert:
  assumes "ed_sim e sh" "list_all plain s"
  shows "\<exists>sh'. shell_insert fresh s sh = Some sh' \<and> ed_sim (e\<lparr>ed_left := ed_left e @ s\<rparr>) sh'"
  using shell_insert_edits [of "ed_left e" "ed_right e" sh s fresh] assms sim_text [of e sh "ed_left e @ s" "ed_right e"]
  by (auto simp: ed_sim_def)

lemma sim_delete:
  assumes "ed_sim e sh" "ed_left e @ ed_right e = a @ d @ b" "length a \<le> length (ed_left e)"
  shows "\<exists>sh'. shell_delete_string (length a) (length a + length d) sh = Some sh' \<and> ed_sim (e\<lparr>ed_left := a, ed_right := b\<rparr>) sh'"
proof -
  have e: "edits (ed_left e) (ed_right e) sh" using assms(1) by (simp add: ed_sim_def)
  from shell_delete_edits [OF e assms(2,3)] sim_text [OF assms(1)] show ?thesis by blast
qed

lemma sim_shell_cut:
  assumes "ed_sim e sh" "ed_left e @ ed_right e = a @ d @ b" "length a \<le> length (ed_left e)" "d = [] \<Longrightarrow> a = ed_left e"
  shows "\<exists>sh'. shell_cut (length a) (length a + length d) sh = Some sh'
    \<and> ed_sim (e\<lparr>ed_left := a, ed_right := b, ed_cut := if d = [] then None else Some d\<rparr>) sh'"
proof -
  have e: "edits (ed_left e) (ed_right e) sh" using assms(1) by (simp add: ed_sim_def)
  have "list_all plain d" using edits_plain [OF e] assms(2) by (metis list_all_append)
  with shell_cut_edits [OF e assms(2,3,4)] sim_cut [OF assms(1)] show ?thesis by fastforce
qed

lemma ed_simD:
  "ed_sim e sh \<Longrightarrow> sh_cursor sh = length (ed_left e) \<and> sh_end sh = length (ed_left e) + length (ed_right e)
     \<and> shell_terminate sh = sh \<and> line_from 0 sh = ed_left e @ ed_right e \<and> edits (ed_left e) (ed_right e) sh"
  using edits_cursor edits_terminate edits_line by (auto simp: ed_sim_def)

lemma editor_keymap_simps [simp]:
  "editor_keymap Keymap_Normal" "editor_keymap Keymap_Escape_1" "editor_keymap Keymap_Escape_2"
  "\<not> editor_keymap Keymap_Iac_1" "\<not> editor_keymap Keymap_Iac_2" "\<not> editor_keymap Keymap_Subnego"
  by (simp_all add: editor_keymap_def)

text \<open>The functions of keys that are not editing.\<close>

abbreviation special_keys :: "keyfunc set" where
  "special_keys \<equiv> {K_completion, K_execute, K_ls_candidate, T_iac_start, T_telnet_opt, T_telnet_cmd, T_subnego, T_sb_start, T_sb_end}"

lemma sim_normal: "ed_sim e sh \<Longrightarrow> ed_sim (ed_normal e) (normal sh)"
  by (simp add: ed_sim_def ed_normal_def normal_def)

lemma word_back_split: "word_back ds l @ drop (length (word_back ds l)) l = l"
  using word_back_prefix [of l ds] by (metis append_eq_conv_conj)

lemma word_back_le: "length (word_back ds l) \<le> length l"
  using word_back_prefix [of l ds] by (metis length_append le_add1)

lemma sim_cut_word:
  assumes "ed_sim e sh"
  shows "\<exists>sh'. shell_delete_word_backward sh = Some sh' \<and> ed_sim (ed_cut_word e) sh'"
proof -
  note d = ed_simD [OF assms]
  define w x where "w = ed_back_word e" and "x = drop (length w) (ed_left e)"
  have t: "backward_target sh = Some (length w)" using backward_target_spec [of "ed_left e" "ed_right e" sh] d by (simp add: ed_back_word_def w_def)
  have s: "ed_left e = w @ x" using word_back_split [of SHELL_WORD_DELIMITERS_SUB "ed_left e"] by (simp add: w_def x_def ed_back_word_def)
  have c: "ed_cut_word e = e\<lparr>ed_left := w, ed_right := ed_right e, ed_cut := if x = [] then None else Some x\<rparr>"
    by (simp add: ed_cut_word_def Let_def w_def [symmetric] x_def [symmetric])
  from sim_shell_cut [OF assms, of w x "ed_right e"] s d t show ?thesis
    unfolding c by (simp add: shell_delete_word_backward_def)
qed

lemma sim_word_backward:
  assumes "ed_sim e sh"
  shows "\<exists>sh'. shell_move_word_backward sh = Some sh' \<and> ed_sim (ed_to (length (ed_back_word e)) e) sh'"
proof -
  note d = ed_simD [OF assms]
  have t: "backward_target sh = Some (length (ed_back_word e))" using backward_target_spec [of "ed_left e" "ed_right e" sh] d by (simp add: ed_back_word_def)
  have "length (ed_back_word e) \<le> length (ed_left e @ ed_right e)" using word_back_le [of _ "ed_left e"] by (simp add: ed_back_word_def trans_le_add1)
  from sim_moveto [OF assms this] t d show ?thesis by (simp add: shell_move_word_backward_def)
qed

lemma strseps_bound: "tok \<in> set (strseps ds i s) \<Longrightarrow> i \<le> fst tok \<and> fst tok + length (snd tok) \<le> i + length s"
proof (induction ds i s rule: strseps.induct)
  case (1 ds i s)
  let ?w = "takeWhile (\<lambda>c. c \<notin> set ds) s"
  have lw: "length ?w \<le> length s" by (simp add: length_takeWhile_le)
  have unf: "strseps ds i s = (i, ?w) # (case drop (length ?w) s of [] \<Rightarrow> [] | c # s \<Rightarrow> strseps ds (i + length ?w + 1) s)"
    by (subst strseps.simps) (simp add: Let_def)
  from 1(2) consider "tok = (i, ?w)" | c s' where "drop (length ?w) s = c # s'" "tok \<in> set (strseps ds (i + length ?w + 1) s')"
    unfolding unf by (cases "drop (length ?w) s") auto
  then show ?case
  proof cases
    case 1
    with lw show ?thesis by simp
  next
    case 2
    from arg_cong [OF 2(1), of length] have "length s = length ?w + Suc (length s')" using lw by simp
    with 1(1) [OF refl 2(1,2)] show ?thesis by simp
  qed
qed

lemma next_token_in: "next_token p toks = Some n \<Longrightarrow> \<exists>tok \<in> set toks. n = fst tok"
  by (induction p toks rule: next_token.induct) (auto split: if_splits list.splits)

lemma ed_next_word_le: "ed_next_word e \<le> length (ed_left e @ ed_right e)"
  using next_token_in [of "length (ed_left e)" "strseps SHELL_WORD_DELIMITERS 0 (ed_left e @ ed_right e)"]
    strseps_bound [of _ SHELL_WORD_DELIMITERS 0 "ed_left e @ ed_right e"]
  by (fastforce simp: ed_next_word_def split: option.splits)

lemma sim_word_forward:
  assumes "ed_sim e sh"
  shows "\<exists>sh'. shell_move_word_forward sh = Some sh' \<and> ed_sim (ed_to (ed_next_word e) e) sh'"
proof -
  note d = ed_simD [OF assms]
  then have "shell_word_next_head (sh_cursor sh) sh = Some (ed_next_word e)"
    by (simp add: shell_word_next_head_def ed_next_word_def split: option.split)
  with sim_moveto [OF assms ed_next_word_le] d show ?thesis by (simp add: shell_move_word_forward_def)
qed

lemma sim_show_entry:
  assumes "ed_sim e sh" "list_all plain s"
  shows "\<exists>sh'. show_entry fresh s sh = Some sh' \<and> ed_sim (e\<lparr>ed_left := s, ed_right := []\<rparr>) sh'"
proof -
  note d = ed_simD [OF assms(1)]
  from sim_delete [OF assms(1), of "[]" "ed_left e @ ed_right e" "[]"] obtain sh1 where
    "shell_delete_string 0 (sh_end sh) sh = Some sh1" "ed_sim (e\<lparr>ed_left := [], ed_right := []\<rparr>) sh1" using d by auto
  moreover from sim_insert [OF this(2) assms(2), of fresh] obtain sh2 where
    i: "shell_insert fresh s sh1 = Some sh2" "ed_sim (e\<lparr>ed_left := [], ed_right := []\<rparr>\<lparr>ed_left := s\<rparr>) sh2" by auto
  moreover have "e\<lparr>ed_left := [], ed_right := []\<rparr>\<lparr>ed_left := s\<rparr> = e\<lparr>ed_left := s, ed_right := []\<rparr>" by (cases e) simp
  ultimately show ?thesis by (simp add: show_entry_def del: ed.update_convs)
qed

lemma sim_hist:
  "ed_sim e sh \<Longrightarrow> hist_ok h \<Longrightarrow> ed_sim (e\<lparr>ed_hist := Some h\<rparr>) (sh\<lparr>sh_history := Some h\<rparr>)"
  by (simp add: ed_sim_def)

lemma hist_okD: "hist_ok h \<Longrightarrow> i < HISTORY_SIZE \<Longrightarrow> h_array h ! i = Some s \<Longrightarrow> list_all plain s"
  by (metis hist_ok_def nth_mem)

lemma hist_ok_current: "hist_ok h \<Longrightarrow> n < HISTORY_SIZE \<Longrightarrow> hist_ok (h\<lparr>h_current := n\<rparr>)"
  by (simp add: hist_ok_def)

lemma ed_hist_same [simp]: "e\<lparr>ed_left := l, ed_right := r, ed_hist := ed_hist e\<rparr> = e\<lparr>ed_left := l, ed_right := r\<rparr>"
  by simp

lemma sim_history_prev:
  assumes "ed_sim e sh"
  shows "\<exists>sh'. command_history_prev fresh sh = Some sh' \<and> ed_sim (ed_recall recall_prev e) sh'"
proof (cases "ed_hist e")
  case None
  with assms show ?thesis by (simp add: ed_sim_def command_history_prev_def ed_recall_def)
next
  case (Some h)
  with assms have h: "sh_history sh = Some h" "hist_ok h" by (auto simp: ed_sim_def)
  define p where "p = HISTORY_PREV (h_current h)"
  have p: "p < HISTORY_SIZE" using h(2) HISTORY_less(2) by (simp add: p_def hist_ok_def)
  show ?thesis
  proof (cases "h_current h = HISTORY_NEXT (HISTORY_NEXT (h_last h)) \<or> h_array h ! p = None")
    case True
    with h Some assms show ?thesis by (auto simp: command_history_prev_def ed_recall_def recall_prev_def p_def [symmetric])
  next
    case False
    then obtain s where s: "h_array h ! p = Some s" "h_current h \<noteq> HISTORY_NEXT (HISTORY_NEXT (h_last h))" by auto
    from sim_show_entry [OF assms hist_okD [OF h(2) p s(1)], of fresh] obtain sh1 where
      "show_entry fresh s sh = Some sh1" "ed_sim (e\<lparr>ed_left := s, ed_right := []\<rparr>) sh1" by blast
    with sim_hist [OF this(2) hist_ok_current [OF h(2) p]] h s Some show ?thesis
      by (simp add: command_history_prev_def ed_recall_def recall_prev_def p_def [symmetric])
  qed
qed

lemma sim_history_next:
  assumes "ed_sim e sh"
  shows "\<exists>sh'. command_history_next fresh sh = Some sh' \<and> ed_sim (ed_recall recall_next e) sh'"
proof (cases "ed_hist e")
  case None
  with assms show ?thesis by (simp add: ed_sim_def command_history_next_def ed_recall_def)
next
  case (Some h)
  with assms have h: "sh_history sh = Some h" "hist_ok h" by (auto simp: ed_sim_def)
  define n where "n = HISTORY_NEXT (h_current h)"
  have n: "n < HISTORY_SIZE" using h(2) HISTORY_less(1) by (simp add: n_def hist_ok_def)
  note defs = command_history_next_def ed_recall_def recall_next_def n_def [symmetric] Let_def
  consider "h_current h = HISTORY_NEXT (h_last h)" | "h_current h \<noteq> HISTORY_NEXT (h_last h)" "n = HISTORY_NEXT (h_last h)"
    | "h_current h \<noteq> HISTORY_NEXT (h_last h)" "n \<noteq> HISTORY_NEXT (h_last h)" "h_array h ! n = None"
    | s where "h_current h \<noteq> HISTORY_NEXT (h_last h)" "n \<noteq> HISTORY_NEXT (h_last h)" "h_array h ! n = Some s" by fastforce
  then show ?thesis
  proof cases
    case 2
    then have "h_array h ! n = None" using h(2) by (simp add: hist_ok_def)
    moreover from sim_delete [OF assms, of "[]" "ed_left e @ ed_right e" "[]"] obtain sh1 where
      d: "shell_delete_string 0 (sh_end sh) sh = Some sh1" "ed_sim (e\<lparr>ed_left := [], ed_right := []\<rparr>) sh1" using ed_simD [OF assms] by auto
    ultimately show ?thesis using sim_hist [OF d(2) hist_ok_current [OF h(2) n]] h 2 Some by (simp add: defs)
  next
    case 4
    from sim_show_entry [OF assms hist_okD [OF h(2) n 4(3)], of fresh] obtain sh1 where
      "show_entry fresh s sh = Some sh1" "ed_sim (e\<lparr>ed_left := s, ed_right := []\<rparr>) sh1" by blast
    with sim_hist [OF this(2) hist_ok_current [OF h(2) n]] h 4 Some show ?thesis by (simp add: defs)
  qed (use h Some assms in \<open>auto simp: defs\<close>)
qed

lemma sim_printf: "ed_sim e sh \<Longrightarrow> edits (ed_left e) (ed_right e) (term_printf ts sh)"
  by (simp add: ed_sim_def term_printf_def)

text \<open>A new row, blank from the column on, in which the prompt and the text are written again.\<close>

lemma edits_screen: "edits l r sh \<Longrightarrow> \<exists>k. screen sh = (sh_prompt sh @ l @ r @ replicate k (CHR '' ''), length (sh_prompt sh) + length l)"
  by (simp add: edits_def shown_def)

lemma term_newline:
  "ready sh \<Longrightarrow> \<exists>n k. fold term_step (map Ch (sh_NL sh)) (row, col) = (replicate n (CHR '' ''), k)"
  by (auto simp: ready_def CTRL_H_def)

lemma blank_replicate [simp]: "blank_from n (replicate k (CHR '' ''))"
  by (auto simp: blank_from_def)

lemma blank_Nil [simp]: "blank_from n []"
  by (auto simp: blank_from_def)

lemma sim_same_flushed:
  "ed_sim e sh \<Longrightarrow> edits l r sh' \<Longrightarrow> same (sh\<lparr>terminal_buf := []\<rparr>) sh' \<Longrightarrow> cut_buffer sh' = cut_buffer sh \<Longrightarrow> ed_sim (e\<lparr>ed_left := l, ed_right := r\<rparr>) sh'"
  by (simp add: ed_sim_def same_def)

lemma refresh_after:
  assumes e: "edits l r sh" and ts: "\<And>s. \<exists>k c. fold term_step (terminal_buf sh) s = (replicate k (CHR '' ''), c)"
  shows "edits l r (shell_refresh sh) \<and> same (sh\<lparr>terminal_buf := []\<rparr>) (shell_refresh sh) \<and> cut_buffer (shell_refresh sh) = cut_buffer sh"
proof -
  obtain k c where "fold term_step (terminal_buf sh) (screen sh) = (replicate k (CHR '' ''), c)" using ts by blast
  with e shell_refresh_edits [of l r sh] show ?thesis by (auto simp: edits_def)
qed

lemma sim_refresh:
  assumes "ed_sim e sh"
  shows "ed_sim (ed_format e) (shell_keyfunc_refresh sh)"
proof -
  note d = ed_simD [OF assms]
  let ?l = "format_left (ed_left e)" and ?r = "format_right (ed_left e) (ed_right e)"
  have f: "edits ?l ?r (shell_format sh)" "same sh (shell_format sh)" "cut_buffer (shell_format sh) = cut_buffer sh"
    using shell_format_edits [of "ed_left e" "ed_right e" sh] d by auto
  define sh1 where "sh1 = shell_linefeed (shell_format sh)"
  have e1: "edits ?l ?r sh1" "terminal_buf sh1 = map Ch (sh_NL sh1)" "same (sh\<lparr>terminal_buf := []\<rparr>) (sh1\<lparr>terminal_buf := []\<rparr>)" "cut_buffer sh1 = cut_buffer sh"
    using f assms by (simp_all add: sh1_def shell_linefeed_def term_printf_def same_def ed_sim_def)
  have "\<exists>k c. fold term_step (terminal_buf sh1) s = (replicate k (CHR '' ''), c)" for s
    using term_newline [of sh1 "fst s" "snd s"] e1(1,2) by (auto simp: edits_def)
  from refresh_after [OF e1(1) this] e1(3,4) sim_same_flushed [OF assms, of ?l ?r "shell_refresh sh1"] same_trans show ?thesis
    by (auto simp: shell_keyfunc_refresh_def sh1_def ed_format_def)
qed

lemma clear_refresh:
  assumes "edits l r sh" "terminal_buf sh = [Clear_Screen]"
  shows "edits l r (shell_refresh sh) \<and> same (sh\<lparr>terminal_buf := []\<rparr>) (shell_refresh sh) \<and> cut_buffer (shell_refresh sh) = cut_buffer sh"
proof (rule refresh_after [OF assms(1)])
  fix s
  have "fold term_step (terminal_buf sh) s = (replicate 0 (CHR '' ''), 0)" by (simp add: assms(2))
  then show "\<exists>k c. fold term_step (terminal_buf sh) s = (replicate k (CHR '' ''), c)" by blast
qed

lemma sim_clear_screen:
  assumes "ed_sim e sh"
  shows "ed_sim (ed_format e) (shell_keyfunc_clear_screen sh)"
proof -
  define sh0 where "sh0 = term_printf [Clear_Screen] sh"
  let ?l = "format_left (ed_left e)" and ?r = "format_right (ed_left e) (ed_right e)"
  have e0: "edits (ed_left e) (ed_right e) sh0" using sim_printf [OF assms] by (simp add: sh0_def)
  note f = shell_format_edits [OF e0]
  have tb: "terminal_buf (shell_format sh0) = [Clear_Screen]" using f assms by (simp add: same_def sh0_def term_printf_def ed_sim_def)
  have "same (sh\<lparr>terminal_buf := []\<rparr>) ((shell_format sh0)\<lparr>terminal_buf := []\<rparr>)" "cut_buffer (shell_format sh0) = cut_buffer sh"
    using f by (simp_all add: same_def sh0_def term_printf_def)
  with clear_refresh [of ?l ?r "shell_format sh0"] f tb same_trans sim_same_flushed [OF assms, of ?l ?r "shell_refresh (shell_format sh0)"]
  show ?thesis by (auto simp: shell_keyfunc_clear_screen_def sh0_def ed_format_def)
qed

lemma sim_clear_terminal:
  assumes "ed_sim e sh"
  shows "ed_sim e (shell_keyfunc_clear_terminal sh)"
proof -
  note d = ed_simD [OF assms]
  let ?sh = "term_flush (term_printf [Clear_Screen] sh)"
  have tx: "text_at (ed_left e) (ed_right e) ?sh" "ready ?sh" using d by (auto simp: edits_def text_at_def ready_def term_flush_def term_printf_def)
  have tb: "terminal_buf ?sh = []" "screen ?sh = ([], 0)"
    using assms by (simp_all add: ed_sim_def term_printf_def screen_def term_flush_def)
  have s: "same (sh\<lparr>terminal_buf := []\<rparr>) (?sh\<lparr>terminal_buf := []\<rparr>)" "cut_buffer ?sh = cut_buffer sh"
    by (simp_all add: same_def term_flush_def term_printf_def)
  from shell_refresh_edits [OF tx, of "[]" 0] tb s same_trans sim_same_flushed [OF assms, of "ed_left e" "ed_right e" "shell_refresh ?sh"]
  show ?thesis by (auto simp: shell_keyfunc_clear_terminal_def)
qed

lemma prompt_again:
  assumes w: "ready sh" and b: "\<exists>k c. fold term_step (terminal_buf sh) (screen sh) = (replicate k (CHR '' ''), c)"
    and t: "command_line sh \<noteq> []"
  defines "sh' \<equiv> shell_prompt (shell_clear sh)"
  shows "edits [] [] sh' \<and> same (sh\<lparr>terminal_buf := []\<rparr>) sh' \<and> cut_buffer sh' = cut_buffer sh"
proof -
  let ?sh = "shell_clear sh"
  have c: "sh_output ?sh = sh_output sh" "same sh ?sh" "cut_buffer ?sh = cut_buffer sh" "sh_cursor ?sh = 0" "sh_end ?sh = 0"
    by (simp_all add: shell_clear_def shell_terminate_def same_def)
  obtain x xs where "command_line sh = x # xs" using t by (cases "command_line sh") auto
  then have tx: "text_at [] [] ?sh" using c by (simp add: text_at_def shell_clear_def shell_terminate_def sh_size_def)
  have tb: "terminal_buf ?sh = terminal_buf sh" using c(2) by (simp add: same_def)
  obtain k col where kc: "fold term_step (terminal_buf ?sh) (screen ?sh) = (replicate k (CHR '' ''), col)" using b tb c(1) by (auto simp: screen_def)
  note p = shell_prompt_screen [OF ready_same [OF c(2) w] kc, folded sh'_def]
  have "shown [] [] sh'" using p(1,2) by (auto simp: shown_def)
  moreover have "text_at [] [] sh'" using tx p by (simp add: text_at_def)
  ultimately show ?thesis using p(4,8,9) c by (simp add: edits_def same_def)
qed

lemma edits_buffer: "edits l r sh \<Longrightarrow> command_line sh \<noteq> []"
  by (auto simp: edits_def text_at_def)

lemma sim_empty_enter:
  assumes "ed_sim e sh"
  shows "ed_sim (e\<lparr>ed_left := [], ed_right := []\<rparr>) (shell_keyfunc_empty_enter sh)"
proof -
  note d = ed_simD [OF assms]
  define sh1 where "sh1 = shell_linefeed sh"
  have s: "ready sh1" "terminal_buf sh1 = map Ch (sh_NL sh1)" "same (sh\<lparr>terminal_buf := []\<rparr>) (sh1\<lparr>terminal_buf := []\<rparr>)" "cut_buffer sh1 = cut_buffer sh"
      "command_line sh1 \<noteq> []"
    using d edits_buffer [of _ _ sh] assms by (auto simp: sh1_def shell_linefeed_def term_printf_def same_def edits_def ready_def ed_sim_def)
  have "\<exists>k c. fold term_step (terminal_buf sh1) (screen sh1) = (replicate k (CHR '' ''), c)"
    using term_newline [OF s(1), of "fst (screen sh1)" "snd (screen sh1)"] s(2) by auto
  from prompt_again [OF s(1) this s(5)] have p: "edits [] [] (shell_prompt (shell_clear sh1))"
    "same (sh1\<lparr>terminal_buf := []\<rparr>) (shell_prompt (shell_clear sh1))" "cut_buffer (shell_prompt (shell_clear sh1)) = cut_buffer sh1" by auto
  then have "terminal_buf (shell_prompt (shell_clear sh1)) = []" by (simp add: same_def)
  then have "shell_keyfunc_empty_enter sh = shell_prompt (shell_clear sh1)"
    by (simp add: shell_keyfunc_empty_enter_def term_flush_def sh1_def)
  with p s same_trans sim_same_flushed [OF assms, of "[]" "[]" "shell_prompt (shell_clear sh1)"] show ?thesis by auto
qed

lemma sim_normal_Some: "\<exists>sh'. f = Some sh' \<and> ed_sim e sh' \<Longrightarrow> \<exists>sh'. map_option normal f = Some sh' \<and> ed_sim (ed_normal e) sh'"
  using sim_normal by auto

lemma ed_right_Nil: "ed_right e = [] \<Longrightarrow> e\<lparr>ed_right := []\<rparr> = e" "ed_right e = [] \<Longrightarrow> e\<lparr>ed_left := l, ed_right := []\<rparr> = e\<lparr>ed_left := l\<rparr>"
  by (cases e; simp)+

lemma ed_left_Nil: "ed_left e = [] \<Longrightarrow> e\<lparr>ed_left := []\<rparr> = e"
  by (cases e) simp

lemma sim_delete_right:
  assumes "ed_sim e sh" "ed_right e \<noteq> []"
  shows "\<exists>sh'. shell_delete_string (length (ed_left e)) (length (ed_left e) + 1) sh = Some sh' \<and> ed_sim (e\<lparr>ed_right := tl (ed_right e)\<rparr>) sh'"
proof -
  obtain c r where "ed_right e = c # r" using assms(2) by (cases "ed_right e") auto
  with sim_delete [OF assms(1), of "ed_left e" "[c]" r] show ?thesis by auto
qed

lemma sim_delete_last:
  assumes "ed_sim e sh" "ed_right e = []" "ed_left e \<noteq> []"
  shows "\<exists>sh'. shell_delete_string (sh_end sh - 1) (sh_end sh) sh = Some sh' \<and> ed_sim (e\<lparr>ed_left := butlast (ed_left e)\<rparr>) sh'"
proof -
  obtain l c where "ed_left e = l @ [c]" using assms(3) by (cases "ed_left e" rule: rev_cases) auto
  with sim_delete [OF assms(1), of l "[c]" "[]"] ed_simD [OF assms(1)] assms(2) ed_right_Nil(2) [OF assms(2), of l] show ?thesis by auto
qed

lemma sim_backspace:
  assumes "ed_sim e sh"
  shows "\<exists>sh'. shell_keyfunc_backspace sh = Some sh' \<and> ed_sim (ed_key K_backspace c e) sh'"
proof -
  note d = ed_simD [OF assms]
  have esc: "fl_escape sh = ed_escape e" using assms by (simp add: ed_sim_def)
  consider "ed_left e = []" | "ed_left e \<noteq> []" "ed_escape e" | l x where "ed_left e = l @ [x]" "\<not> ed_escape e"
    by (cases "ed_left e" rule: rev_cases) auto
  then show ?thesis
  proof cases
    case 1
    with d assms show ?thesis by (simp add: shell_keyfunc_backspace_def)
  next
    case 2
    with d esc sim_cut_word [OF assms] show ?thesis by (simp add: shell_keyfunc_backspace_def)
  next
    case 3
    define e1 where "e1 = ed_left_1 e"
    have s1: "ed_sim e1 (shell_backward 1 sh)" using sim_left_1 [OF assms] by (simp add: e1_def)
    have l1: "ed_left e1 = l" "ed_right e1 = x # ed_right e" and e1: "e1 = e\<lparr>ed_left := l, ed_right := x # ed_right e\<rparr>"
      using 3 by (simp_all add: e1_def ed_left_1_def ed_to_def)
    have "e1\<lparr>ed_right := ed_right e\<rparr> = e\<lparr>ed_left := l\<rparr>" unfolding e1 by (cases e) simp
    with sim_delete_right [OF s1] l1 3 d esc ed_simD [OF s1] show ?thesis by (auto simp: shell_keyfunc_backspace_def Let_def)
  qed
qed

lemma ed_kill_cut: "ed_kill s e = e\<lparr>ed_left := ed_left e, ed_right := [], ed_cut := if s = [] then None else Some s\<rparr>"
  by (simp add: ed_kill_def)

lemma sim_kill_line:
  assumes "ed_sim e sh"
  shows "\<exists>sh'. shell_cut (sh_cursor sh) (sh_end sh) sh = Some sh' \<and> ed_sim (ed_kill (ed_right e) e) sh'"
  using sim_shell_cut [OF assms, of "ed_left e" "ed_right e" "[]"] ed_simD [OF assms] by (simp add: ed_kill_cut)

lemma sim_kill_all:
  assumes "ed_sim e sh"
  shows "\<exists>sh'. shell_keyfunc_kill_all sh = Some sh' \<and> ed_sim ((ed_kill (ed_left e @ ed_right e) e)\<lparr>ed_left := []\<rparr>) sh'"
proof -
  let ?s = "ed_left e @ ed_right e"
  have s1: "ed_sim (ed_to 0 e) (shell_backward (sh_cursor sh) sh)" using sim_backward [OF assms, of "length (ed_left e)"] ed_simD [OF assms] by simp
  have "(ed_to 0 e)\<lparr>ed_left := [], ed_right := [], ed_cut := if ?s = [] then None else Some ?s\<rparr> = (ed_kill ?s e)\<lparr>ed_left := []\<rparr>"
    by (cases e) (simp add: ed_to_def ed_kill_def)
  with sim_shell_cut [OF s1, of "[]" ?s "[]"] ed_simD [OF s1] show ?thesis
    by (simp add: shell_keyfunc_kill_all_def Let_def ed_to_def)
qed

lemma sim_forward_end: "ed_sim e sh \<Longrightarrow> ed_sim (ed_to (length (ed_left e @ ed_right e)) e) (shell_forward (sh_end sh - sh_cursor sh) sh)"
  using sim_forward [of e sh "length (ed_right e)"] ed_simD [of e sh] by simp

lemma sim_backward_all: "ed_sim e sh \<Longrightarrow> ed_sim (ed_to 0 e) (shell_backward (sh_cursor sh) sh)"
  using sim_backward [of e sh "length (ed_left e)"] ed_simD [of e sh] by simp

lemma run_key_sim:
  assumes "ed_sim e sh" "k \<notin> special_keys" "inputch sh = c" "k = K_input_char \<Longrightarrow> plain c"
  shows "\<exists>sh'. run_key env k sh = Some sh' \<and> ed_sim (ed_key k c e) sh'"
proof (cases k)
  case K_delete_char
  with assms ed_simD [of e sh] sim_delete_right [of e sh] show ?thesis
    by (cases "ed_right e = []") (auto simp: shell_keyfunc_delete_char_def ed_right_Nil)
next
  case K_delete_char_advanced
  with assms ed_simD [of e sh] sim_delete_right [of e sh] sim_delete_last [of e sh] show ?thesis
    by (cases "ed_right e = []"; cases "ed_left e = []") (auto simp: shell_keyfunc_delete_char_advanced_def ed_left_Nil)
next
  case K_yank
  have "cut_buffer sh = ed_cut e" "pred_option (list_all plain) (ed_cut e)" using assms(1) by (simp_all add: ed_sim_def)
  with K_yank assms(1) sim_insert [OF assms(1), of _ "fresh_mem env"] show ?thesis by (auto simp: shell_keyfunc_yank_def split: option.splits)
next
  case K_insert_tab
  have "list_all plain ''<tab>''" by (simp add: plain_def NUL_def CTRL_H_def)
  with K_insert_tab sim_insert [OF assms(1)] show ?thesis by simp
next
  case K_input_char
  with sim_insert [OF assms(1), of "[c]"] assms(3,4) show ?thesis by simp
next
  case K_escape
  with assms(1) show ?thesis by (simp add: ed_sim_def)
next
  case V_escape_1
  with assms(1) show ?thesis by (simp add: ed_sim_def)
next
  case V_escape_2
  with assms(1) show ?thesis by (simp add: ed_sim_def)
next
  case K_move_to_end
  with sim_forward_end [OF assms(1)] show ?thesis by simp
next
  case V_move_word_backward
  with sim_normal_Some [OF sim_word_backward [OF assms(1)]] show ?thesis by auto
next
  case V_move_word_forward
  with sim_normal_Some [OF sim_word_forward [OF assms(1)]] show ?thesis by auto
next
  case V_delete_word_backward
  with sim_normal_Some [OF sim_cut_word [OF assms(1)]] show ?thesis by auto
next
  case V_arrow_up
  with sim_normal_Some [OF sim_history_prev [OF assms(1)]] show ?thesis by auto
next
  case V_arrow_down
  with sim_normal_Some [OF sim_history_next [OF assms(1)]] show ?thesis by auto
qed (use assms(1,2) in \<open>simp_all add: sim_backward_all sim_right_1 [simplified] sim_left_1 [simplified] sim_backspace [simplified] sim_kill_line sim_kill_all
  sim_clear_screen sim_refresh sim_empty_enter sim_cut_word sim_history_prev sim_history_next sim_clear_terminal sim_normal\<close>)

section \<open>Sequences of keys\<close>

text \<open>Every key but those of completion, execution, the listing of candidates and telnet.\<close>

definition edit_key :: "char \<Rightarrow> bool" where
  "edit_key c \<longleftrightarrow> c \<notin> {CHR 0x09, CHR 0x0A, CHR 0x0D, CHR ''?'', CHR 0xFF}"

lemma default_keymap_plain: "default_keymap c = Some K_input_char \<Longrightarrow> plain c"
  by (auto simp: default_keymap_def Let_def plain_def NUL_def CTRL_H_def split: if_splits dest!: map_of_SomeD)

lemma default_keymap_range: "default_keymap c = Some k \<Longrightarrow> k \<notin> special_keys"
  by (auto simp: default_keymap_def Let_def split: if_splits dest!: map_of_SomeD)

lemma ed_key_of_range:
  assumes "edit_key c" "ed_key_of e c = Some k"
  shows "k \<notin> special_keys \<and> (k = K_input_char \<longrightarrow> plain c)"
proof (cases "ed_keymap e")
  case Keymap_Normal
  with assms default_keymap_plain [of c] default_keymap_range [of c] show ?thesis
    by (auto simp: ed_key_of_def command_keymap_def shell_install_def edit_key_def split: if_splits)
qed (use assms in \<open>auto simp: ed_key_of_def key_func_escape_1_def key_func_escape_2_def split: if_splits\<close>)

lemma sim_key_of:
  assumes "ed_sim e sh" "c \<noteq> CHR 0xFF"
  shows "key_of sh c = ed_key_of e c"
  using assms by (auto simp: ed_sim_def key_of_def ed_key_of_def vty_keymap_def shell_install_def editor_keymap_def IAC_def)

lemma sim_input:
  assumes "ed_sim e sh" "edit_key c"
  shows "\<exists>sh'. shell_input env c sh = Some (sh', None, 0) \<and> ed_sim (ed_input c e) sh'"
proof -
  define sh0 where "sh0 = sh\<lparr>inputch := c\<rparr>"
  have s0: "ed_sim e sh0" using assms(1) by (simp add: ed_sim_def sh0_def)
  have k: "key_of sh0 c = ed_key_of e c" and esc: "fl_escape sh = ed_escape e"
    using sim_key_of [OF s0] assms by (simp_all add: ed_sim_def edit_key_def)
  have fin: "ed_sim e' sh' \<Longrightarrow> ed_sim (if b then e'\<lparr>ed_escape := False\<rparr> else e') (if b then sh'\<lparr>fl_escape := False\<rparr> else sh')"
    for e' b and sh' :: "'a shell" by (simp add: ed_sim_def)
  show ?thesis
  proof (cases "ed_key_of e c")
    case None
    with k s0 esc fin [of e sh0 "ed_escape e"] show ?thesis by (simp add: shell_input_def Let_def sh0_def [symmetric] ed_input_def)
  next
    case (Some f)
    note r = ed_key_of_range [OF assms(2) Some]
    from run_key_sim [OF s0, of f c env] r obtain sh1 where "run_key env f sh0 = Some sh1" "ed_sim (ed_key f c e) sh1"
      by (auto simp: sh0_def)
    with k Some r esc fin [of "ed_key f c e" sh1 "ed_escape e"] show ?thesis
      by (auto simp: shell_input_def Let_def sh0_def [symmetric] ed_input_def key_call_def)
  qed
qed

definition input_step :: "'f sh_env \<Rightarrow> char \<Rightarrow> 'f shell \<Rightarrow> 'f shell option" where
  "input_step env c sh = (case shell_input env c sh of Some (sh, call, ret) \<Rightarrow> if call = None \<and> ret = 0 then Some sh else None | None \<Rightarrow> None)"

interpretation editor: simulation "input_step env" ed_input ed_sim edit_key for env
proof unfold_locales
  show "\<exists>t. input_step env c s = Some t \<and> ed_sim (ed_input c a) t" if "ed_sim a s" "edit_key c" for a c and env :: "'a sh_env" and s
    using sim_input [OF that, of env] by (auto simp: input_step_def)
qed

lemma shell_read_steps: "editor.steps env cs sh = Some sh' \<Longrightarrow> shell_read env cs sh = Some (sh', [], 0)"
proof (induction cs arbitrary: sh)
  case (Cons c cs)
  then obtain sh1 where i: "input_step env c sh = Some sh1" "editor.steps env cs sh1 = Some sh'" by (auto split: bind_splits)
  then have "shell_input env c sh = Some (sh1, None, 0)" by (auto simp: input_step_def split: option.splits if_splits)
  with i(2) Cons.IH [of sh1] show ?case by (cases cs) (auto simp: list_of_option_def)
qed simp

lemma session_sim:
  assumes "ed_sim e sh" "list_all edit_key cs"
  shows "\<exists>sh'. shell_read env cs sh = Some (sh', [], 0) \<and> ed_sim (fold ed_input cs e) sh'"
  using editor.steps_sim [of e sh cs env] assms shell_read_steps by (fastforce simp: list_all_iff)

end
