(* ===== verification/Shell_Facts.thy ===== *)
theory Shell_Facts
  imports Line_Editor
begin

text \<open>
  Whole sessions of the shell: the execution of lines (\<open>execute_sim\<close>), sequences of keys with what they
  call (\<open>session_calls\<close>), the history as the list of the last 127 lines (\<open>hist_holds\<close>), completion
  (\<open>sim_completion\<close>), and the properties.
\<close>

section \<open>Execution\<close>

lemma history_add_ok:
  assumes "pred_option hist_ok ho" "list_all plain s"
  shows "\<exists>h. command_history_add s ho = Some h \<and> hist_ok h"
proof (cases ho)
  case None
  then show ?thesis using assms(2)
    by (auto simp: command_history_add_def hist_empty_def hist_ok_def HISTORY_NEXT_def HISTORY_SIZE_def dest!: set_update_subset_insert [THEN subsetD])
next
  case (Some h)
  define n where "n = HISTORY_NEXT (h_last h)"
  define n2 where "n2 = HISTORY_NEXT n"
  from Some assms(1) have h: "length (h_array h) = HISTORY_SIZE" "h_last h < HISTORY_SIZE" "h_array h ! h_last h \<noteq> None" "h_array h ! n = None"
    "\<forall>s. Some s \<in> set (h_array h) \<longrightarrow> list_all plain s" by (auto simp: hist_ok_def n_def)
  have b: "n < HISTORY_SIZE" "n2 < HISTORY_SIZE" "n2 \<noteq> n" using h(2) HISTORY_less(1) by (auto simp: n_def n2_def HISTORY_NEXT_def HISTORY_SIZE_def)
  have "hist_ok (h\<lparr>h_current := n\<rparr>)" using Some assms(1) hist_ok_current [OF _ b(1)] by simp
  moreover have "hist_ok (h\<lparr>h_last := n, h_current := n2, h_array := (h_array h)[n := Some s, n2 := None]\<rparr>)"
    using h b assms(2) by (auto simp: hist_ok_def n2_def [symmetric] dest!: set_update_subset_insert [THEN subsetD])
  ultimately show ?thesis using Some h(3,4) by (auto simp: command_history_add_def n_def [symmetric] n2_def Let_def)
qed

text \<open>What commands print ends with a line feed, and they leave the rest of the shell alone.\<close>

definition prints_rows :: "'f sh_env \<Rightarrow> bool" where
  "prints_rows env \<longleftrightarrow>
     (\<forall>f argv sh. \<exists>out. fst (run_cmd env f argv sh) = term_printf out sh \<and> (out = [] \<or> last out = Ch (CHR 0x0A)))"

definition rows :: "tout list \<Rightarrow> bool" where
  "rows ts \<longleftrightarrow> ts = [] \<or> last ts = Ch (CHR 0x0A)"

lemma rows_append: "rows a \<Longrightarrow> rows b \<Longrightarrow> rows (a @ b)"
  by (cases b rule: rev_cases) (auto simp: rows_def)

lemma rows_blank:
  assumes "rows ts"
  shows "\<exists>k c. fold term_step ts (replicate n (CHR '' ''), col) = (replicate k (CHR '' ''), c)"
proof (cases ts rule: rev_cases)
  case (snoc us u)
  obtain r c where "fold term_step us (replicate n (CHR '' ''), col) = (r, c)" by fastforce
  with snoc assms show ?thesis by (auto simp: rows_def CTRL_H_def)
qed auto

lemma rows_newline: "ready sh \<Longrightarrow> rows (map Ch (s @ sh_NL sh))"
  by (auto simp: rows_def ready_def)

lemma strip_comment_text:
  assumes t: "text_at l r sh"
  obtains a b where "a @ b = takeWhile (\<lambda>c. \<not> is_comment c) (l @ r)" "text_at a b (strip_comment sh)"
    "same sh (strip_comment sh)" "screen (strip_comment sh) = screen sh" "cut_buffer (strip_comment sh) = cut_buffer sh"
proof -
  let ?w = "takeWhile (\<lambda>c. \<not> is_comment c) (l @ r)"
  define n where "n = length ?w"
  from t obtain junk where c: "command_line sh = [] @ (l @ r) @ NUL # junk" "sh_cursor sh = length l" "sh_end sh = length l + length r"
    "list_all plain (l @ r)" by (auto simp: text_at_def)
  have lf: "line_from 0 sh = l @ r" using line_from_text [OF c(1)] c(4) by simp
  show thesis
  proof (cases "n < length (l @ r)")
    case False
    then have "?w = l @ r" using length_takeWhile_le [of _ "l @ r"] by (metis n_def takeWhile_eq_take take_all not_less)
    moreover have "strip_comment sh = sh" using False by (simp add: strip_comment_def lf n_def)
    ultimately show ?thesis using that [of l r] t by (metis same_refl)
  next
    case True
    define m where "m = (if n < length l then n else length l)"
    define sh1 where "sh1 = sh\<lparr>sh_end := n, sh_cursor := m\<rparr>"
    have s: "strip_comment sh = shell_terminate sh1" using True c by (simp add: strip_comment_def lf n_def m_def sh1_def Let_def)
    have w: "?w = take n (l @ r)" by (metis n_def takeWhile_eq_take)
    obtain x xs where x: "drop n (l @ r) = x # xs" using True by (cases "drop n (l @ r)") auto
    have "command_line sh1 = ?w @ x # xs @ NUL # junk" using c(1) x append_take_drop_id [of n "l @ r"] by (simp add: sh1_def w)
    from terminate_text [OF this] have cl: "command_line (shell_terminate sh1) = ?w @ NUL # xs @ NUL # junk" by (simp add: sh1_def n_def)
    have len: "m \<le> length ?w" by (simp add: m_def n_def)
    have "list_all plain ?w" using c(4) unfolding w by (metis append_take_drop_id list_all_append)
    then have p: "list_all plain (take m ?w)" "list_all plain (drop m ?w)" by (metis append_take_drop_id list_all_append)+
    have "command_line (shell_terminate sh1) = take m ?w @ drop m ?w @ NUL # xs @ NUL # junk" using cl by (metis append_assoc append_take_drop_id)
    then have "text_at (take m ?w) (drop m ?w) (shell_terminate sh1)"
      using p len by (simp add: text_at_def) (simp add: sh1_def n_def [symmetric] min_def)
    moreover have "same sh (strip_comment sh)" "screen (strip_comment sh) = screen sh" "cut_buffer (strip_comment sh) = cut_buffer sh"
      unfolding s by (simp_all add: sh1_def screen_def same_def) (simp_all add: shell_terminate_def)
    ultimately show ?thesis using that [of "take m ?w" "drop m ?w"] s by simp
  qed
qed

text \<open>The prompt after a command.\<close>

lemma prompt_after:
  assumes "ready sh" "command_line sh \<noteq> []" "screen sh = (replicate n (CHR '' ''), col)" "rows (terminal_buf sh)"
  defines "sh' \<equiv> shell_refresh (shell_prompt (shell_clear sh))"
  shows "edits [] [] sh' \<and> same (sh\<lparr>terminal_buf := []\<rparr>) sh' \<and> cut_buffer sh' = cut_buffer sh \<and> fl_interactive (shell_prompt (shell_clear sh))"
proof -
  let ?p = "shell_prompt (shell_clear sh)"
  have p: "edits [] [] ?p" "same (sh\<lparr>terminal_buf := []\<rparr>) ?p" "cut_buffer ?p = cut_buffer sh"
    using prompt_again [OF assms(1) _ assms(2)] rows_blank [OF assms(4), of n col] assms(3) by simp_all
  from edits_screen [OF p(1)] obtain k where "screen ?p = (sh_prompt ?p @ replicate k (CHR '' ''), length (sh_prompt ?p))" by auto
  moreover have tb: "terminal_buf ?p = []" using p(2) by (simp add: same_def)
  ultimately have "edits [] [] sh' \<and> same (?p\<lparr>terminal_buf := []\<rparr>) sh' \<and> cut_buffer sh' = cut_buffer ?p"
    using shell_refresh_edits [of "[]" "[]" ?p] p(1) by (simp add: edits_def sh'_def blank_from_def)
  moreover from this have "same ?p sh'" using tb by (simp add: same_def)
  moreover have "fl_interactive ?p" using p(2) assms(1) by (simp add: same_def ready_def)
  ultimately show ?thesis using p(3) same_trans [OF p(2)] by simp
qed

lemma run_cmd_rows:
  assumes "prints_rows env"
  obtains out where "run_cmd env f argv sh = (term_printf out sh, snd (run_cmd env f argv sh))" "rows out"
  using assms by (metis prints_rows_def rows_def prod.collapse)

lemma screen_printf [simp]: "screen (term_printf ts sh) = screen sh"
  by (simp add: screen_def term_printf_def)

lemma text_printf [simp]: "text_at l r (term_printf ts sh) = text_at l r sh"
  by (simp add: text_at_def term_printf_def)

lemma text_line: "text_at l r sh \<Longrightarrow> line_from 0 sh = l @ r"
  using line_from_text [of sh "[]" "l @ r"] by (auto simp: text_at_def)

lemma printf_fields [simp]:
  "sh_history (term_printf ts sh) = sh_history sh" "command_line (term_printf ts sh) = command_line sh" "ready (term_printf ts sh) = ready sh"
  "cmdset (term_printf ts sh) = cmdset sh" "sh_NL (term_printf ts sh) = sh_NL sh" "terminal_buf (term_printf ts sh) = terminal_buf sh @ ts"
  "line_from i (term_printf ts sh) = line_from i sh" "cut_buffer (term_printf ts sh) = cut_buffer sh"
  "same (a\<lparr>terminal_buf := []\<rparr>) ((term_printf ts sh)\<lparr>terminal_buf := []\<rparr>) = same (a\<lparr>terminal_buf := []\<rparr>) (sh\<lparr>terminal_buf := []\<rparr>)"
  by (simp_all add: term_printf_def ready_def line_from_def same_def)

text \<open>The call of a line, its status and what it prints.\<close>

lemma execute_line_spec:
  assumes "prints_rows env" "text_at l r sh" "ready sh" "terminal_buf sh = []" "pred_option hist_ok (sh_history sh)" "cmdset sh = root"
  defines "line \<equiv> shell_format3 (l @ r)"
  obtains h sh' ret where "execute_line env sh = Some (sh'\<lparr>sh_history := Some h\<rparr>, command_execute (sh_cli env) line root, ret)"
    "command_history_add line (sh_history sh) = Some h" "hist_ok h" "rows (terminal_buf sh')" "command_line sh' \<noteq> []"
    "screen sh' = screen sh" "same sh (sh'\<lparr>terminal_buf := []\<rparr>)" "cut_buffer sh' = cut_buffer sh"
proof -
  define sh2 where "sh2 = shell_format2 sh"
  define call where "call = command_execute (sh_cli env) line root"
  from format2_text [OF assms(2), folded sh2_def] obtain buf where
    f: "sh2 = sh\<lparr>command_line := buf, sh_cursor := length (format_left l), sh_end := length (format_left l) + length (format_right l r)\<rparr>"
    and t2: "text_at (format_left l) (format_right l r) sh2" by blast
  have line: "line_from 0 sh2 = line" using text_line [OF t2] format_parts [of l r] by (simp add: line_def shell_format3_def)
  have pl: "list_all plain line" using text_line [OF t2] t2 line by (metis text_at_def list_all_append)
  have s2: "same sh sh2" "screen sh2 = screen sh" "cut_buffer sh2 = cut_buffer sh" "sh_history sh2 = sh_history sh" "cmdset sh2 = root"
    "terminal_buf sh2 = []" "ready sh2" "command_line sh2 \<noteq> []"
    using t2 assms(3,4,6) by (auto simp: f same_def screen_def ready_def text_at_def)
  from history_add_ok [OF assms(5) pl] obtain h where h: "command_history_add line (sh_history sh) = Some h" "hist_ok h" by blast
  obtain out ret where 1: "(case call of None \<Rightarrow> (sh2, CMD_NOT_FOUND) | Some (f, argv) \<Rightarrow> run_cmd env f argv sh2) = (term_printf out sh2, ret)" "rows out"
  proof (cases call)
    case None
    have "term_printf [] sh2 = sh2" by (simp add: term_printf_def)
    with None that [of "[]" CMD_NOT_FOUND] show ?thesis by (simp add: rows_def)
  next
    case (Some fa)
    obtain out where "run_cmd env (fst fa) (snd fa) sh2 = (term_printf out sh2, snd (run_cmd env (fst fa) (snd fa) sh2))" "rows out"
      by (rule run_cmd_rows [OF assms(1)])
    with Some that [of out "snd (run_cmd env (fst fa) (snd fa) sh2)"] show ?thesis by (simp add: case_prod_beta)
  qed
  define msg where "msg = (if ret = CMD_NOT_FOUND then map Ch (''no such command: '' @ line @ sh_NL sh2)
    else if ret = CMD_FAILURE then map Ch (''command failed: '' @ line @ sh_NL sh2) else [])"
  have join: "term_printf b (term_printf a sh2) = term_printf (a @ b) sh2" for a b by (simp add: term_printf_def)
  have "rows msg" using rows_newline [OF s2(7), of "''no such command: '' @ line"] rows_newline [OF s2(7), of "''command failed: '' @ line"]
    by (simp add: msg_def rows_def)
  then have r: "rows (out @ msg)" using rows_append [OF 1(2)] by blast
  have "execute_line env sh = Some ((term_printf (out @ msg) sh2)\<lparr>sh_history := Some h\<rparr>, call, if ret = CMD_NOT_FOUND \<or> ret = CMD_FAILURE then -1 else ret)"
    by (simp add: execute_line_def sh2_def [symmetric] line s2(5) call_def [symmetric] 1(1) s2(4) h(1) msg_def join Let_def del: map_append append.simps)
  with that [of h "term_printf (out @ msg) sh2"] h r s2 assms(4) show thesis
    by (simp add: call_def) (simp add: term_printf_def same_def)
qed

lemma execute_sim:
  assumes "ed_sim e sh" "prints_rows env"
  obtains sh' ret where "ed_sim (ed_execute e) sh'"
    "command_shell_execute env sh = Some (sh',
       (if command_part e = [] then None else command_execute (sh_cli env) (shell_format3 (command_part e)) (ed_commands e)), ret)"
proof -
  let ?l = "ed_left e" and ?r = "ed_right e"
  note d = ed_simD [OF assms(1)]
  define sh1 where "sh1 = term_flush (shell_linefeed sh)"
  have w: "ready sh" "text_at ?l ?r sh" using d by (simp_all add: edits_def)
  have s1: "ready sh1" "text_at ?l ?r sh1" "terminal_buf sh1 = []" "same sh sh1" "cut_buffer sh1 = cut_buffer sh"
    using w assms(1) by (simp_all add: sh1_def shell_linefeed_def term_printf_def term_flush_def ready_def text_at_def same_def ed_sim_def)
  have "\<exists>n col. screen sh1 = (replicate n (CHR '' ''), col)"
    using term_newline [OF w(1), of "fst (screen sh)" "snd (screen sh)"] assms(1)
    by (simp add: sh1_def shell_linefeed_def) (simp add: term_printf_def ed_sim_def)
  then obtain n col where sc: "screen sh1 = (replicate n (CHR '' ''), col)" by blast
  define sh2 where "sh2 = strip_comment sh1"
  from strip_comment_text [OF s1(2), folded sh2_def] obtain a b where
    ab: "a @ b = command_part e" "text_at a b sh2" and s2: "same sh1 sh2" "screen sh2 = screen sh1" "cut_buffer sh2 = cut_buffer sh1"
    by (metis command_part_def)
  have r2: "ready sh2" "terminal_buf sh2 = []" "same sh sh2" "sh_history sh2 = ed_hist e" "pred_option hist_ok (sh_history sh2)" "cmdset sh2 = ed_commands e"
    "fl_interactive sh2"
    using s1 s2 same_trans ready_same [OF s2(1) s1(1)] assms(1) by (auto simp: same_def ed_sim_def ready_def)
  have line: "line_from 0 sh2 = command_part e" using text_line [OF ab(2)] ab(1) by simp
  have ex: "command_shell_execute env sh = do {
      (sh, call, ret) \<leftarrow> (if command_part e \<noteq> [] then execute_line env sh2 else Some (sh2, None, 0));
      let sh = shell_prompt (shell_clear sh);
      Some (if fl_interactive sh then shell_refresh sh else sh, call, ret) }"
    using w(1) by (simp add: command_shell_execute_def sh1_def [symmetric] sh2_def [symmetric] line ready_def)
  show thesis
  proof (cases "command_part e = []")
    case True
    note p = prompt_after [OF r2(1) _ sc [folded s2(2)]]
    have "command_line sh2 \<noteq> []" "rows (terminal_buf sh2)" using ab(2) r2(2) by (auto simp: text_at_def rows_def)
    note p = p [OF this]
    with ex True have ce: "command_shell_execute env sh = Some (shell_refresh (shell_prompt (shell_clear sh2)), None, 0)" by simp
    have "ed_sim (ed_execute e) (shell_refresh (shell_prompt (shell_clear sh2)))"
      using p r2(3) assms(1) True s1(5) s2(3) by (simp add: ed_sim_def same_def ed_execute_def)
    with that ce True show ?thesis by simp
  next
    case False
    from execute_line_spec [OF assms(2) ab(2) r2(1,2,5,6)] obtain h sh3 ret where
      x: "execute_line env sh2 = Some (sh3\<lparr>sh_history := Some h\<rparr>, command_execute (sh_cli env) (shell_format3 (command_part e)) (ed_commands e), ret)"
      "command_history_add (shell_format3 (command_part e)) (ed_hist e) = Some h" "hist_ok h" "rows (terminal_buf sh3)" "command_line sh3 \<noteq> []"
      "screen sh3 = screen sh2" "same sh2 (sh3\<lparr>terminal_buf := []\<rparr>)" "cut_buffer sh3 = cut_buffer sh2"
      unfolding ab(1) r2(4) by blast
    define sh4 where "sh4 = sh3\<lparr>sh_history := Some h\<rparr>"
    have s4: "ready sh4" "command_line sh4 \<noteq> []" "screen sh4 = (replicate n (CHR '' ''), col)" "rows (terminal_buf sh4)"
      using x r2(1) sc s2(2) by (simp_all add: sh4_def ready_def same_def screen_def)
    note p = prompt_after [OF this]
    with ex False x(1) have ce: "command_shell_execute env sh = Some (shell_refresh (shell_prompt (shell_clear sh4)),
      command_execute (sh_cli env) (shell_format3 (command_part e)) (ed_commands e), ret)" by (simp add: sh4_def)
    have "same (sh\<lparr>sh_history := Some h\<rparr>) (sh4\<lparr>terminal_buf := []\<rparr>)" using x(7) r2(2,3) by (simp add: sh4_def same_def)
    then have "ed_sim (ed_execute e) (shell_refresh (shell_prompt (shell_clear sh4)))"
      using p assms(1) False s1(5) s2(3) x(2,3,8) by (simp add: ed_sim_def same_def ed_execute_def sh4_def)
    with that ce False show ?thesis by simp
  qed
qed

section \<open>Sessions\<close>

text \<open>The keys but those of completion, of the listing of candidates and of telnet.\<close>

definition session_key :: "char \<Rightarrow> bool" where
  "session_key c \<longleftrightarrow> c \<notin> {CHR 0x09, CHR ''?'', CHR 0xFF}"

lemma ed_key_of_enter: "session_key c \<Longrightarrow> \<not> edit_key c \<Longrightarrow> ed_keymap e = Keymap_Normal \<Longrightarrow> ed_key_of e c = Some K_execute"
  by (auto simp: session_key_def edit_key_def ed_key_of_def command_keymap_def shell_install_def)

text \<open>What the abstract editor calls.\<close>

definition ed_call :: "'f sh_env \<Rightarrow> char \<Rightarrow> 'f ed \<Rightarrow> ('f \<times> string option list) option" where
  "ed_call env c e =
     (if ed_key_of e c \<noteq> Some K_execute \<or> command_part e = [] then None
      else command_execute (sh_cli env) (shell_format3 (command_part e)) (ed_commands e))"

lemma ed_key_of_not_enter: "edit_key c \<Longrightarrow> ed_key_of e c \<noteq> Some K_execute"
  using ed_key_of_range [of c e K_execute] by auto

lemma sim_session_key:
  assumes "ed_sim e sh" "session_key c" "prints_rows env"
  shows "\<exists>sh' ret. shell_input env c sh = Some (sh', ed_call env c e, ret) \<and> ed_sim (ed_input c e) sh'"
proof (cases "edit_key c")
  case True
  with sim_input [OF assms(1), of c env] ed_key_of_not_enter [OF True, of e] show ?thesis by (auto simp: ed_call_def)
next
  case False
  define sh0 where "sh0 = sh\<lparr>inputch := c\<rparr>"
  have s0: "ed_sim e sh0" using assms(1) by (simp add: ed_sim_def sh0_def)
  have k: "key_of sh0 c = ed_key_of e c" and esc: "fl_escape sh = ed_escape e"
    using sim_key_of [OF s0] assms(1,2) by (simp_all add: ed_sim_def session_key_def)
  have fin: "ed_sim e' sh' \<Longrightarrow> ed_sim (if b then e'\<lparr>ed_escape := False\<rparr> else e') (if b then sh'\<lparr>fl_escape := False\<rparr> else sh')"
    for e' :: "'a ed" and b and sh' by (simp add: ed_sim_def)
  show ?thesis
  proof (cases "ed_keymap e = Keymap_Normal")
    case True
    note x = ed_key_of_enter [OF assms(2) False True]
    from execute_sim [OF s0 assms(3)] obtain sh' ret where r: "ed_sim (ed_execute e) sh'"
      "command_shell_execute env sh0 = Some (sh', ed_call env c e, ret)" using x by (auto simp: ed_call_def)
    with x k esc fin [OF r(1), of "ed_escape e"] show ?thesis
      by (simp add: shell_input_def Let_def sh0_def [symmetric] key_call_def ed_input_def)
  next
    case other: False
    have "editor_keymap (ed_keymap e)" using assms(1) by (simp add: ed_sim_def)
    with other False assms(2) have v: "ed_key_of e c = Some V_normal"
      by (cases "ed_keymap e") (auto simp: ed_key_of_def key_func_escape_1_def key_func_escape_2_def session_key_def edit_key_def CTRL_H_def)
    with k esc fin [OF sim_normal [OF s0], of "ed_escape e"] show ?thesis
      by (simp add: shell_input_def Let_def sh0_def [symmetric] key_call_def ed_input_def ed_call_def)
  qed
qed

fun ed_calls :: "'f sh_env \<Rightarrow> string \<Rightarrow> 'f ed \<Rightarrow> ('f \<times> string option list) list" where
  "ed_calls env [] e = []"
| "ed_calls env (c # cs) e = list_of_option (ed_call env c e) @ ed_calls env cs (ed_input c e)"

lemma session_calls:
  assumes "prints_rows env"
  shows "ed_sim e sh \<Longrightarrow> list_all session_key cs \<Longrightarrow>
    \<exists>sh'. shell_session env (map (\<lambda>c. [c]) cs) sh = Some (sh', ed_calls env cs e) \<and> ed_sim (fold ed_input cs e) sh'"
proof (induction cs arbitrary: e sh)
  case (Cons c cs)
  from sim_session_key [OF Cons.prems(1) _ assms, of c] Cons.prems(2) obtain sh1 ret where
    "shell_input env c sh = Some (sh1, ed_call env c e, ret)" "ed_sim (ed_input c e) sh1" by auto
  with Cons.IH [of "ed_input c e" sh1] Cons.prems(2) show ?case by auto
qed simp

text \<open>The shell after its creation, with the descriptor set and the prompt written.\<close>

definition started :: "'f cmd_node \<Rightarrow> 'f shell" where
  "started root = shell_prompt ((shell_create root)\<lparr>writefd_ok := True\<rparr>)"

definition ed_start :: "'f cmd_node \<Rightarrow> 'f ed" where
  "ed_start root = \<lparr>ed_left = [], ed_right = [], ed_cut = None, ed_keymap = Keymap_Normal, ed_escape = False, ed_hist = None, ed_commands = root,
     ed_prompt = ''prompt> ''\<rparr>"

lemma started_sim: "ed_sim (ed_start root) (started root)"
proof -
  let ?sh = "(shell_create root)\<lparr>writefd_ok := True\<rparr>"
  have w: "ready ?sh" by (simp add: ready_def shell_create_def plain_def NUL_def CTRL_H_def)
  have sc: "fold term_step (terminal_buf ?sh) (screen ?sh) = ([], 0)" by (simp add: shell_create_def screen_def)
  note p = shell_prompt_screen [OF w sc, folded started_def]
  have "text_at [] [] ?sh" by (simp add: text_at_def shell_create_def INITIAL_COMMAND_LINE_SIZE_def numeral_eq_Suc)
  then have "edits [] [] (started root)" using p by (simp add: edits_def text_at_def shown_def)
  then show ?thesis using p(3,8,9) by (simp add: ed_sim_def ed_start_def same_def shell_create_def)
qed

lemma ed_recall_const: "ed_prompt (ed_recall f e) = ed_prompt e \<and> ed_commands (ed_recall f e) = ed_commands e"
  by (simp add: ed_recall_def split: option.split)

lemma ed_input_const [simp]: "ed_prompt (ed_input c e) = ed_prompt e" "ed_commands (ed_input c e) = ed_commands e"
proof -
  have "ed_prompt (ed_key k c e) = ed_prompt e \<and> ed_commands (ed_key k c e) = ed_commands e" for k
    by (cases k) (auto simp: ed_recall_const ed_to_def ed_left_1_def ed_right_1_def ed_kill_def ed_cut_word_def ed_format_def ed_normal_def
      ed_execute_def Let_def split: option.split)
  then show "ed_prompt (ed_input c e) = ed_prompt e" "ed_commands (ed_input c e) = ed_commands e"
    by (simp_all add: ed_input_def Let_def split: option.split)
qed

lemma ed_fold_const [simp]: "ed_prompt (fold ed_input cs e) = ed_prompt e" "ed_commands (fold ed_input cs e) = ed_commands e"
  by (induction cs arbitrary: e) auto

lemma session_sim_blocks:
  "ed_sim e sh \<Longrightarrow> list_all (list_all edit_key) blocks \<Longrightarrow>
   \<exists>sh'. shell_session env blocks sh = Some (sh', []) \<and> ed_sim (fold ed_input (concat blocks) e) sh'"
proof (induction blocks arbitrary: e sh)
  case (Cons b bs)
  from session_sim [OF Cons.prems(1), of b env] Cons.prems(2) obtain sh1 where
    "shell_read env b sh = Some (sh1, [], 0)" "ed_sim (fold ed_input b e) sh1" by auto
  with Cons.IH [of "fold ed_input b e" sh1] Cons.prems(2) show ?case by auto
qed simp

lemma sim_screen:
  "ed_sim e sh \<Longrightarrow> line_from 0 sh = ed_left e @ ed_right e \<and> sh_cursor sh = length (ed_left e)
     \<and> (\<exists>k. screen sh = (ed_prompt e @ ed_left e @ ed_right e @ replicate k (CHR '' ''), length (ed_prompt e) + length (ed_left e)))"
  using ed_simD [of e sh] edits_screen [of "ed_left e" "ed_right e" sh] by (auto simp: ed_sim_def)

section \<open>Typed lines and the history\<close>

definition CTRL_P :: char where "CTRL_P = CHR 0x10"

definition typed_char :: "char \<Rightarrow> bool" where
  "typed_char c \<longleftrightarrow> 32 \<le> (of_char c :: nat) \<and> (of_char c :: nat) < 127 \<and> c \<noteq> CHR ''?'' \<and> \<not> is_comment c"

lemma typed_char_key: "typed_char c \<Longrightarrow> command_keymap c = Some K_input_char \<and> session_key c"
proof -
  assume t: "typed_char c"
  then have "c \<noteq> CHR 0x7F" "c \<noteq> CHR 0x0C" "c \<noteq> CHR 0x1B" "c \<noteq> CHR 0x0E" "c \<noteq> CHR 0x10" "c \<noteq> CHR ''?''" "c \<noteq> CHR 0x09"
      "c \<noteq> CHR 0x0D" "c \<noteq> CHR 0x0A" "c \<noteq> CHR 0xFF"
    by (auto simp: typed_char_def)
  moreover have "default_keymap c = Some K_input_char" using t by (simp add: default_keymap_def typed_char_def Let_def)
  ultimately show ?thesis by (simp add: command_keymap_def shell_install_def session_key_def)
qed

definition line_start :: "'f ed \<Rightarrow> bool" where
  "line_start e \<longleftrightarrow> ed_keymap e = Keymap_Normal \<and> \<not> ed_escape e"

lemma ed_type:
  "line_start e \<Longrightarrow> list_all typed_char l \<Longrightarrow> fold ed_input l e = e\<lparr>ed_left := ed_left e @ l\<rparr> \<and> ed_calls env l e = []"
proof (induction l arbitrary: e)
  case (Cons c l)
  have i: "ed_input c e = e\<lparr>ed_left := ed_left e @ [c]\<rparr>" "ed_call env c e = None"
    using Cons.prems typed_char_key [of c] by (simp_all add: line_start_def ed_input_def ed_key_of_def ed_call_def)
  have "line_start (ed_input c e)" using Cons.prems by (simp add: i line_start_def)
  from Cons.IH [OF this] Cons.prems(2) i show ?case by (simp add: list_of_option_def)
qed simp

definition typed_line :: "string \<Rightarrow> bool" where "typed_line l \<longleftrightarrow> l \<noteq> [] \<and> list_all typed_char l"

lemma ed_enter:
  assumes "line_start e" "ed_left e = l" "ed_right e = []" "typed_line l"
  shows "ed_input (CHR 0x0A) e = e\<lparr>ed_left := [], ed_hist := command_history_add (shell_format3 l) (ed_hist e)\<rparr>"
    "ed_call env (CHR 0x0A) e = command_execute (sh_cli env) (shell_format3 l) (ed_commands e)"
proof -
  have k: "ed_key_of e (CHR 0x0A) = Some K_execute" using assms(1) ed_key_of_enter [of "CHR 0x0A" e]
    by (simp add: line_start_def session_key_def edit_key_def)
  have c: "command_part e = l" using assms by (auto simp: command_part_def takeWhile_eq_all_conv typed_line_def list_all_iff typed_char_def)
  have "e\<lparr>ed_left := [], ed_right := [], ed_hist := h\<rparr> = e\<lparr>ed_left := [], ed_hist := h\<rparr>" for h using assms(3) by (cases e) simp
  with k c assms show "ed_input (CHR 0x0A) e = e\<lparr>ed_left := [], ed_hist := command_history_add (shell_format3 l) (ed_hist e)\<rparr>"
    by (simp add: ed_input_def ed_execute_def Let_def line_start_def typed_line_def)
  show "ed_call env (CHR 0x0A) e = command_execute (sh_cli env) (shell_format3 l) (ed_commands e)"
    using k c assms(4) by (simp add: ed_call_def typed_line_def)
qed

lemma ed_calls_append: "ed_calls env (a @ b) e = ed_calls env a e @ ed_calls env b (fold ed_input a e)"
  by (induction a arbitrary: e) auto

definition typing :: "string list \<Rightarrow> string" where "typing lines = concat (map (\<lambda>l. l @ [CHR 0x0A]) lines)"

lemma typed_lines:
  "line_start e \<Longrightarrow> ed_left e = [] \<Longrightarrow> ed_right e = [] \<Longrightarrow> list_all typed_line lines \<Longrightarrow>
   fold ed_input (typing lines) e = e\<lparr>ed_hist := fold command_history_add (map shell_format3 lines) (ed_hist e)\<rparr>
   \<and> ed_calls env (typing lines) e = List.map_filter (\<lambda>l. command_execute (sh_cli env) (shell_format3 l) (ed_commands e)) lines"
proof (induction lines arbitrary: e)
  case (Cons l lines)
  define e1 where "e1 = e\<lparr>ed_left := l\<rparr>"
  have t: "fold ed_input l e = e1" "ed_calls env l e = []" using Cons.prems ed_type [of e l env] by (auto simp: typed_line_def e1_def)
  have x: "ed_input (CHR 0x0A) e1 = e1\<lparr>ed_left := [], ed_hist := command_history_add (shell_format3 l) (ed_hist e1)\<rparr>"
    "ed_call env (CHR 0x0A) e1 = command_execute (sh_cli env) (shell_format3 l) (ed_commands e)"
    using ed_enter(1) [of e1 l] ed_enter(2) [of e1 l env] Cons.prems by (auto simp: e1_def line_start_def)
  define e2 where "e2 = e\<lparr>ed_hist := command_history_add (shell_format3 l) (ed_hist e)\<rparr>"
  have e2: "ed_input (CHR 0x0A) e1 = e2" unfolding x(1) unfolding e1_def e2_def using Cons.prems(2) by (cases e) simp
  have "line_start e2" "ed_left e2 = []" "ed_right e2 = []" "ed_commands e2 = ed_commands e" using Cons.prems by (simp_all add: e2_def line_start_def)
  with Cons.IH [of e2] Cons.prems(4) t x(2) e2 show ?case
    by (simp add: typing_def ed_calls_append list_of_option_def map_filter_simps split: option.split) (simp add: e2_def)
qed (simp add: typing_def map_filter_simps)

text \<open>The index of the entry \<open>k\<close> places before \<open>l\<close>, and the lines a history holds, newest first.\<close>

definition back_index :: "nat \<Rightarrow> nat \<Rightarrow> nat" where
  "back_index l k = (if k \<le> l then l - k else l + HISTORY_SIZE - k)"

lemma back_simps:
  "l < HISTORY_SIZE \<Longrightarrow> k < HISTORY_SIZE \<Longrightarrow> back_index (HISTORY_NEXT l) (Suc k) = back_index l k"
  "back_index l 0 = l"
  "l < HISTORY_SIZE \<Longrightarrow> k < HISTORY_SIZE \<Longrightarrow> back_index l k < HISTORY_SIZE"
  "l < HISTORY_SIZE \<Longrightarrow> k < HISTORY_SIZE \<Longrightarrow> back_index l k = HISTORY_NEXT l \<longleftrightarrow> k = 127"
  "l < HISTORY_SIZE \<Longrightarrow> k < HISTORY_SIZE \<Longrightarrow> back_index l k = HISTORY_NEXT (HISTORY_NEXT l) \<longleftrightarrow> k = 126"
  "l < HISTORY_SIZE \<Longrightarrow> k < HISTORY_SIZE \<Longrightarrow> HISTORY_PREV (back_index l k) = back_index l (Suc k)"
  by (auto simp: back_index_def HISTORY_NEXT_def HISTORY_PREV_def HISTORY_SIZE_def)

definition hist_holds :: "string list \<Rightarrow> hist \<Rightarrow> bool" where
  "hist_holds xs h \<longleftrightarrow> length (h_array h) = HISTORY_SIZE \<and> h_last h < HISTORY_SIZE \<and> h_current h = HISTORY_NEXT (h_last h) \<and> xs \<noteq> []
     \<and> (\<forall>k < HISTORY_SIZE. h_array h ! back_index (h_last h) k = (if k < length xs \<and> k < 127 then Some (xs ! k) else None))"

definition add_line :: "string \<Rightarrow> string list \<Rightarrow> string list" where
  "add_line s xs = (if xs \<noteq> [] \<and> hd xs = s then xs else s # xs)"

lemma hist_add_first: "command_history_add s None = Some h \<Longrightarrow> hist_holds [s] h"
  by (auto simp: command_history_add_def hist_empty_def hist_holds_def HISTORY_NEXT_def HISTORY_SIZE_def back_index_def Let_def nth_list_update split: if_splits)

lemma hist_add:
  assumes "hist_holds xs h"
  shows "\<exists>h'. command_history_add s (Some h) = Some h' \<and> hist_holds (add_line s xs) h'"
proof -
  define n where "n = HISTORY_NEXT (h_last h)"
  define n2 where "n2 = HISTORY_NEXT n"
  from assms have a: "length (h_array h) = HISTORY_SIZE" "h_last h < HISTORY_SIZE" "h_current h = n" "xs \<noteq> []"
    "\<And>k. k < HISTORY_SIZE \<Longrightarrow> h_array h ! back_index (h_last h) k = (if k < length xs \<and> k < 127 then Some (xs ! k) else None)"
    by (auto simp: hist_holds_def n_def)
  have b: "n < HISTORY_SIZE" "n2 < HISTORY_SIZE" "n2 \<noteq> n" using a(2) HISTORY_less(1) by (auto simp: n_def n2_def HISTORY_NEXT_def HISTORY_SIZE_def)
  have l: "h_array h ! h_last h = Some (hd xs)" using a(4) a(5) [of 0] by (simp add: back_simps(2) HISTORY_SIZE_def hd_conv_nth)
  have e: "back_index (h_last h) 127 = n" using back_simps(4) [OF a(2), of 127] by (simp add: n_def HISTORY_SIZE_def)
  then have f: "h_array h ! n = None" using a(5) [of 127] by (simp add: HISTORY_SIZE_def)
  show ?thesis
  proof (cases "hd xs = s")
    case True
    with l f a(3) have "command_history_add s (Some h) = Some h"
      by (simp add: command_history_add_def n_def [symmetric] Let_def)
    with assms True a(4) show ?thesis by (simp add: add_line_def)
  next
    case False
    define h' where "h' = h\<lparr>h_last := n, h_current := n2, h_array := (h_array h)[n := Some s, n2 := None]\<rparr>"
    have "command_history_add s (Some h) = Some h'" using l f False
      by (simp add: command_history_add_def n_def [symmetric] n2_def [symmetric] h'_def Let_def)
    moreover have "h_array h' ! back_index n k = (if k < length (s # xs) \<and> k < 127 then Some ((s # xs) ! k) else None)" if k: "k < HISTORY_SIZE" for k
    proof (cases k)
      case 0
      with b a(1) show ?thesis by (simp add: h'_def back_simps(2))
    next
      case (Suc j)
      then have j: "j < HISTORY_SIZE" "j < 127" using k by (simp_all add: HISTORY_SIZE_def)
      have i: "back_index n k = back_index (h_last h) j" using back_simps(1) [OF a(2) j(1)] Suc by (simp add: n_def)
      have "back_index (h_last h) j \<noteq> n" "back_index (h_last h) j = n2 \<longleftrightarrow> j = 126" using back_simps(4,5) [OF a(2) j(1)] j(2) by (auto simp: n_def n2_def)
      with a(5) [OF j(1)] j Suc i a(1) b show ?thesis by (auto simp: h'_def nth_list_update)
    qed
    ultimately show ?thesis using a(1) b False by (auto simp: hist_holds_def add_line_def h'_def n2_def)
  qed
qed

lemma hist_adds:
  "(case ho of None \<Rightarrow> xs = [] | Some h \<Rightarrow> hist_holds xs h) \<Longrightarrow>
   (case fold command_history_add lines ho of None \<Rightarrow> fold add_line lines xs = [] | Some h \<Rightarrow> hist_holds (fold add_line lines xs) h)"
proof (induction lines arbitrary: ho xs)
  case (Cons s lines)
  have "case command_history_add s ho of None \<Rightarrow> add_line s xs = [] | Some h \<Rightarrow> hist_holds (add_line s xs) h"
  proof (cases ho)
    case None
    with Cons.prems history_add_ok [of None s] show ?thesis
      by (auto simp: add_line_def command_history_add_def hist_empty_def HISTORY_SIZE_def Let_def intro!: hist_add_first split: option.split)
  next
    case (Some h)
    with Cons.prems hist_add [of xs h s] show ?thesis by auto
  qed
  from Cons.IH [OF this] show ?case by (simp split: option.splits)
qed (simp split: option.splits)

lemma remdups_adj_snoc: "remdups_adj (xs @ [s]) = (if xs \<noteq> [] \<and> last xs = s then remdups_adj xs else remdups_adj xs @ [s])"
  by (induction xs rule: remdups_adj.induct) auto

lemma add_lines: "fold add_line lines [] = rev (remdups_adj lines)"
proof (induction lines rule: rev_induct)
  case (snoc s lines)
  then show ?case by (simp add: add_line_def remdups_adj_snoc hd_rev last_remdups_adj)
qed simp

lemma history_of: "case fold command_history_add lines None of None \<Rightarrow> lines = [] | Some h \<Rightarrow> hist_holds (rev (remdups_adj lines)) h"
  using hist_adds [where ho = None and xs = "[]" and lines = lines] by (simp add: add_lines split: option.splits)

text \<open>Control-P recalls one line after the other, up to the oldest one.\<close>

lemma press_prev:
  assumes "line_start e" "ed_hist e = Some (h\<lparr>h_current := back_index (HISTORY_NEXT (h_last h)) n\<rparr>)" "hist_holds xs h" "m = min (length xs) 127" "n \<le> m"
  shows "ed_input CTRL_P e = (if n = m then e
    else e\<lparr>ed_left := xs ! n, ed_right := [], ed_hist := Some (h\<lparr>h_current := back_index (HISTORY_NEXT (h_last h)) (Suc n)\<rparr>)\<rparr>)"
proof -
  let ?l = "h_last h" and ?N = "HISTORY_NEXT (h_last h)"
  have h: "?l < HISTORY_SIZE" "?N < HISTORY_SIZE" "n < HISTORY_SIZE" using assms(3-5) HISTORY_less(1) by (auto simp: hist_holds_def HISTORY_SIZE_def)
  have k: "ed_input CTRL_P e = ed_recall recall_prev e" using assms(1)
    by (simp add: ed_input_def ed_key_of_def line_start_def command_keymap_def shell_install_def CTRL_P_def)
  have st: "back_index ?N n = HISTORY_NEXT ?N \<longleftrightarrow> n = 127" by (rule back_simps(4) [OF h(2,3)])
  have "h_array h ! HISTORY_PREV (back_index ?N n) = (if n < length xs \<and> n < 127 then Some (xs ! n) else None)"
    using assms(3) h(3) back_simps(6) [OF h(2,3)] back_simps(1) [OF h(1,3)] by (simp add: hist_holds_def)
  with k st assms(2,4,5) back_simps(6) [OF h(2,3)] show ?thesis
    by (auto simp: ed_recall_def recall_prev_def min_def split: if_splits)
qed

lemma presses_prev:
  assumes "line_start e" "ed_left e = []" "ed_right e = []" "case ed_hist e of None \<Rightarrow> xs = [] | Some h \<Rightarrow> hist_holds xs h"
    and n: "n = min k (min (length xs) 127)"
  shows "ed_left (fold ed_input (replicate k CTRL_P) e) = (if n = 0 then [] else xs ! (n - 1)) \<and> ed_right (fold ed_input (replicate k CTRL_P) e) = []"
proof (cases "ed_hist e")
  case None
  have "ed_input CTRL_P e = e" using assms(1) None
    by (simp add: ed_input_def ed_key_of_def line_start_def command_keymap_def shell_install_def CTRL_P_def ed_recall_def)
  then have "fold ed_input (replicate k CTRL_P) e = e" by (induction k) auto
  with assms(2-4) n None show ?thesis by simp
next
  case (Some h)
  let ?e = "fold ed_input (replicate k CTRL_P) e"
  define m where "m = min (length xs) 127"
  have hh: "hist_holds xs h" using assms(4) Some by simp
  have "back_index (HISTORY_NEXT (h_last h)) 0 = h_current h" using hh by (simp add: back_simps(2) hist_holds_def)
  then have "line_start ?e \<and> ed_left ?e = (if min k m = 0 then [] else xs ! (min k m - 1)) \<and> ed_right ?e = []
    \<and> ed_hist ?e = Some (h\<lparr>h_current := back_index (HISTORY_NEXT (h_last h)) (min k m)\<rparr>)"
  proof (induction k)
    case 0
    then show ?case using assms(1-3) Some by simp
  next
    case (Suc k)
    let ?f = "fold ed_input (replicate k CTRL_P) e"
    from Suc have i: "line_start ?f" "ed_left ?f = (if min k m = 0 then [] else xs ! (min k m - 1))" "ed_right ?f = []"
      "ed_hist ?f = Some (h\<lparr>h_current := back_index (HISTORY_NEXT (h_last h)) (min k m)\<rparr>)" by simp_all
    have r: "fold ed_input (replicate (Suc k) CTRL_P) e = ed_input CTRL_P ?f" by (simp add: replicate_append_same [symmetric] del: replicate.simps)
    consider "min k m = m" "min (Suc k) m = m" | "min k m = k" "k < m" "min (Suc k) m = Suc k" by linarith
    then show ?case
    proof cases
      case 1
      with press_prev [OF i(1,4) hh m_def min.cobounded2] have "fold ed_input (replicate (Suc k) CTRL_P) e = ?f" unfolding r by simp
      with 1 i show ?thesis by (simp only:)
    next
      case 2
      with press_prev [OF i(1,4) hh m_def min.cobounded2] have "fold ed_input (replicate (Suc k) CTRL_P) e =
        ?f\<lparr>ed_left := xs ! k, ed_right := [], ed_hist := Some (h\<lparr>h_current := back_index (HISTORY_NEXT (h_last h)) (Suc k)\<rparr>)\<rparr>"
        unfolding r by simp
      then show ?thesis using 2(3) i(1) by (simp add: line_start_def del: replicate.simps fold_replicate)
    qed
  qed
  then show ?thesis unfolding n m_def by blast
qed

text \<open>An environment and a command set to evaluate on: \<open>show ip\<close> and \<open>show route\<close>.\<close>

definition quiet_env :: "nat sh_env" where
  "quiet_env = \<lparr>fresh_mem = (\<lambda>i. NUL),
     sh_cli = \<lparr>inet_pton4 = (\<lambda>w. True), strtod_rest = id, strtod_less = (\<lambda>a b. False), stat_of = (\<lambda>f. St_Enoent), readdir_of = (\<lambda>d. None), strftime_of = Some\<rparr>,
     run_cmd = (\<lambda>f argv sh. (sh, 0)), dirents_of = (\<lambda>d. None)\<rparr>"

definition two_commands :: "nat cmd_node" where
  "two_commands = CNode [] None None [CNode ''show'' None None [CNode ''ip'' None (Some 1) [], CNode ''route'' None (Some 2) []]]"

lemma quiet_rows: "prints_rows quiet_env"
  unfolding prints_rows_def
proof (intro allI)
  fix f argv sh
  show "\<exists>out. fst (run_cmd quiet_env f argv sh) = term_printf out sh \<and> (out = [] \<or> last out = Ch (CHR 0x0A))"
    by (rule exI [of _ "[]"]) (simp add: quiet_env_def term_printf_def)
qed

section \<open>Properties\<close>

text \<open>
  C22: Whatever editing keys are read, in blocks of any size, the buffer, the cursor, the cut text and
  the row on the screen are those of the abstract editor: the prompt, the text before and behind the
  cursor, and blanks.  No assertion fails and nothing is executed.
\<close>

theorem shell_shows_line:
  assumes "ed_sim e sh" "list_all (list_all edit_key) blocks" "e' = fold ed_input (concat blocks) e"
  shows "\<exists>sh' k. shell_session env blocks sh = Some (sh', []) \<and> ed_sim e' sh'
    \<and> line_from 0 sh' = ed_left e' @ ed_right e' \<and> sh_cursor sh' = length (ed_left e') \<and> cut_buffer sh' = ed_cut e'
    \<and> screen sh' = (ed_prompt e @ ed_left e' @ ed_right e' @ replicate k (CHR '' ''), length (ed_prompt e) + length (ed_left e'))"
proof -
  from session_sim_blocks [OF assms(1,2), of env] assms(3) obtain sh' where s: "shell_session env blocks sh = Some (sh', [])" "ed_sim e' sh'" by auto
  have "cut_buffer sh' = ed_cut e'" "ed_prompt e' = ed_prompt e" using s(2) assms(3) by (simp_all add: ed_sim_def)
  with s sim_screen [OF s(2)] show ?thesis by auto
qed

text \<open>Two words, control-B twice, a letter, and escape with the key that deletes: the letter is cut again.\<close>

theorem shell_shows_line_witness:
  "\<exists>sh' k. shell_session quiet_env [''ab cd'', [CHR 0x02, CHR 0x02], ''x'', [CHR 0x1B, CHR 0x7F]] (started (command_set_create :: nat cmd_node)) = Some (sh', [])
     \<and> line_from 0 sh' = ''ab cd'' \<and> cut_buffer sh' = Some ''x'' \<and> screen sh' = (''prompt> ab cd'' @ replicate k (CHR '' ''), 11)"
proof -
  let ?b = "[''ab cd'', [CHR 0x02, CHR 0x02], ''x'', [CHR 0x1B, CHR 0x7F]]"
  have k: "list_all (list_all edit_key) ?b" by code_simp
  let ?e = "fold ed_input (concat ?b) (ed_start (command_set_create :: nat cmd_node))"
  have e: "ed_left ?e = ''ab '' \<and> ed_right ?e = ''cd'' \<and> ed_cut ?e = Some ''x''" by code_simp
  have p: "ed_prompt (ed_start (command_set_create :: nat cmd_node)) = ''prompt> ''" by (simp add: ed_start_def)
  from shell_shows_line [OF started_sim k refl, of quiet_env command_set_create] obtain sh' m where
    r: "shell_session quiet_env ?b (started command_set_create) = Some (sh', [])" "line_from 0 sh' = ed_left ?e @ ed_right ?e" "cut_buffer sh' = ed_cut ?e"
    "screen sh' = (''prompt> '' @ ed_left ?e @ ed_right ?e @ replicate m (CHR '' ''), length ''prompt> '' + length (ed_left ?e))"
    unfolding p by blast
  have "line_from 0 sh' = ''ab cd'' \<and> cut_buffer sh' = Some ''x'' \<and> screen sh' = (''prompt> ab cd'' @ replicate m (CHR '' ''), 11)"
    using r(2-4) unfolding e [THEN conjunct1] e [THEN conjunct2, THEN conjunct1] e [THEN conjunct2, THEN conjunct2] by simp
  with r(1) show ?thesis by blast
qed



lemma find_word_end:
  assumes "fst W \<le> i + length l" "W = hd (strseps ds i (l @ r)) \<or> fst W + length (snd W) < i + length l"
  shows "case find_word (i + length l) W (strseps ds i (l @ r)) of
      (start, w) \<Rightarrow>
        (if start + length w < i + length l then i + length l else start + length w) = i + length l + length (takeWhile (\<lambda>c. c \<notin> set ds) r)"
  using assms
proof (induction "length l" arbitrary: l i W rule: less_induct)
  case less
  show ?case
  proof (rule first_delim [of l ds])
    assume n: "set l \<inter> set ds = {}"
    let ?w = "l @ takeWhile (\<lambda>c. c \<notin> set ds) r"
    from strseps_word [OF n, of i r] obtain toks where
      t: "strseps ds i (l @ r) = (i, ?w) # toks" "toks = [] \<or> i + length l < fst (hd toks)" by blast
    have stop: "find_word (i + length l) V toks = V" if "fst V \<le> i + length l" for V
      using t(2) that by (cases toks) auto
    show ?thesis using t(1) stop [of W] stop [of "(i, ?w)"] less.prems by (cases W) auto
  next
    fix a c l2
    assume l: "l = a @ c # l2" and a: "set a \<inter> set ds = {}" "c \<in> set ds"
    define V where "V = (if a \<noteq> [] then (i, a) else W)"
    have eq: "i + length l = i + length a + 1 + length l2" using l by simp
    have s: "strseps ds i (l @ r) = (i, a) # strseps ds (i + length a + 1) (l2 @ r)" using strseps_delim [OF a, of i "l2 @ r"] l by simp
    have V: "fst V \<le> i + length a + 1 + length l2" "fst V + length (snd V) < i + length a + 1 + length l2"
      using less.prems eq s by (auto simp: V_def)
    from less.hyps [OF _ V(1)] V(2) l have IH: "case find_word (i + length a + 1 + length l2) V (strseps ds (i + length a + 1) (l2 @ r)) of
      (start, w) \<Rightarrow> (if start + length w < i + length a + 1 + length l2 then i + length a + 1 + length l2 else start + length w) =
        i + length a + 1 + length l2 + length (takeWhile (\<lambda>c. c \<notin> set ds) r)" by simp
    have "find_word (i + length l) W (strseps ds i (l @ r)) = find_word (i + length a + 1 + length l2) V (strseps ds (i + length a + 1) (l2 @ r))"
      unfolding s using eq by (simp add: V_def add_ac)
    with IH show ?thesis unfolding eq by simp
  qed
qed

lemma sim_completion:
  assumes "ed_sim e sh" "command_complete (sh_cli env) (ed_left e @ ed_right e) (ed_commands e) = Some c" "list_all plain c"
    and w: "w = takeWhile (\<lambda>x. x \<noteq> CHR '' '') (ed_right e)"
  shows "\<exists>sh'. command_shell_completion env sh = Some sh' \<and> ed_sim (e\<lparr>ed_left := ed_left e @ w @ c, ed_right := drop (length w) (ed_right e)\<rparr>) sh'"
proof -
  note d = ed_simD [OF assms(1)]
  let ?l = "ed_left e" and ?r = "ed_right e" and ?n = "length (ed_left e) + length w"
  have lw: "length w \<le> length ?r" by (simp add: w length_takeWhile_le)
  have rw: "take (length w) ?r = w" unfolding w by (metis takeWhile_eq_take)
  have "case word_at SHELL_WORD_DELIMITERS (length ?l) (?l @ ?r) of
      (start, w') \<Rightarrow> (if start + length w' < length ?l then length ?l else start + length w') = ?n"
    using find_word_end [of "hd (strseps SHELL_WORD_DELIMITERS 0 (?l @ ?r))" 0 ?l SHELL_WORD_DELIMITERS ?r]
    by (auto simp: word_at_def w SHELL_WORD_DELIMITERS_def Let_def split: prod.splits if_splits)
  then have "shell_word_end (sh_cursor sh) sh = Some ?n" using d by (auto simp: shell_word_end_def split: prod.splits if_splits)
  moreover from sim_moveto [OF assms(1), of ?n] lw obtain sh1 where
    m: "shell_moveto ?n sh = Some sh1" "ed_sim (ed_to ?n e) sh1" by auto
  moreover have e1: "ed_to ?n e = e\<lparr>ed_left := ?l @ w, ed_right := drop (length w) ?r\<rparr>" using rw by (simp add: ed_to_def)
  moreover have "line_from 0 sh1 = ?l @ ?r" "cmdset sh1 = ed_commands e"
    using ed_simD [OF m(2)] m(2) rw by (simp_all add: e1 ed_sim_def) (metis append_take_drop_id)
  moreover have e2: "(ed_to ?n e)\<lparr>ed_left := ed_left (ed_to ?n e) @ c\<rparr> = e\<lparr>ed_left := ?l @ w @ c, ed_right := drop (length w) ?r\<rparr>"
    unfolding e1 by (cases e) simp
  moreover from sim_insert [OF m(2) assms(3), of "fresh_mem env"] obtain sh2 where
    i: "shell_insert (fresh_mem env) c sh1 = Some sh2" "ed_sim (e\<lparr>ed_left := ?l @ w @ c, ed_right := drop (length w) ?r\<rparr>) sh2"
    unfolding e2 by blast
  moreover have "term_flush sh2 = sh2" using i(2) by (cases sh2) (simp add: ed_sim_def term_flush_def)
  ultimately show ?thesis using d assms(2) by (simp add: command_shell_completion_def)
qed

text \<open>
  C25: The tabulator key moves the cursor to the end of the word and inserts what completes the whole
  line, so inside a line it is the completion of another word, the last one.
\<close>

theorem tab_inserts_completion:
  assumes "ed_sim e sh" "line_start e" "w = takeWhile (\<lambda>x. x \<noteq> CHR '' '') (ed_right e)"
    and "command_complete (sh_cli env) (ed_left e @ ed_right e) (ed_commands e) = Some c" "list_all plain c"
  shows "\<exists>sh' k. shell_input env (CHR 0x09) sh = Some (sh', None, 0)
    \<and> ed_sim (e\<lparr>ed_left := ed_left e @ w @ c, ed_right := drop (length w) (ed_right e)\<rparr>) sh'
    \<and> screen sh' = (ed_prompt e @ ed_left e @ w @ c @ drop (length w) (ed_right e) @ replicate k (CHR '' ''),
        length (ed_prompt e) + length (ed_left e @ w @ c))"
proof -
  let ?sh = "sh\<lparr>inputch := CHR 0x09\<rparr>"
  have s0: "ed_sim e ?sh" using assms(1) by (simp add: ed_sim_def)
  from sim_completion [OF s0 assms(4,5,3)] obtain sh' where
    s: "command_shell_completion env ?sh = Some sh'" "ed_sim (e\<lparr>ed_left := ed_left e @ w @ c, ed_right := drop (length w) (ed_right e)\<rparr>) sh'" by blast
  have "key_of ?sh (CHR 0x09) = Some K_completion" "\<not> fl_escape sh" using sim_key_of [OF s0, of "CHR 0x09"] assms(1,2)
    by (simp_all add: ed_sim_def line_start_def ed_key_of_def command_keymap_def shell_install_def)
  with s have "shell_input env (CHR 0x09) sh = Some (sh', None, 0)" by (simp add: shell_input_def key_call_def)
  with s(2) sim_screen [OF s(2)] show ?thesis by auto
qed

section \<open>Witnesses\<close>



text \<open>In \<open>sh ro\<close> with the cursor in the first word, the completion of \<open>ro\<close> is inserted behind \<open>sh\<close>.\<close>

theorem tab_inserts_completion_witness:
  "\<exists>e sh sh' k. shell_session quiet_env [''sh ro'' @ [CHR 0x01]] (started two_commands) = Some (sh, []) \<and> ed_sim e sh
     \<and> shell_input quiet_env (CHR 0x09) sh = Some (sh', None, 0) \<and> screen sh' = (''prompt> shute  ro'' @ replicate k (CHR '' ''), 14)"
proof -
  let ?b = "[''sh ro'' @ [CHR 0x01]]"
  let ?e = "fold ed_input (concat ?b) (ed_start two_commands)"
  have "list_all (list_all edit_key) ?b" by code_simp
  from session_sim_blocks [OF started_sim this] obtain sh where s: "shell_session quiet_env ?b (started two_commands) = Some (sh, [])" "ed_sim ?e sh" by blast
  have e: "ed_left ?e = [] \<and> ed_right ?e = ''sh ro''" "line_start ?e" by code_simp+
  have c: "ed_commands ?e = two_commands" "ed_prompt ?e = ''prompt> ''" unfolding ed_fold_const by (simp_all add: ed_start_def)
  have "command_complete (sh_cli quiet_env) (ed_left ?e @ ed_right ?e) (ed_commands ?e) = Some ''ute ''" unfolding c by code_simp
  from tab_inserts_completion [OF s(2) e(2) refl this] obtain sh' m where
    "shell_input quiet_env (CHR 0x09) sh = Some (sh', None, 0)"
    "screen sh' = (''prompt> '' @ [] @ takeWhile (\<lambda>x. x \<noteq> CHR '' '') ''sh ro'' @ ''ute '' @ drop (length (takeWhile (\<lambda>x. x \<noteq> CHR '' '') ''sh ro'')) ''sh ro'' @ replicate m (CHR '' ''),
      length ''prompt> '' + length ([] @ takeWhile (\<lambda>x. x \<noteq> CHR '' '') ''sh ro'' @ ''ute ''))"
    unfolding e(1) [THEN conjunct1] e(1) [THEN conjunct2] c(2) by (auto simp: plain_def NUL_def CTRL_H_def)
  with s show ?thesis by auto
qed

end
