(* ===== verification/Telnet_Facts.thy ===== *)
theory Telnet_Facts
  imports Shell_Facts
begin

text \<open>
  Telnet negotiations between the keys: \<open>telnet_sim\<close> is the state of the shell inside of one, when the
  text is that of the editor but debug output may stand on the screen.
\<close>

lemma rows_fold:
  assumes "rows ts" "blank_from n row"
  shows "\<exists>row' col'. fold term_step ts (row, col) = (row', col') \<and> blank_from n row'"
proof (cases ts rule: rev_cases)
  case (snoc us u)
  obtain r c where "fold term_step us (row, col) = (r, c)" by fastforce
  with snoc assms show ?thesis by (auto simp: rows_def CTRL_H_def)
qed (use assms in auto)

definition telnet_sim :: "'f ed \<Rightarrow> keymap_id \<Rightarrow> string \<Rightarrow> 'f shell \<Rightarrow> bool" where
  "telnet_sim e k bs sh \<longleftrightarrow> text_at (ed_left e) (ed_right e) sh \<and> ready sh \<and> rows (terminal_buf sh)
     \<and> (\<exists>row col. screen sh = (row, col) \<and> blank_from (length (ed_prompt e) + length (ed_left e) + length (ed_right e)) row)
     \<and> cut_buffer sh = ed_cut e \<and> pred_option (list_all plain) (ed_cut e) \<and> sh_keymap sh = k \<and> \<not> fl_escape sh \<and> sh_history sh = ed_hist e
     \<and> pred_option hist_ok (ed_hist e) \<and> keymap_normal sh = vty_keymap \<and> cmdset sh = ed_commands e \<and> sh_prompt sh = ed_prompt e
     \<and> subnego_buf sh = bs"

lemma telnet_sim_start: "ed_sim e sh \<Longrightarrow> line_start e \<Longrightarrow> keymap_normal sh = vty_keymap \<Longrightarrow> telnet_sim e Keymap_Normal (subnego_buf sh) sh"
  using edits_screen [of "ed_left e" "ed_right e" sh]
  by (auto simp: telnet_sim_def ed_sim_def line_start_def edits_def rows_def blank_from_def)

lemma telnet_sim_fields [simp]:
  "telnet_sim e k bs (sh\<lparr>sh_keymap := k'\<rparr>) \<longleftrightarrow> telnet_sim e (sh_keymap sh) bs sh \<and> k = k'"
  "telnet_sim e k bs (sh\<lparr>subnego_buf := b\<rparr>) \<longleftrightarrow> telnet_sim e k (subnego_buf sh) sh \<and> bs = b"
  "telnet_sim e k bs (sh\<lparr>telnet_cmd := c\<rparr>) = telnet_sim e k bs sh"
  "telnet_sim e k bs (sh\<lparr>inputch := c\<rparr>) = telnet_sim e k bs sh"
  "telnet_sim e k bs (sh\<lparr>ws_col := w\<rparr>) = telnet_sim e k bs sh"
  "telnet_sim e k bs (sh\<lparr>ws_row := w\<rparr>) = telnet_sim e k bs sh"
  by (auto simp: telnet_sim_def text_at_def ready_def screen_def)

lemma telnet_sim_key: "telnet_sim e k bs sh \<Longrightarrow> sh_keymap sh = k \<and> subnego_buf sh = bs \<and> \<not> fl_escape sh \<and> keymap_normal sh = vty_keymap"
  by (simp add: telnet_sim_def)

lemma telnet_sim_debug: "telnet_sim e k bs sh \<Longrightarrow> telnet_sim e k bs (telnet_debug s sh)"
  using rows_append [OF _ rows_newline [of sh s], of "terminal_buf sh"]
  by (auto simp: telnet_sim_def telnet_debug_def term_printf_def text_at_def ready_def screen_def)

lemma telnet_sim_flush:
  assumes "telnet_sim e k bs sh"
  shows "telnet_sim e k bs (term_flush sh)"
proof -
  let ?n = "length (ed_prompt e) + length (ed_left e) + length (ed_right e)"
  from assms obtain row col where "screen sh = (row, col)" "blank_from ?n row" "rows (terminal_buf sh)" by (auto simp: telnet_sim_def)
  with rows_fold [OF this(3,2), of col] obtain row' col' where "screen (term_flush sh) = (row', col')" "blank_from ?n row'" by auto
  with assms show ?thesis by (auto simp: telnet_sim_def term_flush_def text_at_def ready_def rows_def)
qed

lemma telnet_debug_fields [simp]:
  "sh_keymap (telnet_debug s sh) = sh_keymap sh" "subnego_buf (telnet_debug s sh) = subnego_buf sh" "inputch (telnet_debug s sh) = inputch sh"
  "ws_col (telnet_debug s sh) = ws_col sh" "ws_row (telnet_debug s sh) = ws_row sh" "fl_telnet_debug (telnet_debug s sh) = fl_telnet_debug sh"
  by (simp_all add: telnet_debug_def term_printf_def)

text \<open>The steps of a sub-negotiation.\<close>

lemma telnet_input:
  assumes "telnet_sim e k bs sh" "key_of (sh\<lparr>inputch := c\<rparr>) c = Some f" "f \<noteq> K_execute"
  shows "shell_input env c sh = map_option (\<lambda>sh. (sh, None, 0)) (run_key env f (sh\<lparr>inputch := c\<rparr>))"
  using assms telnet_sim_key [OF assms(1)] by (cases "run_key env f (sh\<lparr>inputch := c\<rparr>)") (auto simp: shell_input_def key_call_def)

lemma telnet_iac:
  assumes "telnet_sim e k bs sh" "k = Keymap_Normal \<or> k = Keymap_Subnego"
  shows "\<exists>sh'. shell_input env IAC sh = Some (sh', None, 0) \<and> telnet_sim e Keymap_Iac_1 bs sh'"
proof -
  have "key_of (sh\<lparr>inputch := IAC\<rparr>) IAC = Some T_iac_start" using telnet_sim_key [OF assms(1)] assms(2)
    by (auto simp: key_of_def vty_keymap_def shell_install_def key_func_subnego_def)
  from telnet_input [OF assms(1) this] telnet_sim_key [OF assms(1)] assms(1) show ?thesis by auto
qed

lemma telnet_sb:
  assumes "telnet_sim e Keymap_Iac_1 bs sh"
  shows "\<exists>sh'. shell_input env SB sh = Some (sh', None, 0) \<and> telnet_sim e Keymap_Subnego [] sh'"
proof -
  note k = telnet_sim_key [OF assms]
  then have f: "key_of (sh\<lparr>inputch := SB\<rparr>) SB = Some T_sb_start" by (simp add: key_of_def key_func_iac_1_def)
  have "telnet_sim e Keymap_Subnego [] (sh\<lparr>inputch := SB, sh_keymap := Keymap_Subnego, subnego_buf := []\<rparr>)"
    using assms k by simp
  from telnet_sim_flush [OF telnet_sim_debug [OF this]] telnet_input [OF assms f] show ?thesis
    by (simp add: vty_shell_keyfunc_sb_start_def Let_def)
qed

lemma telnet_byte:
  assumes "telnet_sim e Keymap_Subnego bs sh" "c \<noteq> IAC"
  shows "\<exists>sh'. shell_input env c sh = Some (sh', None, 0) \<and> telnet_sim e Keymap_Subnego (if length bs < 256 then bs @ [c] else bs) sh'"
proof -
  note k = telnet_sim_key [OF assms(1)]
  then have f: "key_of (sh\<lparr>inputch := c\<rparr>) c = Some T_subnego" using assms(2) by (simp add: key_of_def key_func_subnego_def)
  have "telnet_sim e Keymap_Subnego (if length bs < 256 then bs @ [c] else bs)
      (if length bs < 256 then sh\<lparr>inputch := c, subnego_buf := bs @ [c]\<rparr> else sh\<lparr>inputch := c\<rparr>)"
    using assms k by simp
  from telnet_sim_flush [OF this] telnet_input [OF assms(1) f] k show ?thesis
    by (auto simp: vty_shell_keyfunc_subnego_def)
qed

text \<open>What a sub-negotiation does to the window size.\<close>

definition winsize_of :: "string \<Rightarrow> u16 \<times> u16 \<Rightarrow> u16 \<times> u16" where
  "winsize_of bs rc =
     (case bs of [opt, w1, w2, h1, h2] \<Rightarrow> if opt = CHR 0x1F then (u_short_of h1 h2, u_short_of w1 w2) else rc | _ \<Rightarrow> rc)"

lemma not_winsize:
  assumes "\<nexists>w1 w2 h1 h2. bs = [CHR 0x1F, w1, w2, h1, h2]"
  shows "(case bs of [opt, w1, w2, h1, h2] \<Rightarrow> if opt = CHR 0x1F then f w1 w2 h1 h2 else y | _ \<Rightarrow> y) = y"
proof (cases "length bs = 5")
  case True
  then obtain a b c d e where "bs = [a, b, c, d, e]" by (auto simp: numeral_eq_Suc length_Suc_conv)
  with assms show ?thesis by simp
qed (auto split: list.split)

lemma telnet_end:
  assumes t: "telnet_sim e Keymap_Iac_1 bs sh" and n: "line_start e"
  shows "case subnego_str bs of
      None \<Rightarrow> shell_input env SE sh = None
    | Some s \<Rightarrow> \<exists>sh'. shell_input env SE sh = Some (sh', None, 0) \<and> ed_sim e sh' \<and> keymap_normal sh' = vty_keymap
        \<and> (ws_row sh', ws_col sh') = winsize_of bs (ws_row sh, ws_col sh)"
proof -
  note k = telnet_sim_key [OF t]
  have f: "key_of (sh\<lparr>inputch := SE\<rparr>) SE = Some T_sb_end" using k by (simp add: key_of_def key_func_iac_1_def SE_def SB_def)
  define sh1 where "sh1 = telnet_debug (''IAC SE ('' @ hhx_str SE @ '').'') (sh\<lparr>inputch := SE, sh_keymap := Keymap_Normal\<rparr>)"
  have 1: "telnet_sim e Keymap_Normal bs sh1" "ws_row sh1 = ws_row sh" "ws_col sh1 = ws_col sh" "subnego_buf sh1 = bs" using t k
    by (auto simp: sh1_def intro!: telnet_sim_debug)
  show ?thesis
  proof (cases "subnego_str bs")
    case None
    with telnet_input [OF t f] 1(4) show ?thesis by (simp add: vty_shell_keyfunc_sb_end_def sh1_def)
  next
    case (Some s)
    define sh2 where "sh2 = telnet_debug (''telnet_sb: '' @ s) sh1"
    define sh3 where "sh3 = (case bs of
                   [opt, w1, w2, h1, h2] \<Rightarrow>
                     if opt = CHR 0x1F
                     then (let sh = sh2\<lparr>ws_col := u_short_of w1 w2, ws_row := u_short_of h1 h2\<rparr>
                           in telnet_debug (''width: '' @ dec_str (unat (ws_col sh)) @ '' height: '' @ dec_str (unat (ws_row sh))) sh)
                     else sh2
                 | _ \<Rightarrow> sh2)"
    have 2: "telnet_sim e Keymap_Normal bs sh2" "ws_row sh2 = ws_row sh" "ws_col sh2 = ws_col sh" "subnego_buf sh2 = bs"
      using 1 by (auto simp: sh2_def intro!: telnet_sim_debug)
    have 3: "telnet_sim e Keymap_Normal bs sh3 \<and> (ws_row sh3, ws_col sh3) = winsize_of bs (ws_row sh, ws_col sh)"
    proof (cases "\<exists>w1 w2 h1 h2. bs = [CHR 0x1F, w1, w2, h1, h2]")
      case True
      then obtain w1 w2 h1 h2 where b: "bs = [CHR 0x1F, w1, w2, h1, h2]" by blast
      define sh' where "sh' = sh2\<lparr>ws_col := u_short_of w1 w2, ws_row := u_short_of h1 h2\<rparr>"
      obtain d where sh3: "sh3 = telnet_debug d sh'" by (simp add: sh3_def b sh'_def)
      have "telnet_sim e Keymap_Normal bs sh'" using 2(1) by (simp add: sh'_def)
      from telnet_sim_debug [OF this, of d] show ?thesis by (simp add: sh3 winsize_of_def b) (simp add: sh'_def)
    next
      case False
      show ?thesis using 2 unfolding sh3_def winsize_of_def not_winsize [OF False] by simp
    qed
    define sh4 where "sh4 = term_flush sh3"
    note t4 = telnet_sim_flush [OF 3 [THEN conjunct1], folded sh4_def]
    have w4: "terminal_buf sh4 = []" "ws_row sh4 = ws_row sh3" "ws_col sh4 = ws_col sh3" by (simp_all add: sh4_def term_flush_def)
    from t4 obtain row col where "text_at (ed_left e) (ed_right e) sh4" "ready sh4" "screen sh4 = (row, col)"
      "blank_from (length (sh_prompt sh4) + length (ed_left e) + length (ed_right e)) row" by (auto simp: telnet_sim_def)
    with shell_refresh_edits [OF this(1,2), of row col] w4(1) have r: "edits (ed_left e) (ed_right e) (shell_refresh sh4)"
      "same (sh4\<lparr>terminal_buf := []\<rparr>) (shell_refresh sh4)" "cut_buffer (shell_refresh sh4) = cut_buffer sh4" by auto
    have "ed_sim e (shell_refresh sh4)" using r t4 n by (simp add: telnet_sim_def ed_sim_def same_def line_start_def)
    moreover have "keymap_normal (shell_refresh sh4) = vty_keymap" "(ws_row (shell_refresh sh4), ws_col (shell_refresh sh4)) = winsize_of bs (ws_row sh, ws_col sh)"
      using r(2) t4 w4 3 by (simp_all add: same_def telnet_sim_def)
    moreover have "run_key env T_sb_end (sh\<lparr>inputch := SE\<rparr>) = Some (shell_refresh sh4)"
    proof -
      have i: "inputch (sh\<lparr>inputch := SE, sh_keymap := Keymap_Normal\<rparr>) = SE" "inputch (sh\<lparr>inputch := SE\<rparr>) = SE" by simp_all
      show ?thesis
        unfolding run_key.simps vty_shell_keyfunc_sb_end_def i sh1_def [symmetric] Let_def 1(4) Some bind.bind_lunit sh2_def [symmetric] 2(4) sh4_def sh3_def ..
    qed
    ultimately show ?thesis using telnet_input [OF t f] Some by simp
  qed
qed

lemma read_step: "shell_input env c sh = Some (sh1, None, 0) \<Longrightarrow> shell_read env (c # cs) sh = shell_read env cs sh1"
  by (cases "shell_read env cs sh1") (auto simp: list_of_option_def)

lemma telnet_bytes:
  assumes "telnet_sim e Keymap_Subnego bs sh" "length bs \<le> 256" "list_all (\<lambda>c. c \<noteq> IAC) cs"
  shows "\<exists>sh'. (\<forall>rest. shell_read env (cs @ rest) sh = shell_read env rest sh') \<and> telnet_sim e Keymap_Subnego (take 256 (bs @ cs)) sh'"
  using assms
proof (induction cs arbitrary: bs sh)
  case (Cons c cs)
  let ?bs = "if length bs < 256 then bs @ [c] else bs"
  from telnet_byte [OF Cons.prems(1), of c env] Cons.prems(3) obtain sh1 where
    s: "shell_input env c sh = Some (sh1, None, 0)" "telnet_sim e Keymap_Subnego ?bs sh1" by auto
  have "take 256 (?bs @ cs) = take 256 (bs @ c # cs)" "length ?bs \<le> 256" using Cons.prems(2) by (auto simp: take_Cons')
  with Cons.IH [OF s(2)] Cons.prems(3) obtain sh' where
    "\<forall>rest. shell_read env (cs @ rest) sh1 = shell_read env rest sh'" "telnet_sim e Keymap_Subnego (take 256 (bs @ c # cs)) sh'" by auto
  moreover have "shell_read env ((c # cs) @ rest) sh = shell_read env (cs @ rest) sh1" for rest
    using read_step [OF s(1)] by (simp only: append_Cons)
  ultimately show ?case by (intro exI [of _ sh']) (simp only: simp_thms)
qed auto

lemma telnet_subnegotiation:
  assumes "ed_sim e sh" "line_start e" "keymap_normal sh = vty_keymap" "list_all (\<lambda>c. c \<noteq> IAC) bs"
  shows "case subnego_str (take 256 bs) of
      None \<Rightarrow> shell_read env (IAC # SB # bs @ [IAC, SE]) sh = None
    | Some s \<Rightarrow> \<exists>sh' rc. shell_read env (IAC # SB # bs @ [IAC, SE]) sh = Some (sh', [], 0) \<and> ed_sim e sh' \<and> keymap_normal sh' = vty_keymap
        \<and> (ws_row sh', ws_col sh') = winsize_of (take 256 bs) rc"
proof -
  from telnet_iac [OF telnet_sim_start [OF assms(1-3)]] obtain sh1 where
    1: "shell_input env IAC sh = Some (sh1, None, 0)" "telnet_sim e Keymap_Iac_1 (subnego_buf sh) sh1" by blast
  from telnet_sb [OF 1(2)] obtain sh2 where
    2: "shell_input env SB sh1 = Some (sh2, None, 0)" "telnet_sim e Keymap_Subnego [] sh2" by blast
  from telnet_bytes [OF 2(2) _ assms(4), of env] obtain sh3 where
    3: "\<And>rest. shell_read env (bs @ rest) sh2 = shell_read env rest sh3" "telnet_sim e Keymap_Subnego (take 256 bs) sh3" by auto
  from telnet_iac [OF 3(2)] obtain sh4 where
    4: "shell_input env IAC sh3 = Some (sh4, None, 0)" "telnet_sim e Keymap_Iac_1 (take 256 bs) sh4" by blast
  have "shell_read env (IAC # SB # bs @ [IAC, SE]) sh = shell_read env [SE] sh4"
    by (simp only: read_step [OF 1(1)] read_step [OF 2(1)] 3(1) read_step [OF 4(1)])
  note r = this and x = telnet_end [OF 4(2) assms(2), of env]
  show ?thesis
  proof (cases "subnego_str (take 256 bs)")
    case None
    with r x show ?thesis by simp
  next
    case (Some s)
    with x obtain sh' where "shell_input env SE sh4 = Some (sh', None, 0)" "ed_sim e sh'" "keymap_normal sh' = vty_keymap"
      "(ws_row sh', ws_col sh') = winsize_of (take 256 bs) (ws_row sh4, ws_col sh4)" by auto
    moreover from this(1) have "shell_read env (IAC # SB # bs @ [IAC, SE]) sh = Some (sh', [], 0)" unfolding r by (simp add: list_of_option_def)
    ultimately show ?thesis unfolding Some option.case by blast
  qed
qed

text \<open>How long the log of a sub-negotiation gets.\<close>

lemma length_hhx: "1 \<le> length (hhx_str c)" "length (hhx_str c) \<le> 4"
  by (simp_all add: hhx_str_def Let_def)

lemma subnego_bytes_long: "subnego_bytes bs s = Some t \<Longrightarrow> length s + 2 * length bs \<le> length t"
proof (induction bs arbitrary: s)
  case (Cons c bs)
  then have "subnego_bytes bs (s @ '' '' @ hhx_str c) = Some t" by (auto simp: subnego_print_def split: bind_splits if_splits)
  with Cons.IH [OF this] length_hhx(1) [of c] show ?case by simp
qed simp

lemma subnego_bytes_short: "length s + 5 * length bs \<le> 63 \<Longrightarrow> \<exists>t. subnego_bytes bs s = Some t \<and> length t \<le> 63"
proof (induction bs arbitrary: s)
  case (Cons c bs)
  then have "length (s @ '' '' @ hhx_str c) + 5 * length bs \<le> 63" using length_hhx(2) [of c] by simp
  from Cons.IH [OF this] Cons.prems show ?case by (simp add: subnego_print_def)
qed simp

lemma dec_str_length: "n < 100 \<Longrightarrow> length (dec_str n) \<le> 2" "1 \<le> length (dec_str n)"
  by (subst dec_str.simps, subst dec_str.simps, simp)+

lemma subnego_str_defined: "length bs \<le> 10 \<Longrightarrow> subnego_str bs \<noteq> None"
proof -
  assume n: "length bs \<le> 10"
  let ?s = "''len: '' @ dec_str (length bs) @ '' [''"
  have "length ?s + 5 * length bs \<le> 63" using n dec_str_length(1) [of "length bs"] by simp
  from subnego_bytes_short [OF this] obtain t where "subnego_bytes bs ?s = Some t" "length t \<le> 63" by blast
  then show ?thesis by (simp add: subnego_str_def subnego_print_def)
qed

lemma subnego_str_overflow: "28 \<le> length bs \<Longrightarrow> subnego_str bs = None"
proof -
  assume n: "28 \<le> length bs"
  let ?s = "''len: '' @ dec_str (length bs) @ '' [''"
  have s: "8 \<le> length ?s" using dec_str_length(2) [of "length bs"] by simp
  have "63 < length t" if "subnego_bytes bs ?s = Some t" for t using subnego_bytes_long [OF that] s n by simp
  then show ?thesis by (cases "subnego_bytes bs ?s") (auto simp: subnego_str_def subnego_print_def)
qed

text \<open>The value of two signed bytes.\<close>

lemma byte_sign: "0 \<le> m \<Longrightarrow> m < 256 \<Longrightarrow> signed_take_bit 7 m = (if m < 128 then m else m - 256)" for m :: int
proof -
  assume m: "0 \<le> m" "m < 256"
  have "signed_take_bit 7 m = (m + 128) mod 256 - 128" by (simp add: signed_take_bit_eq_take_bit_shift take_bit_eq_mod)
  moreover have "(m + 128) mod 256 = (if m < 128 then m + 128 else m - 128)"
  proof (cases "m < 128")
    case False
    have "(m - 128 + 256) mod 256 = (m - 128) mod 256" by (rule mod_add_self2)
    with False m show ?thesis by (simp add: add.commute)
  qed (use m in simp)
  ultimately show ?thesis by (simp split: if_splits)
qed

lemma sint_char: "sint (of_char c :: u8) = (if (of_char c :: int) < 128 then of_char c else of_char c - 256)"
proof -
  have n: "int (of_char c) = of_char c" "word_of_nat (of_char c) = (of_char c :: u8)" by (simp_all only: of_nat_of_char)
  have b: "0 \<le> int (of_char c)" "int (of_char c) < 256" by (simp_all del: of_nat_of_char)
  have "sint (word_of_nat (of_char c) :: u8) = signed_take_bit 7 (int (of_char c))" by (simp only: signed_of_nat) simp
  with byte_sign [OF b] show ?thesis unfolding n by simp
qed

lemma u_short_value:
  "uint (u_short_of hi lo) = (256 * of_char hi + (if (of_char lo :: int) < 128 then of_char lo else of_char lo - 256)) mod 65536"
proof -
  have "u_short_of hi lo = word_of_int (256 * sint (of_char hi :: u8) + sint (of_char lo :: u8))"
    by (simp add: u_short_of_def push_bit_eq_mult mult.commute)
  moreover have "uint (word_of_int x :: u16) = x mod 65536" for x by (simp add: uint_word_of_int)
  ultimately have "uint (u_short_of hi lo) = (256 * sint (of_char hi :: u8) + sint (of_char lo :: u8)) mod 65536" by metis
  moreover have "(256 * (x - 256) + y) mod 65536 = (256 * x + y) mod (65536 :: int)" for x y
  proof -
    have "256 * (x - 256) + y = 256 * x + y - 65536" by simp
    then show ?thesis by (simp only: minus_mod_self2)
  qed
  ultimately show ?thesis unfolding sint_char by (cases "(of_char hi :: int) < 128") (simp_all only: if_True if_False)
qed



text \<open>A terminal of the network after its start.\<close>

definition vty_started :: "'f cmd_node \<Rightarrow> 'f shell" where
  "vty_started root = (started root)\<lparr>keymap_normal := vty_keymap\<rparr>"

lemma edits_keymap [simp]: "edits l r (sh\<lparr>keymap_normal := m\<rparr>) = edits l r sh"
  by (simp add: edits_def text_at_def shown_def ready_def screen_def)

lemma vty_started_sim: "ed_sim (ed_start root) (vty_started root)" "line_start (ed_start root)" "keymap_normal (vty_started root) = vty_keymap"
  using started_sim [of root] by (simp_all add: ed_sim_def vty_started_def) (simp_all add: line_start_def ed_start_def)



end
