(* ===== verification/Listing_Facts.thy ===== *)
theory Listing_Facts
  imports Telnet_Facts
begin

text \<open>
  The listing of candidates by the question mark: it is defined for lines of up to 512 characters, ends
  with a line feed, and leaves the text alone (\<open>question_mark\<close>).
\<close>

section \<open>The listing of candidates\<close>

definition text_rows :: "string \<Rightarrow> bool" where
  "text_rows s \<longleftrightarrow> s = [] \<or> last s = CHR 0x0A"

lemma rows_text: "text_rows s \<Longrightarrow> rows (map Ch s)"
  by (cases s rule: rev_cases) (auto simp: text_rows_def rows_def)

lemma text_rows_append: "text_rows a \<Longrightarrow> text_rows b \<Longrightarrow> text_rows (a @ b)"
  by (cases b rule: rev_cases) (auto simp: text_rows_def)

lemma text_rows_concat: "(\<And>x. x \<in> set xs \<Longrightarrow> text_rows (f x)) \<Longrightarrow> text_rows (concat (map f xs))"
  by (induction xs) (auto intro!: text_rows_append simp: text_rows_def [of "[]"])

lemma text_rows_NL: "ready sh \<Longrightarrow> text_rows (s @ sh_NL sh)"
  by (auto simp: text_rows_def ready_def)

lemma text_rows_ls:
  assumes "ready sh"
  shows "text_rows (ls_line sh w h)" "text_rows (ls_node env sh word node)" "text_rows (file_ls_candidate env sh path)"
proof -
  show l: "text_rows (ls_line sh w h)" for w h
    using text_rows_NL [OF assms, of "''  '' @ pad_right 16 w @ '' '' @ (case h of None \<Rightarrow> ''(null)'' | Some h \<Rightarrow> h)"] by (simp add: ls_line_def)
  show "text_rows (ls_node env sh word node)" using l by (simp add: ls_node_def) (simp add: text_rows_def)
  show "text_rows (file_ls_candidate env sh path)"
    unfolding file_ls_candidate_def Let_def append_assoc [symmetric] using text_rows_NL [OF assms]
    by (simp only: split: prod.split option.split) blast
qed

lemma ls_nodes_rows:
  assumes "ready sh"
  shows "text_rows (ls_nodes env sh cmdnodes last_arg word)"
proof -
  note t = text_rows_ls [OF assms]
  have e: "text_rows []" by (simp add: text_rows_def)
  have 1: "text_rows (concat (map (ls_node env sh word) ns))" for ns by (intro text_rows_concat t)
  have "text_rows (concat (map (\<lambda>node. ls_node env sh word node @ (if file_spec (cmdstr node) then file_ls_candidate env sh word else [])) ns))" for ns
    using t e by (intro text_rows_append text_rows_concat) auto
  with e t(1) have "text_rows ((if b then ls_line sh ''<cr>'' h else [])
      @ concat (map (\<lambda>node. ls_node env sh word node @ (if file_spec (cmdstr node) then file_ls_candidate env sh word else [])) ns))" for b h ns
    by (intro text_rows_append) (simp_all only: if_split simp_thms)
  with 1 e show ?thesis unfolding ls_nodes_def by (cases "0 < last_arg"; cases "cmdnodes ! (last_arg - 1)") (simp_all only: if_True if_False option.case)
qed

lemma ls_candidates_rows: "ls_candidates env sh = Some text \<Longrightarrow> ready sh \<Longrightarrow> text_rows text"
  using ls_nodes_rows [of sh env] by (auto simp: ls_candidates_def split: bind_splits prod.splits)

lemma ls_candidates_cong:
  assumes "line_from 0 sh' = line_from 0 sh" "same (sh\<lparr>terminal_buf := []\<rparr>) (sh'\<lparr>terminal_buf := []\<rparr>)"
  shows "ls_candidates env sh' = ls_candidates env sh"
proof -
  have nl: "sh_NL sh' = sh_NL sh" "cmdset sh' = cmdset sh" "ws_col sh' = ws_col sh" using assms(2) by (simp_all add: same_def)
  then have l: "ls_line sh' = ls_line sh" by (intro ext) (simp add: ls_line_def)
  then have n: "ls_node env sh' = ls_node env sh" by (intro ext) (simp add: ls_node_def)
  have f: "file_ls_candidate env sh' = file_ls_candidate env sh" by (intro ext) (simp only: file_ls_candidate_def nl)
  show ?thesis unfolding ls_candidates_def ls_nodes_def l n f nl(2) assms(1) ..
qed

lemma sim_ls_candidate:
  assumes "ed_sim e sh" "ls_candidates env sh = Some text"
  shows "\<exists>sh'. command_shell_ls_candidate env sh = Some sh' \<and> ed_sim (ed_to (length (ed_left e @ ed_right e)) e) sh'"
proof -
  note d = ed_simD [OF assms(1)]
  let ?t = "ed_left e @ ed_right e"
  define sh1 where "sh1 = shell_linefeed sh"
  have s1: "edits (ed_left e) (ed_right e) sh1" "terminal_buf sh1 = map Ch (sh_NL sh)" "same (sh\<lparr>terminal_buf := []\<rparr>) (sh1\<lparr>terminal_buf := []\<rparr>)"
    "cut_buffer sh1 = cut_buffer sh" "sh_cursor sh1 = sh_cursor sh" "sh_end sh1 = sh_end sh"
    using d assms(1) sim_printf [OF assms(1)] by (simp_all add: sh1_def shell_linefeed_def term_printf_def same_def ed_sim_def)
  define sh2 where "sh2 = (if sh_cursor sh1 \<noteq> sh_end sh1 then shell_refresh (sh1\<lparr>sh_cursor := sh_end sh1\<rparr>) else sh1)"
  have pr: "sh_prompt sh = ed_prompt e" "ready sh" using assms(1) d by (simp_all add: ed_sim_def edits_def)
  let ?n = "length (ed_prompt e) + length ?t"
  have nl: "rows (map Ch (sh_NL sh))" using rows_newline [OF pr(2), of "[]"] by simp
  have "text_at ?t [] sh2 \<and> ready sh2 \<and> rows (terminal_buf sh2) \<and> blank_from ?n (fst (screen sh2))
    \<and> same (sh\<lparr>terminal_buf := []\<rparr>) (sh2\<lparr>terminal_buf := []\<rparr>) \<and> cut_buffer sh2 = cut_buffer sh"
  proof (cases "ed_right e = []")
    case True
    obtain k where "screen sh1 = (sh_prompt sh1 @ ed_left e @ replicate k (CHR '' ''), length (sh_prompt sh1) + length (ed_left e))"
      using edits_screen [OF s1(1)] True by auto
    moreover have "sh_prompt sh1 = ed_prompt e" using s1(3) pr by (simp add: same_def)
    moreover have "sh2 = sh1" using True d s1(5,6) by (simp add: sh2_def)
    ultimately show ?thesis using s1 nl True by (simp add: edits_def blank_from_def)
  next
    case False
    define sh1' where "sh1' = sh1\<lparr>sh_cursor := sh_end sh1\<rparr>"
    have "text_at ?t [] sh1'" "ready sh1'" "terminal_buf sh1' = map Ch (sh_NL sh)" "sh_NL sh1' = sh_NL sh"
      using s1 by (auto simp: sh1'_def edits_def text_at_def ready_def same_def)
    moreover from term_newline [OF this(2), of "fst (screen sh1')" "snd (screen sh1')"] this(3,4) obtain n k where
      "fold term_step (terminal_buf sh1') (screen sh1') = (replicate n (CHR '' ''), k)" by auto
    ultimately have r: "edits ?t [] (shell_refresh sh1')" "same (sh1'\<lparr>terminal_buf := []\<rparr>) (shell_refresh sh1')"
      "cut_buffer (shell_refresh sh1') = cut_buffer sh1'" using shell_refresh_edits [of ?t "[]" sh1'] by simp_all
    have s: "same (sh\<lparr>terminal_buf := []\<rparr>) (shell_refresh sh1')" using s1(3) r(2) by (simp add: sh1'_def same_def)
    then have "sh_prompt (shell_refresh sh1') = ed_prompt e" "terminal_buf (shell_refresh sh1') = []" using pr by (simp_all add: same_def)
    moreover have "sh2 = shell_refresh sh1'" using False d s1(5,6) by (simp add: sh2_def sh1'_def)
    ultimately show ?thesis using r s edits_screen [OF r(1)] s1(4) by (auto simp: edits_def sh1'_def same_def rows_def blank_from_def)
  qed
  then have s2: "text_at ?t [] sh2" "ready sh2" "rows (terminal_buf sh2)" "blank_from ?n (fst (screen sh2))"
    "same (sh\<lparr>terminal_buf := []\<rparr>) (sh2\<lparr>terminal_buf := []\<rparr>)" "cut_buffer sh2 = cut_buffer sh" by blast+
  have "line_from 0 sh2 = line_from 0 sh" using text_line [OF s2(1)] d by simp
  from ls_candidates_cong [OF this s2(5)] assms(2) have l: "ls_candidates env sh2 = Some text" by simp
  define sh3 where "sh3 = term_printf (map Ch text) sh2"
  have r3: "rows (terminal_buf sh3)" using rows_append [OF s2(3) rows_text [OF ls_candidates_rows [OF l s2(2)]]] by (simp add: sh3_def)
  obtain row col where "screen sh3 = (row, col)" "blank_from ?n row" using s2(4) by (cases "screen sh2") (auto simp: sh3_def)
  with rows_fold [OF r3, of ?n row col] obtain row' col' where "fold term_step (terminal_buf sh3) (screen sh3) = (row', col')" "blank_from ?n row'" by auto
  moreover have "sh_prompt sh3 = ed_prompt e" using s2(5) pr by (simp add: sh3_def term_printf_def same_def)
  moreover have "text_at ?t [] sh3" "ready sh3" "cut_buffer sh3 = cut_buffer sh" "same (sh\<lparr>terminal_buf := []\<rparr>) (sh3\<lparr>terminal_buf := []\<rparr>)"
    using s2 by (simp_all add: sh3_def)
  ultimately have r: "edits ?t [] (shell_refresh sh3)" "same (sh\<lparr>terminal_buf := []\<rparr>) (shell_refresh sh3)" "cut_buffer (shell_refresh sh3) = cut_buffer sh"
    using shell_refresh_edits [of ?t "[]" sh3 row' col'] same_trans by (auto simp: add.assoc)
  have "command_shell_ls_candidate env sh = Some (shell_refresh sh3)"
    using d l by (simp add: command_shell_ls_candidate_def Let_def sh1_def [symmetric] sh2_def [symmetric] sh3_def)
  with sim_same_flushed [OF assms(1) r] show ?thesis by (simp add: ed_to_def)
qed

text \<open>The listing is defined for every line of up to 512 characters.\<close>

lemma split_prefix: "prefix (hd (split_on c l)) l"
proof (induction l)
  case (Cons x l)
  then show ?case by (cases "split_on c l") auto
qed simp

lemma split_sublist: "w \<in> set (split_on c l) \<Longrightarrow> sublist w l"
proof (induction l)
  case (Cons x l)
  obtain v vs where v: "split_on c l = v # vs" by (cases "split_on c l") (cases l; auto split: list.splits if_splits)+
  from Cons.prems v consider "w = []" | "w = x # v" | "w \<in> set (split_on c l)" by (auto split: if_splits)
  then show ?case
  proof cases
    case 2
    then have "prefix w (x # l)" using split_prefix [of c l] v by simp
    then show ?thesis by (rule prefix_imp_sublist)
  next
    case 3
    then show ?thesis using Cons.IH by (simp add: sublist_Cons_right)
  qed simp
qed simp

lemma strstr_sublist: "sublist w l \<Longrightarrow> strstr l w \<noteq> None"
  by (induction l) (auto simp: sublist_Cons_right)

lemma matched_nodes_args:
  "\<forall>w \<in> set argv. strstr line w \<noteq> None \<Longrightarrow> None \<notin> snd ` set (matched_nodes env line argv n) \<and> length (matched_nodes env line argv n) = length argv"
  by (induction env line argv n rule: matched_nodes.induct) (auto split: option.splits)

lemma ls_candidates_defined:
  assumes "length (line_from 0 sh) \<le> 512"
  shows "ls_candidates env sh \<noteq> None"
proof -
  define l argv where "l = line_from 0 sh" and "argv = split_on (CHR '' '') (shell_format3 l)"
  have p: "command_argv_parse l = Some argv" using argv_parse_short [OF assms] format3_words [of l] by (simp add: l_def argv_def)
  have "strstr l w \<noteq> None" if "w \<in> set argv" for w
    using that split_sublist [of w _ l] unfolding argv_def format3_words by (intro strstr_sublist) (auto split: if_splits)
  then have m: "None \<notin> snd ` set (matched_nodes (sh_cli env) l argv (cmdset sh))" "length (matched_nodes (sh_cli env) l argv (cmdset sh)) = length argv"
    using matched_nodes_args [of argv l "sh_cli env" "cmdset sh"] by blast+
  have "argv \<noteq> []" unfolding argv_def by (cases "shell_format3 l") (auto split: list.split)
  then have i: "length argv - 1 < length (matched_nodes (sh_cli env) l argv (cmdset sh))" using m(2) by (cases argv) auto
  have "snd (matched_nodes (sh_cli env) l argv (cmdset sh) ! (length argv - 1)) \<noteq> None"
    using m(1) imageI [OF nth_mem [OF i], of snd] by metis
  then have "map snd (matched_nodes (sh_cli env) l argv (cmdset sh)) ! (length argv - 1) \<noteq> None" using i by simp
  with p m(2) show ?thesis by (auto simp: ls_candidates_def l_def command_matched_nodes_def Let_def)
qed

text \<open>The question mark lists candidates and goes on with the same text and the cursor at its end.\<close>

theorem question_mark:
  assumes "ed_sim e sh" "line_start e" "length (ed_left e @ ed_right e) \<le> 512"
  shows "\<exists>sh'. shell_input env (CHR ''?'') sh = Some (sh', None, 0) \<and> ed_sim (ed_to (length (ed_left e @ ed_right e)) e) sh'"
proof -
  let ?sh = "sh\<lparr>inputch := CHR ''?''\<rparr>"
  have s0: "ed_sim e ?sh" using assms(1) by (simp add: ed_sim_def)
  have "length (line_from 0 ?sh) \<le> 512" using ed_simD [OF s0] assms(3) by simp
  from ls_candidates_defined [OF this, of env] sim_ls_candidate [OF s0, of env] obtain sh' where
    s: "command_shell_ls_candidate env ?sh = Some sh'" "ed_sim (ed_to (length (ed_left e @ ed_right e)) e) sh'" by blast
  have "key_of ?sh (CHR ''?'') = Some K_ls_candidate" "\<not> fl_escape sh" using sim_key_of [OF s0, of "CHR ''?''"] assms(1,2)
    by (simp_all add: ed_sim_def line_start_def ed_key_of_def command_keymap_def shell_install_def)
  with s show ?thesis by (simp add: shell_input_def key_call_def)
qed

text \<open>
  Behind a command with a single continuation \<open><cr>\<close> is not listed, since the empty word is taken for
  the continuation.
\<close>

lemma single_candidate_hides_cr:
  "ls_candidates quiet_env ((shell_create (CNode [] None None [CNode ''show'' None (Some 1) [CNode ''ip'' (Some ''address'') (Some 2) []]]))\<lparr>command_line := ''show '' @ [NUL]\<rparr>)
   = Some (''  ip               address'' @ [CHR 0x0A])"
  by code_simp

end
