(* ===== verification/Spec2Isabelle.thy ===== *)
theory Spec2Isabelle
  imports L2_Threads Queue Netlink_Facts Vector Listing_Facts
begin

text \<open>
  \<^bold>\<open>sdplane: the RIB manager and the forwarding threads\<close>

  sdplane is a DPDK software router.  A control thread, the RIB manager, receives internal messages
  (from the command line, from the netlink thread that follows the kernel, from the neighbor
  manager), keeps the configuration of ports, queues and virtual switches, the neighbor tables, the
  next hops and the routes, and after every message publishes a new copy of its state, a
  \<^verbatim>\<open>rib_info\<close>, through RCU.  Every forwarding thread reads the copy published last and moves
  packets between ports, virtual links and TAP interfaces; it never writes to it.  So the
  program has two halves, a state machine over messages and functions from a published state and a
  packet to what is sent, and the theorems of this theory put the halves together.

  \<^bold>\<open>Theories and sources\<close> (paths under src/)

    \<^item> Prelude: machine words, allocation, C arrays (\<^verbatim>\<open>memmove\<close>), address bits, cyclic scans.
    \<^item> Interfaces: the locales.  \<open>dictionary\<close>: a map with a representation invariant and failing
      insertion; \<open>longest_prefix_table\<close>: a table of prefixes answered by the longest match;
      \<open>replicated_table\<close>: a table and a copy that follows its announcements; \<open>fifo_queue\<close>;
      \<open>stepping\<close>: an invariant kept by every step.  Each is interpreted on the model in the theory
      of the component that provides it.
    \<^item> Radix: sdplane/radix.c, the radix tree of the RIB.
    \<^item> Fib: sdplane/fib.c, the 4-ary trie the forwarding threads search, and its rebuild from the RIB.
    \<^item> Hash_Table: sdplane/hash_table.c and jhash.h.
    \<^item> Nexthop: sdplane/nexthop.c, next-hop groups, the pool of descriptions, reference counts.
    \<^item> Neigh: sdplane/neigh_manager.c, the sorted neighbor tables, the messages of the neighbor
      manager, and their replica in the RIB manager.
    \<^item> Fdb: the forwarding database of sdplane/rib_manager.c.
    \<^item> Vswitch: the virtual switches, links and ports of sdplane/rib_manager.c with their messages.
    \<^item> Rib_Check: \<^verbatim>\<open>rib_check\<close> of sdplane/rib_manager.c, the check of the queue configuration,
      the set-up of ports and the creation of rings.
    \<^item> Rib_Manager: the rest of sdplane/rib_manager.c: every message handler, the rebuild of the
      FIB, the publication and the body of the main loop.
    \<^item> Packet: packet buffers, the interface to DPDK, sdplane/packet_hdr.h, packet_gen.h,
      control_packet.c and the sending side of internal_message.c.
    \<^item> Net_Subr: sdplane/net_subr.h, the subroutines the router threads share.
    \<^item> Router: sdplane/router.c, srv6.h and srv6_router.c.
    \<^item> L2_Threads: sdplane/l2_repeater.c, vlan_switch.c, l2_switch.c and enhanced_repeater.c.
    \<^item> Netlink: sdplane/netlink_thread.c, netlink_hook.c and netlink_seg6.h, the thread that follows the
      kernel; Netlink_Facts: its framing (locale \<open>framing\<close>) and properties.
    \<^item> Queue: lib/sdplane/queue.c.  Vector: lib/sdplane/vector.c (locale \<open>list_store\<close>).
    \<^item> Command: lib/sdplane/command.c, the command interpreter of the shell; Command_Facts: the tree
      of commands as a map, execution and completion.
    \<^item> Shell: lib/sdplane/shell.c, shell_keyfunc.c, shell_telnet.c and command_shell.c, the line editor
      of the terminals with its keys, words, history, completion, execution and telnet negotiation;
      Line_Editor: the abstract editor it carries out on the screen (locale \<open>simulation\<close>);
      Shell_Facts: sessions; Telnet_Facts: negotiations; Listing_Facts: the listing of candidates.

  \<^bold>\<open>How the code is modelled\<close>

  Structures are records with the fields of the code (\<open>rib_info\<close> extends the records of the queue
  configuration and the switches); tagged messages and tree nodes are datatypes; fixed arrays are
  lists of their fixed length, with the size in use beside them; 8-, 16- and 32-bit fields are
  words.  Functions of the code are functions with the state as an argument and in the result.  A
  result type \<open>option\<close> in which \<open>None\<close> is no answer of the code stands for undefined behavior: a
  null pointer followed, a failed assertion, an index outside an array.  Allocation is an oracle,
  a list of answers consumed one by one that allocates once it is empty, so every statement without
  a condition on it covers every pattern of failures.  The bytes of a packet are a list; headers are
  offsets into it; \<open>bytes_at\<close> reads past the end as zero.

  DPDK and the libraries are parameters: \<open>dpdk\<close> holds the functions of DPDK that the threads call,
  \<open>nl_env\<close> the numbers of the Linux headers that grow and the text functions of the C library,
  \<open>rib_env\<close> the ports, the clock and the creation of rings and TAP interfaces, \<open>cli_env\<close> the file
  system, \<open>sh_env\<close> new memory and the functions of the commands.  What the theorems assume of them
  is named: \<open>prints_rows\<close> (commands end what they print with a line feed), \<open>vlan_ops_ok\<close> (insertion
  and removal of a VLAN tag), \<open>dpdk_ok\<close> (also, that copies are as long as the original's headers),
  \<open>cksum_ok\<close> (the IPv4 checksum), \<open>env_ok\<close> (at most 256 ports).  Values read from uninitialised memory are parameters too (\<open>stack_u8\<close> and others).
  What a thread does is a list of events: packets given to a port or a ring and messages sent.

  Bounds.  The insertion into the FIB descends two bits at a time through at most 128 bits, and
  \<open>fib_fuel\<close>, 66 levels, is enough for every prefix (theory Fib).  The recursion of
  \<^verbatim>\<open>nexthop_add_entry\<close> has depth two (lemma \<open>nexthop_add_entry_rec\<close>).  The deletion of a switch
  is a loop without a bound in the code; its termination is a theorem.

  \<^bold>\<open>What is shown\<close>

    \<^item> The RIB tree is the map from prefixes to routes that its operations suggest, and the rebuilt
      FIB answers every address with the longest matching prefix of the RIB (Radix, Fib).
    \<^item> Every message keeps the invariant \<open>rib_inv\<close> of the RIB manager: switch tables consistent,
      reference counts exact, routes stored under their prefix with a next-hop index in range; and
      the published FIB agrees with the RIB (Rib_Manager).
    \<^item> Neighbor tables are sorted and searched correctly, and the copy in the RIB manager follows
      the neighbor manager (Neigh).
    \<^item> Every published state is fit for the forwarding threads (\<open>dp_ready\<close>: every index stored in a
      switch or port is within its table; Net_Subr).  On such a state the packet functions are
      described exactly, by the copies they send: tagging, flooding, switching, forwarding, the
      repeaters, the segment-routing step.
    \<^item> The netlink thread finds the attributes of a message, sends the RIB manager exactly the routes
      the kernel announced, and whatever arrives sends it only valid messages (Netlink_Facts).
    \<^item> Commands that were installed run as installed, only what was typed is executed, completion
      extends a word by what its candidates agree on (Command_Facts).  Whatever keys are typed, the
      buffer of the shell and the row on the screen are those of an abstract editor; Enter executes
      the text, and the history recalls the lines in order (Line_Editor, Shell_Facts); telnet
      negotiations in between leave it alone (Telnet_Facts).
    \<^item> Together (this theory): packets follow the routes of the RIB, and the router thread
      does not crash on any packet after any sequence of messages, provided routes have next hops
      that resolve; the same holds when the
      messages come from the kernel, and a route announced by the kernel reaches the packets.
    \<^item> Where the code does not do what it means to do, a theorem says what it does instead; these
      are listed with the findings.

  \<^bold>\<open>What is not modelled\<close>

  Statistics other than the packet counters, debug and log output, and formatting for display.  The
  release of memory, except where its order matters.  RCU itself: a thread is given the state
  published last.  Reading packets and messages from rings and sockets (the bursts and the
  datagrams are arguments);
  the TAP handlers, which only copy between the kernel and these rings; the opening of the
  netlink sockets and the requests at start-up; the pager of the shell and the show commands; DHCP, NetTLP and the flow commands;
  start-up and thread launching; the vendored applications under module/.
\<close>

section \<open>The router on a published RIB\<close>

text \<open>
  \<open>published env msgs g r\<close>: the RIB manager has processed the messages \<open>msgs\<close> since its start and
  has published \<open>r\<close>.
\<close>

definition published :: "rib_env \<Rightarrow> rib_msg list \<Rightarrow> rib_state \<Rightarrow> rib_info \<Rightarrow> bool" where
  "published env msgs g r \<longleftrightarrow> env_ok env \<and> (\<forall>msg \<in> set msgs. msg_valid msg \<and> no_port_get msg)
     \<and> foldl (rib_step env) (Some rib_manager_start) msgs = Some g \<and> rcu_rib g = Some (Some r)"

lemma published_ready:
  assumes "published env msgs g r"
  shows "dp_ready r" "fib_agrees g"
  using assms rib_reachable [of env msgs g] published_rib_ready [of env g r] by (auto simp: published_def)

text \<open>The index of the tree that the forwarding threads use for a packet.\<close>

definition tree_idx :: "nat option \<Rightarrow> nat" where
  "tree_idx ipv4 = (if ipv4 \<noteq> None then 0 else 1)"

definition route_of :: "rib_state \<Rightarrow> nat option \<Rightarrow> u8 list \<Rightarrow> route_entry option" where
  "route_of g ipv4 dst = Option.bind (rib_tree_master g ! tree_idx ipv4) (\<lambda>t. rib_node_entry (rib_route_lookup t (bytes_at dst)))"

lemma published_fib:
  assumes "published env msgs g r"
  shows "\<exists>f. fib_tree_of r ! (if ipv4 \<noteq> None then 0 else 1) = Some f
    \<and> (\<forall>oob dst. fib_answer (fib_route_lookup oob f (bytes_at dst))
          = map_option (\<lambda>e. (plen (re_dst e), re_sdplane_nh_id e)) (route_of g ipv4 dst))"
proof -
  have i: "tree_idx ipv4 < ROUTE_TREE_SIZE" by (simp add: tree_idx_def ROUTE_TREE_SIZE_def)
  with published_ready(2) [OF assms] assms have "slot_agrees (rib_tree_master g ! tree_idx ipv4) (fib_tree_of r ! tree_idx ipv4)"
    by (auto simp: fib_agrees_def published_def)
  then show ?thesis unfolding tree_idx_def [symmetric]
    by (auto simp: slot_agrees_def route_of_def fib_route_lookup_def fib_answer_def split: option.splits)
qed

text \<open>Every route of the RIB has a next hop that resolves.\<close>

definition routes_resolve :: "rib_state \<Rightarrow> rib_info \<Rightarrow> bool" where
  "routes_resolve g r \<longleftrightarrow> (\<forall>i t prefix e. i < ROUTE_TREE_SIZE \<longrightarrow> rib_tree_master g ! i = Some t \<longrightarrow> rib_routes t prefix = Some e
     \<longrightarrow> nexthop_get_info_by_index (nexthop_of r) (re_sdplane_nh_id e) \<noteq> None)"

lemma published_next_hops:
  assumes p: "published env msgs g r" and res: "routes_resolve g r"
  shows "next_hops_resolve d r"
  unfolding next_hops_resolve_def
proof (intro allI impI)
  fix i f a leaf nkey nkeylen nh_id cs
  assume i: "i < ROUTE_TREE_SIZE" and f: "fib_tree_of r ! i = Some f" and l: "fib_route_lookup (stack_u8 d) f a = FNode leaf nkey nkeylen nh_id cs"
  from published_ready(2) [OF p] p i have s: "slot_agrees (rib_tree_master g ! i) (fib_tree_of r ! i)"
    by (auto simp: fib_agrees_def published_def)
  show "nexthop_get_info_by_index (nexthop_of r) nh_id \<noteq> None"
  proof (cases "rib_tree_master g ! i")
    case None
    with s f l show ?thesis by (auto simp: slot_agrees_def fib_route_lookup_def)
  next
    case (Some t)
    with s f have "fib_answer (fib_route_lookup (stack_u8 d) f a)
        = map_option (\<lambda>e. (plen (re_dst e), re_sdplane_nh_id e)) (rib_node_entry (rib_route_lookup t a))"
      by (auto simp: slot_agrees_def)
    with l obtain e where e: "rib_node_entry (rib_route_lookup t a) = Some e" "re_sdplane_nh_id e = nh_id"
      by (cases "rib_node_entry (rib_route_lookup t a)") (auto simp: fib_answer_def)
    with rib_route_lookup_longest_match [of t a] obtain n where "rib_routes t (key_bits a 0 n) = Some e"
      by (auto simp: longest_match_def)
    with res i Some e(2) show ?thesis unfolding routes_resolve_def by metis
  qed
qed

text \<open>
  The router does not crash.  Whatever valid messages the RIB manager has processed, for every
  packet (any bytes) received on any configured port the router thread ends without following a
  null pointer, violating an assertion or leaving an array, as long as memory does not run out
  and the routes installed have next hops that resolve.
\<close>

theorem router_never_crashes:
  assumes "published env msgs g r" "routes_resolve g r"
    and "dpdk_ok d" "64 \<le> length (m_data (rte_pktmbuf_alloc d))"
    and "rx_portid < MAX_ETH_PORTS" "64 \<le> length (m_data m)" "allocs_fine s"
  shows "\<exists>s'. router_process_rx_packet d lcore_id r rx_portid m s = Some s'"
  using router_rx_ok [OF assms(3,4) published_ready(1) [OF assms(1)] published_next_hops [OF assms(1,2)] assms(5-7)] .


text \<open>
  C38: A route through an unknown next hop stops the router.  A next hop whose member refers to
  another next hop that the table does not have is registered without a description; once a route
  of the published RIB uses it, the forwarding step follows a null pointer on every packet for
  that route.
\<close>

theorem unresolved_next_hop_crashes:
  assumes "published env msgs g r" "route_of g ipv4 (dst_ip m ipv4 ipv6) = Some e"
    and "nexthop_get_info_by_index (nexthop_of r) (re_sdplane_nh_id e) = None"
  shows "forwarding d lcore_id r m rx_portid ipv4 ipv6 rx_link s = None"
proof -
  obtain f where f: "fib_tree_of r ! (if ipv4 \<noteq> None then 0 else 1) = Some f"
    "\<And>oob dst. fib_answer (fib_route_lookup oob f (bytes_at dst))
          = map_option (\<lambda>e. (plen (re_dst e), re_sdplane_nh_id e)) (route_of g ipv4 dst)"
    using published_fib [OF assms(1)] by blast
  show ?thesis by (simp add: forwarding_eq [OF f(1)] f(2) assms(2,3))
qed


text \<open>A table with one route.\<close>

lemma single_match:
  assumes "longest_match [key_bits k 0 n \<mapsto> e] a eo"
  shows "eo = (if key_bits a 0 n = key_bits k 0 n then Some e else None)"
proof (cases eo)
  case None
  then have "[key_bits k 0 n \<mapsto> e] (key_bits a 0 n) = None" using assms by (simp add: longest_match_def)
  with None show ?thesis by (auto split: if_splits)
next
  case (Some x)
  then obtain j where j: "[key_bits k 0 n \<mapsto> e] (key_bits a 0 j) = Some x" using assms by (auto simp: longest_match_def)
  then have "key_bits a 0 j = key_bits k 0 n" "x = e" by (auto split: if_splits)
  moreover from this(1) have "j = n" by (metis diff_zero length_key_bits)
  ultimately show ?thesis using Some by simp
qed

lemma route_of_single:
  assumes "rib_tree_master g ! tree_idx ipv4 = Some t" "rib_routes t = [key_bits k 0 n \<mapsto> e]"
  shows "route_of g ipv4 dst = (if key_bits (bytes_at dst) 0 n = key_bits k 0 n then Some e else None)"
  using single_match [of k n e "bytes_at dst"] rib_route_lookup_longest_match [of t "bytes_at dst"] assms by (simp add: route_of_def)

lemma get_info_truncate [simp]:
  "nexthop_get_info_by_index (nexthop.truncate (nexthop_increment_refcnt st i)) j = nexthop_get_info_by_index st j"
proof -
  have "ii (nexthop_increment_refcnt st i) = ii st" by (simp add: nexthop_increment_refcnt_def nh_view)
  moreover have "info_pool (nexthop_increment_refcnt st i) = info_pool st"
    by (simp add: nexthop_increment_refcnt_def group_refcnt_add_def upd_group_def)
  ultimately show ?thesis
    by (simp add: nexthop_get_info_by_index_def Let_def nexthop.defs ii_def member_at_def fun_eq_iff) 
qed

lemma sample_published:
  "\<exists>g r t. published sample_env [MSG_ROUTE_ENTRY_ADD sample_route] g r \<and> rib_tree_master g = [Some t, None]
     \<and> rib_routes t = [key_bits (bytes_at (192 # 168 # replicate 14 0)) 0 16 \<mapsto> \<lparr>re_dst = mre_dst sample_route, re_sdplane_nh_id = 0\<rparr>]
     \<and> routes_resolve g r"
proof -
  obtain g r t st ms where run: "foldl (rib_step sample_env) (Some rib_manager_start) [MSG_ROUTE_ENTRY_ADD sample_route] = Some g"
    "rcu_rib g = Some (Some r)" "rib_tree_master g = [Some t, None]"
    "rib_routes t = [key_bits (bytes_at (dst_ip_addr (mre_dst sample_route))) 0 16 \<mapsto> \<lparr>re_dst = mre_dst sample_route, re_sdplane_nh_id = 0\<rparr>]"
    "nexthop_add_entry (sample_nh 7) (nh_start, []) = (0, st, ms)" "nexthop_of r = nexthop.truncate (nexthop_increment_refcnt st 0)"
    using sample_route_run by blast
  have "nexthop_get_index_by_nhid nh_start 7 = -1" by (simp add: nexthop_get_index_by_nhid_def nh_start_fields)
  with nexthop_add_single [OF nh_ok_start _ run(5)] have "nexthop_get_info_by_index st 0 \<noteq> None" by (auto simp: sample_nh_def)
  then have "routes_resolve g r" using run(3,4,6) unfolding routes_resolve_def
    by (auto simp: ROUTE_TREE_SIZE_def less_2_cases_iff split: if_splits)
  with run sample_run_valid show ?thesis by (auto simp: published_def sample_route_def)
qed

theorem router_never_crashes_witness:
  "\<exists>g r s'. published sample_env [MSG_ROUTE_ENTRY_ADD sample_route] g r
     \<and> router_process_rx_packet sample_dpdk 0 r 0 sample_ipv4 dp_start = Some s'"
proof -
  obtain g r where p: "published sample_env [MSG_ROUTE_ENTRY_ADD sample_route] g r" "routes_resolve g r" using sample_published by blast
  have "\<exists>s'. router_process_rx_packet sample_dpdk 0 r 0 sample_ipv4 dp_start = Some s'"
    by (rule router_never_crashes [OF p sample_dpdk_ok])
      (simp_all add: sample_dpdk_def MAX_ETH_PORTS_def sample_ipv4_def allocs_fine_def dp_start_def)
  with p(1) show ?thesis by blast
qed


definition sample_unresolved :: internal_msg_route_entry where
  "sample_unresolved = sample_route\<lparr>mre_dst := \<lparr>rdi_family = 2, dst_ip_addr = replicate 16 0, plen = 0\<rparr>, mre_nh := sample_group\<rparr>"

theorem unresolved_next_hop_crashes_witness:
  "\<exists>g r. published sample_env [MSG_ROUTE_ENTRY_ADD sample_unresolved] g r
     \<and> forwarding sample_dpdk 0 r sample_ipv4 0 (Some 14) None None dp_start = None"
proof -
  let ?m = sample_unresolved
  have m: "route_msg_ok ?m" "mre_nh ?m = sample_group" "plen (mre_dst ?m) = 0"
    by (simp_all add: route_msg_ok_def sample_unresolved_def sample_route_def sample_group_def sample_nh_def msg_ok_def MAX_ECMP_ENTRY_def)
  obtain st ms where a: "nexthop_add_entry sample_group (nh_start, []) = (0, st, ms)" using sample_group_add by blast
  have i: "nexthop_get_index_by_nhid nh_start k = -1" for k by (simp add: nexthop_get_index_by_nhid_def nh_start_fields)
  from nexthop_add_single [OF nh_ok_start _ a] have none: "nexthop_get_info_by_index st 0 = None"
    by (simp add: sample_group_def sample_nh_def i)
  obtain g r t where run: "rib_manager_process_message sample_env (MSG_ROUTE_ENTRY_ADD ?m) rib_manager_start = Some g"
    "rcu_rib g = Some (Some r)" "rib_tree_master g = [Some t, None]"
    "rib_routes t = [key_bits (bytes_at (dst_ip_addr (mre_dst ?m))) 0 0 \<mapsto> \<lparr>re_dst = mre_dst ?m, re_sdplane_nh_id = 0\<rparr>]"
    "nexthop_of r = nexthop.truncate (nexthop_increment_refcnt st 0)"
    using first_route_run [OF m(1), unfolded m(2,3), OF a, of sample_env] by blast
  have p: "published sample_env [MSG_ROUTE_ENTRY_ADD ?m] g r"
    using run(1,2) m(1) sample_run_valid(1) by (simp add: published_def msg_valid_def no_port_get_def rib_step_def)
  have "route_of g (Some 14) dst = Some \<lparr>re_dst = mre_dst ?m, re_sdplane_nh_id = 0\<rparr>" for dst
    using run(3) by (subst route_of_single [OF _ run(4)]) (auto simp: tree_idx_def)
  then have "forwarding sample_dpdk 0 r sample_ipv4 0 (Some 14) None None dp_start = None"
    by (rule unresolved_next_hop_crashes [OF p]) (simp add: run(5) none)
  with p show ?thesis by blast
qed

text \<open>
  C37: The tables are not tied to the slots.  The forwarding step looks IPv4 packets up in the tree
  of slot 0 and IPv6 packets in the tree of slot 1, but the RIB manager fills the slots in the
  order of arrival.  So if the first route ever received is an IPv6 route, it is published in the
  slot of IPv4: every IPv6 packet is dropped, and an IPv4 packet for which the bytes of its
  address match the IPv6 prefix is handed to the next hop of the IPv6 route.
\<close>

theorem first_ipv6_route_serves_ipv4:
  assumes m: "route_msg_ok m" "mre_family m = 10" and nh: "nexthop_add_entry (mre_nh m) (nh_start, []) = (0, st, ms)" and e: "env_ok env"
  shows "\<exists>g r t. published env [MSG_ROUTE_ENTRY_ADD m] g r \<and> rib_tree_master g = [Some t, None] \<and> rt_family t = 10
    \<and> forwarding d lcore_id r pkt rx_portid None ipv6 rx_link s = Some s
    \<and> (key_bits (bytes_at (dst_ip pkt (Some p) None)) 0 (plen (mre_dst m)) = key_bits (bytes_at (dst_ip_addr (mre_dst m))) 0 (plen (mre_dst m))
        \<longrightarrow> forwarding d lcore_id r pkt rx_portid (Some p) None rx_link s
            = Option.bind (nexthop_get_info_by_index st 0) (\<lambda>info. forward_via d lcore_id r pkt rx_portid (Some p) None rx_link info s))"
proof -
  obtain g r t where run: "rib_manager_process_message env (MSG_ROUTE_ENTRY_ADD m) rib_manager_start = Some g"
    "rcu_rib g = Some (Some r)" "rib_tree_master g = [Some t, None]" "rt_family t = 10"
    "rib_routes t = [key_bits (bytes_at (dst_ip_addr (mre_dst m))) 0 (plen (mre_dst m)) \<mapsto> \<lparr>re_dst = mre_dst m, re_sdplane_nh_id = 0\<rparr>]"
    "nexthop_of r = nexthop.truncate (nexthop_increment_refcnt st 0)"
    using first_route_run [OF m(1) nh, of env] m(2) by auto
  have p: "published env [MSG_ROUTE_ENTRY_ADD m] g r"
    using run(1,2) m(1) e by (simp add: published_def msg_valid_def no_port_get_def rib_step_def)
  have "route_of g None dst = None" for dst using run(3) by (simp add: route_of_def tree_idx_def)
  moreover have "route_of g (Some p) dst = (if key_bits (bytes_at dst) 0 (plen (mre_dst m)) = key_bits (bytes_at (dst_ip_addr (mre_dst m))) 0 (plen (mre_dst m))
      then Some \<lparr>re_dst = mre_dst m, re_sdplane_nh_id = 0\<rparr> else None)" for dst
    using run(3) by (subst route_of_single [OF _ run(5)]) (auto simp: tree_idx_def)
  ultimately show ?thesis
    using p published_fib [OF p, of None] published_fib [OF p, of "Some p"] run(3,4,6)
    by (auto intro!: exI [of _ g] exI [of _ r] exI [of _ t] simp: forwarding_eq)
qed

definition sample_route6 :: internal_msg_route_entry where
  "sample_route6 = sample_route\<lparr>mre_family := 10, mre_dst := \<lparr>rdi_family = 10, dst_ip_addr = replicate 16 0, plen = 0\<rparr>\<rparr>"

theorem first_ipv6_route_serves_ipv4_witness:
  "\<exists>g r info. published sample_env [MSG_ROUTE_ENTRY_ADD sample_route6] g r \<and> gw info = 10 # 0 # 0 # 1 # replicate 12 0
    \<and> forwarding sample_dpdk 0 r sample_ipv4 0 (Some 14) None (Some 0) dp_start
       = forward_via sample_dpdk 0 r sample_ipv4 0 (Some 14) None (Some 0) info dp_start"
proof -
  let ?m = sample_route6
  have m: "route_msg_ok ?m" "mre_family ?m = 10" "mre_nh ?m = sample_nh 7" "plen (mre_dst ?m) = 0"
    by (simp_all add: route_msg_ok_def sample_route6_def sample_route_def sample_nh_def msg_ok_def MAX_ECMP_ENTRY_def)
  obtain st ms where a: "nexthop_add_entry (sample_nh 7) (nh_start, []) = (0, st, ms)" using sample_nh_add [of 7] by auto
  have "nexthop_get_index_by_nhid nh_start 7 = -1" by (simp add: nexthop_get_index_by_nhid_def nh_start_fields)
  with nexthop_add_single [OF nh_ok_start _ a] obtain info where i: "nexthop_get_info_by_index st 0 = Some info" "gw info = 10 # 0 # 0 # 1 # replicate 12 0"
    by (auto simp: sample_nh_def info_matches_def)
  from first_ipv6_route_serves_ipv4 [OF m(1,2), unfolded m(3), OF a sample_run_valid(1), of sample_dpdk 0 sample_ipv4 0 None "Some 0" dp_start 14] m(4) i
  show ?thesis by auto
qed

section \<open>From the kernel to the packet\<close>

text \<open>The messages for the RIB manager among the events of the netlink thread.\<close>

definition rib_msgs :: "dp_event list \<Rightarrow> rib_msg list" where
  "rib_msgs es = concat (map (\<lambda>e. case e of Rib_Msg m \<Rightarrow> [m] | _ \<Rightarrow> []) es)"

lemma netlink_published:
  assumes "netlink_read nenv d rs fin nl_start = Some (e, rest, st)"
    and "\<forall>x \<in> set rs. case x of Recv pid n dg \<Rightarrow> dgram_ok (take 8192 dg) | _ \<Rightarrow> True"
    and "env_ok env" "\<forall>msg \<in> set conf. msg_valid msg \<and> no_port_get msg"
    and "foldl (rib_step env) (Some rib_manager_start) (conf @ rib_msgs (dp_events (nl_dp st))) = Some g" "rcu_rib g = Some (Some r)"
  shows "published env (conf @ rib_msgs (dp_events (nl_dp st))) g r"
proof -
  have "dp_events (nl_dp nl_start) = []" by (simp add: nl_start_def dp_start_def)
  with netlink_read_appends [OF assms(1,2)] have "\<forall>e \<in> set (dp_events (nl_dp st)). rib_event_ok e" by (simp add: appends_def)
  then have "\<forall>msg \<in> set (rib_msgs (dp_events (nl_dp st))). msg_valid msg \<and> no_port_get msg"
    by (fastforce simp: rib_msgs_def rib_event_ok_def split: dp_event.splits)
  with assms(3-6) show ?thesis by (auto simp: published_def)
qed


lemma kernel_route_nexthop:
  assumes "msg_ok nh" "msg_nhcnt nh = 1" "mm_kernel_nh_id (msg_members nh ! 0) = 0" "msg_kernel_nh_id nh = 0"
  shows "\<exists>st ms info. nexthop_add_entry nh (nh_start, []) = (0, st, ms) \<and> nexthop_get_info_by_index st 0 = Some info
           \<and> info_matches info (mm_info (msg_members nh ! 0))"
proof -
  obtain st ms where a: "nexthop_add_entry nh (nh_start, []) = (0, st, ms)" using inline_nh_add [OF assms(2,3)] by blast
  from nexthop_add_single [OF nh_ok_start assms(2) a] assms show ?thesis using a by auto
qed


lemma kernel_sample_published:
  "\<exists>st rest g r. netlink_read sample_nl_env sample_dpdk [Recv 0 12 sample_dgram, Recv_Again] False nl_start = Some (Returned 0, rest, st)
    \<and> foldl (rib_step sample_env) (Some rib_manager_start) (rib_msgs (dp_events (nl_dp st))) = Some g \<and> rcu_rib g = Some (Some r) \<and> routes_resolve g r"
proof -
  let ?i = "gateway_info sample_nl_env 2 3 (Some [192, 168, 0, 1])"
  let ?m = "kernel_route 2 16 [10, 1, 0, 0] [?i]"
  obtain rest st where n: "netlink_read sample_nl_env sample_dpdk [Recv 0 12 sample_dgram, Recv_Again] False nl_start = Some (Returned 0, rest, st)"
    "dp_events (nl_dp st) = [Rib_Msg (MSG_ROUTE_ENTRY_ADD ?m)]" using sample_read by blast
  have nh: "mre_nh ?m = entry_of [?i]" "msg_nhcnt (entry_of [?i]) = 1" "msg_members (entry_of [?i]) ! 0 = zero_nh_member\<lparr>mm_info := ?i\<rparr>"
    "msg_kernel_nh_id (entry_of [?i]) = 0" "msg_ok (entry_of [?i])"
    by (simp_all add: kernel_route_def entry_of_def msg_ok_def MAX_ECMP_ENTRY_def)
  have m: "route_msg_ok ?m" using nh by (simp add: route_msg_ok_def kernel_route_def zero_extend_def)
  obtain st' ms info where a: "nexthop_add_entry (entry_of [?i]) (nh_start, []) = (0, st', ms)" "nexthop_get_info_by_index st' 0 = Some info"
    using kernel_route_nexthop [OF nh(5,2) _ nh(4)] nh(3) by (auto simp: zero_nh_member_def)
  from first_route_run [OF m, unfolded nh(1), OF a(1), of sample_env] obtain g r t where
    g: "rib_manager_process_message sample_env (MSG_ROUTE_ENTRY_ADD ?m) rib_manager_start = Some g" "rcu_rib g = Some (Some r)"
      "rib_tree_master g = [Some t, None]" "nexthop_of r = nexthop.truncate (nexthop_increment_refcnt st' 0)"
      "rib_routes t = [key_bits (bytes_at (dst_ip_addr (mre_dst ?m))) 0 (plen (mre_dst ?m)) \<mapsto> \<lparr>re_dst = mre_dst ?m, re_sdplane_nh_id = 0\<rparr>]" by blast
  then have "routes_resolve g r" using a(2) by (auto simp: routes_resolve_def ROUTE_TREE_SIZE_def less_2_cases_iff split: if_splits)
  with n g(1,2) show ?thesis by (auto simp: rib_msgs_def rib_step_def)
qed



end
